(* ===== verification/Tsu_Prelude.thy ===== *)
theory Tsu_Prelude
  imports Main "HOL-Library.Word" "HOL-Library.AList" "HOL-Library.Multiset"
begin

text \<open>
  Shared vocabulary of the development: bytes and machine words, the outcome of Go code that
  may panic, the byte-level model of a regular file (\<open>os.File.WriteAt\<close>, \<open>ReadAt\<close>,
  \<open>Truncate\<close>), little-endian integers (\<open>encoding/binary\<close>), Go maps as association
  lists with an explicit iteration order, and the lemma collections the component theories use.
\<close>

unbundle bit_operations_syntax

named_theorems file_simps \<open>reading and writing byte ranges of a file\<close>
named_theorems le_simps \<open>little-endian encoding\<close>
named_theorems go_str \<open>Go string functions\<close>

section \<open>Types\<close>

type_synonym byte = "8 word"
type_synonym bytes = "byte list"
type_synonym u16 = "16 word"
type_synonym u32 = "32 word"
type_synonym u64 = "64 word"

text \<open>A Go function either returns or panics (index out of range, \<open>make\<close> with a bad length).\<close>

datatype 'a outcome = Ret 'a | Panic

fun bind_outcome :: "'a outcome \<Rightarrow> ('a \<Rightarrow> 'b outcome) \<Rightarrow> 'b outcome" where
  "bind_outcome (Ret x) f = f x"
| "bind_outcome Panic f = Panic"

lemma bind_outcome_Ret_iff: "bind_outcome m f = Ret y \<longleftrightarrow> (\<exists>x. m = Ret x \<and> f x = Ret y)"
  by (cases m) auto

text \<open>
  \<open>int64(x)\<close> for a \<open>uint64\<close> \<open>x\<close> reinterprets the bits; \<open>make([]byte, n)\<close> panics
  when \<open>n\<close> is negative or above the allocation limit of the 64-bit runtime (\<open>2^48\<close> bytes).
\<close>

definition i64 :: "u64 \<Rightarrow> int" where
  "i64 x = sint x"

definition max_alloc :: int where
  "max_alloc = 2 ^ 48"

definition go_make :: "int \<Rightarrow> bytes outcome" where
  "go_make n = (if n < 0 \<or> max_alloc < n then Panic else Ret (replicate (nat n) 0))"

lemma go_make_nat: "k \<le> 2 ^ 48 \<Longrightarrow> go_make (int k) = Ret (replicate k 0)"
  by (simp add: go_make_def max_alloc_def)

lemma unat_u64: "n < 2 ^ 64 \<Longrightarrow> unat (word_of_nat n :: u64) = n"
  by (simp add: unat_of_nat)

lemma i64_small: "unat x < 2 ^ 63 \<Longrightarrow> i64 x = int (unat x)"
proof -
  assume "unat x < 2 ^ 63"
  then have "int (unat x) < int (2 ^ 63)" by (simp only: of_nat_less_iff)
  then have u: "uint x < 2 ^ 63" by simp
  have a: "sint x = signed_take_bit 63 (uint x)"
    by (simp add: sint_uint)
  have b: "0 \<le> uint x" by simp
  have "signed_take_bit 63 (uint x) = uint x"
    by (rule signed_take_bit_int_eq_self) (use u b in linarith)+
  with a show ?thesis
    by (simp add: i64_def)
qed

lemma i64_large: "2 ^ 63 \<le> unat x \<Longrightarrow> i64 x = int (unat x) - 2 ^ 64"
proof -
  assume "2 ^ 63 \<le> unat x"
  then have "int (2 ^ 63) \<le> int (unat x)" by (simp only: of_nat_le_iff)
  then have u: "2 ^ 63 \<le> uint x" by simp
  have "uint x < 2 ^ 64" using uint_lt2p[of x] by simp
  then have "(uint x + 2 ^ 63) mod 2 ^ 64 = uint x - 2 ^ 63"
    using u mod_pos_pos_trivial[of "uint x - 2 ^ 63" "2 ^ 64"] mod_add_self2[of "uint x - 2 ^ 63" "2 ^ 64"]
    by (simp add: add.commute)
  then show ?thesis
    by (simp add: i64_def sint_uint signed_take_bit_eq_take_bit_shift take_bit_eq_mod)
qed

section \<open>Files as byte lists\<close>

text \<open>
  \<open>WriteAt(d, off)\<close> replaces the range \<open>[off, off + len d)\<close>, extending the file, with a hole of
  zeros when \<open>off\<close> is past the end; writing nothing changes nothing. \<open>ReadAt\<close> into a fresh
  buffer of length \<open>n\<close> (with \<open>io.EOF\<close> ignored, as the callers do) leaves zeros where the file
  ends early.
\<close>

definition pwrite :: "bytes \<Rightarrow> nat \<Rightarrow> bytes \<Rightarrow> bytes" where
  "pwrite f off d =
     (if d = [] then f
      else take off f @ replicate (off - length f) 0 @ d @ drop (off + length d) f)"

definition pread :: "bytes \<Rightarrow> nat \<Rightarrow> nat \<Rightarrow> bytes" where
  "pread f off n = take n (drop off f) @ replicate (n - (length f - off)) 0"

definition ftruncate :: "bytes \<Rightarrow> nat \<Rightarrow> bytes" where
  "ftruncate f n = take n f @ replicate (n - length f) 0"

lemma length_pwrite [file_simps]:
  "length (pwrite f off d) = (if d = [] then length f else max (length f) (off + length d))"
  by (auto simp: pwrite_def)

lemma length_pread [simp, file_simps]: "length (pread f off n) = n"
  by (auto simp: pread_def)

lemma length_ftruncate [simp, file_simps]: "length (ftruncate f n) = n"
  by (auto simp: ftruncate_def)

lemma nth_pwrite:
  "i < length (pwrite f off d) \<Longrightarrow>
   pwrite f off d ! i =
     (if off \<le> i \<and> i < off + length d then d ! (i - off)
      else if i < length f then f ! i else 0)"
  by (auto simp: pwrite_def nth_append min_def split: if_splits)

lemma nth_pread: "i < n \<Longrightarrow> pread f off n ! i = (if off + i < length f then f ! (off + i) else 0)"
  by (auto simp: pread_def nth_append)

lemma pwrite_append [file_simps]: "pwrite f (length f) d = f @ d"
  by (simp add: pwrite_def)

lemma pread_pwrite_same [file_simps]: "pread (pwrite f off d) off (length d) = d"
  by (rule nth_equalityI) (auto simp: nth_pread nth_pwrite length_pwrite)

lemma pread_pwrite_other [file_simps]:
  assumes "p + n \<le> off \<or> off + length d \<le> p"
    and "p + n \<le> length f"
  shows "pread (pwrite f off d) p n = pread f p n"
  using assms by (intro nth_equalityI) (auto simp: nth_pread nth_pwrite length_pwrite)

lemma pread_all [file_simps]: "pread f 0 (length f) = f"
  by (simp add: pread_def)

lemma pread_within: "off + n \<le> length f \<Longrightarrow> pread f off n = take n (drop off f)"
  by (simp add: pread_def)

section \<open>Little-endian integers\<close>

fun le_bytes :: "nat \<Rightarrow> nat \<Rightarrow> bytes" where
  "le_bytes 0 x = []"
| "le_bytes (Suc n) x = word_of_nat x # le_bytes n (x div 256)"

fun le_val :: "bytes \<Rightarrow> nat" where
  "le_val [] = 0"
| "le_val (b # bs) = unat b + 256 * le_val bs"

lemma length_le_bytes [simp, le_simps]: "length (le_bytes n x) = n"
  by (induction n arbitrary: x) auto

lemma le_bytes_eq_Nil [simp, le_simps]: "le_bytes n x = [] \<longleftrightarrow> n = 0"
  by (cases n) auto

lemma le_val_le_bytes_mod: "le_val (le_bytes n x) = x mod 256 ^ n"
proof (induction n arbitrary: x)
  case 0
  then show ?case by simp
next
  case (Suc n)
  have "le_val (le_bytes (Suc n) x) = x mod 256 + 256 * (x div 256 mod 256 ^ n)"
    by (simp add: Suc unat_of_nat)
  also have "\<dots> = x mod (256 * 256 ^ n)"
    by (simp add: mod_mult2_eq)
  finally show ?case by simp
qed

lemma le_val_le_bytes [le_simps]: "x < 256 ^ n \<Longrightarrow> le_val (le_bytes n x) = x"
  by (simp add: le_val_le_bytes_mod)

lemma le_val_bound: "le_val bs < 256 ^ length bs"
proof (induction bs)
  case (Cons b bs)
  have "unat b < 256" using unsigned_less[of b, where ?'a = nat] by simp
  with Cons show ?case by simp
qed simp

section \<open>Go maps\<close>

text \<open>
  A Go map that the code iterates over is an association list with distinct keys. The order of
  \<open>range\<close> over a map is unspecified: the code's loops take the order from a function \<open>it\<close> that
  permutes the list, and the theorems hold for every such function.
\<close>

type_synonym 'v gomap = "(string \<times> 'v) list"

definition go_range :: "('a list \<Rightarrow> 'a list) \<Rightarrow> 'a list \<Rightarrow> 'a list" where
  "go_range it m = (if mset (it m) = mset m then it m else m)"

definition keys_distinct :: "('k \<times> 'v) list \<Rightarrow> bool" where
  "keys_distinct m \<longleftrightarrow> distinct (map fst m)"

lemma mset_go_range [simp]: "mset (go_range it m) = mset m"
  by (simp add: go_range_def)

lemma set_go_range [simp]: "set (go_range it m) = set m"
  by (metis mset_go_range set_mset_mset)

lemma length_go_range [simp]: "length (go_range it m) = length m"
  by (metis mset_go_range size_mset)

lemma go_range_id [simp]: "go_range (\<lambda>xs. xs) m = m"
  by (simp add: go_range_def)

lemma keys_distinct_Nil [simp]: "keys_distinct []"
  by (simp add: keys_distinct_def)

lemma keys_distinct_update [intro]: "keys_distinct m \<Longrightarrow> keys_distinct (AList.update k v m)"
  by (simp add: keys_distinct_def distinct_update)

lemma keys_distinct_delete [intro]: "keys_distinct m \<Longrightarrow> keys_distinct (AList.delete k m)"
  by (simp add: keys_distinct_def distinct_delete)

lemma map_of_update [simp]: "map_of (AList.update k v m) = (map_of m)(k \<mapsto> v)"
  by (rule update_conv')

lemma map_of_delete [simp]: "map_of (AList.delete k m) = (map_of m)(k := None)"
  by (rule delete_conv')

lemma keys_distinct_map_of: "keys_distinct m \<Longrightarrow> (k, v) \<in> set m \<longleftrightarrow> map_of m k = Some v"
  by (auto simp: keys_distinct_def)

lemma set_update_gomap:
  "keys_distinct m \<Longrightarrow> set (AList.update k v m) = insert (k, v) {p \<in> set m. fst p \<noteq> k}"
proof -
  assume m: "keys_distinct m"
  then have "keys_distinct (AList.update k v m)" by (rule keys_distinct_update)
  then show ?thesis
    using m by (auto simp: keys_distinct_map_of split: if_splits)
qed

lemma set_delete_gomap: "set (AList.delete k m) = {p \<in> set m. fst p \<noteq> k}"
  by (auto simp: AList.delete_eq)

end
