(* ===== verification/Go_Strings.thy ===== *)
theory Go_Strings
  imports Tsu_Prelude
begin

text \<open>
  The functions of Go's \<open>strings\<close>, \<open>strconv\<close>, \<open>fmt\<close> and \<open>bufio\<close> packages that the program
  uses, over byte strings (\<open>string\<close> is a list of 8-bit characters, as Go's strings are), with
  the round trips the log formats rest on: \<open>Split\<close> after joining, \<open>Atoi\<close> after \<open>%d\<close>, and
  scanning the lines that were printed. Also the two table-name sanitizers of the repository,
  which are the same replacement.
\<close>

section \<open>strings.TrimSpace\<close>

text \<open>
  The UTF-8 encodings of the code points for which \<open>unicode.IsSpace\<close> holds.
\<close>

definition utf8_spaces :: "string list" where
  "utf8_spaces =
     [[CHR 0x20], [CHR 0x09], [CHR 0x0A], [CHR 0x0B], [CHR 0x0C], [CHR 0x0D],
      [CHR 0xC2, CHR 0x85], [CHR 0xC2, CHR 0xA0], [CHR 0xE1, CHR 0x9A, CHR 0x80],
      [CHR 0xE2, CHR 0x80, CHR 0x80], [CHR 0xE2, CHR 0x80, CHR 0x81],
      [CHR 0xE2, CHR 0x80, CHR 0x82], [CHR 0xE2, CHR 0x80, CHR 0x83],
      [CHR 0xE2, CHR 0x80, CHR 0x84], [CHR 0xE2, CHR 0x80, CHR 0x85],
      [CHR 0xE2, CHR 0x80, CHR 0x86], [CHR 0xE2, CHR 0x80, CHR 0x87],
      [CHR 0xE2, CHR 0x80, CHR 0x88], [CHR 0xE2, CHR 0x80, CHR 0x89],
      [CHR 0xE2, CHR 0x80, CHR 0x8A], [CHR 0xE2, CHR 0x80, CHR 0xA8],
      [CHR 0xE2, CHR 0x80, CHR 0xA9], [CHR 0xE2, CHR 0x80, CHR 0xAF],
      [CHR 0xE2, CHR 0x81, CHR 0x9F], [CHR 0xE3, CHR 0x80, CHR 0x80]]"

fun starts_with :: "'a list \<Rightarrow> 'a list \<Rightarrow> bool" where
  "starts_with [] s = True"
| "starts_with (p # ps) [] = False"
| "starts_with (p # ps) (c # s) = (p = c \<and> starts_with ps s)"

text \<open>The length of the first sequence of the list that is a prefix, if any.\<close>

fun match_len :: "'a list list \<Rightarrow> 'a list \<Rightarrow> nat option" where
  "match_len [] s = None"
| "match_len (p # ps) s = (if starts_with p s then Some (length p) else match_len ps s)"

lemma match_len_pos:
  "match_len ps s = Some n \<Longrightarrow> [] \<notin> set ps \<Longrightarrow> 0 < n \<and> n \<le> length s"
proof (induction ps s rule: match_len.induct)
  case (2 p ps s)
  have "starts_with p s \<Longrightarrow> length p \<le> length s"
    by (induction p s rule: starts_with.induct) auto
  with 2 show ?case by (auto split: if_splits)
qed simp

fun trim_seqs :: "nat \<Rightarrow> 'a list list \<Rightarrow> 'a list \<Rightarrow> 'a list" where
  "trim_seqs 0 ps s = s"
| "trim_seqs (Suc f) ps s =
     (case match_len ps s of None \<Rightarrow> s | Some n \<Rightarrow> trim_seqs f ps (drop n s))"

text \<open>
  Each round of trimming removes at least one byte, so \<open>length s\<close> rounds are enough; the space
  sequences are reversed to trim on the right.
\<close>

definition trim_left :: "string \<Rightarrow> string" where
  "trim_left s = trim_seqs (length s) utf8_spaces s"

definition trim_right :: "string \<Rightarrow> string" where
  "trim_right s = rev (trim_seqs (length s) (map rev utf8_spaces) (rev s))"

definition trim_space :: "string \<Rightarrow> string" where
  "trim_space s = trim_right (trim_left s)"

lemma trim_seqs_done:
  "length s \<le> f \<Longrightarrow> [] \<notin> set ps \<Longrightarrow> match_len ps (trim_seqs f ps s) = None \<or> trim_seqs f ps s = []"
proof (induction f arbitrary: s)
  case (Suc f)
  show ?case
  proof (cases "match_len ps s")
    case (Some n)
    then have "0 < n \<and> n \<le> length s" using Suc.prems match_len_pos by blast
    then have "length (drop n s) \<le> f" using Suc.prems by (simp, linarith)
    with Suc Some show ?thesis by simp
  qed simp
qed simp

section \<open>strings.HasPrefix, TrimPrefix and Split\<close>

definition trim_prefix :: "string \<Rightarrow> string \<Rightarrow> string" where
  "trim_prefix s p = (if starts_with p s then drop (length p) s else s)"

fun split_char :: "char \<Rightarrow> string \<Rightarrow> string list" where
  "split_char c [] = [[]]"
| "split_char c (x # s) =
     (if x = c then [] # split_char c s
      else (case split_char c s of [] \<Rightarrow> [[x]] | w # ws \<Rightarrow> (x # w) # ws))"

fun join_char :: "char \<Rightarrow> string list \<Rightarrow> string" where
  "join_char c [] = []"
| "join_char c [w] = w"
| "join_char c (w # v # ws) = w @ c # join_char c (v # ws)"

lemma split_char_nonempty [simp]: "split_char c s \<noteq> []"
  by (induction c s rule: split_char.induct) (auto split: list.splits)

lemma split_char_clean: "c \<notin> set w \<Longrightarrow> split_char c w = [w]"
  by (induction w) auto

lemma split_char_append:
  "c \<notin> set w \<Longrightarrow> split_char c (w @ c # s) = w # split_char c s"
  by (induction w) auto

lemma split_join_char [go_str]:
  "ws \<noteq> [] \<Longrightarrow> \<forall>w \<in> set ws. c \<notin> set w \<Longrightarrow> split_char c (join_char c ws) = ws"
proof (induction c ws rule: join_char.induct)
  case (3 c w v ws)
  then show ?case by (simp add: split_char_append)
qed (auto simp: split_char_clean)

lemma starts_with_append [simp, go_str]: "starts_with p (p @ s)"
  by (induction p) auto

lemma trim_prefix_append [simp, go_str]: "trim_prefix (p @ s) p = s"
  by (simp add: trim_prefix_def)

section \<open>strconv and %d\<close>

definition digit_char :: "nat \<Rightarrow> char" where
  "digit_char d = char_of (48 + d)"

definition digit_val :: "char \<Rightarrow> nat option" where
  "digit_val c = 
     (let n = (of_char c :: nat) in if 48 \<le> n \<and> n \<le> 57 then Some (n - 48) else None)"

fun show_nat :: "nat \<Rightarrow> string" where
  "show_nat n = (if n < 10 then [digit_char n] else show_nat (n div 10) @ [digit_char (n mod 10)])"

declare show_nat.simps [simp del]

definition show_int :: "int \<Rightarrow> string" where
  "show_int i = (if i < 0 then CHR ''-'' # show_nat (nat (- i)) else show_nat (nat i))"

fun digits_val :: "nat \<Rightarrow> string \<Rightarrow> nat option" where
  "digits_val acc [] = Some acc"
| "digits_val acc (c # s) =
     (case digit_val c of None \<Rightarrow> None | Some d \<Rightarrow> digits_val (acc * 10 + d) s)"

text \<open>\<open>strconv.ParseUint(s, 10, 64)\<close>: at least one digit, digits only, below \<open>2^64\<close>.\<close>

definition parse_uint :: "string \<Rightarrow> u64 option" where
  "parse_uint s =
     (if s = [] then None
      else (case digits_val 0 s of
              None \<Rightarrow> None
            | Some n \<Rightarrow> if n < 2 ^ 64 then Some (word_of_nat n) else None))"

text \<open>\<open>strconv.Atoi\<close>: an optional sign, at least one digit, in the range of a 64-bit \<open>int\<close>.\<close>

definition atoi :: "string \<Rightarrow> int option" where
  "atoi s =
     (let (neg, ds) = (case s of [] \<Rightarrow> (False, [])
                       | c # r \<Rightarrow> if c = CHR ''-'' then (True, r)
                                  else if c = CHR ''+'' then (False, r) else (False, s))
      in if ds = [] then None
         else (case digits_val 0 ds of
                 None \<Rightarrow> None
               | Some n \<Rightarrow>
                   (let i = (if neg then - int n else int n)
                    in if - (2 ^ 63) \<le> i \<and> i < 2 ^ 63 then Some i else None)))"

lemma digit_val_digit_char [simp]: "d < 10 \<Longrightarrow> digit_val (digit_char d) = Some d"
  by (simp add: digit_val_def digit_char_def)

lemma digits_val_append:
  "digits_val acc (s @ t) = (case digits_val acc s of None \<Rightarrow> None | Some n \<Rightarrow> digits_val n t)"
  by (induction s arbitrary: acc) (auto split: option.splits)

lemma digits_val_show_nat [simp]: "digits_val 0 (show_nat n) = Some n"
proof (induction n rule: show_nat.induct)
  case (1 n)
  then show ?case by (subst show_nat.simps) (auto simp: digits_val_append)
qed

lemma show_nat_nonempty [simp]: "show_nat n \<noteq> []"
  by (subst show_nat.simps) simp

lemma set_show_nat: "c \<in> set (show_nat n) \<Longrightarrow> 48 \<le> (of_char c :: nat) \<and> (of_char c :: nat) \<le> 57"
proof (induction n rule: show_nat.induct)
  case (1 n)
  then show ?case
    by (subst (asm) (2) show_nat.simps) (auto simp: digit_char_def split: if_splits)
qed

lemma show_nat_not_sep:
  "CHR ''|'' \<notin> set (show_nat n)" "CHR 0x0A \<notin> set (show_nat n)" "CHR 0x0D \<notin> set (show_nat n)"
  "CHR ''-'' \<notin> set (show_nat n)" "CHR ''+'' \<notin> set (show_nat n)"
  using set_show_nat[of _ n] by force+

lemma show_int_not_sep [simp, go_str]:
  "CHR ''|'' \<notin> set (show_int i)" "CHR 0x0A \<notin> set (show_int i)" "CHR 0x0D \<notin> set (show_int i)"
  by (auto simp: show_int_def show_nat_not_sep)

lemma show_int_nonempty [simp]: "show_int i \<noteq> []"
  by (simp add: show_int_def)

lemma atoi_show_int [simp, go_str]:
  assumes "- (2 ^ 63) \<le> i" "i < 2 ^ 63"
  shows "atoi (show_int i) = Some i"
proof (cases "i < 0")
  case True
  with assms show ?thesis by (simp add: atoi_def show_int_def)
next
  case False
  obtain c r where cr: "show_nat (nat i) = c # r"
    by (meson list.exhaust show_nat_nonempty)
  then have "c \<noteq> CHR ''-''" "c \<noteq> CHR ''+''"
    using show_nat_not_sep(4,5)[of "nat i"] by auto
  moreover have "digits_val 0 (c # r) = Some (nat i)"
    using digits_val_show_nat[of "nat i"] cr by simp
  ultimately show ?thesis
    using False assms cr by (simp add: atoi_def show_int_def del: digits_val.simps)
qed

lemma parse_uint_show_nat [simp, go_str]:
  "n < 2 ^ 64 \<Longrightarrow> parse_uint (show_nat n) = Some (word_of_nat n)"
  by (simp add: parse_uint_def)

section \<open>bufio.Scanner over lines\<close>

text \<open>
  \<open>ScanLines\<close> splits at newlines, drops one trailing carriage return of each line and yields no
  empty last line; a line that does not fit in the 64 KiB buffer stops the scan with
  \<open>bufio.ErrTooLong\<close> after the lines before it were delivered.
\<close>

definition max_token :: nat where
  "max_token = 65536"

definition drop_cr :: "string \<Rightarrow> string" where
  "drop_cr l = (if l \<noteq> [] \<and> last l = CHR 0x0D then butlast l else l)"

definition raw_lines :: "string \<Rightarrow> string list" where
  "raw_lines s = (let ls = split_char (CHR 0x0A) s in if last ls = [] then butlast ls else ls)"

fun scan_until :: "string list \<Rightarrow> string list \<times> bool" where
  "scan_until [] = ([], True)"
| "scan_until (l # ls) =
     (if length l < max_token then (let (r, ok) = scan_until ls in (drop_cr l # r, ok))
      else ([], False))"

definition scan_lines :: "string \<Rightarrow> string list \<times> bool" where
  "scan_lines s = scan_until (raw_lines s)"

text \<open>A line survives printing and scanning when it holds no line break and fits.\<close>

definition clean_line :: "string \<Rightarrow> bool" where
  "clean_line l \<longleftrightarrow> CHR 0x0A \<notin> set l \<and> (l = [] \<or> last l \<noteq> CHR 0x0D) \<and> length l < max_token"

definition print_lines :: "string list \<Rightarrow> string" where
  "print_lines ls = concat (map (\<lambda>l. l @ [CHR 0x0A]) ls)"

lemma split_print_lines:
  "\<forall>l \<in> set ls. CHR 0x0A \<notin> set l \<Longrightarrow> split_char (CHR 0x0A) (print_lines ls) = ls @ [[]]"
  by (induction ls) (auto simp: print_lines_def split_char_append)

lemma scan_until_clean: "\<forall>l \<in> set ls. clean_line l \<Longrightarrow> scan_until ls = (ls, True)"
  by (induction ls) (auto simp: clean_line_def drop_cr_def)

lemma scan_print_lines [go_str]:
  assumes "\<forall>l \<in> set ls. clean_line l"
  shows "scan_lines (print_lines ls) = (ls, True)"
proof -
  have "split_char (CHR 0x0A) (print_lines ls) = ls @ [[]]"
    using assms by (intro split_print_lines) (auto simp: clean_line_def)
  then show ?thesis
    using assms by (simp add: scan_lines_def raw_lines_def scan_until_clean)
qed

section \<open>Table-name sanitizer (data/fileSystem/v1/mapManager.go, data/defragmentationManager)\<close>

text \<open>
  \<open>tableSanitizer\<close> and \<open>nameSanitizer\<close>: a \<open>strings.NewReplacer\<close> over nine one-character patterns
  and \<open>".."\<close>. No two patterns start with the same character, so the replacer rewrites greedily
  from the left.
\<close>

definition bad_chars :: "char list" where
  "bad_chars = [CHR ''/'', CHR 0x5C, CHR '':'', CHR ''*'', CHR ''?'', CHR 0x22,
                CHR ''<'', CHR ''>'', CHR ''|'']"

fun tableSanitizer :: "string \<Rightarrow> string" where
  "tableSanitizer [] = []"
| "tableSanitizer [c] = [if c \<in> set bad_chars then CHR ''_'' else c]"
| "tableSanitizer (c # d # s) =
     (if c \<in> set bad_chars then CHR ''_'' # tableSanitizer (d # s)
      else if c = CHR ''.'' \<and> d = CHR ''.'' then CHR ''_'' # CHR ''_'' # tableSanitizer s
      else c # tableSanitizer (d # s))"

definition sanitizeTableName :: "string \<Rightarrow> string" where
  "sanitizeTableName name =
     (let s = trim_space name in if s = [] then ''default'' else tableSanitizer s)"

definition sanitizeName :: "string \<Rightarrow> string" where
  "sanitizeName name =
     (let s = trim_space name in if s = [] then ''default'' else tableSanitizer s)"

lemma tableSanitizer_nonempty: "s \<noteq> [] \<Longrightarrow> tableSanitizer s \<noteq> []"
  by (cases s rule: tableSanitizer.cases) auto

lemma bad_chars_not: "CHR ''_'' \<notin> set bad_chars" "CHR ''.'' \<notin> set bad_chars"
  by (simp_all add: bad_chars_def)

lemma tableSanitizer_safe: "c \<in> set (tableSanitizer s) \<Longrightarrow> c \<notin> set bad_chars"
  by (induction s rule: tableSanitizer.induct)
    (auto simp: bad_chars_not split: if_splits)

section \<open>Strings through encoding/json\<close>

text \<open>
  What a string is after \<open>json.Marshal\<close> and \<open>json.Unmarshal\<close>. The encoder reads it rune by rune with
  \<open>utf8.DecodeRuneInString\<close> and replaces every byte that begins no valid sequence by U+FFFD; its escapes are
  undone by the decoder. \<open>rune_len\<close> is the length of the sequence in front, 0 when there is none.
\<close>

definition in_range :: "nat \<times> nat \<Rightarrow> char \<Rightarrow> bool" where
  "in_range r c \<longleftrightarrow> fst r \<le> (of_char c :: nat) \<and> (of_char c :: nat) \<le> snd r"

fun follows :: "(nat \<times> nat) list \<Rightarrow> string \<Rightarrow> bool" where
  "follows [] s = True"
| "follows (r # rs) [] = False"
| "follows (r # rs) (c # s) = (in_range r c \<and> follows rs s)"

abbreviation any_cont :: "nat \<times> nat" where
  "any_cont \<equiv> (0x80, 0xBF)"

definition rune_tail :: "char \<Rightarrow> (nat \<times> nat) list option" where
  "rune_tail c =
     (if in_range (0, 0x7F) c then Some []
      else if in_range (0xC2, 0xDF) c then Some [any_cont]
      else if in_range (0xE0, 0xE0) c then Some [(0xA0, 0xBF), any_cont]
      else if in_range (0xED, 0xED) c then Some [(0x80, 0x9F), any_cont]
      else if in_range (0xE1, 0xEF) c then Some [any_cont, any_cont]
      else if in_range (0xF0, 0xF0) c then Some [(0x90, 0xBF), any_cont, any_cont]
      else if in_range (0xF1, 0xF3) c then Some [any_cont, any_cont, any_cont]
      else if in_range (0xF4, 0xF4) c then Some [(0x80, 0x8F), any_cont, any_cont]
      else None)"

fun rune_len :: "string \<Rightarrow> nat" where
  "rune_len [] = 0"
| "rune_len (c # s) = (case rune_tail c of None \<Rightarrow> 0 | Some rs \<Rightarrow> if follows rs s then Suc (length rs) else 0)"

definition rune_error :: string where
  "rune_error = [CHR 0xEF, CHR 0xBF, CHR 0xBD]"

fun json_string :: "string \<Rightarrow> string" where
  "json_string [] = []"
| "json_string (c # s) =
     (case rune_len (c # s) of
        0 \<Rightarrow> rune_error @ json_string s
      | Suc n \<Rightarrow> c # take n s @ json_string (drop n s))"

text \<open>The strings of valid UTF-8 sequences.\<close>

fun utf8_ok :: "string \<Rightarrow> bool" where
  "utf8_ok [] = True"
| "utf8_ok (c # s) = (case rune_len (c # s) of 0 \<Rightarrow> False | Suc n \<Rightarrow> utf8_ok (drop n s))"

lemma json_string_ok: "utf8_ok s \<Longrightarrow> json_string s = s"
  by (induction s rule: utf8_ok.induct) (simp_all split: nat.splits del: rune_len.simps)

lemma json_string_longer:
  "length s \<le> length (json_string s) \<and> (\<not> utf8_ok s \<longrightarrow> length s < length (json_string s))"
proof (induction s rule: json_string.induct)
  case (2 c s)
  show ?case
  proof (cases "rune_len (c # s)")
    case 0
    then show ?thesis using "2.IH"(1)[OF 0] by (simp add: rune_error_def del: rune_len.simps)
  next
    case (Suc n)
    then show ?thesis using "2.IH"(2)[OF Suc] by (auto simp del: rune_len.simps)
  qed
qed simp

lemma json_string_id: "json_string s = s \<longleftrightarrow> utf8_ok s"
  using json_string_ok json_string_longer[of s] by auto

lemma follows_length: "follows rs s \<Longrightarrow> length rs \<le> length s"
  by (induction rs s rule: follows.induct) auto

lemma follows_take: "follows rs s \<Longrightarrow> follows rs (take (length rs) s @ z)"
  by (induction rs s rule: follows.induct) auto

lemma rune_len_take: "rune_len (c # s) = Suc n \<Longrightarrow> rune_len (c # take n s @ z) = Suc n \<and> n \<le> length s"
  using follows_take follows_length by (auto split: option.splits if_splits)

lemma rune_len_error: "rune_len (rune_error @ z) = 3"
  by (simp add: rune_error_def rune_tail_def in_range_def)

lemma utf8_json [simp]: "utf8_ok (json_string s)"
proof (induction s rule: json_string.induct)
  case (2 c s)
  show ?case
  proof (cases "rune_len (c # s)")
    case 0
    then show ?thesis
      using "2.IH"(1)[OF 0] rune_len_error[of "json_string s"]
      by (simp add: rune_error_def eval_nat_numeral del: rune_len.simps)
  next
    case (Suc n)
    then show ?thesis
      using "2.IH"(2)[OF Suc] rune_len_take[OF Suc, of "json_string (drop n s)"] by (simp del: rune_len.simps)
  qed
qed simp

lemma json_string_idem [simp]: "json_string (json_string s) = json_string s"
  by (rule json_string_ok) simp

lemma json_string_empty [simp]: "json_string s = [] \<longleftrightarrow> s = []"
  using json_string_longer[of s] by auto

lemma utf8_ascii: "(\<And>c. c \<in> set s \<Longrightarrow> (of_char c :: nat) < 128) \<Longrightarrow> utf8_ok s"
proof (induction s)
  case (Cons c s)
  have "(of_char c :: nat) \<le> 127" using Cons.prems[of c] by simp
  then have "rune_tail c = Some []" by (simp add: rune_tail_def in_range_def)
  then show ?case using Cons by simp
qed simp

text \<open>On a concrete string these are computed by \<open>code_simp\<close>.\<close>

declare json_string.simps(2) [simp del]
declare utf8_ok.simps(2) [simp del]
declare rune_len.simps(2) [simp del]

end
