(* ===== verification/Codec.thy ===== *)
theory Codec
  imports Go_Strings
begin

text \<open>
  The binary formats of the program (\<open>encoding/v1\<close>, \<open>types\<close> and the two metadata functions of
  \<open>routes/inc_save.go\<close>): the key-value frame (\<open>Encode\<close>, \<open>Decode\<close>), the fixed-size record of an
  incremental table (\<open>EncodeIncEntry\<close>, \<open>SetSkipIncEntry\<close>, \<open>DecodeIncEntry\<close>), the metadata of
  such a table (\<open>StructToBytesBinary\<close>, \<open>BytesToStructBinary\<close>) and the password-based envelope
  (\<open>Encrypt\<close>, \<open>Decrypt\<close>, \<open>deriveKey\<close>) over an AES-GCM parameter. The interface the clients use
  is the locale \<open>codec\<close> and its extension \<open>record_codec\<close> for tables of equal-width records.
\<close>

section \<open>The interface: encoders and decoders\<close>

locale codec =
  fixes enc :: "'a \<Rightarrow> bytes"
    and dec :: "bytes \<Rightarrow> 'a option"
    and valid :: "'a \<Rightarrow> bool"
  assumes dec_enc: "valid a \<Longrightarrow> dec (enc a) = Some a"
begin

lemma enc_inject: "valid a \<Longrightarrow> valid b \<Longrightarrow> enc a = enc b \<longleftrightarrow> a = b"
  by (metis dec_enc option.inject)

lemma enc_inj_on: "inj_on enc (Collect valid)"
  by (rule inj_onI) (simp add: enc_inject)

text \<open>An encoding stored at an offset of a file is what a read of its range decodes to.\<close>

lemma dec_stored: "valid a \<Longrightarrow> dec (pread (pwrite f off (enc a)) off (length (enc a))) = Some a"
  by (simp add: pread_pwrite_same dec_enc)

lemma dec_stored_other:
  assumes "valid a" "pread f p (length (enc a)) = enc a" "p + length (enc a) \<le> length f"
    and "p + length (enc a) \<le> off \<or> off + length d \<le> p"
  shows "dec (pread (pwrite f off d) p (length (enc a))) = Some a"
  using assms by (simp add: pread_pwrite_other dec_enc)

end

locale record_codec = codec enc dec valid
  for enc :: "'a \<Rightarrow> bytes" and dec :: "bytes \<Rightarrow> 'a option" and valid :: "'a \<Rightarrow> bool" +
  fixes width :: nat
  assumes width_pos: "0 < width"
    and length_enc: "valid a \<Longrightarrow> length (enc a) = width"
begin

lemma length_table: "\<forall>a \<in> set as. valid a \<Longrightarrow> length (concat (map enc as)) = width * length as"
  by (induction as) (auto simp: length_enc)

lemma record_at:
  "\<forall>a \<in> set as. valid a \<Longrightarrow> i < length as \<Longrightarrow>
   pread (concat (map enc as)) (i * width) width = enc (as ! i)"
proof (induction as arbitrary: i)
  case (Cons a as)
  show ?case
  proof (cases i)
    case 0
    with Cons show ?thesis by (simp add: pread_def length_enc)
  next
    case (Suc j)
    then have "pread (concat (map enc as)) (j * width) width = enc (as ! j)"
      using Cons by simp
    then show ?thesis
      using Suc Cons.prems by (simp add: pread_def length_enc add.commute)
  qed
qed simp

lemma dec_record_at:
  "\<forall>a \<in> set as. valid a \<Longrightarrow> i < length as \<Longrightarrow>
   dec (pread (concat (map enc as)) (i * width) width) = Some (as ! i)"
  by (simp add: record_at dec_enc)

end

section \<open>encoding/binary readers\<close>

text \<open>
  \<open>binary.Read\<close> of an \<open>n\<close>-byte little-endian integer with its error ignored: on a short input the
  destination keeps its zero value and the rest of the input is consumed.
\<close>

definition rd :: "nat \<Rightarrow> bytes \<Rightarrow> nat \<times> bytes" where
  "rd n buf = (if n \<le> length buf then (le_val (take n buf), drop n buf) else (0, []))"

lemma rd_append [simp]: "length h = n \<Longrightarrow> rd n (h @ b) = (le_val h, b)"
  by (simp add: rd_def)

lemma rd_1_Cons [simp]: "rd (Suc 0) (x # b) = (unat x, b)"
  by (simp add: rd_def)

section \<open>The key-value frame\<close>

record decoded =
  dec_version :: int
  dec_data :: bytes
  dec_length :: int
  dec_start :: int
  dec_end :: int

record encoded =
  enc_version :: int
  enc_start :: int
  enc_end :: int

definition pointer_size :: "nat \<Rightarrow> nat" where
  "pointer_size endPtr =
     (if endPtr < 256 then 1
      else if endPtr < 65536 then 2
      else if endPtr < 4294967296 then 4 else 8)"

definition encode :: "bytes \<Rightarrow> bytes \<times> encoded" where
  "encode data =
     (let headerSize = 1 + 1;
          startPtr = headerSize;
          endPtr = startPtr + length data;
          pointerSize = pointer_size endPtr;
          buf = [1] @ [word_of_nat pointerSize] @ le_bytes 1 startPtr
                @ le_bytes pointerSize endPtr @ data
      in (buf, \<lparr>enc_version = 1, enc_start = int startPtr, enc_end = int endPtr\<rparr>))"

definition decode :: "bytes \<Rightarrow> decoded outcome" where
  "decode data =
     (let (version, b1) = rd 1 data;
          (pointerSize, b2) = rd 1 b1;
          d0 = \<lparr>dec_version = int version, dec_data = [], dec_length = 0, dec_start = 0, dec_end = 0\<rparr>
      in if pointerSize \<in> {1, 2, 4, 8} then
           (let (startPos, b3) = rd 1 b2;
                (endPos, b4) = rd pointerSize b3;
                dataLen = (word_of_nat endPos - word_of_nat startPos :: u64)
            in bind_outcome (go_make (uint dataLen))
                 (\<lambda>_. Ret (d0\<lparr>dec_start := i64 (word_of_nat startPos),
                             dec_end := i64 (word_of_nat endPos),
                             dec_data := pread b4 0 (unat dataLen)\<rparr>)))
         else Ret d0)"

definition frame :: "bytes \<Rightarrow> bytes" where
  "frame d = fst (encode d)"

definition unframe :: "bytes \<Rightarrow> bytes option" where
  "unframe b = (case decode b of Ret r \<Rightarrow> Some (dec_data r) | Panic \<Rightarrow> None)"

definition go_slice :: "bytes \<Rightarrow> bool" where
  "go_slice d \<longleftrightarrow> int (length d) \<le> max_alloc"

lemma pointer_size_range: "pointer_size n \<in> {1, 2, 4, 8}"
  by (simp add: pointer_size_def)

lemma pointer_size_fits: "n < 2 ^ 64 \<Longrightarrow> n < 256 ^ pointer_size n"
  by (simp add: pointer_size_def)

lemma frame_eq:
  "frame d = [1, word_of_nat (pointer_size (2 + length d)), 2]
             @ le_bytes (pointer_size (2 + length d)) (2 + length d) @ d"
  by (simp add: frame_def encode_def Let_def)

lemma length_frame: "length (frame d) = 3 + pointer_size (2 + length d) + length d"
  by (simp add: frame_eq)

lemma frame_nonempty [simp]: "frame d \<noteq> []"
  by (simp add: frame_eq)

lemma length_frame_ge: "4 + length d \<le> length (frame d)"
  using pointer_size_range[of "2 + length d"] by (auto simp: length_frame)

lemma unat_pointer_size [simp]: "unat (word_of_nat (pointer_size n) :: byte) = pointer_size n"
  using pointer_size_range[of n] by auto

lemma decode_frame:
  assumes "go_slice d"
  shows "decode (frame d) =
    Ret \<lparr>dec_version = 1, dec_data = d, dec_length = 0, dec_start = 2, dec_end = 2 + int (length d)\<rparr>"
proof -
  define e where "e = 2 + length d"
  have n: "int (length d) \<le> 2 ^ 48" using assms by (simp add: go_slice_def max_alloc_def)
  then have e: "e < 2 ^ 63" by (simp add: e_def)
  then have v: "le_val (le_bytes (pointer_size e) e) = e"
    by (intro le_val_le_bytes pointer_size_fits) simp
  have ue: "unat (word_of_nat e :: u64) = e"
    by (rule unat_u64) (use e in simp)
  have w: "(word_of_nat e - 2 :: u64) = word_of_nat (length d)"
    by (simp add: e_def)
  have un: "unat (word_of_nat (length d) :: u64) = length d"
    by (rule unat_u64) (use e in \<open>simp add: e_def\<close>)
  then have ui: "uint (word_of_nat (length d) :: u64) = int (length d)"
    by (simp add: uint_nat)
  have mk: "go_make (uint (word_of_nat (length d) :: u64)) = Ret (replicate (length d) 0)"
    using n by (simp add: go_make_def ui max_alloc_def)
  have i2: "i64 (2 :: u64) = 2" by (simp add: i64_def)
  have ie: "i64 (word_of_nat e :: u64) = int e"
    using i64_small[of "word_of_nat e", unfolded ue] e by (simp only: ue)
  have f: "frame d = [1, word_of_nat (pointer_size e), 2] @ le_bytes (pointer_size e) e @ d"
    by (simp only: e_def frame_eq)
  have "decode (frame d) =
    Ret \<lparr>dec_version = 1, dec_data = d, dec_length = 0, dec_start = 2, dec_end = int e\<rparr>"
    using pointer_size_range[of e]
    by (simp add: f decode_def Let_def v w mk un i2 ie pread_all)
  then show ?thesis by (simp add: e_def)
qed

interpretation kv: codec frame unframe go_slice
  by unfold_locales (simp add: unframe_def decode_frame)

section \<open>Records of an incremental table\<close>

record inc_table_body =
  body_data :: bytes
  body_entrySize :: u64
  body_skipBit :: bool
  body_nextEntryPointer :: u64

text \<open>
  \<open>int(entrySize) + 3\<close> in 64-bit arithmetic. \<open>EncodeIncEntry\<close> allocates before it checks the
  length, so an entry size whose total is out of range panics; \<open>None\<close> is the nil slice.
\<close>

definition record_total :: "u64 \<Rightarrow> int" where
  "record_total entrySize = i64 (entrySize + 3)"

definition encodeIncEntry :: "u64 \<Rightarrow> bytes \<Rightarrow> bytes option outcome" where
  "encodeIncEntry entrySize body =
     (let total = record_total entrySize
      in bind_outcome (go_make total)
           (\<lambda>buf. if uint entrySize < int (length body) then Ret None
                  else let pos = total - int (length body) - 1
                       in if pos < 1 then Ret None
                          else Ret (Some (pwrite (buf[nat pos := 1]) (nat pos + 1) body))))"

definition setSkipIncEntry :: "bytes \<Rightarrow> u64 \<Rightarrow> bytes" where
  "setSkipIncEntry entry nextEntryPointer =
     (if entry = [] then entry
      else let e1 = entry[0 := (entry ! 0) OR 1]
           in if 0 < nextEntryPointer then
                (let e2 = e1[0 := (e1 ! 0) OR 2]
                 in if 9 \<le> length e2 then pwrite e2 1 (le_bytes 8 (unat nextEntryPointer)) else e2)
              else e1)"

fun find_marker :: "bytes \<Rightarrow> nat \<Rightarrow> nat option" where
  "find_marker [] i = None"
| "find_marker (b # bs) i = (if b = 1 then Some i else find_marker bs (Suc i))"

datatype codec_error = InvalidEntryLength | UnexpectedEOF | EOF | NameLenExceedsBuffer | NameTooLong

definition decodeIncEntry :: "u64 \<Rightarrow> bytes \<Rightarrow> (codec_error + inc_table_body) outcome" where
  "decodeIncEntry entrySize raw =
     (let total = record_total entrySize
      in if int (length raw) \<noteq> total then Ret (Inl InvalidEntryLength)
         else if raw = [] then Panic
         else let first = raw ! 0;
                  skip = (first AND 1 \<noteq> 0);
                  nextPtrBit = (first AND 2 \<noteq> 0)
              in if skip then
                   Ret (Inr \<lparr>body_data = [], body_entrySize = entrySize, body_skipBit = True,
                             body_nextEntryPointer =
                               (if nextPtrBit \<and> 9 \<le> length raw
                                then word_of_nat (le_val (take 8 (drop 1 raw))) else 0)\<rparr>)
                 else (case find_marker (drop 1 raw) 1 of
                         None \<Rightarrow> Ret (Inr \<lparr>body_data = [], body_entrySize = entrySize,
                                           body_skipBit = False, body_nextEntryPointer = 0\<rparr>)
                       | Some pos \<Rightarrow>
                           Ret (Inr \<lparr>body_data = drop (pos + 1) raw, body_entrySize = entrySize,
                                     body_skipBit = False, body_nextEntryPointer = 0\<rparr>)))"

text \<open>Entry sizes for which a record of \<open>entrySize + 3\<close> bytes can be allocated.\<close>

definition entry_size_ok :: "u64 \<Rightarrow> bool" where
  "entry_size_ok e \<longleftrightarrow> uint e + 3 \<le> max_alloc"

definition inc_raw :: "u64 \<Rightarrow> bytes \<Rightarrow> bytes" where
  "inc_raw e body = replicate (unat e + 2 - length body) 0 @ [1] @ body"

lemma entry_size_ok_nat: "entry_size_ok e \<Longrightarrow> unat e + 3 \<le> 2 ^ 48"
proof -
  assume "entry_size_ok e"
  then have "int (unat e + 3) \<le> int (2 ^ 48)"
    by (simp add: entry_size_ok_def max_alloc_def)
  then show ?thesis by (simp only: of_nat_le_iff)
qed

lemma record_total_small:
  assumes "unat e + 3 < 2 ^ 63"
  shows "record_total e = int (unat e) + 3"
proof -
  have "unat (e + 3) = unat e + 3"
    using assms by (simp add: unat_word_ariths)
  with assms show ?thesis
    unfolding record_total_def by (subst i64_small) simp_all
qed

lemma record_total_ok: "entry_size_ok e \<Longrightarrow> record_total e = int (unat e) + 3"
  using entry_size_ok_nat[of e] by (intro record_total_small) simp

lemma pwrite_after_marker:
  assumes "p + 1 + length d = n"
  shows "pwrite ((replicate n 0)[p := 1]) (p + 1) d = replicate p 0 @ [1] @ d"
proof -
  have u: "(replicate n 0)[p := 1] = replicate p 0 @ [1] @ replicate (length d) (0 :: byte)"
    using assms by (intro nth_equalityI) (auto simp: nth_append nth_list_update nth_Cons')
  show ?thesis unfolding u by (simp add: pwrite_def)
qed

lemma encodeIncEntry_ok:
  assumes "entry_size_ok e" "length body \<le> unat e"
  shows "encodeIncEntry e body = Ret (Some (inc_raw e body))"
proof -
  have t: "record_total e = int (unat e + 3)"
    using assms(1) by (simp add: record_total_ok)
  have m: "go_make (int (unat e + 3)) = Ret (replicate (unat e + 3) 0)"
    by (rule go_make_nat) (rule entry_size_ok_nat[OF assms(1)])
  define q where "q = unat e + 2 - length body"
  have p: "int (unat e + 3) - int (length body) - 1 = int q" and q: "1 \<le> q"
    using assms(2) by (simp_all add: q_def)
  have "pwrite ((replicate (unat e + 3) 0)[q := 1]) (q + 1) body = inc_raw e body"
    unfolding inc_raw_def q_def using assms(2) by (intro pwrite_after_marker) simp
  moreover have "\<not> uint e < int (length body)"
    using assms(2) by (subst uint_nat) (simp only: of_nat_less_iff not_less)
  ultimately show ?thesis
    using q unfolding encodeIncEntry_def Let_def t m p by simp
qed

lemma length_inc_raw: "length body \<le> unat e \<Longrightarrow> length (inc_raw e body) = unat e + 3"
  by (simp add: inc_raw_def)

lemma find_marker_zeros: "find_marker (replicate n 0 @ 1 # d) i = Some (i + n)"
  by (induction n arbitrary: i) auto

lemma decode_inc_raw:
  assumes "entry_size_ok e" "length body \<le> unat e"
  shows "decodeIncEntry e (inc_raw e body) =
    Ret (Inr \<lparr>body_data = body, body_entrySize = e, body_skipBit = False, body_nextEntryPointer = 0\<rparr>)"
proof -
  obtain k where k: "unat e + 2 - length body = Suc k"
    using assms(2) by (cases "unat e + 2 - length body") auto
  have r: "inc_raw e body = 0 # replicate k 0 @ 1 # body"
    by (simp add: inc_raw_def k del: add_2_eq_Suc')
  have "int (length (inc_raw e body)) = record_total e"
    using assms by (simp add: length_inc_raw record_total_ok)
  then show ?thesis
    unfolding decodeIncEntry_def Let_def r by (simp add: find_marker_zeros)
qed

definition inc_dec :: "u64 \<Rightarrow> bytes \<Rightarrow> bytes option" where
  "inc_dec e raw = (case decodeIncEntry e raw of Ret (Inr b) \<Rightarrow> Some (body_data b) | _ \<Rightarrow> None)"

interpretation inc: record_codec "inc_raw e" "inc_dec e"
  "\<lambda>b. entry_size_ok e \<and> length b \<le> unat e" "unat e + 3" for e
  by unfold_locales (auto simp: inc_dec_def decode_inc_raw length_inc_raw)

lemma byte_or_bits:
  "((b :: byte) OR 1) AND 1 = 1" "((b OR 1) OR 2) AND 1 = 1" "((b OR 1) OR 2) AND 2 = 2"
  by (rule bit_word_eqI; auto simp: bit_simps)+

text \<open>
  A skipped record decodes as skipped, and carries its next pointer exactly when the record has
  the nine bytes for it.
\<close>

lemma decode_set_skip:
  assumes "entry_size_ok e" "length raw = unat e + 3" "0 < ptr"
  shows "decodeIncEntry e (setSkipIncEntry raw ptr) =
    Ret (Inr \<lparr>body_data = [], body_entrySize = e, body_skipBit = True,
              body_nextEntryPointer = (if 6 \<le> unat e then ptr else 0)\<rparr>)"
proof -
  obtain b r where raw: "raw = b # r" using assms(2) by (cases raw) auto
  let ?h = "(b OR 1) OR 2"
  have sk: "setSkipIncEntry raw ptr =
      (if 6 \<le> unat e then pwrite (?h # r) 1 (le_bytes 8 (unat ptr)) else ?h # r)"
    using assms(2,3) by (simp add: setSkipIncEntry_def raw)
  have w: "pwrite (?h # r) 1 (le_bytes 8 (unat ptr)) = ?h # le_bytes 8 (unat ptr) @ drop 8 r"
    using assms(2) by (simp add: pwrite_def raw)
  have v: "le_val (le_bytes 8 (unat ptr)) = unat ptr"
    using unsigned_less[of ptr, where ?'a = nat] by (intro le_val_le_bytes) simp
  have t: "record_total e = int (unat e) + 3" by (rule record_total_ok[OF assms(1)])
  have l: "length r = unat e + 2" using assms(2) raw by simp
  show ?thesis
  proof (cases "6 \<le> unat e")
    case True
    then have "length (?h # le_bytes 8 (unat ptr) @ drop 8 r) = unat e + 3"
      using l by simp
    then have "int (length (?h # le_bytes 8 (unat ptr) @ drop 8 r)) = record_total e"
      by (simp only: t)
    with True show ?thesis
      unfolding decodeIncEntry_def Let_def sk w by (simp add: byte_or_bits v)
  next
    case False
    with l show ?thesis
      unfolding decodeIncEntry_def Let_def t sk by (simp add: byte_or_bits)
  qed
qed

section \<open>Metadata of an incremental table\<close>

record inc_table_entry_data =
  td_entrySize :: u64
  td_tableFileName :: string

definition bytes_of_string :: "string \<Rightarrow> bytes" where
  "bytes_of_string s = map (\<lambda>c. word_of_nat (of_char c)) s"

definition string_of_bytes :: "bytes \<Rightarrow> string" where
  "string_of_bytes b = map (\<lambda>w. char_of (unat w :: nat)) b"

definition structToBytesBinary :: "inc_table_entry_data \<Rightarrow> codec_error + bytes" where
  "structToBytesBinary s =
     (let nameBytes = bytes_of_string (td_tableFileName s)
      in if 2 ^ 32 - 1 < length nameBytes then Inl NameTooLong
         else Inr (le_bytes 8 (unat (td_entrySize s)) @ le_bytes 4 (length nameBytes) @ nameBytes))"

text \<open>
  \<open>binary.Read\<close> reports \<open>EOF\<close> when nothing is left and \<open>ErrUnexpectedEOF\<close> on a short value;
  \<open>bytes.Reader.Read\<close> reports \<open>EOF\<close> when nothing is left, even for an empty buffer.
\<close>

definition rd_err :: "nat \<Rightarrow> bytes \<Rightarrow> codec_error + (nat \<times> bytes)" where
  "rd_err n b = (if b = [] then Inl EOF
                 else if length b < n then Inl UnexpectedEOF
                 else Inr (le_val (take n b), drop n b))"

definition bytesToStructBinary :: "bytes \<Rightarrow> codec_error + inc_table_entry_data" where
  "bytesToStructBinary b =
     (case rd_err 8 b of Inl e \<Rightarrow> Inl e
      | Inr (sz, r1) \<Rightarrow>
          (case rd_err 4 r1 of Inl e \<Rightarrow> Inl e
           | Inr (nameLen, r2) \<Rightarrow>
               if length r2 mod 2 ^ 32 < nameLen then Inl NameLenExceedsBuffer
               else if r2 = [] then Inl EOF
               else Inr \<lparr>td_entrySize = word_of_nat sz,
                         td_tableFileName = string_of_bytes (take nameLen r2)\<rparr>))"

definition meta_enc :: "inc_table_entry_data \<Rightarrow> bytes" where
  "meta_enc s = (case structToBytesBinary s of Inl _ \<Rightarrow> [] | Inr b \<Rightarrow> b)"

definition meta_dec :: "bytes \<Rightarrow> inc_table_entry_data option" where
  "meta_dec b = (case bytesToStructBinary b of Inl _ \<Rightarrow> None | Inr s \<Rightarrow> Some s)"

definition meta_ok :: "inc_table_entry_data \<Rightarrow> bool" where
  "meta_ok s \<longleftrightarrow> td_tableFileName s \<noteq> [] \<and> length (td_tableFileName s) < 2 ^ 32"

lemma length_bytes_of_string [simp]: "length (bytes_of_string s) = length s"
  by (simp add: bytes_of_string_def)

lemma string_bytes_inverse [simp]: "string_of_bytes (bytes_of_string s) = s"
proof -
  have "char_of (unat (word_of_nat (of_char c) :: byte) :: nat) = c" for c
    by (simp add: unat_of_nat take_bit_nat_eq_self of_char_of)
  then show ?thesis
    by (simp add: string_of_bytes_def bytes_of_string_def o_def)
qed

lemma structToBytes_roundtrip:
  assumes "meta_ok s"
  shows "\<exists>b. structToBytesBinary s = Inr b \<and> bytesToStructBinary b = Inr s"
proof -
  let ?nb = "bytes_of_string (td_tableFileName s)"
  let ?b = "le_bytes 8 (unat (td_entrySize s)) @ le_bytes 4 (length ?nb) @ ?nb"
  have n: "length (td_tableFileName s) < 2 ^ 32" and ne: "td_tableFileName s \<noteq> []"
    using assms by (simp_all add: meta_ok_def)
  have v1: "le_val (le_bytes 8 (unat (td_entrySize s))) = unat (td_entrySize s)"
    using unsigned_less[of "td_entrySize s", where ?'a = nat] by (intro le_val_le_bytes) simp
  have v2: "le_val (le_bytes 4 (length (td_tableFileName s))) = length (td_tableFileName s)"
    using n by (intro le_val_le_bytes) simp
  have x: "?nb \<noteq> []" using ne by (simp add: bytes_of_string_def)
  have e: "structToBytesBinary s = Inr ?b"
    using n by (simp add: structToBytesBinary_def)
  have "bytesToStructBinary ?b = Inr s"
    using n x ne by (simp add: bytesToStructBinary_def rd_err_def v1 v2)
  with e show ?thesis by blast
qed

interpretation meta: codec meta_enc meta_dec meta_ok
proof unfold_locales
  fix s assume "meta_ok s"
  from structToBytes_roundtrip[OF this] show "meta_dec (meta_enc s) = Some s"
    by (auto simp: meta_enc_def meta_dec_def)
qed

section \<open>Password-based encryption\<close>

text \<open>
  AES-256-GCM and the random source are parameters: \<open>seal\<close> and \<open>open_gcm\<close> take a 32-byte key and a
  nonce, \<open>rnd\<close> is what \<open>io.ReadFull(rand.Reader, nonce)\<close> delivered, if it did. \<open>aead_ok\<close> is the
  documented behaviour of \<open>cipher.AEAD\<close>: \<open>Open\<close> inverts \<open>Seal\<close> under the same key and nonce.
\<close>

record aead =
  seal :: "bytes \<Rightarrow> bytes \<Rightarrow> bytes \<Rightarrow> bytes"
  open_gcm :: "bytes \<Rightarrow> bytes \<Rightarrow> bytes \<Rightarrow> bytes option"
  nonceSize :: nat

definition aead_ok :: "aead \<Rightarrow> bool" where
  "aead_ok c \<longleftrightarrow>
     (\<forall>k n p. length k = 32 \<longrightarrow> length n = nonceSize c \<longrightarrow> open_gcm c k n (seal c k n p) = Some p)"

datatype crypt_error = NonceError | CiphertextTooShort | DecryptError

definition deriveKey :: "string \<Rightarrow> bytes outcome" where
  "deriveKey key =
     (let keyBytes = bytes_of_string key
      in if keyBytes = [] then Panic
         else Ret (map (\<lambda>i. keyBytes ! (i mod length keyBytes)) [0..<32]))"

definition encrypt :: "aead \<Rightarrow> bytes option \<Rightarrow> bytes \<Rightarrow> string \<Rightarrow> (crypt_error + bytes) outcome" where
  "encrypt c rnd data key =
     bind_outcome (deriveKey key)
       (\<lambda>aesKey. case rnd of
          None \<Rightarrow> Ret (Inl NonceError)
        | Some nonce \<Rightarrow> Ret (Inr (nonce @ seal c aesKey nonce data)))"

definition decrypt :: "aead \<Rightarrow> bytes \<Rightarrow> string \<Rightarrow> (crypt_error + bytes) outcome" where
  "decrypt c ciphertext key =
     bind_outcome (deriveKey key)
       (\<lambda>aesKey. if length ciphertext < nonceSize c then Ret (Inl CiphertextTooShort)
                 else (case open_gcm c aesKey (take (nonceSize c) ciphertext)
                              (drop (nonceSize c) ciphertext) of
                         None \<Rightarrow> Ret (Inl DecryptError)
                       | Some plaintext \<Rightarrow> Ret (Inr plaintext)))"

lemma deriveKey_length: "deriveKey key = Ret k \<Longrightarrow> length k = 32"
  by (auto simp: deriveKey_def Let_def split: if_splits)

lemma deriveKey_total: "key \<noteq> [] \<Longrightarrow> \<exists>k. deriveKey key = Ret k \<and> length k = 32"
  by (auto simp: deriveKey_def Let_def bytes_of_string_def)

lemma deriveKey_twice: "deriveKey (key @ key) = deriveKey key"
proof -
  have periodic: "(xs @ xs) ! (i mod (length xs + length xs)) = xs ! (i mod length xs)"
    if "xs \<noteq> []" for xs :: bytes and i :: nat
  proof -
    let ?n = "length xs" and ?j = "i mod (length xs + length xs)"
    have j: "?j < ?n + ?n" using that by simp
    have m: "?j mod ?n = i mod ?n"
      by (metis mod_mod_cancel dvd_add_triv_right_iff dvd_refl)
    show ?thesis
    proof (cases "?j < ?n")
      case True
      then show ?thesis using m by (simp add: nth_append)
    next
      case False
      then have "?j mod ?n = ?j - ?n" using j by (simp add: le_mod_geq)
      with False m show ?thesis by (simp add: nth_append)
    qed
  qed
  have "bytes_of_string (key @ key) = bytes_of_string key @ bytes_of_string key"
    by (simp add: bytes_of_string_def)
  then show ?thesis
    using periodic[of "bytes_of_string key"] by (simp add: deriveKey_def Let_def)
qed

lemma decrypt_encrypt:
  assumes "aead_ok c" "key \<noteq> []" "length nonce = nonceSize c"
  shows "bind_outcome (encrypt c (Some nonce) data key)
           (\<lambda>r. case r of Inl e \<Rightarrow> Ret (Inl e) | Inr ct \<Rightarrow> decrypt c ct key) = Ret (Inr data)"
proof -
  obtain k where "deriveKey key = Ret k" "length k = 32"
    using deriveKey_total assms(2) by blast
  with assms show ?thesis
    by (simp add: encrypt_def decrypt_def aead_ok_def)
qed

section \<open>Properties\<close>

text \<open>
  C12: A value that fits in memory survives the key-value frame: decoding what \<open>Encode\<close> produced gives
  the version, the data and the position fields of the header back, and the frame is between four and
  eleven bytes longer than the data.
\<close>

theorem kv_frame_roundtrip:
  assumes "go_slice d"
  shows "decode (fst (encode d)) = Ret \<lparr>dec_version = 1, dec_data = d, dec_length = 0,
            dec_start = enc_start (snd (encode d)), dec_end = enc_end (snd (encode d))\<rparr>
    \<and> length d + 4 \<le> length (fst (encode d)) \<and> length (fst (encode d)) \<le> length d + 11"
proof -
  have "dec_end r = enc_end (snd (encode d)) \<and> dec_start r = enc_start (snd (encode d))"
    if "r = \<lparr>dec_version = 1, dec_data = d, dec_length = 0, dec_start = 2, dec_end = 2 + int (length d)\<rparr>" for r
    using that by (simp add: encode_def Let_def)
  then show ?thesis
    using decode_frame[OF assms] length_frame[of d] pointer_size_range[of "2 + length d"]
    by (auto simp: frame_def)
qed

lemma kv_frame_roundtrip_witness:
  "decode (fst (encode [7, 8])) = Ret \<lparr>dec_version = 1, dec_data = [7, 8], dec_length = 0,
     dec_start = 2, dec_end = 4\<rparr>"
  using kv_frame_roundtrip[of "[7, 8]"] by (simp add: go_slice_def max_alloc_def encode_def Let_def)

text \<open>
  The positions in the header do not locate the data: the frame's data begins four bytes into it
  at the earliest, while \<open>StartPointer\<close> is two.
\<close>

theorem frame_start_pointer:
  "enc_start (snd (encode d)) = 2
   \<and> drop (3 + pointer_size (2 + length d)) (fst (encode d)) = d
   \<and> 4 \<le> 3 + pointer_size (2 + length d)"
proof -
  have "fst (encode d) = [1, word_of_nat (pointer_size (2 + length d)), 2]
             @ le_bytes (pointer_size (2 + length d)) (2 + length d) @ d"
    using frame_eq[of d] by (simp add: frame_def)
  then show ?thesis
    using pointer_size_range[of "2 + length d"] by (auto simp: encode_def Let_def)
qed

text \<open>
  C16: A record of an incremental table survives encoding: for an entry size that can be allocated and a
  body that fits, \<open>EncodeIncEntry\<close> returns a record of exactly \<open>entrySize + 3\<close> bytes and
  \<open>DecodeIncEntry\<close> returns the body, not skipped.
\<close>

theorem inc_entry_roundtrip:
  assumes "entry_size_ok e" "length body \<le> unat e"
  shows "\<exists>raw. encodeIncEntry e body = Ret (Some raw) \<and> length raw = unat e + 3
    \<and> decodeIncEntry e raw = Ret (Inr \<lparr>body_data = body, body_entrySize = e, body_skipBit = False,
         body_nextEntryPointer = 0\<rparr>)"
  using encodeIncEntry_ok[OF assms] length_inc_raw[OF assms(2)] decode_inc_raw[OF assms] by blast

lemma inc_entry_roundtrip_witness:
  "\<exists>raw. encodeIncEntry 4 [9, 1, 0] = Ret (Some raw) \<and> length raw = 7"
  using inc_entry_roundtrip[of 4 "[9, 1, 0]"] by (auto simp: entry_size_ok_def max_alloc_def)

text \<open>
  Marking a record as skipped makes it decode as skipped whatever it held, and keeps the pointer to
  the next entry exactly when the entry size is at least six; below that the pointer is lost.
\<close>

theorem skip_entry_decodes:
  assumes "entry_size_ok e" "length raw = unat e + 3" "0 < ptr"
  shows "decodeIncEntry e (setSkipIncEntry raw ptr) =
    Ret (Inr \<lparr>body_data = [], body_entrySize = e, body_skipBit = True,
              body_nextEntryPointer = (if 6 \<le> unat e then ptr else 0)\<rparr>)"
  using assms by (rule decode_set_skip)

lemma skip_entry_decodes_witness:
  "decodeIncEntry 6 (setSkipIncEntry [0, 0, 0, 0, 0, 0, 0, 1, 5] 77) =
    Ret (Inr \<lparr>body_data = [], body_entrySize = 6, body_skipBit = True, body_nextEntryPointer = 77\<rparr>)"
  using skip_entry_decodes[of 6 "[0, 0, 0, 0, 0, 0, 0, 1, 5]" 77]
  by (simp add: entry_size_ok_def max_alloc_def)

text \<open>
  Decryption inverts encryption under the same password, for every AES-GCM implementation whose
  \<open>Open\<close> inverts its \<open>Seal\<close>, every nonce of the right size and every non-empty password.
\<close>

theorem encrypt_roundtrip:
  assumes "aead_ok c" "key \<noteq> []" "length nonce = nonceSize c"
  shows "\<exists>ct. encrypt c (Some nonce) data key = Ret (Inr ct) \<and> decrypt c ct key = Ret (Inr data)"
proof -
  obtain k where "deriveKey key = Ret k" using deriveKey_total assms(2) by blast
  then show ?thesis using decrypt_encrypt[OF assms, of data] by (simp add: encrypt_def)
qed

lemma encrypt_roundtrip_witness:
  "\<exists>ct. encrypt \<lparr>seal = (\<lambda>k n p. p @ take 2 k), open_gcm = (\<lambda>k n c. Some (take (length c - 2) c)), nonceSize = 1\<rparr>
      (Some [5]) [1, 2, 3] ''pw'' = Ret (Inr ct)
    \<and> decrypt \<lparr>seal = (\<lambda>k n p. p @ take 2 k), open_gcm = (\<lambda>k n c. Some (take (length c - 2) c)), nonceSize = 1\<rparr>
      ct ''pw'' = Ret (Inr [1, 2, 3])"
  by (rule encrypt_roundtrip) (auto simp: aead_ok_def)

text \<open>
  Passwords are repeated, not hashed, to fill the key: a password and its doubling encrypt
  identically, so each decrypts what the other encrypted.
\<close>

theorem password_collision:
  "encrypt c rnd data (key @ key) = encrypt c rnd data key \<and> decrypt c ct (key @ key) = decrypt c ct key"
  by (simp add: encrypt_def decrypt_def deriveKey_twice)

end
