(* ===== verification/Free_List.thy ===== *)
theory Free_List
  imports Go_Strings
begin

text \<open>
  The free-block manager (\<open>data/defragmentationManager/defragmentationManager.go\<close>): one list of
  free byte ranges per table, loaded lazily from its JSON file and written back after every change.
  The JSON file of a list is modelled by the map it holds (or \<open>Garbage\<close> when it does not parse),
  a disk that refuses a path by \<open>writeRefused\<close> and \<open>openRefused\<close>. \<open>range\<close> over the map takes its
  order from a parameter \<open>it\<close>. The second half is the interface the file worker and the store
  rely on, the locale \<open>span_pool\<close>, and its interpretation on the manager.
\<close>

section \<open>State\<close>

record free_block =
  fb_fileName :: string
  fb_startPtr :: int
  fb_endPtr :: int
  fb_size :: int
  fb_tag :: string
  fb_inUse :: bool

record table_free_list =
  fl_name :: string
  fl_safeName :: string
  fl_path :: string
  fl_loaded :: bool
  fl_blocks :: "free_block gomap"

datatype free_file = Blocks "free_block gomap" | Garbage

record defrag =
  freeRegistry :: "string \<Rightarrow> table_free_list option"
  freeDisk :: "string \<Rightarrow> free_file option"
  openRefused :: "string \<Rightarrow> bool"
  writeRefused :: "string \<Rightarrow> bool"

datatype free_error = EmptyTableName | OpenFailed | DecodeFailed | WriteFailed | NoSuitableBlock

definition new_block :: "string \<Rightarrow> int \<Rightarrow> int \<Rightarrow> free_block" where
  "new_block fileName startPtr endPtr =
     \<lparr>fb_fileName = fileName, fb_startPtr = startPtr, fb_endPtr = endPtr,
      fb_size = endPtr - startPtr, fb_tag = [], fb_inUse = False\<rparr>"

section \<open>The registry, load and save\<close>

text \<open>\<open>filepath.Join("./db/maps", safe, "free_blocks.json")\<close>; the sanitized name has no separator.\<close>

definition free_path :: "string \<Rightarrow> string" where
  "free_path safe =
     ''db/maps/'' @ (if safe = ''.'' then [] else safe @ ''/'') @ ''free_blocks.json''"

definition getTableFreeList :: "defrag \<Rightarrow> string \<Rightarrow> free_error + (string \<times> table_free_list \<times> defrag)" where
  "getTableFreeList d table =
     (let table = trim_space table
      in if table = [] then Inl EmptyTableName
         else (case freeRegistry d table of
                 Some fl \<Rightarrow> Inr (table, fl, d)
               | None \<Rightarrow>
                   (let safe = sanitizeName table;
                        fl = \<lparr>fl_name = table, fl_safeName = safe, fl_path = free_path safe,
                              fl_loaded = False, fl_blocks = []\<rparr>
                    in Inr (table, fl, d\<lparr>freeRegistry := (freeRegistry d)(table \<mapsto> fl)\<rparr>))))"

definition fl_load :: "defrag \<Rightarrow> table_free_list \<Rightarrow> free_error + table_free_list" where
  "fl_load d fl =
     (if fl_loaded fl then Inr fl
      else (case freeDisk d (fl_path fl) of
              None \<Rightarrow> Inr (fl\<lparr>fl_loaded := True\<rparr>)
            | Some file \<Rightarrow>
                if openRefused d (fl_path fl) then Inl OpenFailed
                else (case file of
                        Garbage \<Rightarrow> Inl DecodeFailed
                      | Blocks m \<Rightarrow> Inr (fl\<lparr>fl_blocks := m, fl_loaded := True\<rparr>))))"

definition fl_save :: "defrag \<Rightarrow> table_free_list \<Rightarrow> free_error + defrag" where
  "fl_save d fl =
     (if writeRefused d (fl_path fl) then Inl WriteFailed
      else Inr (d\<lparr>freeDisk := (freeDisk d)(fl_path fl \<mapsto> Blocks (fl_blocks fl))\<rparr>))"

definition put_fl :: "defrag \<Rightarrow> string \<Rightarrow> table_free_list \<Rightarrow> defrag" where
  "put_fl d t fl = d\<lparr>freeRegistry := (freeRegistry d)(t \<mapsto> fl)\<rparr>"

section \<open>MarkAsFree, GetBlock and SaveBlockCheck\<close>

definition markAsFree :: "defrag \<Rightarrow> string \<Rightarrow> string \<Rightarrow> int \<Rightarrow> int \<Rightarrow> defrag \<times> free_error option" where
  "markAsFree d key fileName startPtr endPtr =
     (case getTableFreeList d fileName of
        Inl e \<Rightarrow> (d, Some e)
      | Inr (t, fl, d1) \<Rightarrow>
          (case fl_load d1 fl of
             Inl e \<Rightarrow> (d1, Some e)
           | Inr fl1 \<Rightarrow>
               (let fl2 = fl1\<lparr>fl_blocks :=
                            AList.update key (new_block fileName startPtr endPtr) (fl_blocks fl1)\<rparr>;
                    d2 = put_fl d1 t fl2
                in case fl_save d2 fl2 of Inl e \<Rightarrow> (d2, Some e) | Inr d3 \<Rightarrow> (d3, None))))"

text \<open>The selection loop of \<open>GetBlock\<close>: the smallest block of the file that is large enough, the
  first one in iteration order among equals.\<close>

fun scan_fit :: "int \<Rightarrow> string \<Rightarrow> (string \<times> free_block) option \<Rightarrow> free_block gomap
    \<Rightarrow> (string \<times> free_block) option" where
  "scan_fit sz fileName best [] = best"
| "scan_fit sz fileName best ((key, block) # rest) =
     (if fb_size block < sz then scan_fit sz fileName best rest
      else if fb_fileName block \<noteq> fileName then scan_fit sz fileName best rest
      else (case best of
              None \<Rightarrow> scan_fit sz fileName (Some (key, block)) rest
            | Some (bestKey, bestBlock) \<Rightarrow>
                if fb_size block < fb_size bestBlock
                then scan_fit sz fileName (Some (key, block)) rest
                else scan_fit sz fileName best rest))"

definition getBlock :: "defrag \<Rightarrow> (free_block gomap \<Rightarrow> free_block gomap) \<Rightarrow> int \<Rightarrow> string
    \<Rightarrow> defrag \<times> (free_error + free_block)" where
  "getBlock d it sz fileName =
     (case getTableFreeList d fileName of
        Inl e \<Rightarrow> (d, Inl e)
      | Inr (t, fl, d1) \<Rightarrow>
          (case fl_load d1 fl of
             Inl e \<Rightarrow> (d1, Inl e)
           | Inr fl1 \<Rightarrow>
               (let d2 = put_fl d1 t fl1
                in case scan_fit sz fileName None (go_range it (fl_blocks fl1)) of
                     None \<Rightarrow> (d2, Inl NoSuitableBlock)
                   | Some (bestKey, bestBlock) \<Rightarrow>
                       (let fl2 = fl1\<lparr>fl_blocks := AList.delete bestKey (fl_blocks fl1)\<rparr>;
                            d3 = put_fl d2 t fl2
                        in case fl_save d3 fl2 of
                             Inl e \<Rightarrow> (d3, Inl e)
                           | Inr d4 \<Rightarrow> (d4, Inr bestBlock)))))"

text \<open>The loop of \<open>SaveBlockCheck\<close> stops at the first block of the file that contains the range.\<close>

fun find_containing :: "string \<Rightarrow> int \<Rightarrow> int \<Rightarrow> free_block gomap \<Rightarrow> (string \<times> free_block) option" where
  "find_containing fileName startPtr endPtr [] = None"
| "find_containing fileName startPtr endPtr ((key, block) # rest) =
     (if fb_fileName block \<noteq> fileName then find_containing fileName startPtr endPtr rest
      else if fb_startPtr block \<le> startPtr \<and> endPtr \<le> fb_endPtr block then Some (key, block)
      else find_containing fileName startPtr endPtr rest)"

definition split_block :: "string \<Rightarrow> free_block \<Rightarrow> int \<Rightarrow> int \<Rightarrow> free_block gomap \<Rightarrow> free_block gomap" where
  "split_block key block startPtr endPtr m =
     (if startPtr = fb_startPtr block \<and> endPtr = fb_endPtr block then AList.delete key m
      else if startPtr = fb_startPtr block then
        AList.update key (new_block (fb_fileName block) endPtr (fb_endPtr block)) m
      else if endPtr = fb_endPtr block then
        AList.update key (new_block (fb_fileName block) (fb_startPtr block) startPtr) m
      else
        AList.update (key @ ''_'' @ show_int endPtr)
          (new_block (fb_fileName block) endPtr (fb_endPtr block))
          (AList.update key (new_block (fb_fileName block) (fb_startPtr block) startPtr) m))"

definition saveBlockCheck :: "defrag \<Rightarrow> (free_block gomap \<Rightarrow> free_block gomap) \<Rightarrow> string \<Rightarrow> int \<Rightarrow> int
    \<Rightarrow> defrag" where
  "saveBlockCheck d it fileName startPtr endPtr =
     (case getTableFreeList d fileName of
        Inl e \<Rightarrow> d
      | Inr (t, fl, d1) \<Rightarrow>
          (case fl_load d1 fl of
             Inl e \<Rightarrow> d1
           | Inr fl1 \<Rightarrow>
               (let d2 = put_fl d1 t fl1
                in case find_containing fileName startPtr endPtr (go_range it (fl_blocks fl1)) of
                     None \<Rightarrow> d2
                   | Some (key, block) \<Rightarrow>
                       (let fl2 = fl1\<lparr>fl_blocks :=
                                    split_block key block startPtr endPtr (fl_blocks fl1)\<rparr>;
                            d3 = put_fl d2 t fl2
                        in case fl_save d3 fl2 of Inl e \<Rightarrow> d3 | Inr d4 \<Rightarrow> d4))))"

definition init_defrag :: defrag where
  "init_defrag = \<lparr>freeRegistry = (\<lambda>_. None), freeDisk = (\<lambda>_. None),
                  openRefused = (\<lambda>_. False), writeRefused = (\<lambda>_. False)\<rparr>"

section \<open>The list-level operations\<close>

definition blocks_of :: "string \<Rightarrow> free_block gomap \<Rightarrow> (int \<times> int) set" where
  "blocks_of t m = {(fb_startPtr b, fb_endPtr b) | k b. (k, b) \<in> set m \<and> fb_fileName b = t}"

definition apart :: "int \<times> int \<Rightarrow> int \<times> int \<Rightarrow> bool" where
  "apart p q \<longleftrightarrow> snd p \<le> fst q \<or> snd q \<le> fst p"

definition block_wf :: "free_block \<Rightarrow> bool" where
  "block_wf b \<longleftrightarrow> 0 \<le> fb_startPtr b \<and> fb_startPtr b < fb_endPtr b
     \<and> fb_size b = fb_endPtr b - fb_startPtr b"

abbreviation block_span :: "free_block \<Rightarrow> int \<times> int" where
  "block_span b \<equiv> (fb_startPtr b, fb_endPtr b)"

text \<open>Well-formed lists: the blocks of table \<open>t\<close> are non-empty ranges, no two overlap.\<close>

definition blocks_ok :: "string \<Rightarrow> free_block gomap \<Rightarrow> bool" where
  "blocks_ok t m \<longleftrightarrow> keys_distinct m
     \<and> (\<forall>k b. map_of m k = Some b \<longrightarrow> fb_fileName b = t \<longrightarrow> block_wf b)
     \<and> (\<forall>k b k' b'. map_of m k = Some b \<longrightarrow> map_of m k' = Some b' \<longrightarrow> k \<noteq> k' \<longrightarrow>
          fb_fileName b = t \<longrightarrow> fb_fileName b' = t \<longrightarrow> apart (block_span b) (block_span b'))"

lemma apart_sym: "apart p q \<longleftrightarrow> apart q p"
  by (auto simp: apart_def)

lemma apart_sub: "apart (a, b) q \<Longrightarrow> a \<le> c \<Longrightarrow> d \<le> b \<Longrightarrow> apart (c, d) q"
  by (auto simp: apart_def)

lemma blocks_ok_Nil [simp]: "blocks_ok t []"
  by (simp add: blocks_ok_def)

lemma new_block_simps [simp]:
  "fb_fileName (new_block t a b) = t" "fb_startPtr (new_block t a b) = a"
  "fb_endPtr (new_block t a b) = b" "fb_size (new_block t a b) = b - a"
  by (simp_all add: new_block_def)

lemma block_wf_new [simp]: "block_wf (new_block t a b) \<longleftrightarrow> 0 \<le> a \<and> a < b"
  by (auto simp: block_wf_def)

lemma blocks_of_iff:
  "keys_distinct m \<Longrightarrow>
   p \<in> blocks_of t m \<longleftrightarrow> (\<exists>k b. map_of m k = Some b \<and> fb_fileName b = t \<and> p = block_span b)"
  by (auto simp: blocks_of_def keys_distinct_map_of)

lemma blocks_of_image:
  "blocks_of t m = (\<lambda>p. block_span (snd p)) ` {p \<in> set m. fb_fileName (snd p) = t}"
  by (force simp: blocks_of_def)

lemma blocks_of_insert:
  "set m' = insert (k, b) (set m) \<Longrightarrow>
   blocks_of t m' = (if fb_fileName b = t then insert (block_span b) (blocks_of t m) else blocks_of t m)"
  unfolding blocks_of_def by (auto; blast)

lemma blocks_of_Nil [simp]: "blocks_of t [] = {}"
  by (simp add: blocks_of_def)

text \<open>Selection finds a block exactly when one fits, and then a smallest one.\<close>

definition suits :: "int \<Rightarrow> string \<Rightarrow> string \<times> free_block \<Rightarrow> bool" where
  "suits sz t p \<longleftrightarrow> sz \<le> fb_size (snd p) \<and> fb_fileName (snd p) = t"

lemma scan_fit_skip: "\<not> suits sz t p \<Longrightarrow> scan_fit sz t best (p # xs) = scan_fit sz t best xs"
  by (cases p) (auto simp: suits_def)

lemma scan_fit_take:
  "suits sz t p \<Longrightarrow> scan_fit sz t best (p # xs) =
     (case best of None \<Rightarrow> scan_fit sz t (Some p) xs
      | Some q \<Rightarrow> scan_fit sz t (Some (if fb_size (snd p) < fb_size (snd q) then p else q)) xs)"
  by (cases p) (auto simp: suits_def split: option.splits)

lemma scan_fit_mem:
  "scan_fit sz t best xs = Some r \<Longrightarrow> r \<in> set_option best \<or> r \<in> set xs \<and> suits sz t r"
proof (induction xs arbitrary: best)
  case (Cons p xs)
  show ?case
  proof (cases "suits sz t p")
    case True
    with Cons show ?thesis
      by (cases best) (fastforce simp: scan_fit_take split: if_splits)+
  next
    case False
    with Cons show ?thesis by (auto simp: scan_fit_skip)
  qed
qed simp

lemma scan_fit_min:
  assumes "scan_fit sz t best xs = Some r"
    and "q \<in> set_option best \<or> q \<in> set xs \<and> suits sz t q"
  shows "fb_size (snd r) \<le> fb_size (snd q)"
  using assms
proof (induction xs arbitrary: best q)
  case (Cons p xs)
  show ?case
  proof (cases "suits sz t p")
    case False
    then have "scan_fit sz t best xs = Some r" and "q \<in> set_option best \<or> q \<in> set xs \<and> suits sz t q"
      using Cons.prems by (auto simp: scan_fit_skip)
    then show ?thesis by (rule Cons.IH)
  next
    case True
    define m where "m = (case best of None \<Rightarrow> p | Some c \<Rightarrow> if fb_size (snd p) < fb_size (snd c) then p else c)"
    have r: "scan_fit sz t (Some m) xs = Some r"
      using Cons.prems(1) True by (auto simp: scan_fit_take m_def split: option.splits)
    have m: "fb_size (snd r) \<le> fb_size (snd m)"
      using Cons.IH[OF r, of m] by simp
    show ?thesis
    proof (cases "q \<in> set xs \<and> suits sz t q")
      case True
      then show ?thesis using Cons.IH[OF r, of q] by blast
    next
      case False
      with Cons.prems(2) have "q = p \<or> best = Some q" by auto
      then have "fb_size (snd m) \<le> fb_size (snd q)"
        by (auto simp: m_def split: option.splits)
      with m show ?thesis by simp
    qed
  qed
qed simp

lemma scan_fit_None_iff:
  "scan_fit sz t best xs = None \<longleftrightarrow>
   best = None \<and> (\<forall>k b. (k, b) \<in> set xs \<longrightarrow> fb_fileName b = t \<longrightarrow> fb_size b < sz)"
  by (induction sz t best xs rule: scan_fit.induct) (auto split: option.splits)

lemma blocks_ok_delete:
  assumes "blocks_ok t m"
  shows "blocks_ok t (AList.delete k m)"
  using assms unfolding blocks_ok_def by (auto split: if_splits)

lemma blocks_of_delete:
  assumes "blocks_ok t m" "map_of m k = Some b" "fb_fileName b = t"
  shows "blocks_of t (AList.delete k m) = blocks_of t m - {block_span b}"
proof -
  have d: "keys_distinct m" and w: "block_wf b"
    using assms by (auto simp: blocks_ok_def)
  have "block_span b' \<noteq> block_span b"
    if "map_of m k' = Some b'" "fb_fileName b' = t" "k' \<noteq> k" for k' b'
  proof -
    have "apart (block_span b) (block_span b')"
      using assms that unfolding blocks_ok_def by metis
    with w show ?thesis by (auto simp: apart_def block_wf_def)
  qed
  note other = this
  have d': "keys_distinct (AList.delete k m)" using d by (rule keys_distinct_delete)
  show ?thesis
  proof (rule set_eqI)
    fix p
    have "p \<in> blocks_of t (AList.delete k m) \<longleftrightarrow>
        (\<exists>k' b'. k' \<noteq> k \<and> map_of m k' = Some b' \<and> fb_fileName b' = t \<and> p = block_span b')"
      unfolding blocks_of_iff[OF d'] by (auto split: if_splits)
    also have "\<dots> \<longleftrightarrow> p \<in> blocks_of t m - {block_span b}"
    proof
      assume "\<exists>k' b'. k' \<noteq> k \<and> map_of m k' = Some b' \<and> fb_fileName b' = t \<and> p = block_span b'"
      then obtain k' b' where kb: "k' \<noteq> k" "map_of m k' = Some b'" "fb_fileName b' = t" "p = block_span b'"
        by blast
      moreover have "p \<noteq> block_span b" using other[OF kb(2,3,1)] kb(4) by simp
      ultimately show "p \<in> blocks_of t m - {block_span b}"
        unfolding Diff_iff blocks_of_iff[OF d] singleton_iff by blast
    next
      assume "p \<in> blocks_of t m - {block_span b}"
      then obtain k' b' where kb: "map_of m k' = Some b'" "fb_fileName b' = t" "p = block_span b'"
        and "p \<noteq> block_span b"
        unfolding Diff_iff blocks_of_iff[OF d] singleton_iff by blast
      then have "k' \<noteq> k" using assms(2) by force
      with kb show "\<exists>k' b'. k' \<noteq> k \<and> map_of m k' = Some b' \<and> fb_fileName b' = t \<and> p = block_span b'"
        by blast
    qed
    finally show "p \<in> blocks_of t (AList.delete k m) \<longleftrightarrow> p \<in> blocks_of t m - {block_span b}" .
  qed
qed

lemma blocks_ok_update:
  assumes "blocks_ok t m" "0 \<le> a" "a < b" "\<forall>k' c. map_of m k' = Some c \<longrightarrow> k' \<noteq> k \<longrightarrow>
      fb_fileName c = t \<longrightarrow> apart (a, b) (block_span c)"
  shows "blocks_ok t (AList.update k (new_block t a b) m)"
  using assms unfolding blocks_ok_def by (auto simp: apart_sym split: if_splits)

lemma blocks_of_update:
  assumes "keys_distinct m"
  shows "blocks_of t (AList.update k (new_block t a b) m) \<subseteq> insert (a, b) (blocks_of t m)"
  using assms by (auto simp: blocks_of_iff keys_distinct_update split: if_splits)

lemma find_containing_Some:
  "find_containing t a b xs = Some (k, c) \<Longrightarrow>
   (k, c) \<in> set xs \<and> fb_fileName c = t \<and> fb_startPtr c \<le> a \<and> b \<le> fb_endPtr c"
  by (induction t a b xs rule: find_containing.induct) (auto split: if_splits)

lemma find_containing_None_iff:
  "find_containing t a b xs = None \<longleftrightarrow>
   (\<forall>k c. (k, c) \<in> set xs \<longrightarrow> fb_fileName c = t \<longrightarrow> \<not> (fb_startPtr c \<le> a \<and> b \<le> fb_endPtr c))"
  by (induction t a b xs rule: find_containing.induct) auto

text \<open>
  Splitting a block around a range it contains: the blocks left are sub-ranges of old blocks, still
  pairwise apart, and none of them meets the range.
\<close>

lemma split_block_ok:
  assumes ok: "blocks_ok t m" and c: "map_of m k = Some c" "fb_fileName c = t"
    and r: "fb_startPtr c \<le> a" "b \<le> fb_endPtr c" "a < b"
  shows "blocks_ok t (split_block k c a b m)
    \<and> (\<forall>p \<in> blocks_of t (split_block k c a b m).
         apart p (a, b) \<and> (\<exists>q \<in> blocks_of t m. fst q \<le> fst p \<and> snd p \<le> snd q))"
proof -
  have d: "keys_distinct m" and w: "block_wf c"
    using ok c by (auto simp: blocks_ok_def)
  have oth: "apart (block_span c) (block_span c')"
    if "map_of m k' = Some c'" "k' \<noteq> k" "fb_fileName c' = t" for k' c'
    using ok c that unfolding blocks_ok_def by metis
  have oth': "apart p (block_span c')"
    if "fst p \<ge> fb_startPtr c" "snd p \<le> fb_endPtr c"
      "map_of m k' = Some c'" "k' \<noteq> k" "fb_fileName c' = t" for k' c' p
    using oth[OF that(3-5)] that(1,2) by (auto simp: apart_def)
  have mem: "block_span c \<in> blocks_of t m"
    using c d by (auto simp: blocks_of_iff)
  have rest: "q \<in> blocks_of t m - {block_span c} \<Longrightarrow> apart q (a, b)" for q
    using oth r c d by (fastforce simp: blocks_of_iff apart_def)
  let ?L = "new_block t (fb_startPtr c) a" and ?R = "new_block t b (fb_endPtr c)"
  have del: "blocks_of t (AList.delete k m) = blocks_of t m - {block_span c}"
    by (rule blocks_of_delete[OF ok c])
  have upd: "blocks_of t (AList.update k (new_block t u v) m) \<subseteq> insert (u, v) (blocks_of t m - {block_span c})"
    for u v
  proof -
    have e: "set (AList.update k (new_block t u v) m)
        = insert (k, new_block t u v) (set (AList.delete k m))"
      using d by (simp add: set_update_gomap set_delete_gomap)
    then show ?thesis by (simp add: blocks_of_insert del)
  qed
  have sub: "\<exists>q \<in> blocks_of t m. fst q \<le> fst p \<and> snd p \<le> snd q"
    if "p \<in> insert (u, v) (blocks_of t m - {block_span c})" "fb_startPtr c \<le> u" "v \<le> fb_endPtr c" for p u v
    using that mem by (metis Diff_iff fst_conv insert_iff order_refl snd_conv)
  consider (all) "a = fb_startPtr c" "b = fb_endPtr c"
    | (left) "a = fb_startPtr c" "b \<noteq> fb_endPtr c"
    | (right) "a \<noteq> fb_startPtr c" "b = fb_endPtr c"
    | (mid) "a \<noteq> fb_startPtr c" "b \<noteq> fb_endPtr c" by blast
  then show ?thesis
  proof cases
    case all
    then have "split_block k c a b m = AList.delete k m" by (simp add: split_block_def)
    with del rest show ?thesis by (auto intro: blocks_ok_delete[OF ok])
  next
    case left
    then have e: "split_block k c a b m = AList.update k ?R m" using c by (simp add: split_block_def)
    have "blocks_ok t (AList.update k ?R m)"
      using left r w oth' by (intro blocks_ok_update[OF ok]) (auto simp: block_wf_def)
    moreover have "apart p (a, b)" if "p \<in> insert (b, fb_endPtr c) (blocks_of t m - {block_span c})" for p
      using that rest[of p] by (auto simp: apart_def)
    ultimately show ?thesis
      unfolding e using upd sub[of _ b "fb_endPtr c"] left r by fastforce
  next
    case right
    then have e: "split_block k c a b m = AList.update k ?L m" using c by (simp add: split_block_def)
    have "blocks_ok t (AList.update k ?L m)"
      using right r w oth' by (intro blocks_ok_update[OF ok]) (auto simp: block_wf_def)
    moreover have "apart p (a, b)" if "p \<in> insert (fb_startPtr c, a) (blocks_of t m - {block_span c})" for p
      using that rest[of p] by (auto simp: apart_def)
    ultimately show ?thesis
      unfolding e using upd sub[of _ "fb_startPtr c" a] right r by fastforce
  next
    case mid
    let ?m1 = "AList.update k ?L m" and ?k2 = "k @ ''_'' @ show_int b"
    have e: "split_block k c a b m = AList.update ?k2 ?R ?m1"
      using mid c by (simp add: split_block_def)
    have ok1: "blocks_ok t ?m1"
      using mid r w oth' by (intro blocks_ok_update[OF ok]) (auto simp: block_wf_def)
    have ok2: "blocks_ok t (AList.update ?k2 ?R ?m1)"
    proof (rule blocks_ok_update[OF ok1])
      show "\<forall>k' c'. map_of ?m1 k' = Some c' \<longrightarrow> k' \<noteq> ?k2 \<longrightarrow> fb_fileName c' = t \<longrightarrow>
          apart (b, fb_endPtr c) (block_span c')"
      proof (intro allI impI)
        fix k' c' assume c': "map_of ?m1 k' = Some c'" "fb_fileName c' = t"
        show "apart (b, fb_endPtr c) (block_span c')"
        proof (cases "k' = k")
          case True
          with c' r show ?thesis by (auto simp: apart_def)
        next
          case False
          with c' r show ?thesis by (intro oth'[of _ k']) auto
        qed
      qed
    qed (use mid r w in \<open>auto simp: block_wf_def\<close>)
    have "blocks_of t (AList.update ?k2 ?R ?m1) \<subseteq> insert (b, fb_endPtr c) (blocks_of t ?m1)"
      using d by (intro blocks_of_update) auto
    also have "\<dots> \<subseteq> insert (b, fb_endPtr c)
        (insert (fb_startPtr c, a) (blocks_of t m - {block_span c}))"
      using upd by auto
    finally have u: "blocks_of t (AList.update ?k2 ?R ?m1) \<subseteq> \<dots>" .
    have "apart p (a, b) \<and> (\<exists>q \<in> blocks_of t m. fst q \<le> fst p \<and> snd p \<le> snd q)"
      if "p \<in> blocks_of t (AList.update ?k2 ?R ?m1)" for p
    proof -
      from that u consider "p = (b, fb_endPtr c)" | "p = (fb_startPtr c, a)"
        | "p \<in> blocks_of t m - {block_span c}" by blast
      then have "apart p (a, b)"
      proof cases
        case 3
        then show ?thesis by (rule rest)
      qed (simp_all add: apart_def)
      moreover from u that have "\<exists>q \<in> blocks_of t m. fst q \<le> fst p \<and> snd p \<le> snd q"
        using sub[of p b "fb_endPtr c"] sub[of p "fb_startPtr c" a] r by auto
      ultimately show ?thesis by blast
    qed
    with e ok2 show ?thesis by simp
  qed
qed

section \<open>The effect of the operations on the list of a table\<close>

text \<open>The blocks a call on table \<open>t\<close> works with: what is in memory, or on disk before the first load.\<close>

definition table_blocks :: "defrag \<Rightarrow> string \<Rightarrow> free_block gomap" where
  "table_blocks d t =
     (case getTableFreeList d t of
        Inl _ \<Rightarrow> []
      | Inr (t', fl, d1) \<Rightarrow> (case fl_load d1 fl of Inl _ \<Rightarrow> [] | Inr fl1 \<Rightarrow> fl_blocks fl1))"

definition free_ok :: "string \<Rightarrow> defrag \<Rightarrow> bool" where
  "free_ok t d \<longleftrightarrow> blocks_ok t (table_blocks d t)"

definition free_spans :: "string \<Rightarrow> defrag \<Rightarrow> (int \<times> int) set" where
  "free_spans t d = blocks_of t (table_blocks d t)"

lemma getTableFreeList_key: "getTableFreeList d t = Inr (t', fl, d1) \<Longrightarrow> t' = trim_space t \<and> t' \<noteq> []"
  by (auto simp: getTableFreeList_def Let_def split: if_splits option.splits)

lemma getTableFreeList_disk:
  "getTableFreeList d t = Inr (t', fl, d1) \<Longrightarrow>
   freeDisk d1 = freeDisk d \<and> openRefused d1 = openRefused d \<and> writeRefused d1 = writeRefused d"
  by (auto simp: getTableFreeList_def Let_def split: if_splits option.splits)

lemma fl_load_loaded: "fl_load d fl = Inr fl1 \<Longrightarrow> fl_loaded fl1"
  by (auto simp: fl_load_def split: if_splits option.splits free_file.splits)

lemma table_blocks_get:
  "getTableFreeList d t = Inr (t', fl, d1) \<Longrightarrow> table_blocks d1 t = table_blocks d t"
  by (auto simp: table_blocks_def getTableFreeList_def Let_def split: if_splits option.splits)

lemma table_blocks_put:
  "getTableFreeList d t = Inr (t', fl, d1) \<Longrightarrow> fl_loaded fl2 \<Longrightarrow>
   table_blocks (put_fl d2 t' fl2) t = fl_blocks fl2"
  by (frule getTableFreeList_key)
    (auto simp: table_blocks_def getTableFreeList_def put_fl_def fl_load_def Let_def)

lemma table_blocks_put_save:
  "getTableFreeList d t = Inr (t', fl, d1) \<Longrightarrow> fl_save (put_fl d2 t' fl2) fl2 = Inr d3 \<Longrightarrow>
   fl_loaded fl2 \<Longrightarrow> table_blocks d3 t = fl_blocks fl2"
  by (frule getTableFreeList_key)
    (auto simp: table_blocks_def getTableFreeList_def put_fl_def fl_load_def fl_save_def Let_def
      split: if_splits)

lemma markAsFree_blocks:
  "table_blocks (fst (markAsFree d k t a b)) t =
     (case getTableFreeList d t of
        Inl _ \<Rightarrow> []
      | Inr (t', fl, d1) \<Rightarrow>
          (case fl_load d1 fl of Inl _ \<Rightarrow> []
           | Inr _ \<Rightarrow> AList.update k (new_block t a b) (table_blocks d t)))"
proof (cases "getTableFreeList d t")
  case (Inl e)
  then show ?thesis by (simp add: markAsFree_def table_blocks_def)
next
  case (Inr p)
  obtain t' fl d1 where g: "getTableFreeList d t = Inr (t', fl, d1)" using Inr by (cases p) auto
  show ?thesis
  proof (cases "fl_load d1 fl")
    case (Inl e)
    then show ?thesis
      using g table_blocks_get[OF g] by (simp add: markAsFree_def) (simp add: table_blocks_def g)
  next
    case (Inr fl1)
    have "table_blocks d t = fl_blocks fl1" using g Inr by (simp add: table_blocks_def)
    moreover have "fl_loaded fl1" by (rule fl_load_loaded[OF Inr])
    ultimately show ?thesis
      using g Inr
      by (auto simp: markAsFree_def Let_def table_blocks_put[OF g] table_blocks_put_save[OF g]
          split: sum.splits)
  qed
qed

text \<open>What \<open>GetBlock\<close> and \<open>SaveBlockCheck\<close> do to the list, by the outcome of loading it.\<close>

lemma table_blocks_cases:
  obtains (failed) d1 where
      "\<And>it sz. fst (getBlock d it sz t) = d1 \<and> (\<exists>e. snd (getBlock d it sz t) = Inl e)"
      "\<And>it a b. saveBlockCheck d it t a b = d1"
      "table_blocks d1 t = []" "table_blocks d t = []"
  | (loaded) t' fl d1 fl1 where
      "getTableFreeList d t = Inr (t', fl, d1)" "fl_load d1 fl = Inr fl1" "fl_loaded fl1"
      "table_blocks d t = fl_blocks fl1"
proof (cases "getTableFreeList d t")
  case (Inl e)
  then show thesis
    by (intro failed[of d]) (auto simp: getBlock_def saveBlockCheck_def table_blocks_def)
next
  case (Inr p)
  obtain t' fl d1 where g: "getTableFreeList d t = Inr (t', fl, d1)" using Inr by (cases p) auto
  show thesis
  proof (cases "fl_load d1 fl")
    case (Inl e)
    then have "table_blocks d t = []" using g by (simp add: table_blocks_def)
    with g Inl show thesis
      by (intro failed[of d1]) (auto simp: getBlock_def saveBlockCheck_def table_blocks_get[OF g])
  next
    case (Inr fl1)
    then show thesis using g fl_load_loaded by (intro loaded) (auto simp: table_blocks_def)
  qed
qed

lemma getBlock_cases:
  assumes "getBlock d it sz t = (d', r)"
  shows "(table_blocks d' t = table_blocks d t \<and> (\<exists>e. r = Inl e))
    \<or> (\<exists>k b. scan_fit sz t None (go_range it (table_blocks d t)) = Some (k, b)
        \<and> table_blocks d' t = AList.delete k (table_blocks d t) \<and> (r = Inr b \<or> r = Inl WriteFailed))"
proof (cases rule: table_blocks_cases[of d t])
  case (failed d1)
  then show ?thesis using assms by (metis fst_conv snd_conv)
next
  case (loaded t' fl d1 fl1)
  note p = table_blocks_put[OF loaded(1)] table_blocks_put_save[OF loaded(1)]
  show ?thesis
  proof (cases "scan_fit sz t None (go_range it (fl_blocks fl1))")
    case None
    with assms loaded show ?thesis by (auto simp: getBlock_def p)
  next
    case (Some q)
    obtain k b where q: "q = (k, b)" by (cases q)
    define fl2 where "fl2 = fl1\<lparr>fl_blocks := AList.delete k (fl_blocks fl1)\<rparr>"
    have l2: "fl_loaded fl2" and b2: "fl_blocks fl2 = AList.delete k (table_blocks d t)"
      using loaded by (simp_all add: fl2_def)
    have g: "getBlock d it sz t =
        (case fl_save (put_fl (put_fl d1 t' fl1) t' fl2) fl2 of
           Inl e \<Rightarrow> (put_fl (put_fl d1 t' fl1) t' fl2, Inl e) | Inr d4 \<Rightarrow> (d4, Inr b))"
      using loaded Some q 
      by (simp add: getBlock_def Let_def flip: fl2_def split: sum.split)
    have "table_blocks d' t = fl_blocks fl2 \<and> (r = Inr b \<or> r = Inl WriteFailed)"
    proof (cases "fl_save (put_fl (put_fl d1 t' fl1) t' fl2) fl2")
      case (Inl e)
      then have "e = WriteFailed" by (auto simp: fl_save_def split: if_splits)
      with Inl g assms l2 show ?thesis by (auto simp: p)
    next
      case (Inr d4)
      with g assms p(2)[OF Inr l2] show ?thesis by auto
    qed
    with Some q loaded(4) b2 show ?thesis by auto
  qed
qed

lemma saveBlockCheck_cases:
  "table_blocks (saveBlockCheck d it t a b) t =
     (case find_containing t a b (go_range it (table_blocks d t)) of
        None \<Rightarrow> table_blocks d t
      | Some (k, c) \<Rightarrow> split_block k c a b (table_blocks d t))
   \<or> table_blocks d t = [] \<and> table_blocks (saveBlockCheck d it t a b) t = []"
proof (cases rule: table_blocks_cases[of d t])
  case (failed d1)
  then show ?thesis by metis
next
  case (loaded t' fl d1 fl1)
  note p = table_blocks_put[OF loaded(1)] table_blocks_put_save[OF loaded(1)]
  show ?thesis
  proof (cases "find_containing t a b (go_range it (fl_blocks fl1))")
    case None
    with loaded show ?thesis by (auto simp: saveBlockCheck_def p)
  next
    case (Some q)
    obtain k c where "q = (k, c)" by (cases q)
    with Some loaded show ?thesis
      by (auto simp: saveBlockCheck_def Let_def p split: sum.splits)
  qed
qed

section \<open>The interface: a pool of free spans\<close>

text \<open>
  What the writers of data files rely on: allocation hands out a span of the pool that is large
  enough and takes it out, releasing a span that is apart from the pool adds at most that span,
  claiming a range the pool does not meet changes nothing.
\<close>

locale span_pool =
  fixes alloc :: "'p \<Rightarrow> int \<Rightarrow> 'p \<times> (int \<times> int) option"
    and release :: "'p \<Rightarrow> string \<Rightarrow> int \<Rightarrow> int \<Rightarrow> 'p"
    and claim :: "'p \<Rightarrow> int \<Rightarrow> int \<Rightarrow> 'p"
    and spans :: "'p \<Rightarrow> (int \<times> int) set"
    and ok :: "'p \<Rightarrow> bool"
  assumes span_wf: "ok p \<Longrightarrow> s \<in> spans p \<Longrightarrow> 0 \<le> fst s \<and> fst s < snd s"
    and spans_apart: "ok p \<Longrightarrow> s \<in> spans p \<Longrightarrow> s' \<in> spans p \<Longrightarrow> s = s' \<or> apart s s'"
    and alloc_Some: "ok p \<Longrightarrow> alloc p n = (p', Some s) \<Longrightarrow>
          ok p' \<and> s \<in> spans p \<and> n \<le> snd s - fst s \<and> spans p' = spans p - {s}"
    and alloc_None: "ok p \<Longrightarrow> alloc p n = (p', None) \<Longrightarrow> ok p' \<and> spans p' \<subseteq> spans p"
    and release_ok: "ok p \<Longrightarrow> 0 \<le> a \<Longrightarrow> a < b \<Longrightarrow> \<forall>s \<in> spans p. apart (a, b) s \<Longrightarrow>
          ok (release p k a b) \<and> spans (release p k a b) \<subseteq> insert (a, b) (spans p)"
    and claim_apart: "ok p \<Longrightarrow> a < b \<Longrightarrow> \<forall>s \<in> spans p. apart (a, b) s \<Longrightarrow>
          ok (claim p a b) \<and> spans (claim p a b) = spans p"
    and claim_ok: "ok p \<Longrightarrow> a < b \<Longrightarrow> ok (claim p a b) \<and>
          (\<forall>s \<in> spans (claim p a b). \<exists>s' \<in> spans p. fst s' \<le> fst s \<and> snd s \<le> snd s')"
begin

text \<open>
  The live records of a file of length \<open>len\<close>: \<open>live k\<close> is the range of key \<open>k\<close>. They lie in the file,
  no two overlap, and none meets a free span.
\<close>

definition separated :: "'p \<Rightarrow> (string \<Rightarrow> (int \<times> int) option) \<Rightarrow> int \<Rightarrow> bool" where
  "separated p live len \<longleftrightarrow> ok p \<and> 0 \<le> len
     \<and> (\<forall>k s. live k = Some s \<longrightarrow> 0 \<le> fst s \<and> fst s < snd s \<and> snd s \<le> len)
     \<and> (\<forall>s \<in> spans p. snd s \<le> len)
     \<and> (\<forall>k k' s s'. live k = Some s \<longrightarrow> live k' = Some s' \<longrightarrow> k \<noteq> k' \<longrightarrow> apart s s')
     \<and> (\<forall>k s. live k = Some s \<longrightarrow> (\<forall>s' \<in> spans p. apart s s'))"

lemma separated_live:
  "separated p live len \<Longrightarrow> live k = Some s \<Longrightarrow>
   0 \<le> fst s \<and> fst s < snd s \<and> snd s \<le> len \<and> (\<forall>s' \<in> spans p. apart s s')"
  unfolding separated_def by blast

lemma separated_pool: "separated p live len \<Longrightarrow> ok p \<and> 0 \<le> len"
  unfolding separated_def by blast

lemma separated_span: "separated p live len \<Longrightarrow> s \<in> spans p \<Longrightarrow> snd s \<le> len"
  unfolding separated_def by blast

lemma separated_other:
  "separated p live len \<Longrightarrow> live k = Some s \<Longrightarrow> live k' = Some s' \<Longrightarrow> k \<noteq> k' \<Longrightarrow> apart s s'"
  unfolding separated_def by blast

text \<open>Where a record of length \<open>n\<close> goes: to the start of the block found, or to the end of the file.\<close>

definition place :: "(int \<times> int) option \<Rightarrow> int \<Rightarrow> int" where
  "place r len = (case r of Some s \<Rightarrow> fst s | None \<Rightarrow> len)"

text \<open>
  The range a write goes to meets no live record and no span left in the pool; the block asked for may be
  longer than the record.
\<close>

lemma place_fits:
  assumes sep: "separated p live len" and n: "0 < n" "n \<le> m" and al: "alloc p m = (p', r)"
  shows "ok p'" "0 \<le> place r len" "spans p' \<subseteq> spans p"
    "\<forall>s \<in> spans p'. apart (place r len, place r len + n) s"
    "\<forall>k s. live k = Some s \<longrightarrow> apart (place r len, place r len + n) s"
    "place r len \<le> len"
proof -
  have ok: "ok p" and len: "0 \<le> len" using separated_pool[OF sep] by simp_all
  note live = separated_live[OF sep]
  have all: "ok p' \<and> 0 \<le> place r len \<and> spans p' \<subseteq> spans p
     \<and> (\<forall>s \<in> spans p'. apart (place r len, place r len + n) s)
     \<and> (\<forall>k s. live k = Some s \<longrightarrow> apart (place r len, place r len + n) s) \<and> place r len \<le> len"
  proof (cases r)
    case None
    then have 1: "ok p' \<and> spans p' \<subseteq> spans p" using alloc_None[OF ok] al by simp
    have 2: "apart (len, len + n) s" if "snd s \<le> len" for s
      using that by (simp add: apart_def)
    have "apart (len, len + n) s" if "s \<in> spans p'" for s
      using 1 that by (intro 2 separated_span[OF sep]) auto
    moreover have "apart (len, len + n) s" if "live k = Some s" for k s
      using live[OF that] by (intro 2) simp
    ultimately show ?thesis using 1 None len unfolding place_def by simp
  next
    case (Some s)
    from al Some have "ok p' \<and> s \<in> spans p \<and> m \<le> snd s - fst s \<and> spans p' = spans p - {s}"
      using alloc_Some[OF ok] by simp
    then have *: "ok p' \<and> s \<in> spans p \<and> n \<le> snd s - fst s \<and> spans p' = spans p - {s}"
      using n(2) by simp
    have ab: "0 \<le> fst s" "snd s \<le> len" "fst s < snd s"
      using * span_wf[OF ok, of s] separated_span[OF sep, of s] by simp_all
    have shrink: "apart (fst s, fst s + n) s'" if "apart s s'" for s'
    proof -
      from * have "n \<le> snd s - fst s" by (elim conjE)
      with that show ?thesis by (auto simp: apart_def)
    qed
    have "apart (fst s, fst s + n) s'" if "s' \<in> spans p'" for s'
      using that * spans_apart[OF ok, of s s'] by (intro shrink) auto
    moreover have "apart (fst s, fst s + n) s'" if "live k = Some s'" for k s'
    proof -
      have "apart s' s" using live[OF that] * by blast
      then show ?thesis by (intro shrink) (simp only: apart_sym)
    qed
    ultimately show ?thesis using * ab Some unfolding place_def by simp
  qed
  then show "ok p'" "0 \<le> place r len" "spans p' \<subseteq> spans p"
    "\<forall>s \<in> spans p'. apart (place r len, place r len + n) s"
    "\<forall>k s. live k = Some s \<longrightarrow> apart (place r len, place r len + n) s"
    "place r len \<le> len" by simp_all
qed

lemma place_fresh:
  assumes "separated p live len" "0 < n" "alloc p n = (p', r)"
  shows "ok p'" "0 \<le> place r len" "spans p' \<subseteq> spans p"
    "\<forall>s \<in> spans p'. apart (place r len, place r len + n) s"
    "\<forall>k s. live k = Some s \<longrightarrow> apart (place r len, place r len + n) s"
    "place r len \<le> len"
  by (rule place_fits[OF assms(1,2) order_refl assms(3)])+

text \<open>
  Storing a record under a key: allocate, claim the range written if it comes from a free block,
  release the old range of the key. A claim of a fresh range leaves the spans as they are, so the
  lemma allows any pool \<open>p2\<close> with the same ones. Dropping a key releases its range. Both keep the
  file separated.
\<close>

lemma store_fits:
  assumes sep: "separated p live len" and n: "0 < n" "n \<le> m" and al: "alloc p m = (p1, r)"
    and a: "a = place r len" and c: "ok p2 \<and> spans p2 = spans p1"
    and p3: "p3 = (case live k of None \<Rightarrow> p2 | Some s \<Rightarrow> release p2 k (fst s) (snd s))"
    and s: "s = (a, a + n)"
  shows "separated p3 (live(k \<mapsto> s)) (max len (snd s))"
    and "\<forall>k' s'. live k' = Some s' \<longrightarrow> apart s s'"
    and "fst s \<le> len" and "snd s = fst s + n"
proof -
  note fr = place_fits[OF sep n al, folded a]
  have sub: "spans p2 \<subseteq> spans p" using c fr(3) by simp
  have p3_ok: "ok p3 \<and> (\<forall>q \<in> spans p3. q \<in> spans p2 \<or> live k = Some q)"
  proof (cases "live k")
    case (Some q)
    have "\<forall>q' \<in> spans p2. apart (fst q, snd q) q'"
      using separated_live[OF sep Some] sub by auto
    then have "ok (release p2 k (fst q) (snd q)) \<and> spans (release p2 k (fst q) (snd q)) \<subseteq> insert q (spans p2)"
      using release_ok[of p2 "fst q" "snd q" k] c separated_live[OF sep Some] by simp
    with Some p3 show ?thesis by auto
  qed (use p3 c in simp)
  show "\<forall>k' s'. live k' = Some s' \<longrightarrow> apart s s'" using fr(5) s by simp
  show "fst s \<le> len" "snd s = fst s + n" using fr(6) s by simp_all
  show "separated p3 (live(k \<mapsto> s)) (max len (snd s))"
    unfolding separated_def
  proof (intro conjI allI impI ballI)
    show "ok p3" using p3_ok by simp
    show "0 \<le> max len (snd s)" using separated_pool[OF sep] by (simp add: le_max_iff_disj)
  next
    fix k' q assume q: "(live(k \<mapsto> s)) k' = Some q"
    show "0 \<le> fst q" "fst q < snd q" "snd q \<le> max len (snd s)"
      using q separated_live[OF sep, of k' q] fr(2) n s by (auto split: if_splits)
  next
    fix q assume "q \<in> spans p3"
    then have "q \<in> spans p \<or> live k = Some q" using p3_ok sub by blast
    then show "snd q \<le> max len (snd s)"
      using separated_span[OF sep, of q] separated_live[OF sep, of k q] by auto
  next
    fix k1 k2 s1 s2
    assume k: "(live(k \<mapsto> s)) k1 = Some s1" "(live(k \<mapsto> s)) k2 = Some s2" "k1 \<noteq> k2"
    consider "k1 = k" | "k2 = k" | "k1 \<noteq> k" "k2 \<noteq> k" by blast
    then show "apart s1 s2"
    proof cases
      case 1
      then show ?thesis using k fr(5) s by fastforce
    next
      case 2
      then have "live k1 = Some s1" "s2 = (a, a + n)" using k s by auto
      then show ?thesis using fr(5) apart_sym by blast
    qed (use k separated_other[OF sep, of k1 s1 k2 s2] in simp)
  next
    fix k' q q' assume q: "(live(k \<mapsto> s)) k' = Some q" and q': "q' \<in> spans p3"
    show "apart q q'"
    proof (cases "k' = k")
      case True
      then have "q = s" using q by simp
      moreover have "q' \<in> spans p1 \<or> live k = Some q'" using q' p3_ok c by simp
      ultimately show ?thesis using fr(4,5) s by blast
    next
      case False
      then have l: "live k' = Some q" using q by simp
      from q' p3_ok consider "q' \<in> spans p2" | "live k = Some q'" by blast
      then show ?thesis
        using separated_live[OF sep l] separated_other[OF sep l _ False] sub by cases auto
    qed
  qed
qed

lemma store_separated:
  assumes "separated p live len" "0 < n" "alloc p n = (p1, r)"
    and "a = place r len" and "ok p2 \<and> spans p2 = spans p1"
    and "p3 = (case live k of None \<Rightarrow> p2 | Some s \<Rightarrow> release p2 k (fst s) (snd s))"
    and "s = (a, a + n)"
  shows "separated p3 (live(k \<mapsto> s)) (max len (snd s))"
    and "\<forall>k' s'. live k' = Some s' \<longrightarrow> apart s s'"
    and "fst s \<le> len" and "snd s = fst s + n"
  using store_fits[OF assms(1,2) order_refl assms(3-7)] by blast+

lemma claim_fresh:
  assumes "separated p live len" "0 < n" "alloc p n = (p1, r)" "a = place r len"
  shows "ok p1" "ok (claim p1 a (a + n)) \<and> spans (claim p1 a (a + n)) = spans p1"
  using place_fresh[OF assms(1-3), folded assms(4)] claim_apart[of p1 a "a + n"] assms(2) by simp_all

lemma release_separated:
  assumes sep: "separated p live len" and k: "live k = Some s"
  shows "separated (release p k (fst s) (snd s)) (live(k := None)) len"
proof -
  note l = separated_live[OF sep k]
  have r: "ok (release p k (fst s) (snd s)) \<and> spans (release p k (fst s) (snd s)) \<subseteq> insert s (spans p)"
    using release_ok[of p "fst s" "snd s" k] l separated_pool[OF sep] by simp
  show ?thesis
    unfolding separated_def
  proof (intro conjI allI impI ballI)
    show "ok (release p k (fst s) (snd s))" "0 \<le> len" using r separated_pool[OF sep] by simp_all
  next
    fix k' q assume "(live(k := None)) k' = Some q"
    then show "0 \<le> fst q" "fst q < snd q" "snd q \<le> len"
      using separated_live[OF sep, of k' q] by (auto split: if_splits)
  next
    fix q assume "q \<in> spans (release p k (fst s) (snd s))"
    then show "snd q \<le> len" using r l separated_span[OF sep, of q] by auto
  next
    fix k1 k2 s1 s2
    assume "(live(k := None)) k1 = Some s1" "(live(k := None)) k2 = Some s2" "k1 \<noteq> k2"
    then show "apart s1 s2"
      using separated_other[OF sep, of k1 s1 k2 s2] by (auto split: if_splits)
  next
    fix k' q q' assume q: "(live(k := None)) k' = Some q"
      and q': "q' \<in> spans (release p k (fst s) (snd s))"
    then have "live k' = Some q" "k' \<noteq> k" by (auto split: if_splits)
    then show "apart q q'"
      using q' r separated_live[OF sep, of k' q] separated_other[OF sep _ k, of k' q] by auto
  qed
qed

end

section \<open>The manager is a span pool\<close>

definition pool_alloc :: "(free_block gomap \<Rightarrow> free_block gomap) \<Rightarrow> string \<Rightarrow> defrag \<Rightarrow> int
    \<Rightarrow> defrag \<times> (int \<times> int) option" where
  "pool_alloc it t d n =
     (case getBlock d it n t of
        (d', Inl e) \<Rightarrow> (d', None)
      | (d', Inr b) \<Rightarrow> (d', Some (block_span b)))"

definition pool_release :: "string \<Rightarrow> defrag \<Rightarrow> string \<Rightarrow> int \<Rightarrow> int \<Rightarrow> defrag" where
  "pool_release t d k a b = fst (markAsFree d k t a b)"

definition pool_claim :: "(free_block gomap \<Rightarrow> free_block gomap) \<Rightarrow> string \<Rightarrow> defrag \<Rightarrow> int \<Rightarrow> int
    \<Rightarrow> defrag" where
  "pool_claim it t d a b = saveBlockCheck d it t a b"

lemma blocks_of_mem:
  "blocks_ok t m \<Longrightarrow> s \<in> blocks_of t m \<Longrightarrow>
   \<exists>k b. map_of m k = Some b \<and> fb_fileName b = t \<and> s = block_span b \<and> block_wf b"
  by (auto simp: blocks_ok_def blocks_of_iff)

lemma blocks_of_apart:
  assumes "blocks_ok t m" "s \<in> blocks_of t m" "s' \<in> blocks_of t m"
  shows "s = s' \<or> apart s s'"
proof -
  obtain k b k' b' where "map_of m k = Some b" "fb_fileName b = t" "s = block_span b"
    and "map_of m k' = Some b'" "fb_fileName b' = t" "s' = block_span b'"
    using assms blocks_of_mem by meson
  with assms(1) show ?thesis unfolding blocks_ok_def by (metis option.inject)
qed

lemma blocks_of_delete_subset: "blocks_of t (AList.delete k m) \<subseteq> blocks_of t m"
  unfolding blocks_of_image set_delete_gomap by blast

lemma scan_fit_blocks:
  assumes ok: "blocks_ok t m" and sc: "scan_fit sz t None (go_range it m) = Some (k, b)"
  shows "map_of m k = Some b" "fb_fileName b = t" "sz \<le> fb_endPtr b - fb_startPtr b"
    "block_span b \<in> blocks_of t m"
proof -
  have mem: "(k, b) \<in> set m" and su: "suits sz t (k, b)" using scan_fit_mem[OF sc] by auto
  have d: "keys_distinct m" using ok by (simp add: blocks_ok_def)
  show m: "map_of m k = Some b" using mem d by (simp add: keys_distinct_map_of)
  show t: "fb_fileName b = t" using su by (simp add: suits_def)
  then have "block_wf b" using ok m by (auto simp: blocks_ok_def)
  then show "sz \<le> fb_endPtr b - fb_startPtr b" using su by (simp add: suits_def block_wf_def)
  show "block_span b \<in> blocks_of t m" using m t d by (auto simp: blocks_of_iff)
qed

lemma markAsFree_ok:
  assumes ok: "free_ok t d" and r: "0 \<le> a" "a < b" "\<forall>s \<in> free_spans t d. apart (a, b) s"
  shows "free_ok t (fst (markAsFree d k t a b))
    \<and> free_spans t (fst (markAsFree d k t a b)) \<subseteq> insert (a, b) (free_spans t d)"
proof -
  let ?m = "table_blocks d t"
  have m: "blocks_ok t ?m" "keys_distinct ?m" using ok by (auto simp: free_ok_def blocks_ok_def)
  have ap: "apart (a, b) (block_span c)" if "map_of ?m k' = Some c" "fb_fileName c = t" for k' c
  proof -
    have "block_span c \<in> blocks_of t ?m" unfolding blocks_of_iff[OF m(2)] using that by blast
    then show ?thesis using r(3) unfolding free_spans_def by blast
  qed
  have "blocks_ok t (AList.update k (new_block t a b) ?m)"
    by (rule blocks_ok_update[OF m(1) r(1,2)]) (use ap in blast)
  moreover have "blocks_of t (AList.update k (new_block t a b) ?m) \<subseteq> insert (a, b) (blocks_of t ?m)"
    by (rule blocks_of_update[OF m(2)])
  ultimately show ?thesis
    unfolding free_ok_def free_spans_def markAsFree_blocks
    by (auto split: sum.split)
qed

lemma saveBlockCheck_ok:
  assumes ok: "free_ok t d" and r: "a < b"
  shows "free_ok t (saveBlockCheck d it t a b)
    \<and> (\<forall>s \<in> free_spans t (saveBlockCheck d it t a b).
         \<exists>s' \<in> free_spans t d. fst s' \<le> fst s \<and> snd s \<le> snd s')
    \<and> ((\<forall>s \<in> free_spans t d. apart (a, b) s) \<longrightarrow>
         free_spans t (saveBlockCheck d it t a b) = free_spans t d)"
proof -
  let ?m = "table_blocks d t" and ?m' = "table_blocks (saveBlockCheck d it t a b) t"
  have m: "blocks_ok t ?m" "keys_distinct ?m" using ok by (auto simp: free_ok_def blocks_ok_def)
  from saveBlockCheck_cases[of d it t a b] consider (same) "?m' = ?m"
    | (split) k c where "find_containing t a b (go_range it ?m) = Some (k, c)" "?m' = split_block k c a b ?m"
    by (fastforce split: option.splits)
  then show ?thesis
  proof cases
    case same
    then show ?thesis using ok by (auto simp: free_ok_def free_spans_def)
  next
    case split
    note f = find_containing_Some[OF split(1)]
    then have k: "map_of ?m k = Some c" "fb_fileName c = t" using m by (auto simp: keys_distinct_map_of)
    note s = split_block_ok[OF m(1) k _ _ r, of]
    have "block_span c \<in> free_spans t d" using k m by (auto simp: free_spans_def blocks_of_iff)
    moreover have "\<not> apart (a, b) (block_span c)" using f r by (auto simp: apart_def)
    ultimately show ?thesis
      using s f split(2) by (auto simp: free_ok_def free_spans_def)
  qed
qed

interpretation defrag_pool: span_pool "pool_alloc it t" "pool_release t" "pool_claim it t"
  "free_spans t" "free_ok t" for it t
proof unfold_locales
  fix p :: defrag and s s' assume "free_ok t p" "s \<in> free_spans t p"
  then show "0 \<le> fst s \<and> fst s < snd s"
    using blocks_of_mem[of t "table_blocks p t" s] by (auto simp: free_ok_def free_spans_def block_wf_def)
next
  fix p :: defrag and s s' assume "free_ok t p" "s \<in> free_spans t p" "s' \<in> free_spans t p"
  then show "s = s' \<or> apart s s'"
    unfolding free_ok_def free_spans_def by (rule blocks_of_apart)
next
  fix p p' :: defrag and n s assume ok: "free_ok t p" and al: "pool_alloc it t p n = (p', Some s)"
  obtain r where g: "getBlock p it n t = (p', r)" and s: "map_sum id block_span r = Inr s"
    using al by (auto simp: pool_alloc_def split: prod.splits sum.splits)
  then obtain b where r: "r = Inr b" "s = block_span b" by (cases r) auto
  from getBlock_cases[OF g] r obtain k where
    sc: "scan_fit n t None (go_range it (table_blocks p t)) = Some (k, b)"
    and m': "table_blocks p' t = AList.delete k (table_blocks p t)" by auto
  note f = scan_fit_blocks[OF ok[unfolded free_ok_def] sc]
  show "free_ok t p' \<and> s \<in> free_spans t p \<and> n \<le> snd s - fst s \<and> free_spans t p' = free_spans t p - {s}"
    using f r m' blocks_ok_delete[OF ok[unfolded free_ok_def]] blocks_of_delete[OF ok[unfolded free_ok_def] f(1,2)]
    by (simp add: free_ok_def free_spans_def)
next
  fix p p' :: defrag and n assume ok: "free_ok t p" and al: "pool_alloc it t p n = (p', None)"
  then obtain e where g: "getBlock p it n t = (p', Inl e)"
    by (auto simp: pool_alloc_def split: prod.splits sum.splits)
  have "free_ok t p' \<and> (\<exists>k. table_blocks p' t = table_blocks p t \<or> table_blocks p' t = AList.delete k (table_blocks p t))"
    using getBlock_cases[OF g] ok blocks_ok_delete by (auto simp: free_ok_def)
  then show "free_ok t p' \<and> free_spans t p' \<subseteq> free_spans t p"
    using blocks_of_delete_subset unfolding free_spans_def by (metis subset_refl)
next
  fix p :: defrag and a b k assume "free_ok t p" "0 \<le> a" "a < b" "\<forall>s \<in> free_spans t p. apart (a, b) s"
  then show "free_ok t (pool_release t p k a b)
      \<and> free_spans t (pool_release t p k a b) \<subseteq> insert (a, b) (free_spans t p)"
    unfolding pool_release_def by (rule markAsFree_ok)
next
  fix p :: defrag and a b :: int assume ok: "free_ok t p" "a < b" "\<forall>s \<in> free_spans t p. apart (a, b) s"
  then show "free_ok t (pool_claim it t p a b) \<and> free_spans t (pool_claim it t p a b) = free_spans t p"
    unfolding pool_claim_def using saveBlockCheck_ok[OF ok(1,2)] by blast
next
  fix p :: defrag and a b :: int assume ok: "free_ok t p" "a < b"
  then show "free_ok t (pool_claim it t p a b) \<and> (\<forall>s \<in> free_spans t (pool_claim it t p a b).
      \<exists>s' \<in> free_spans t p. fst s' \<le> fst s \<and> snd s \<le> snd s')"
    unfolding pool_claim_def using saveBlockCheck_ok[OF ok] by blast
qed

section \<open>Properties\<close>

lemma table_blocks_of: "free_ok t d \<Longrightarrow> s \<in> free_spans t d \<longleftrightarrow>
   (\<exists>k b. map_of (table_blocks d t) k = Some b \<and> fb_fileName b = t \<and> s = block_span b)"
  unfolding free_ok_def free_spans_def by (intro blocks_of_iff) (simp add: blocks_ok_def)

text \<open>
  C11: Allocation is best fit and hands out each block once: when \<open>GetBlock\<close> returns a block it is a free
  block of the table that is large enough, no free block that is large enough is smaller, the
  free blocks that remain are the others, and they still are disjoint non-empty ranges.
\<close>

theorem getBlock_best_fit:
  assumes ok: "free_ok t d" and g: "getBlock d it n t = (d', Inr b)"
  shows "block_span b \<in> free_spans t d \<and> n \<le> fb_endPtr b - fb_startPtr b
    \<and> (\<forall>s \<in> free_spans t d. n \<le> snd s - fst s \<longrightarrow> fb_endPtr b - fb_startPtr b \<le> snd s - fst s)
    \<and> free_spans t d' = free_spans t d - {block_span b} \<and> free_ok t d'"
proof -
  let ?m = "table_blocks d t"
  have m: "blocks_ok t ?m" "keys_distinct ?m" using ok by (auto simp: free_ok_def blocks_ok_def)
  obtain k where sc: "scan_fit n t None (go_range it ?m) = Some (k, b)"
    using getBlock_cases[OF g] by auto
  have al: "pool_alloc it t d n = (d', Some (block_span b))" using g by (simp add: pool_alloc_def)
  note a = defrag_pool.alloc_Some[OF ok al]
  have "fb_endPtr b - fb_startPtr b \<le> snd s - fst s"
    if s: "s \<in> free_spans t d" "n \<le> snd s - fst s" for s
  proof -
    obtain k' b' where kb: "map_of ?m k' = Some b'" "fb_fileName b' = t" "s = block_span b'"
      using s(1) table_blocks_of[OF ok] by blast
    have wf: "block_wf b'" using m(1) kb(1,2) by (auto simp: blocks_ok_def)
    have "(k', b') \<in> set (go_range it ?m)" using kb(1) m(2) by (simp add: keys_distinct_map_of)
    moreover have "suits n t (k', b')" using kb s(2) wf by (simp add: suits_def block_wf_def)
    ultimately have "fb_size b \<le> fb_size b'" using scan_fit_min[OF sc] by force
    moreover have "block_wf b" using scan_fit_blocks[OF m(1) sc] m(1) by (auto simp: blocks_ok_def)
    ultimately show ?thesis using wf kb(3) by (simp add: block_wf_def)
  qed
  then show ?thesis using a by simp
qed

definition demo_free :: defrag where
  "demo_free = fst (markAsFree (fst (markAsFree init_defrag ''k'' ''t'' 4 20)) ''j'' ''t'' 30 40)"

lemma demo_free_facts:
  "table_blocks demo_free ''t'' = [(''k'', new_block ''t'' 4 20), (''j'', new_block ''t'' 30 40)]"
  "snd (getBlock demo_free (\<lambda>xs. xs) 5 ''t'') = Inr (new_block ''t'' 30 40)"
  by code_simp+

lemma demo_free_ok: "free_ok ''t'' demo_free"
  unfolding free_ok_def demo_free_facts
  by (auto simp: blocks_ok_def block_wf_def new_block_def keys_distinct_def apart_def split: if_splits)

lemma getBlock_best_fit_witness:
  "\<exists>d'. getBlock demo_free (\<lambda>xs. xs) 5 ''t'' = (d', Inr (new_block ''t'' 30 40))
    \<and> (30, 40) \<in> free_spans ''t'' demo_free \<and> (30, 40) \<notin> free_spans ''t'' d'"
proof -
  obtain d' where g: "getBlock demo_free (\<lambda>xs. xs) 5 ''t'' = (d', Inr (new_block ''t'' 30 40))"
    using demo_free_facts(2) by (cases "getBlock demo_free (\<lambda>xs. xs) 5 ''t''") auto
  show ?thesis
    using getBlock_best_fit[OF demo_free_ok g] g by (simp add: new_block_def)
qed

lemma find_containing_None:
  "find_containing t a b xs = None \<Longrightarrow> (k, c) \<in> set xs \<Longrightarrow> fb_fileName c = t \<Longrightarrow>
   \<not> (fb_startPtr c \<le> a \<and> b \<le> fb_endPtr c)"
  by (induction t a b xs rule: find_containing.induct) (auto split: if_splits)

text \<open>
  C17: A range that is written inside a free block is taken out of the free list: afterwards no free
  block of the table meets it, every free block lies within one that was free before, and the
  blocks are still disjoint and non-empty. A range that no free block contains changes nothing.
\<close>

theorem saveBlockCheck_carves:
  assumes ok: "free_ok t d" and r: "a < b"
  shows "free_ok t (saveBlockCheck d it t a b)
    \<and> (\<forall>s \<in> free_spans t (saveBlockCheck d it t a b).
         \<exists>s' \<in> free_spans t d. fst s' \<le> fst s \<and> snd s \<le> snd s')
    \<and> (if \<exists>s \<in> free_spans t d. fst s \<le> a \<and> b \<le> snd s
       then \<forall>s \<in> free_spans t (saveBlockCheck d it t a b). apart s (a, b)
       else free_spans t (saveBlockCheck d it t a b) = free_spans t d)"
proof -
  let ?m = "table_blocks d t" and ?m' = "table_blocks (saveBlockCheck d it t a b) t"
  have m: "blocks_ok t ?m" "keys_distinct ?m" using ok by (auto simp: free_ok_def blocks_ok_def)
  have "if \<exists>s \<in> free_spans t d. fst s \<le> a \<and> b \<le> snd s
      then \<forall>s \<in> free_spans t (saveBlockCheck d it t a b). apart s (a, b)
      else free_spans t (saveBlockCheck d it t a b) = free_spans t d"
  proof (cases "find_containing t a b (go_range it ?m)")
    case None
    then have "?m' = ?m" using saveBlockCheck_cases[of d it t a b] by auto
    then have same: "free_spans t (saveBlockCheck d it t a b) = free_spans t d"
      by (simp add: free_spans_def)
    have no: "\<not> (\<exists>s \<in> free_spans t d. fst s \<le> a \<and> b \<le> snd s)"
    proof
      assume "\<exists>s \<in> free_spans t d. fst s \<le> a \<and> b \<le> snd s"
      then obtain k c where "map_of ?m k = Some c" "fb_fileName c = t" "fb_startPtr c \<le> a" "b \<le> fb_endPtr c"
        using table_blocks_of[OF ok] by auto
      then show False
        using find_containing_None[OF None, of k c] m(2) by (simp add: keys_distinct_map_of)
    qed
    show ?thesis unfolding if_not_P[OF no] by (rule same)
  next
    case (Some p)
    obtain k c where p: "p = (k, c)" by (cases p)
    note f = find_containing_Some[OF Some[unfolded p]]
    have k: "map_of ?m k = Some c" "fb_fileName c = t" using f m by (auto simp: keys_distinct_map_of)
    then have "?m \<noteq> []" by auto
    then have "?m' = split_block k c a b ?m"
      using saveBlockCheck_cases[of d it t a b] Some p by simp
    then have "\<forall>s \<in> free_spans t (saveBlockCheck d it t a b). apart s (a, b)"
      using split_block_ok[OF m(1) k _ _ r] f by (simp add: free_spans_def)
    moreover have "block_span c \<in> free_spans t d" using k table_blocks_of[OF ok] by blast
    ultimately show ?thesis using f by force
  qed
  then show ?thesis using saveBlockCheck_ok[OF ok r, of it] by blast
qed

lemma saveBlockCheck_carves_witness:
  "{s \<in> free_spans ''t'' (saveBlockCheck demo_free (\<lambda>xs. xs) ''t'' 6 10). \<not> apart s (6, 10)} = {}"
proof -
  have "(4, 20) \<in> free_spans ''t'' demo_free"
    unfolding table_blocks_of[OF demo_free_ok]
    by (rule exI[of _ "''k''"], rule exI[of _ "new_block ''t'' 4 20"]) (simp add: demo_free_facts new_block_def)
  then have "\<exists>s \<in> free_spans ''t'' demo_free. fst s \<le> (6 :: int) \<and> 10 \<le> snd s" by force
  with saveBlockCheck_carves[OF demo_free_ok, of 6 10 "\<lambda>xs. xs"] show ?thesis by simp
qed

text \<open>
  The free list has one entry per key. Freeing a second range under a key that still has a free
  block replaces that block: its bytes leave the free list for good.
\<close>

theorem markAsFree_same_key_leaks:
  assumes ok: "free_ok t d" and k: "map_of (table_blocks d t) k = Some c" "fb_fileName c = t"
    and new: "(a, b) \<noteq> block_span c"
  shows "block_span c \<in> free_spans t d
    \<and> free_spans t (fst (markAsFree d k t a b)) = insert (a, b) (free_spans t d - {block_span c})"
proof -
  let ?m = "table_blocks d t"
  have m: "blocks_ok t ?m" "keys_distinct ?m" using ok by (auto simp: free_ok_def blocks_ok_def)
  have "?m \<noteq> []" using k by auto
  then have "table_blocks (fst (markAsFree d k t a b)) t = AList.update k (new_block t a b) ?m"
    unfolding markAsFree_blocks by (auto simp: table_blocks_def split: sum.splits prod.splits)
  moreover have "blocks_of t (AList.update k (new_block t a b) ?m)
      = insert (a, b) (blocks_of t (AList.delete k ?m))"
    using blocks_of_insert[of "AList.update k (new_block t a b) ?m" k "new_block t a b" "AList.delete k ?m" t]
    by (simp add: set_update_gomap[OF m(2)] set_delete_gomap new_block_def)
  moreover have "blocks_of t (AList.delete k ?m) = blocks_of t ?m - {block_span c}"
    by (rule blocks_of_delete[OF m(1) k])
  moreover have "block_span c \<in> free_spans t d" using k table_blocks_of[OF ok] by blast
  ultimately show ?thesis by (simp add: free_spans_def)
qed

lemma markAsFree_same_key_leaks_witness:
  "(4, 20) \<in> free_spans ''t'' demo_free
   \<and> free_spans ''t'' (fst (markAsFree demo_free ''k'' ''t'' 50 60)) = insert (50, 60) (free_spans ''t'' demo_free - {(4, 20)})"
  using markAsFree_same_key_leaks[OF demo_free_ok, of "''k''" "new_block ''t'' 4 20" 50 60]
  by (simp add: demo_free_facts new_block_def)

end
