(* ===== verification/File_Worker.thy ===== *)
theory File_Worker
  imports Codec Free_List
begin

text \<open>
  The file workers (\<open>data/dataManager/v2\<close>): one goroutine per data file that collects requests
  into batches and executes them (\<open>executeBatch\<close>), and the client functions that send one request
  and wait for the answer. The file is a byte list; a plan \<open>faults\<close> says which of its operations
  fail, and how far a failing write got. A request is tagged with the number of its caller, and the
  answers are the list of sends \<open>(caller, response)\<close> in the order the worker makes them. A Go slice
  that is nil and an empty one are both \<open>[]\<close>.
\<close>

section \<open>Requests, responses and the file\<close>

record file_request =
  fr_op :: string
  fr_data :: bytes
  fr_startPtr :: int
  fr_endPtr :: int
  fr_entrySize :: u64
  fr_inc_id :: u64
  fr_read_type :: byte
  fr_count_from :: string

datatype worker_error =
    IoError | InvalidEntrySize | DataLengthMismatch | InsertIdOutOfRange | OverwriteIdOutOfRange
  | InvalidReadType | ReadIdOutOfRange | InvalidReadRange

record file_response =
  rs_data :: bytes
  rs_startPtr :: int
  rs_endPtr :: int
  rs_err :: "worker_error option"

definition resp_err :: "worker_error \<Rightarrow> file_response" where
  "resp_err e = \<lparr>rs_data = [], rs_startPtr = 0, rs_endPtr = 0, rs_err = Some e\<rparr>"

definition resp_ok :: "bytes \<Rightarrow> int \<Rightarrow> int \<Rightarrow> file_response" where
  "resp_ok d a b = \<lparr>rs_data = d, rs_startPtr = a, rs_endPtr = b, rs_err = None\<rparr>"

datatype fault = Fine | NotExist | Fails nat

record osfile =
  content :: bytes
  closed :: bool
  ticks :: nat
  faults :: "nat \<Rightarrow> fault"

text \<open>
  A file operation is done, fails with an error the code handles, or crashes the goroutine (a
  \<open>make\<close> that panics).
\<close>

datatype 'a io = Done 'a | Fail worker_error | Crash

type_synonym 'a fio = "osfile \<Rightarrow> osfile \<times> 'a io"

definition fret :: "'a \<Rightarrow> 'a fio" where
  "fret x f = (f, Done x)"

definition ffail :: "worker_error \<Rightarrow> 'a fio" where
  "ffail e f = (f, Fail e)"

definition fbind :: "'a fio \<Rightarrow> ('a \<Rightarrow> 'b fio) \<Rightarrow> 'b fio" where
  "fbind m k f = (case m f of
      (f', Done x) \<Rightarrow> k x f'
    | (f', Fail e) \<Rightarrow> (f', Fail e)
    | (f', Crash) \<Rightarrow> (f', Crash))"

definition fmake :: "int \<Rightarrow> bytes fio" where
  "fmake n f = (case go_make n of Ret b \<Rightarrow> (f, Done b) | Panic \<Rightarrow> (f, Crash))"

definition tick :: "osfile \<Rightarrow> osfile" where
  "tick f = f\<lparr>ticks := Suc (ticks f)\<rparr>"

definition f_fault :: "osfile \<Rightarrow> fault" where
  "f_fault f = (if closed f then Fails 0 else faults f (ticks f))"

definition f_size :: "int fio" where
  "f_size f = (case f_fault f of
      Fine \<Rightarrow> (tick f, Done (int (length (content f))))
    | _ \<Rightarrow> (tick f, Fail IoError))"

definition f_write :: "bytes \<Rightarrow> int \<Rightarrow> unit fio" where
  "f_write d off f =
     (if off < 0 then (f, Fail IoError)
      else if d = [] then (f, Done ())
      else (case f_fault f of
              Fine \<Rightarrow> (tick (f\<lparr>content := pwrite (content f) (nat off) d\<rparr>), Done ())
            | NotExist \<Rightarrow> (tick f, Fail IoError)
            | Fails m \<Rightarrow>
                (tick (f\<lparr>content := pwrite (content f) (nat off) (take m d)\<rparr>), Fail IoError)))"

text \<open>\<open>ReadAt(buf, off)\<close> with \<open>io.EOF\<close> ignored: past the end the buffer keeps what it held.\<close>

definition f_read :: "bytes \<Rightarrow> int \<Rightarrow> bytes fio" where
  "f_read buf off f =
     (if off < 0 then (f, Fail IoError)
      else if buf = [] then (f, Done [])
      else (case f_fault f of
              Fine \<Rightarrow> (let got = take (length buf) (drop (nat off) (content f))
                       in (tick f, Done (got @ drop (length got) buf)))
            | _ \<Rightarrow> (tick f, Fail IoError)))"

definition f_truncate :: "int \<Rightarrow> unit fio" where
  "f_truncate n f = (case f_fault f of
      Fine \<Rightarrow> (tick (f\<lparr>content := ftruncate (content f) (nat n)\<rparr>), Done ())
    | _ \<Rightarrow> (tick f, Fail IoError))"

section \<open>Incremental tables: insert, overwrite and append\<close>

text \<open>\<open>strings.ToLower\<close>, as far as a comparison with an ASCII word can tell.\<close>

definition lower_char :: "char \<Rightarrow> char" where
  "lower_char c = (let n = of_char c :: nat in if 65 \<le> n \<and> n \<le> 90 then char_of (n + 32) else c)"

definition to_lower :: "string \<Rightarrow> string" where
  "to_lower s = map lower_char s"

text \<open>The record-size checks and the padding to a whole number of records both writers start with.\<close>

definition align_file :: "int \<Rightarrow> int \<Rightarrow> int fio" where
  "align_file recordSize fileSize =
     (let rm = fileSize mod recordSize
      in if rm \<noteq> 0
         then fbind (fmake (recordSize - rm)) (\<lambda>pad.
              fbind (f_write pad fileSize) (\<lambda>_.
              fret (fileSize + int (length pad))))
         else fret fileSize)"

text \<open>The reverse copy that makes room for an insertion.\<close>

function shift_tail :: "int \<Rightarrow> int \<Rightarrow> int \<Rightarrow> bytes \<Rightarrow> unit fio" where
  "shift_tail recordSize effID srcIdx buf =
     (if srcIdx < effID then fret ()
      else fbind (f_read buf (srcIdx * recordSize)) (\<lambda>buf'.
           fbind (f_write buf' ((srcIdx + 1) * recordSize)) (\<lambda>_.
           shift_tail recordSize effID (srcIdx - 1) buf')))"
  by pat_completeness auto
termination by (relation "measure (\<lambda>(r, e, i, b). nat (i + 1 - e))") auto

declare shift_tail.simps [simp del]

definition id_buf :: "int \<Rightarrow> bytes" where
  "id_buf i = le_bytes 8 (nat i)"

definition inc_insert :: "file_request \<Rightarrow> int \<Rightarrow> int \<Rightarrow> file_response fio" where
  "inc_insert req recordSize fileSize =
     (let numRecords = fileSize div recordSize;
          prefID = i64 (fr_inc_id req);
          from = to_lower (fr_count_from req);
          effID = (if from = ''top'' then numRecords - prefID else prefID)
      in if prefID < 0 \<or> numRecords < prefID then ffail InsertIdOutOfRange
         else fbind (f_truncate (fileSize + recordSize)) (\<lambda>_.
              fbind (fmake recordSize) (\<lambda>buf.
              fbind (shift_tail recordSize effID (numRecords - 1) buf) (\<lambda>_.
              let offset = effID * recordSize
              in fbind (f_write (fr_data req) offset) (\<lambda>_.
                 fret (resp_ok (id_buf effID) offset (offset + recordSize)))))))"

definition inc_overwrite :: "file_request \<Rightarrow> int \<Rightarrow> int \<Rightarrow> file_response fio" where
  "inc_overwrite req recordSize fileSize =
     (let numRecords = fileSize div recordSize;
          prefID = i64 (fr_inc_id req);
          from = to_lower (fr_count_from req);
          effID = (if from = ''top'' then (numRecords - 1) - prefID else prefID)
      in if prefID < 0 \<or> numRecords \<le> prefID then ffail OverwriteIdOutOfRange
         else let offset = effID * recordSize
              in fbind (f_write (fr_data req) offset) (\<lambda>_.
                 fret (resp_ok (id_buf effID) offset (offset + recordSize))))"

definition write_inc_ow :: "file_request \<Rightarrow> file_response fio" where
  "write_inc_ow req =
     (let recordSize = record_total (fr_entrySize req)
      in if recordSize \<le> 0 then ffail InvalidEntrySize
         else if int (length (fr_data req)) \<noteq> recordSize then ffail DataLengthMismatch
         else fbind f_size (\<lambda>size0.
              fbind (align_file recordSize size0) (\<lambda>fileSize.
              if fr_read_type req = 0 then inc_insert req recordSize fileSize
              else if fr_read_type req = 1 then inc_overwrite req recordSize fileSize
              else ffail InvalidReadType)))"

definition write_inc :: "file_request \<Rightarrow> file_response fio" where
  "write_inc req =
     (let recordSize = record_total (fr_entrySize req)
      in if recordSize \<le> 0 then ffail InvalidEntrySize
         else if int (length (fr_data req)) \<noteq> recordSize then ffail DataLengthMismatch
         else fbind f_size (\<lambda>size0.
              fbind (align_file recordSize size0) (\<lambda>fileSize.
              let ident = fileSize div recordSize;
                  offset = ident * recordSize
              in fbind (f_write (fr_data req) offset) (\<lambda>_.
                 fret (resp_ok (id_buf ident) offset (offset + recordSize))))))"

section \<open>Incremental tables: reads\<close>

text \<open>The loop that reverses the records of a block, newest first.\<close>

definition reverse_records :: "nat \<Rightarrow> nat \<Rightarrow> bytes \<Rightarrow> bytes" where
  "reverse_records n recordSize tmp =
     fold (\<lambda>i out. pwrite out (i * recordSize) (pread tmp ((n - 1 - i) * recordSize) recordSize))
       [0..<n] (replicate (n * recordSize) 0)"

definition read_inc :: "file_request \<Rightarrow> file_response fio" where
  "read_inc req =
     (let recordSize = record_total (fr_entrySize req)
      in if recordSize \<le> 0 then ffail InvalidEntrySize
         else fbind f_size (\<lambda>fileSize.
           let numRecords = fileSize div recordSize;
               n0 = i64 (fr_inc_id req);
               n = min n0 numRecords
           in if fr_read_type req = 0 then
                (if n0 < 0 \<or> numRecords \<le> n0 then ffail ReadIdOutOfRange
                 else let offset = n0 * recordSize
                      in fbind (fmake recordSize) (\<lambda>buf.
                         fbind (f_read buf offset) (\<lambda>got.
                         fret (resp_ok got offset (offset + recordSize)))))
              else if fr_read_type req = 1 then
                (if n0 \<le> 0 \<or> numRecords = 0 then fret (resp_ok [] 0 0)
                 else let startOffset = (numRecords - n) * recordSize;
                          totalBytes = n * recordSize
                      in fbind (fmake totalBytes) (\<lambda>tmp0.
                         fbind (f_read tmp0 startOffset) (\<lambda>tmp.
                         fret (resp_ok (reverse_records (nat n) (nat recordSize) tmp)
                                 startOffset (startOffset + totalBytes)))))
              else if fr_read_type req = 2 then
                (if n0 \<le> 0 \<or> numRecords = 0 then fret (resp_ok [] 0 0)
                 else let totalBytes = n * recordSize
                      in fbind (fmake totalBytes) (\<lambda>buf.
                         fbind (f_read buf 0) (\<lambda>got.
                         fret (resp_ok got 0 totalBytes))))
              else ffail InvalidReadType))"

text \<open>Reads of a data file.\<close>

definition read_range :: "file_request \<Rightarrow> file_response fio" where
  "read_range req =
     (let a = fr_startPtr req; b = fr_endPtr req
      in if a < 0 \<or> b \<le> a then ffail InvalidReadRange
         else fbind (fmake (b - a)) (\<lambda>buffer.
              fbind (f_read buffer a) (\<lambda>got.
              fret (resp_ok got a b))))"

section \<open>Batches\<close>

record worker =
  w_file :: osfile
  w_defrag :: defrag

type_synonym sends = "(nat \<times> file_response) list"
type_synonym batch = "(nat \<times> file_request) list"

text \<open>
  One pass over the requests of one kind; a crash ends it, and the batch with it. Every error path of
  the code sends the error to the caller and continues with the next request, every other path sends
  its response: what is sent is the value of the request's function.
\<close>

definition on_file :: "file_response fio \<Rightarrow> worker \<Rightarrow> worker \<times> file_response outcome" where
  "on_file m w = (case m (w_file w) of
      (f, Done r) \<Rightarrow> (w\<lparr>w_file := f\<rparr>, Ret r)
    | (f, Fail e) \<Rightarrow> (w\<lparr>w_file := f\<rparr>, Ret (resp_err e))
    | (f, Crash) \<Rightarrow> (w\<lparr>w_file := f\<rparr>, Panic))"

fun serve :: "(file_request \<Rightarrow> worker \<Rightarrow> worker \<times> file_response outcome) \<Rightarrow> batch \<Rightarrow> worker
    \<Rightarrow> worker \<times> sends \<times> bool" where
  "serve h [] w = (w, [], True)"
| "serve h ((i, req) # rest) w =
     (case h req w of
        (w1, Panic) \<Rightarrow> (w1, [], False)
      | (w1, Ret r) \<Rightarrow> (let (w2, out, ok) = serve h rest w1 in (w2, (i, r) # out, ok)))"

definition and_then :: "worker \<times> sends \<times> bool \<Rightarrow> (worker \<Rightarrow> worker \<times> sends \<times> bool)
    \<Rightarrow> worker \<times> sends \<times> bool" where
  "and_then r k = (case r of (w, out, ok) \<Rightarrow>
      if ok then (let (w', out', ok') = k w in (w', out @ out', ok')) else (w, out, False))"

definition of_op :: "string \<Rightarrow> batch \<Rightarrow> batch" where
  "of_op k b = filter (\<lambda>(i, req). fr_op req = k) b"

subsection \<open>Writes to a data file\<close>

text \<open>The requests of a batch are packed one after the other into a free block.\<close>

fun assign_block :: "int \<Rightarrow> batch \<Rightarrow> batch" where
  "assign_block cur [] = []"
| "assign_block cur ((i, req) # rest) =
     (i, req\<lparr>fr_startPtr := cur, fr_endPtr := cur + int (length (fr_data req))\<rparr>)
     # assign_block (cur + int (length (fr_data req))) rest"

text \<open>
  Without a free block each request gets the end of the file as it is before any of them is
  written. A failing \<open>Seek\<close> is answered, but the request stays in the list with the range it has.
\<close>

fun assign_eof :: "batch \<Rightarrow> osfile \<Rightarrow> osfile \<times> batch \<times> sends" where
  "assign_eof [] f = (f, [], [])"
| "assign_eof ((i, req) # rest) f =
     (case f_size f of
        (f1, Done offset) \<Rightarrow>
          (let (f2, b, out) = assign_eof rest f1
           in (f2, (i, req\<lparr>fr_startPtr := offset,
                           fr_endPtr := offset + int (length (fr_data req))\<rparr>) # b, out))
      | (f1, _) \<Rightarrow>
          (let (f2, b, out) = assign_eof rest f1 in (f2, (i, req) # b, (i, resp_err IoError) # out)))"

definition write_one :: "(free_block gomap \<Rightarrow> free_block gomap) \<Rightarrow> string \<Rightarrow> file_request
    \<Rightarrow> worker \<Rightarrow> worker \<times> file_response outcome" where
  "write_one it filePath req w =
     (case f_write (fr_data req) (fr_startPtr req) (w_file w) of
        (f, Done _) \<Rightarrow>
          (w\<lparr>w_file := f,
             w_defrag := saveBlockCheck (w_defrag w) it filePath (fr_startPtr req) (fr_endPtr req)\<rparr>,
           Ret (resp_ok [] (fr_startPtr req) (fr_endPtr req)))
      | (f, _) \<Rightarrow> (w\<lparr>w_file := f\<rparr>, Ret (resp_err IoError)))"

definition write_phase :: "(free_block gomap \<Rightarrow> free_block gomap) \<Rightarrow> string \<Rightarrow> batch
    \<Rightarrow> worker \<Rightarrow> worker \<times> sends \<times> bool" where
  "write_phase it filePath reqs w =
     (if reqs = [] then (w, [], True)
      else let totalSize = int (sum_list (map (\<lambda>(i, r). length (fr_data r)) reqs))
           in (case getBlock (w_defrag w) it totalSize filePath of
                 (d, Inr freeBlock) \<Rightarrow>
                   serve (write_one it filePath) (assign_block (fb_startPtr freeBlock) reqs)
                     (w\<lparr>w_defrag := d\<rparr>)
               | (d, Inl e) \<Rightarrow>
                   (let (f, reqs', out) = assign_eof reqs (w_file w)
                    in and_then (w\<lparr>w_file := f, w_defrag := d\<rparr>, out, True)
                         (serve (write_one it filePath) reqs'))))"

definition executeBatch :: "(free_block gomap \<Rightarrow> free_block gomap) \<Rightarrow> string \<Rightarrow> batch
    \<Rightarrow> worker \<Rightarrow> worker \<times> sends \<times> bool" where
  "executeBatch it filePath b w =
     and_then (and_then (and_then (and_then
       (serve (\<lambda>req. on_file (write_inc_ow req)) (of_op ''write_inc_ow'' b) w)
       (serve (\<lambda>req. on_file (write_inc req)) (of_op ''write_inc'' b)))
       (write_phase it filePath (of_op ''write'' b)))
       (serve (\<lambda>req. on_file (read_inc req)) (of_op ''read_inc'' b)))
       (serve (\<lambda>req. on_file (read_range req)) (of_op ''read'' b))"

section \<open>The worker loop\<close>

text \<open>
  Close, remove and recreate the file of an incremental table. A failing step leaves the worker
  with a closed handle, except that a failing removal is followed by an attempt to reopen.
\<close>

definition handleDeleteIncFile :: "osfile \<Rightarrow> osfile \<times> worker_error option" where
  "handleDeleteIncFile f =
     (let f1 = (tick f)\<lparr>closed := True\<rparr>
      in if f_fault f \<noteq> Fine then (f1, Some IoError)
         else let rm = faults f1 (ticks f1); f2 = tick f1
              in case rm of
                   Fails n \<Rightarrow>
                     (if faults f2 (ticks f2) = Fine
                      then ((tick f2)\<lparr>closed := False\<rparr>, Some IoError)
                      else (tick f2, Some IoError))
                 | _ \<Rightarrow>
                     (let f3 = f2\<lparr>content := []\<rparr>
                      in if faults f3 (ticks f3) = Fine
                         then ((tick f3)\<lparr>closed := False\<rparr>, None)
                         else (tick f3, Some IoError)))"

definition delete_request :: "nat \<Rightarrow> worker \<Rightarrow> worker \<times> sends \<times> bool" where
  "delete_request i w =
     (case handleDeleteIncFile (w_file w) of
        (f, e) \<Rightarrow> (w\<lparr>w_file := f\<rparr>,
                   [(i, \<lparr>rs_data = [], rs_startPtr = 0, rs_endPtr = 0, rs_err = e\<rparr>)], True))"

text \<open>
  \<open>collect\<close> is the inner loop over the requests that have arrived: a deletion first executes what
  is pending; any other operation joins the batch, \<open>close\<close> too.
\<close>

fun collect :: "(free_block gomap \<Rightarrow> free_block gomap) \<Rightarrow> string \<Rightarrow> batch \<Rightarrow> batch
    \<Rightarrow> worker \<Rightarrow> worker \<times> sends \<times> bool" where
  "collect it filePath pending [] w =
     (if pending \<noteq> [] then executeBatch it filePath pending w else (w, [], True))"
| "collect it filePath pending ((i, req) # ch) w =
     (if fr_op req = ''delete_inc'' then
        and_then (and_then
          (if pending \<noteq> [] then executeBatch it filePath pending w else (w, [], True))
          (delete_request i))
          (collect it filePath [] ch)
      else collect it filePath (pending @ [(i, req)]) ch w)"

datatype worker_status = Waiting | Returned | Crashed

fun fileWorkerLoop :: "(free_block gomap \<Rightarrow> free_block gomap) \<Rightarrow> string \<Rightarrow> batch \<Rightarrow> worker
    \<Rightarrow> worker \<times> sends \<times> worker_status" where
  "fileWorkerLoop it filePath [] w = (w, [], Waiting)"
| "fileWorkerLoop it filePath ((i, req) # ch) w =
     (if fr_op req = ''close'' then
        (w, [(i, \<lparr>rs_data = [], rs_startPtr = 0, rs_endPtr = 0, rs_err = None\<rparr>)], Returned)
      else if fr_op req = ''delete_inc'' then
        (let (w1, out1, _) = delete_request i w;
             (w2, out2, st) = fileWorkerLoop it filePath ch w1
         in (w2, out1 @ out2, st))
      else (case collect it filePath [(i, req)] ch w of
              (w', out, True) \<Rightarrow> (w', out, Waiting)
            | (w', out, False) \<Rightarrow> (w', out, Crashed)))"

section \<open>Clients of the workers\<close>

text \<open>
  The data directories: the file behind each path (empty until it exists), the paths whose worker
  has crashed (its request channel is closed), and the free lists the workers share. A table name
  is one path element.
\<close>

record datadir =
  dd_files :: "string \<Rightarrow> osfile"
  dd_exists :: "string \<Rightarrow> bool"
  dd_crashed :: "string \<Rightarrow> bool"
  dd_defrag :: defrag

definition full_path :: "string \<Rightarrow> string \<Rightarrow> string" where
  "full_path op filePath =
     (if op \<in> {''write_inc'', ''write_inc_ow'', ''read_inc'', ''delete_inc''}
      then ''db/inc_tables/'' @ filePath else ''db/data/'' @ filePath)"

text \<open>A call returns, blocks for ever (its worker crashed before answering) or panics.\<close>

datatype 'a call = Reply 'a | Blocks | Panics

definition call_bind :: "datadir \<times> 'a call \<Rightarrow> (datadir \<Rightarrow> 'a \<Rightarrow> datadir \<times> 'b call) \<Rightarrow> datadir \<times> 'b call" where
  "call_bind c k = (case c of
      (st, Reply x) \<Rightarrow> k st x
    | (st, Blocks) \<Rightarrow> (st, Blocks)
    | (st, Panics) \<Rightarrow> (st, Panics))"

text \<open>
  One request that finds its worker idle. The caller takes the first response sent to it; a send to
  a crashed worker is a send on a closed channel.
\<close>

definition sendToFileWorker :: "(free_block gomap \<Rightarrow> free_block gomap) \<Rightarrow> string \<Rightarrow> file_request
    \<Rightarrow> datadir \<Rightarrow> datadir \<times> file_response call" where
  "sendToFileWorker it filePath req st =
     (let p = full_path (fr_op req) filePath
      in if dd_crashed st p then (st, Panics)
         else (case fileWorkerLoop it filePath [(0, req)]
                      \<lparr>w_file = dd_files st p, w_defrag = dd_defrag st\<rparr> of
                 (w, out, status) \<Rightarrow>
                   (\<lparr>dd_files = (dd_files st)(p := w_file w),
                     dd_exists = (dd_exists st)(p := True),
                     dd_crashed = (dd_crashed st)(p := (status = Crashed)),
                     dd_defrag = w_defrag w\<rparr>,
                    case out of [] \<Rightarrow> Blocks | (_, r) # _ \<Rightarrow> Reply r)))"

definition request :: "string \<Rightarrow> file_request" where
  "request op = \<lparr>fr_op = op, fr_data = [], fr_startPtr = 0, fr_endPtr = 0, fr_entrySize = 0,
                 fr_inc_id = 0, fr_read_type = 0, fr_count_from = []\<rparr>"

definition saveDataToFileAsync :: "(free_block gomap \<Rightarrow> free_block gomap) \<Rightarrow> bytes \<Rightarrow> string \<Rightarrow> datadir
    \<Rightarrow> datadir \<times> (int \<times> int \<times> worker_error option) call" where
  "saveDataToFileAsync it data filePath st =
     call_bind (sendToFileWorker it filePath ((request ''write'')\<lparr>fr_data := data\<rparr>) st)
       (\<lambda>st resp. (st, Reply (rs_startPtr resp, rs_endPtr resp, rs_err resp)))"

datatype read_error = WorkerFailed worker_error | IncompleteRead

definition readDataFromFileAsync :: "(free_block gomap \<Rightarrow> free_block gomap) \<Rightarrow> string \<Rightarrow> int \<Rightarrow> int
    \<Rightarrow> datadir \<Rightarrow> datadir \<times> (read_error + bytes) call" where
  "readDataFromFileAsync it filePath dataStartPtr dataEndPtr st =
     call_bind (sendToFileWorker it filePath
        ((request ''read'')\<lparr>fr_startPtr := dataStartPtr, fr_endPtr := dataEndPtr\<rparr>) st)
       (\<lambda>st resp. (st, Reply (case rs_err resp of
            Some e \<Rightarrow> Inl (WorkerFailed e)
          | None \<Rightarrow> if int (length (rs_data resp)) \<noteq> dataEndPtr - dataStartPtr
                    then Inl IncompleteRead else Inr (rs_data resp))))"

text \<open>\<open>binary.LittleEndian.Uint64(resp.data)\<close> indexes byte 7 before the error is looked at.\<close>

definition inc_answer :: "datadir \<Rightarrow> file_response \<Rightarrow> datadir \<times> (u64 \<times> worker_error option) call" where
  "inc_answer st resp =
     (if length (rs_data resp) < 8 then (st, Panics)
      else (st, Reply (word_of_nat (le_val (take 8 (rs_data resp))), rs_err resp)))"

definition saveIncDataToFileAsync :: "(free_block gomap \<Rightarrow> free_block gomap) \<Rightarrow> bytes \<Rightarrow> string \<Rightarrow> u64
    \<Rightarrow> datadir \<Rightarrow> datadir \<times> (u64 \<times> worker_error option) call" where
  "saveIncDataToFileAsync it data filePath entry_size st =
     call_bind (sendToFileWorker it filePath
        ((request ''write_inc'')\<lparr>fr_data := data, fr_entrySize := entry_size\<rparr>) st) inc_answer"

definition saveIncDataToFileAsync_Put :: "(free_block gomap \<Rightarrow> free_block gomap) \<Rightarrow> bytes \<Rightarrow> string
    \<Rightarrow> u64 \<Rightarrow> u64 \<Rightarrow> string \<Rightarrow> datadir \<Rightarrow> datadir \<times> (u64 \<times> worker_error option) call" where
  "saveIncDataToFileAsync_Put it data filePath entry_size pref_id count_from st =
     call_bind (sendToFileWorker it filePath
        ((request ''write_inc_ow'')\<lparr>fr_data := data, fr_entrySize := entry_size, fr_inc_id := pref_id,
           fr_read_type := 0, fr_count_from := count_from\<rparr>) st) inc_answer"

definition saveIncDataToFileAsync_OverWrite :: "(free_block gomap \<Rightarrow> free_block gomap) \<Rightarrow> bytes
    \<Rightarrow> string \<Rightarrow> u64 \<Rightarrow> u64 \<Rightarrow> string \<Rightarrow> datadir \<Rightarrow> datadir \<times> (u64 \<times> worker_error option) call" where
  "saveIncDataToFileAsync_OverWrite it data filePath entry_size pref_id count_from st =
     call_bind (sendToFileWorker it filePath
        ((request ''write_inc_ow'')\<lparr>fr_data := data, fr_entrySize := entry_size, fr_inc_id := pref_id,
           fr_read_type := 1, fr_count_from := count_from\<rparr>) st) inc_answer"

definition deleteIncTableFile :: "(free_block gomap \<Rightarrow> free_block gomap) \<Rightarrow> string \<Rightarrow> datadir
    \<Rightarrow> datadir \<times> worker_error option call" where
  "deleteIncTableFile it filePath st =
     call_bind (sendToFileWorker it filePath (request ''delete_inc'') st)
       (\<lambda>st resp. (st, Reply (rs_err resp)))"

definition readIncDataFromFileAsync :: "byte \<Rightarrow> (free_block gomap \<Rightarrow> free_block gomap) \<Rightarrow> string \<Rightarrow> u64
    \<Rightarrow> u64 \<Rightarrow> datadir \<Rightarrow> datadir \<times> (worker_error + bytes) call" where
  "readIncDataFromFileAsync readType it filePath n entrySize st =
     call_bind (sendToFileWorker it filePath
        ((request ''read_inc'')\<lparr>fr_entrySize := entrySize, fr_inc_id := n,
           fr_read_type := readType\<rparr>) st)
       (\<lambda>st resp. (st, Reply (case rs_err resp of Some e \<Rightarrow> Inl e | None \<Rightarrow> Inr (rs_data resp))))"

definition readInc_ById :: "(free_block gomap \<Rightarrow> free_block gomap) \<Rightarrow> string \<Rightarrow> u64 \<Rightarrow> u64 \<Rightarrow> datadir
    \<Rightarrow> datadir \<times> (worker_error + bytes) call" where
  "readInc_ById = readIncDataFromFileAsync 0"

definition readInc_LastEntries :: "(free_block gomap \<Rightarrow> free_block gomap) \<Rightarrow> string \<Rightarrow> u64 \<Rightarrow> u64
    \<Rightarrow> datadir \<Rightarrow> datadir \<times> (worker_error + bytes) call" where
  "readInc_LastEntries = readIncDataFromFileAsync 1"

definition readInc_FirstEntries :: "(free_block gomap \<Rightarrow> free_block gomap) \<Rightarrow> string \<Rightarrow> u64 \<Rightarrow> u64
    \<Rightarrow> datadir \<Rightarrow> datadir \<times> (worker_error + bytes) call" where
  "readInc_FirstEntries = readIncDataFromFileAsync 2"

text \<open>\<open>os.Stat\<close> of the table's file; \<open>uint64\<close> of a negative quotient cannot arise.\<close>

definition getIncRecordCount :: "string \<Rightarrow> u64 \<Rightarrow> datadir \<Rightarrow> datadir \<times> (worker_error + u64)" where
  "getIncRecordCount filePath entrySize st =
     (let p = full_path ''read_inc'' filePath; f = dd_files st p; recordSize = record_total entrySize
      in if \<not> dd_exists st p then (st, Inl IoError)
         else (case f_size (f\<lparr>closed := False\<rparr>) of
                 (f', Done sz) \<Rightarrow>
                   (st\<lparr>dd_files := (dd_files st)(p := f'\<lparr>closed := closed f\<rparr>)\<rparr>,
                    if recordSize \<le> 0 then Inr 0 else Inr (word_of_int (sz div recordSize)))
               | (f', _) \<Rightarrow>
                   (st\<lparr>dd_files := (dd_files st)(p := f'\<lparr>closed := closed f\<rparr>)\<rparr>, Inl IoError)))"

section \<open>The synchronous data manager\<close>

text \<open>
  \<open>data/dataManager/v1\<close> opens the file of the table itself, beside the worker, for one operation.
\<close>

definition f_touch :: "unit fio" where
  "f_touch f = (case f_fault f of Fine \<Rightarrow> (tick f, Done ()) | _ \<Rightarrow> (tick f, Fail IoError))"

definition ensureDirExists :: "unit fio" where
  "ensureDirExists f = (case f_fault f of NotExist \<Rightarrow> f_touch (tick f) | _ \<Rightarrow> (tick f, Done ()))"

definition own_handle :: "'a fio \<Rightarrow> 'a fio" where
  "own_handle m f = (case m (f\<lparr>closed := False\<rparr>) of (f', r) \<Rightarrow> (f'\<lparr>closed := closed f\<rparr>, r))"

definition v1_ReadDataFromFile :: "bool \<Rightarrow> int \<Rightarrow> int \<Rightarrow> bytes fio" where
  "v1_ReadDataFromFile existing dataStartPtr dataEndPtr =
     (if \<not> existing then ffail IoError
      else own_handle (
        fbind f_touch (\<lambda>_.
        fbind f_size (\<lambda>fileSize.
        if dataStartPtr < 0 \<or> dataEndPtr \<le> dataStartPtr \<or> fileSize < dataEndPtr
        then ffail InvalidReadRange
        else fbind f_touch (\<lambda>_.
             fbind (fmake (dataEndPtr - dataStartPtr)) (\<lambda>buffer.
             f_read buffer dataStartPtr))))))"

definition v1_StreamDataFromFile :: "bool \<Rightarrow> int \<Rightarrow> int \<Rightarrow> bytes fio" where
  "v1_StreamDataFromFile existing start chunkSize =
     (if \<not> existing then ffail IoError
      else own_handle (
        fbind f_touch (\<lambda>_.
        fbind f_size (\<lambda>fileSize.
        if fileSize < start then ffail InvalidReadRange
        else let chunk = (if fileSize < start + chunkSize then fileSize - start else chunkSize)
             in if start < 0 then ffail IoError
                else fbind f_touch (\<lambda>_.
                     fbind (fmake chunk) (\<lambda>buffer.
                     f_read buffer start))))))"

definition v1_write_at :: "bytes \<Rightarrow> int \<Rightarrow> unit fio" where
  "v1_write_at data startPtr =
     own_handle (fbind f_touch (\<lambda>_. if startPtr < 0 then ffail IoError
       else fbind f_touch (\<lambda>_. f_write data startPtr)))"

definition v1_append :: "bytes \<Rightarrow> int fio" where
  "v1_append data =
     own_handle (fbind f_touch (\<lambda>_. fbind f_size (\<lambda>startPtr.
       fbind (f_write data startPtr) (\<lambda>_. fret startPtr))))"

definition v1_SaveDataToFile :: "(free_block gomap \<Rightarrow> free_block gomap) \<Rightarrow> bytes \<Rightarrow> string \<Rightarrow> worker
    \<Rightarrow> worker \<times> (worker_error + int \<times> int)" where
  "v1_SaveDataToFile it data filePath w =
     (case ensureDirExists (w_file w) of
        (f0, Done _) \<Rightarrow>
          (case getBlock (w_defrag w) it (int (length data)) filePath of
             (d, Inr freeBlock) \<Rightarrow>
               (let startPtr = fb_startPtr freeBlock; endPtr = startPtr + int (length data)
                in case v1_write_at data startPtr f0 of
                     (f, Done _) \<Rightarrow>
                       (\<lparr>w_file = f, w_defrag = saveBlockCheck d it filePath startPtr endPtr\<rparr>,
                        Inr (startPtr, endPtr))
                   | (f, _) \<Rightarrow> (\<lparr>w_file = f, w_defrag = d\<rparr>, Inl IoError))
           | (d, Inl _) \<Rightarrow>
               (case v1_append data f0 of
                  (f, Done startPtr) \<Rightarrow>
                    (\<lparr>w_file = f, w_defrag = d\<rparr>, Inr (startPtr, startPtr + int (length data)))
                | (f, _) \<Rightarrow> (\<lparr>w_file = f, w_defrag = d\<rparr>, Inl IoError)))
      | (f0, _) \<Rightarrow> (w\<lparr>w_file := f0\<rparr>, Inl IoError))"

section \<open>Running on a healthy file\<close>

text \<open>
  \<open>run_ok m c x c'\<close>: on every file of content \<open>c\<close> whose operations all succeed, \<open>m\<close> is done with
  \<open>x\<close> and leaves such a file of content \<open>c'\<close>; \<open>run_fail\<close> is the same for a handled error.
\<close>

definition healthy :: "osfile \<Rightarrow> bool" where
  "healthy f \<longleftrightarrow> \<not> closed f \<and> (\<forall>n. faults f n = Fine)"

definition run_ok :: "'a fio \<Rightarrow> bytes \<Rightarrow> 'a \<Rightarrow> bytes \<Rightarrow> bool" where
  "run_ok m c x c' \<longleftrightarrow> (\<forall>f. healthy f \<longrightarrow> content f = c \<longrightarrow>
     (\<exists>f'. m f = (f', Done x) \<and> healthy f' \<and> content f' = c'))"

definition run_fail :: "'a fio \<Rightarrow> bytes \<Rightarrow> worker_error \<Rightarrow> bytes \<Rightarrow> bool" where
  "run_fail m c e c' \<longleftrightarrow> (\<forall>f. healthy f \<longrightarrow> content f = c \<longrightarrow>
     (\<exists>f'. m f = (f', Fail e) \<and> healthy f' \<and> content f' = c'))"

lemma healthy_tick [simp]: "healthy (tick f) = healthy f"
  by (simp add: healthy_def tick_def)

lemma content_tick [simp]: "content (tick f) = content f"
  by (simp add: tick_def)

lemma healthy_content [simp]: "healthy (f\<lparr>content := c\<rparr>) = healthy f"
  by (simp add: healthy_def)

lemma healthy_fault [simp]: "healthy f \<Longrightarrow> f_fault f = Fine"
  by (simp add: healthy_def f_fault_def)

lemma run_ok_fret: "run_ok (fret x) c x c"
  by (simp add: run_ok_def fret_def)

lemma run_fail_ffail: "run_fail (ffail e) c e c"
  by (simp add: run_fail_def ffail_def)

lemma run_ok_bind: "run_ok m c x c1 \<Longrightarrow> run_ok (k x) c1 y c2 \<Longrightarrow> run_ok (fbind m k) c y c2"
  unfolding run_ok_def fbind_def by fastforce

lemma run_fail_bind: "run_ok m c x c1 \<Longrightarrow> run_fail (k x) c1 e c2 \<Longrightarrow> run_fail (fbind m k) c e c2"
  unfolding run_ok_def run_fail_def fbind_def by fastforce

lemma run_ok_size: "run_ok f_size c (int (length c)) c"
  by (simp add: run_ok_def f_size_def)

lemma run_ok_touch: "run_ok f_touch c () c"
  by (simp add: run_ok_def f_touch_def)

lemma run_ok_write: "0 \<le> off \<Longrightarrow> run_ok (f_write d off) c () (pwrite c (nat off) d)"
  by (auto simp: run_ok_def f_write_def) (simp add: pwrite_def)

lemma run_ok_truncate: "run_ok (f_truncate n) c () (ftruncate c (nat n))"
  by (simp add: run_ok_def f_truncate_def)

lemma run_ok_make: "0 \<le> n \<Longrightarrow> n \<le> max_alloc \<Longrightarrow> run_ok (fmake n) c (replicate (nat n) 0) c"
  by (simp add: run_ok_def fmake_def go_make_def)

lemma run_ok_read: "0 \<le> off \<Longrightarrow> run_ok (f_read (replicate n 0) off) c (pread c (nat off) n) c"
  by (auto simp: run_ok_def f_read_def pread_def)

text \<open>A read that lies in the file does not depend on what the buffer held.\<close>

lemma run_ok_read_within:
  "0 \<le> off \<Longrightarrow> nat off + length buf \<le> length c \<Longrightarrow>
   run_ok (f_read buf off) c (pread c (nat off) (length buf)) c"
  by (auto simp: run_ok_def f_read_def pread_def)

lemma run_ok_own_handle: "run_ok m c x c' \<Longrightarrow> run_ok (own_handle m) c x c'"
  unfolding run_ok_def own_handle_def
proof (intro allI impI)
  fix f assume m: "\<forall>f. healthy f \<longrightarrow> content f = c \<longrightarrow>
      (\<exists>f'. m f = (f', Done x) \<and> healthy f' \<and> content f' = c')"
    and f: "healthy f" "content f = c"
  then have "f\<lparr>closed := False\<rparr> = f" by (simp add: healthy_def)
  with m f obtain f' where "m (f\<lparr>closed := False\<rparr>) = (f', Done x)" "healthy f'" "content f' = c'"
    by force
  moreover have "closed f = False" using f by (simp add: healthy_def)
  ultimately show "\<exists>f'. (case m (f\<lparr>closed := False\<rparr>) of
        (f', r) \<Rightarrow> (f'\<lparr>closed := closed f\<rparr>, r)) = (f', Done x) \<and> healthy f' \<and> content f' = c'"
    by (simp add: healthy_def)
qed

section \<open>Files of equal-sized records\<close>

definition uniform :: "nat \<Rightarrow> bytes list \<Rightarrow> bool" where
  "uniform n rs \<longleftrightarrow> (\<forall>r \<in> set rs. length r = n)"

lemma uniform_simps [simp]:
  "uniform n []" "uniform n (r # rs) \<longleftrightarrow> length r = n \<and> uniform n rs"
  "uniform n (rs @ rs') \<longleftrightarrow> uniform n rs \<and> uniform n rs'" "uniform n (rev rs) \<longleftrightarrow> uniform n rs"
  by (auto simp: uniform_def)

lemma uniform_sub [intro]:
  "uniform n rs \<Longrightarrow> uniform n (take k rs)" "uniform n rs \<Longrightarrow> uniform n (drop k rs)"
  "uniform n rs \<Longrightarrow> length d = n \<Longrightarrow> uniform n (rs[k := d])"
  by (auto simp: uniform_def dest: in_set_takeD in_set_dropD set_update_subset_insert[THEN subsetD])

lemma uniform_nth: "uniform n rs \<Longrightarrow> i < length rs \<Longrightarrow> length (rs ! i) = n"
  by (simp add: uniform_def)

lemma length_concat_uniform: "uniform n rs \<Longrightarrow> length (concat rs) = length rs * n"
  by (induction rs) auto

lemma drop_concat_uniform: "uniform n rs \<Longrightarrow> drop (k * n) (concat rs) = concat (drop k rs)"
proof (induction rs arbitrary: k)
  case (Cons r rs)
  then show ?case by (cases k) (auto simp: add.commute)
qed simp

lemma take_concat_uniform: "uniform n rs \<Longrightarrow> take (k * n) (concat rs) = concat (take k rs)"
proof (induction rs arbitrary: k)
  case (Cons r rs)
  then show ?case by (cases k) auto
qed simp

lemma pread_concat:
  assumes "uniform n rs" "i + k \<le> length rs"
  shows "pread (concat rs) (i * n) (k * n) = concat (take k (drop i rs))"
proof -
  have "i * n + k * n \<le> length (concat rs)"
    using assms mult_le_mono1[of "i + k" "length rs" n]
    by (simp add: length_concat_uniform add_mult_distrib)
  then show ?thesis
    using assms(1) by (simp add: pread_within drop_concat_uniform take_concat_uniform uniform_sub)
qed

lemma pread_record:
  "uniform n rs \<Longrightarrow> i < length rs \<Longrightarrow> pread (concat rs) (i * n) n = rs ! i"
  using pread_concat[of n rs i 1]
  by (simp add: take_Suc_conv_app_nth[of 0] hd_drop_conv_nth take_Suc)

lemma pwrite_record:
  assumes "uniform n rs" "length d = n" "0 < n" "i < length rs"
  shows "pwrite (concat rs) (i * n) d = concat (rs[i := d])"
proof -
  have "i * n < length (concat rs)" using assms by (simp add: length_concat_uniform)
  moreover have "drop (i * n + n) (concat rs) = concat (drop (Suc i) rs)"
    using drop_concat_uniform[OF assms(1), of "Suc i"] by (simp add: add.commute)
  ultimately show ?thesis
    using assms by (auto simp: pwrite_def take_concat_uniform upd_conv_take_nth_drop)
qed

lemma pwrite_next_record:
  "uniform n rs \<Longrightarrow> pwrite (concat rs) (length rs * n) d = concat (rs @ [d])"
  using pwrite_append[of "concat rs" d] by (simp add: length_concat_uniform)

lemma ftruncate_record:
  "uniform n rs \<Longrightarrow> ftruncate (concat rs) (length rs * n + n) = concat (rs @ [replicate n 0])"
  by (simp add: ftruncate_def length_concat_uniform)

lemma fold_reverse_records:
  assumes "uniform n rs" "k \<le> length rs" "0 < n"
  shows "fold (\<lambda>i out. pwrite out (i * n) (pread (concat rs) ((length rs - 1 - i) * n) n)) [0..<k]
           (concat (replicate (length rs) (replicate n 0)))
         = concat (take k (rev rs) @ replicate (length rs - k) (replicate n 0))"
  using assms(2)
proof (induction k)
  case (Suc k)
  let ?z = "replicate n 0 :: bytes"
  let ?l = "take k (rev rs) @ replicate (length rs - k) ?z"
  have k: "k < length rs" using Suc.prems by simp
  have u: "uniform n ?l" using assms(1) by (auto simp: uniform_def dest: in_set_takeD)
  have "pread (concat rs) ((length rs - 1 - k) * n) n = rev rs ! k"
    using k assms(1) by (simp add: pread_record rev_nth)
  moreover have "pwrite (concat ?l) (k * n) (rev rs ! k) = concat (?l[k := rev rs ! k])"
    using k u assms by (intro pwrite_record) (simp_all add: rev_nth uniform_nth)
  moreover have "?l[k := rev rs ! k] = take (Suc k) (rev rs) @ replicate (length rs - Suc k) ?z"
    using k by (simp add: list_update_append take_Suc_conv_app_nth Suc_diff_Suc[symmetric])
  ultimately show ?case using Suc by simp
qed simp

lemma reverse_records_concat:
  assumes "uniform n rs" "0 < n"
  shows "reverse_records (length rs) n (concat rs) = concat (rev rs)"
proof -
  have "replicate (length rs * n) (0 :: byte) = concat (replicate (length rs) (replicate n 0))"
    by (induction rs) (auto simp: replicate_add)
  then show ?thesis
    unfolding reverse_records_def using fold_reverse_records[of n rs "length rs"] assms by simp
qed

section \<open>What the table operations do to the list of records\<close>

text \<open>
  The contract of a table of records: appending, inserting at a position counted from the oldest
  (\<open>bottom\<close>) or the newest end (\<open>top\<close>), overwriting, and the three reads. The answer of a write is
  the global position of its record.
\<close>

definition tab_pos :: "string \<Rightarrow> int \<Rightarrow> int \<Rightarrow> int" where
  "tab_pos from newest p = (if to_lower from = ''top'' then newest - p else p)"

definition list_insert_at :: "nat \<Rightarrow> 'a \<Rightarrow> 'a list \<Rightarrow> 'a list" where
  "list_insert_at i d rs = take i rs @ [d] @ drop i rs"

definition table_step :: "file_request \<Rightarrow> bytes list \<Rightarrow> bytes list \<times> (worker_error + bytes)" where
  "table_step req rs =
     (let N = int (length rs); p = i64 (fr_inc_id req); d = fr_data req; from = fr_count_from req
      in if fr_op req = ''write_inc'' then (rs @ [d], Inr (id_buf N))
         else if fr_op req = ''write_inc_ow'' then
           (if fr_read_type req = 0 then
              (if p < 0 \<or> N < p then (rs, Inl InsertIdOutOfRange)
               else (list_insert_at (nat (tab_pos from N p)) d rs, Inr (id_buf (tab_pos from N p))))
            else if fr_read_type req = 1 then
              (if p < 0 \<or> N \<le> p then (rs, Inl OverwriteIdOutOfRange)
               else (rs[nat (tab_pos from (N - 1) p) := d], Inr (id_buf (tab_pos from (N - 1) p))))
            else (rs, Inl InvalidReadType))
         else
           (if fr_read_type req = 0 then
              (if p < 0 \<or> N \<le> p then (rs, Inl ReadIdOutOfRange) else (rs, Inr (rs ! nat p)))
            else if fr_read_type req = 1 then
              (rs, Inr (concat (rev (drop (length rs - nat p) rs))))
            else if fr_read_type req = 2 then (rs, Inr (concat (take (nat p) rs)))
            else (rs, Inl InvalidReadType)))"

definition table_handler :: "file_request \<Rightarrow> file_response fio" where
  "table_handler req =
     (if fr_op req = ''write_inc'' then write_inc req
      else if fr_op req = ''write_inc_ow'' then write_inc_ow req else read_inc req)"

definition table_ops :: "string set" where
  "table_ops = {''write_inc'', ''write_inc_ow'', ''read_inc''}"

text \<open>Requests on a table of records of \<open>n\<close> bytes.\<close>

definition fits_table :: "nat \<Rightarrow> file_request \<Rightarrow> bool" where
  "fits_table n req \<longleftrightarrow> fr_op req \<in> table_ops \<and> record_total (fr_entrySize req) = int n
     \<and> (fr_op req \<noteq> ''read_inc'' \<longrightarrow> length (fr_data req) = n)"

text \<open>A table whose records can be held in one buffer.\<close>

definition table_ok :: "nat \<Rightarrow> bytes list \<Rightarrow> bool" where
  "table_ok n rs \<longleftrightarrow> 0 < n \<and> uniform n rs \<and> int ((length rs + 1) * n) \<le> max_alloc"

lemma table_ok_size:
  assumes "table_ok n rs"
  shows "length (concat rs) = length rs * n" "int (length rs * n) div int n = int (length rs)"
    "int (length rs * n) mod int n = 0" "int n \<le> max_alloc" "int (length rs * n) \<le> max_alloc"
    "0 < n" "uniform n rs"
proof -
  have n: "0 < n" and u: "uniform n rs" and m: "int (length rs * n) + int n \<le> max_alloc"
    using assms by (auto simp: table_ok_def add_mult_distrib)
  show "length (concat rs) = length rs * n" by (rule length_concat_uniform[OF u])
  show "int (length rs * n) div int n = int (length rs)" "int (length rs * n) mod int n = 0"
    using n by simp_all
  show "int n \<le> max_alloc" "int (length rs * n) \<le> max_alloc" using m by linarith+
  show "0 < n" "uniform n rs" using n u by simp_all
qed

lemma align_file_aligned: "sz mod r = 0 \<Longrightarrow> align_file r sz = fret sz"
  by (simp add: align_file_def)

lemma run_ok_align: "table_ok n rs \<Longrightarrow>
  run_ok (align_file (int n) (int (length (concat rs)))) (concat rs) (int (length rs * n)) (concat rs)"
  using table_ok_size(1,3)[of n rs] by (simp add: align_file_aligned run_ok_fret)

lemma length_id_buf [simp]: "length (id_buf i) = 8"
  by (simp add: id_buf_def)

lemma nat_int_mult [simp]: "nat (int a * int b) = a * b"
  by (simp flip: of_nat_mult)

lemma nat_index: "0 \<le> i \<Longrightarrow> nat (i * int n) = nat i * n"
  by (simp add: nat_mult_distrib)

lemma run_ok_write_record:
  assumes "uniform n rs" "length d = n" "0 < n" "0 \<le> i" "i < int (length rs)"
  shows "run_ok (f_write d (i * int n)) (concat rs) () (concat (rs[nat i := d]))"
proof -
  have "0 \<le> i * int n" using assms by simp
  then show ?thesis
    using run_ok_write[of "i * int n" d "concat rs"] assms by (simp add: nat_index pwrite_record)
qed

lemma run_ok_read_record:
  assumes "uniform n rs" "length buf = n" "0 \<le> i" "i < int (length rs)"
  shows "run_ok (f_read buf (i * int n)) (concat rs) (rs ! nat i) (concat rs)"
proof -
  have "nat i * n + n \<le> length (concat rs)"
    using assms mult_le_mono1[of "Suc (nat i)" "length rs" n]
    by (simp add: length_concat_uniform add.commute)
  then have "run_ok (f_read buf (i * int n)) (concat rs) (pread (concat rs) (nat i * n) n) (concat rs)"
    using run_ok_read_within[of "i * int n" buf "concat rs"] assms by (simp add: nat_index)
  then show ?thesis using assms by (simp add: pread_record)
qed

text \<open>
  The reverse copy moves the records from \<open>e\<close> on one place up, one by one from the last; the place
  it leaves free is the one at \<open>e\<close>.
\<close>

lemma run_ok_shift_tail:
  assumes "uniform n rs" "0 < n" "e \<le> k" "k \<le> length rs" "length buf = n" "length y = n"
  shows "\<exists>x. length x = n \<and>
    run_ok (shift_tail (int n) (int e) (int k - 1) buf) (concat (list_insert_at k y rs))
      () (concat (list_insert_at e x rs))"
  using assms(3-)
proof (induction "k - e" arbitrary: k buf y)
  case 0
  then have "k = e" by simp
  then show ?case using 0 by (auto simp: shift_tail.simps run_ok_fret)
next
  case (Suc m)
  then obtain j where j: "k = Suc j" "e \<le> j" "j < length rs" by (cases k) auto
  let ?r = "rs ! j"
  let ?l = "list_insert_at k y rs"
  have lr: "length ?r = n" using j assms(1) by (simp add: uniform_nth)
  have u: "uniform n ?l" and ll: "length ?l = Suc (length rs)"
    using assms(1) Suc.prems by (auto simp: list_insert_at_def)
  have "?l ! j = ?r" using j by (simp add: nth_append list_insert_at_def)
  then have rd: "run_ok (f_read buf (int j * int n)) (concat ?l) ?r (concat ?l)"
    using run_ok_read_record[OF u Suc.prems(3), of "int j"] j ll by simp
  have w: "run_ok (f_write ?r (int k * int n)) (concat ?l) () (concat (?l[k := ?r]))"
    using run_ok_write_record[OF u lr assms(2), of "int k"] ll Suc.prems by simp
  have l': "?l[k := ?r] = list_insert_at j ?r rs"
    using j by (simp add: list_insert_at_def list_update_append take_Suc_conv_app_nth
        Cons_nth_drop_Suc)
  have guard: "\<not> int k - 1 < int e" and ix: "int k - 1 = int j" "int j + 1 = int k"
    using j by simp_all
  have "m = j - e" using Suc.hyps(2) j(1) by simp
  from Suc.hyps(1)[OF this j(2) less_imp_le[OF j(3)] lr lr]
  obtain x where x: "length x = n"
    and ih: "run_ok (shift_tail (int n) (int e) (int j - 1) ?r)
      (concat (list_insert_at j ?r rs)) () (concat (list_insert_at e x rs))"
    by blast
  have "run_ok (shift_tail (int n) (int e) (int k - 1) buf) (concat ?l) ()
      (concat (list_insert_at e x rs))"
    unfolding shift_tail.simps[of "int n" "int e" "int k - 1"] if_not_P[OF guard] unfolding ix
    by (rule run_ok_bind[OF rd], rule run_ok_bind[OF w[unfolded l']], rule ih)
  with x show ?case by blast
qed

lemma run_ok_inc_insert:
  assumes t: "table_ok n rs" and d: "length (fr_data req) = n"
    and p: "0 \<le> p" "p \<le> int (length rs)" "p = i64 (fr_inc_id req)"
    and e: "e = tab_pos (fr_count_from req) (int (length rs)) p"
  shows "run_ok (inc_insert req (int n) (int (length rs * n))) (concat rs)
    (resp_ok (id_buf e) (e * int n) (e * int n + int n))
    (concat (list_insert_at (nat e) (fr_data req) rs))"
proof -
  note ts = table_ok_size[OF t]
  let ?z = "replicate n 0 :: bytes"
  have e01: "0 \<le> e" "e \<le> int (length rs)" using e p by (auto simp: tab_pos_def)
  obtain e' where e': "e = int e'" "e' \<le> length rs"
    using e01 by (metis nat_le_iff zero_le_imp_eq_int nat_int)
  have pos: "(if to_lower (fr_count_from req) = ''top'' then int (length rs) - p else p) = int e'"
    using e e' by (simp add: tab_pos_def)
  have tr: "run_ok (f_truncate (int (length rs * n) + int n)) (concat rs) ()
      (concat (list_insert_at (length rs) ?z rs))"
    using run_ok_truncate[of "int (length rs * n) + int n" "concat rs"] ftruncate_record[OF ts(7)]
    by (simp add: nat_add_distrib list_insert_at_def flip: of_nat_add)
  have mk: "run_ok (fmake (int n)) c ?z c" for c
    using run_ok_make[of "int n"] ts(4) by simp
  obtain x where x: "length x = n"
    and sh: "run_ok (shift_tail (int n) (int e') (int (length rs) - 1) ?z)
      (concat (list_insert_at (length rs) ?z rs)) () (concat (list_insert_at e' x rs))"
    using run_ok_shift_tail[OF ts(7,6) e'(2) order_refl, of ?z ?z] by auto
  have u: "uniform n (list_insert_at e' x rs)"
    using ts(7) x by (auto simp: list_insert_at_def)
  have len: "length (list_insert_at e' x rs) = Suc (length rs)"
    using e'(2) by (simp add: list_insert_at_def)
  have upd: "(list_insert_at e' x rs)[e' := fr_data req] = list_insert_at e' (fr_data req) rs"
    using e'(2) by (simp add: list_insert_at_def list_update_append)
  have w: "run_ok (f_write (fr_data req) (int e' * int n)) (concat (list_insert_at e' x rs)) ()
      (concat (list_insert_at e' (fr_data req) rs))"
    using run_ok_write_record[OF u d ts(6), of "int e'"] e'(2) len upd by simp
  have num: "int (length rs * n) div int n = int (length rs)" by (rule ts(2))
  have guard: "\<not> (p < 0 \<or> int (length rs) < p)" using p by simp
  show ?thesis
    unfolding inc_insert_def Let_def num p(3)[symmetric] pos if_not_P[OF guard] e'(1) nat_int
    by (intro run_ok_bind[OF tr] run_ok_bind[OF mk] run_ok_bind[OF sh] run_ok_bind[OF w] run_ok_fret)
qed

lemma run_ok_inc_overwrite:
  assumes t: "table_ok n rs" and d: "length (fr_data req) = n"
    and p: "0 \<le> p" "p < int (length rs)" "p = i64 (fr_inc_id req)"
    and e: "e = tab_pos (fr_count_from req) (int (length rs) - 1) p"
  shows "run_ok (inc_overwrite req (int n) (int (length rs * n))) (concat rs)
    (resp_ok (id_buf e) (e * int n) (e * int n + int n)) (concat (rs[nat e := fr_data req]))"
proof -
  note ts = table_ok_size[OF t]
  have e01: "0 \<le> e" "e < int (length rs)" using e p by (auto simp: tab_pos_def)
  have pos: "(if to_lower (fr_count_from req) = ''top'' then int (length rs) - 1 - p else p) = e"
    using e by (simp add: tab_pos_def)
  have guard: "\<not> (p < 0 \<or> int (length rs) \<le> p)" using p by simp
  show ?thesis
    unfolding inc_overwrite_def Let_def ts(2) p(3)[symmetric] pos if_not_P[OF guard]
    by (intro run_ok_bind[OF run_ok_write_record[OF ts(7) d ts(6) e01]] run_ok_fret)
qed

lemma run_ok_write_inc:
  assumes t: "table_ok n rs" and d: "length (fr_data req) = n"
    and r: "record_total (fr_entrySize req) = int n"
  shows "run_ok (write_inc req) (concat rs)
    (resp_ok (id_buf (int (length rs))) (int (length rs * n)) (int (length rs * n) + int n))
    (concat (rs @ [fr_data req]))"
proof -
  note ts = table_ok_size[OF t]
  have w: "run_ok (f_write (fr_data req) (int (length rs * n))) (concat rs) ()
      (concat (rs @ [fr_data req]))"
    using run_ok_write[of "int (length rs * n)" "fr_data req" "concat rs"]
      pwrite_next_record[OF ts(7), of "fr_data req"] by simp
  have num: "int (length rs * n) div int n * int n = int (length rs * n)" using ts(2) by simp
  have guard: "\<not> int n \<le> 0" "\<not> int (length (fr_data req)) \<noteq> int n" using d ts(6) by simp_all
  show ?thesis
    unfolding write_inc_def Let_def r if_not_P[OF guard(1)] if_not_P[OF guard(2)]
    by (rule run_ok_bind[OF run_ok_size], rule run_ok_bind[OF run_ok_align[OF t]],
        unfold num, unfold ts(2), rule run_ok_bind[OF w], rule run_ok_fret)
qed

text \<open>
  A handler refines the contract when, on every healthy file holding the table, it answers and
  leaves the table as the contract says.
\<close>

definition refines_step :: "file_response fio \<Rightarrow> bytes list \<Rightarrow> bytes list \<times> (worker_error + bytes) \<Rightarrow> bool" where
  "refines_step m rs res \<longleftrightarrow>
     (case res of
        (rs', Inl e) \<Rightarrow> run_fail m (concat rs) e (concat rs')
      | (rs', Inr d) \<Rightarrow> \<exists>a b. run_ok m (concat rs) (resp_ok d a b) (concat rs'))"

lemma refines_stepI:
  "run_ok m (concat rs) (resp_ok d a b) (concat rs') \<Longrightarrow> refines_step m rs (rs', Inr d)"
  "run_fail m (concat rs) e (concat rs') \<Longrightarrow> refines_step m rs (rs', Inl e)"
  by (auto simp: refines_step_def)

lemma refines_bind:
  assumes "run_ok m (concat rs) x (concat rs)" "refines_step (k x) rs res"
  shows "refines_step (fbind m k) rs res"
proof (cases "snd res")
  case (Inl e)
  then show ?thesis
    using assms run_fail_bind[OF assms(1), of k] by (cases res) (auto simp: refines_step_def)
next
  case (Inr d)
  then show ?thesis
    using assms run_ok_bind[OF assms(1), of k] by (cases res) (auto simp: refines_step_def)
qed

lemma write_inc_ow_refines:
  assumes t: "table_ok n rs" and f: "fits_table n req" and op: "fr_op req = ''write_inc_ow''"
  shows "refines_step (write_inc_ow req) rs (table_step req rs)"
proof -
  note ts = table_ok_size[OF t]
  have r: "record_total (fr_entrySize req) = int n" and d: "length (fr_data req) = n"
    using f op by (auto simp: fits_table_def)
  have guard: "\<not> int n \<le> 0" "\<not> int (length (fr_data req)) \<noteq> int n" using d ts(6) by simp_all
  let ?p = "i64 (fr_inc_id req)"
  let ?k = "\<lambda>fileSize. if fr_read_type req = 0 then inc_insert req (int n) fileSize
      else if fr_read_type req = 1 then inc_overwrite req (int n) fileSize else ffail InvalidReadType"
  have "refines_step (?k (int (length rs * n))) rs (table_step req rs)"
  proof -
    consider "fr_read_type req = 0" | "fr_read_type req = 1"
      | "fr_read_type req \<noteq> 0" "fr_read_type req \<noteq> 1" by blast
    then show ?thesis
    proof cases
      case 1
      show ?thesis
      proof (cases "?p < 0 \<or> int (length rs) < ?p")
        case True
        have "inc_insert req (int n) (int (length rs * n)) = ffail InsertIdOutOfRange"
          unfolding inc_insert_def Let_def ts(2) if_P[OF True] ..
        moreover have "table_step req rs = (rs, Inl InsertIdOutOfRange)"
          using True op 1 by (simp add: table_step_def)
        ultimately show ?thesis using 1 run_fail_ffail by (auto intro!: refines_stepI)
      next
        case False
        then have p: "0 \<le> ?p" "?p \<le> int (length rs)" by simp_all
        have "table_step req rs =
            (list_insert_at (nat (tab_pos (fr_count_from req) (int (length rs)) ?p)) (fr_data req) rs,
             Inr (id_buf (tab_pos (fr_count_from req) (int (length rs)) ?p)))"
          using False op 1 by (simp add: table_step_def Let_def)
        then show ?thesis
          using 1 refines_stepI(1)[OF run_ok_inc_insert[OF t d p refl refl]] by simp
      qed
    next
      case 2
      show ?thesis
      proof (cases "?p < 0 \<or> int (length rs) \<le> ?p")
        case True
        have "inc_overwrite req (int n) (int (length rs * n)) = ffail OverwriteIdOutOfRange"
          unfolding inc_overwrite_def Let_def ts(2) if_P[OF True] ..
        moreover have "table_step req rs = (rs, Inl OverwriteIdOutOfRange)"
          using True op 2 by (simp add: table_step_def)
        ultimately show ?thesis using 2 run_fail_ffail by (auto intro!: refines_stepI)
      next
        case False
        then have p: "0 \<le> ?p" "?p < int (length rs)" by simp_all
        have "table_step req rs =
            (rs[nat (tab_pos (fr_count_from req) (int (length rs) - 1) ?p) := fr_data req],
             Inr (id_buf (tab_pos (fr_count_from req) (int (length rs) - 1) ?p)))"
          using False op 2 by (simp add: table_step_def Let_def)
        then show ?thesis
          using 2 refines_stepI(1)[OF run_ok_inc_overwrite[OF t d p refl refl]] by simp
      qed
    next
      case 3
      then have "table_step req rs = (rs, Inl InvalidReadType)"
        using op by (simp add: table_step_def)
      then show ?thesis using 3 run_fail_ffail by (auto intro!: refines_stepI)
    qed
  qed
  then show ?thesis
    unfolding write_inc_ow_def Let_def r if_not_P[OF guard(1)] if_not_P[OF guard(2)]
    by (intro refines_bind[OF run_ok_size] refines_bind[OF run_ok_align[OF t]])
qed

lemma run_ok_read_records:
  assumes t: "table_ok n rs" and ik: "i + k \<le> length rs"
  shows "run_ok (fbind (fmake (int (k * n))) (\<lambda>buf. f_read buf (int (i * n)))) (concat rs)
     (concat (take k (drop i rs))) (concat rs)"
proof -
  note ts = table_ok_size[OF t]
  have "k * n \<le> length rs * n" using ik by simp
  then have "int (k * n) \<le> max_alloc" using ts(5) by linarith
  then have mk: "run_ok (fmake (int (k * n))) c (replicate (k * n) 0) c" for c
    using run_ok_make[of "int (k * n)" c] by simp
  have "run_ok (f_read (replicate (k * n) 0) (int (i * n))) (concat rs)
      (pread (concat rs) (i * n) (k * n)) (concat rs)"
    using run_ok_read[of "int (i * n)" "k * n" "concat rs"] by simp
  then show ?thesis
    unfolding pread_concat[OF ts(7) ik] by (rule run_ok_bind[OF mk])
qed

lemma fbind_assoc: "fbind (fbind m k) h = fbind m (\<lambda>x. fbind (k x) h)"
  by (rule ext) (simp add: fbind_def split: prod.split io.split)

lemma refines_read:
  assumes t: "table_ok n rs" and ik: "i + k \<le> length rs"
    and h: "\<And>got. h got = fret (resp_ok (g got) a b)"
    and g: "g (concat (take k (drop i rs))) = d"
  shows "refines_step (fbind (fmake (int (k * n))) (\<lambda>buf. fbind (f_read buf (int (i * n))) h))
           rs (rs, Inr d)"
  unfolding fbind_assoc[symmetric, where k = "\<lambda>buf. f_read buf (int (i * n))"]
  by (rule refines_stepI(1), rule run_ok_bind[OF run_ok_read_records[OF t ik]])
    (unfold h g, rule run_ok_fret)

lemma read_inc_refines:
  assumes t: "table_ok n rs" and f: "fits_table n req" and op: "fr_op req = ''read_inc''"
  shows "refines_step (read_inc req) rs (table_step req rs)"
proof -
  note ts = table_ok_size[OF t]
  have r: "record_total (fr_entrySize req) = int n" using f by (simp add: fits_table_def)
  have guard: "\<not> int n \<le> 0" using ts(6) by simp
  let ?p = "i64 (fr_inc_id req)" and ?N = "length rs"
  define q where "q = min (nat ?p) ?N"
  show ?thesis
    unfolding read_inc_def Let_def r if_not_P[OF guard]
  proof (rule refines_bind[OF run_ok_size], unfold ts(1) ts(2))
    consider (byid) "fr_read_type req = 0" | (last) "fr_read_type req = 1"
      | (first) "fr_read_type req = 2"
      | (bad) "fr_read_type req \<noteq> 0" "fr_read_type req \<noteq> 1" "fr_read_type req \<noteq> 2" by blast
    then show "refines_step
      (if fr_read_type req = 0 then
         (if ?p < 0 \<or> int ?N \<le> ?p then ffail ReadIdOutOfRange
          else fbind (fmake (int n)) (\<lambda>buf. fbind (f_read buf (?p * int n))
                 (\<lambda>got. fret (resp_ok got (?p * int n) (?p * int n + int n)))))
       else if fr_read_type req = 1 then
         (if ?p \<le> 0 \<or> int ?N = 0 then fret (resp_ok [] 0 0)
          else fbind (fmake (min ?p (int ?N) * int n)) (\<lambda>tmp0.
                 fbind (f_read tmp0 ((int ?N - min ?p (int ?N)) * int n)) (\<lambda>tmp.
                 fret (resp_ok (reverse_records (nat (min ?p (int ?N))) (nat (int n)) tmp)
                   ((int ?N - min ?p (int ?N)) * int n)
                   ((int ?N - min ?p (int ?N)) * int n + min ?p (int ?N) * int n)))))
       else if fr_read_type req = 2 then
         (if ?p \<le> 0 \<or> int ?N = 0 then fret (resp_ok [] 0 0)
          else fbind (fmake (min ?p (int ?N) * int n)) (\<lambda>buf. fbind (f_read buf 0)
                 (\<lambda>got. fret (resp_ok got 0 (min ?p (int ?N) * int n)))))
       else ffail InvalidReadType) rs (table_step req rs)"
    proof cases
      case byid
      show ?thesis
      proof (cases "?p < 0 \<or> int ?N \<le> ?p")
        case True
        then have "table_step req rs = (rs, Inl ReadIdOutOfRange)"
          using op byid by (simp add: table_step_def)
        then show ?thesis using True byid by (auto intro: refines_stepI(2) run_fail_ffail)
      next
        case False
        then obtain i where i: "?p = int i" "i < ?N" by (metis linorder_not_less zero_le_imp_eq_int of_nat_less_iff)
        then have "table_step req rs = (rs, Inr (rs ! i))"
          using op byid by (simp add: table_step_def)
        moreover have "concat (take 1 (drop i rs)) = rs ! i"
          using i by (simp add: take_Suc hd_drop_conv_nth)
        then have "refines_step (fbind (fmake (int (1 * n))) (\<lambda>buf. fbind (f_read buf (int (i * n)))
            (\<lambda>got. fret (resp_ok got (int (i * n)) (int (i * n) + int n))))) rs (rs, Inr (rs ! i))"
          using i by (intro refines_read[OF t, where g = id]) auto
        ultimately show ?thesis using byid i by simp
      qed
    next
      case last
      show ?thesis
      proof (cases "?p \<le> 0 \<or> int ?N = 0")
        case True
        then have "table_step req rs = (rs, Inr [])"
          using op last by (auto simp: table_step_def)
        then show ?thesis using True last by (auto intro!: refines_stepI(1) run_ok_fret)
      next
        case False
        then have q: "min ?p (int ?N) = int q" "q \<le> ?N" "int ?N - int q = int (?N - q)" by (auto simp: q_def)
        have "drop (?N - nat ?p) rs = drop (?N - q) rs" by (simp add: q_def min_def)
        then have step: "table_step req rs = (rs, Inr (concat (rev (drop (?N - q) rs))))"
          using op last by (simp add: table_step_def)
        have u: "uniform n (drop (?N - q) rs)" using ts(7) by auto
        have l: "length (drop (?N - q) rs) = q" using q(2) by simp
        have "reverse_records q n (concat (take q (drop (?N - q) rs))) = concat (rev (drop (?N - q) rs))"
          using reverse_records_concat[OF u ts(6), unfolded l] l by simp
        then have "refines_step (fbind (fmake (int (q * n))) (\<lambda>tmp0.
              fbind (f_read tmp0 (int ((?N - q) * n))) (\<lambda>tmp.
              fret (resp_ok (reverse_records q n tmp) (int ((?N - q) * n))
                      (int ((?N - q) * n) + int (q * n)))))) rs (table_step req rs)"
          unfolding step using q(2) by (intro refines_read[OF t, where g = "reverse_records q n"]) auto
        then show ?thesis
          using last False unfolding q(1) q(3) nat_int of_nat_mult by simp
      qed
    next
      case first
      show ?thesis
      proof (cases "?p \<le> 0 \<or> int ?N = 0")
        case True
        then have "table_step req rs = (rs, Inr [])"
          using op first by (auto simp: table_step_def)
        then show ?thesis using True first by (auto intro!: refines_stepI(1) run_ok_fret)
      next
        case False
        then have q: "min ?p (int ?N) = int q" "q \<le> ?N" by (auto simp: q_def)
        have "take (nat ?p) rs = take q rs" by (simp add: q_def min_def)
        then have step: "table_step req rs = (rs, Inr (concat (take q rs)))"
          using op first by (simp add: table_step_def)
        have "refines_step (fbind (fmake (int (q * n))) (\<lambda>buf. fbind (f_read buf (int (0 * n)))
            (\<lambda>got. fret (resp_ok got 0 (int (q * n)))))) rs (table_step req rs)"
          unfolding step using q(2) by (intro refines_read[OF t, where g = id]) auto
        then show ?thesis using first False unfolding q(1) by simp
      qed
    next
      case bad
      then have "table_step req rs = (rs, Inl InvalidReadType)"
        using op by (simp add: table_step_def)
      then show ?thesis using bad by (auto intro: refines_stepI(2) run_fail_ffail)
    qed
  qed
qed

lemma write_inc_refines:
  assumes t: "table_ok n rs" and f: "fits_table n req" and op: "fr_op req = ''write_inc''"
  shows "refines_step (write_inc req) rs (table_step req rs)"
proof -
  have "record_total (fr_entrySize req) = int n" "length (fr_data req) = n"
    using f op by (auto simp: fits_table_def)
  from refines_stepI(1)[OF run_ok_write_inc[OF t this(2,1)]] show ?thesis
    using op by (simp add: table_step_def Let_def)
qed

lemma table_handler_refines:
  "table_ok n rs \<Longrightarrow> fits_table n req \<Longrightarrow> refines_step (table_handler req) rs (table_step req rs)"
  using write_inc_ow_refines[of n rs req] write_inc_refines[of n rs req] read_inc_refines[of n rs req]
  by (auto simp: table_handler_def fits_table_def table_ops_def)

section \<open>Batches of table requests\<close>

text \<open>
  A batch on a table runs the insertions and overwrites first, then the appends, then the reads,
  each kind in the order of arrival, and every request is answered once.
\<close>

definition batch_order :: "batch \<Rightarrow> batch" where
  "batch_order b = of_op ''write_inc_ow'' b @ of_op ''write_inc'' b @ of_op ''read_inc'' b"

fun run_table :: "batch \<Rightarrow> bytes list \<Rightarrow> bytes list \<times> (nat \<times> (worker_error + bytes)) list" where
  "run_table [] rs = (rs, [])"
| "run_table ((i, req) # b) rs =
     (let (rs1, r) = table_step req rs; (rs2, out) = run_table b rs1 in (rs2, (i, r) # out))"

definition answer :: "file_response \<Rightarrow> worker_error + bytes" where
  "answer r = (case rs_err r of Some e \<Rightarrow> Inl e | None \<Rightarrow> Inr (rs_data r))"

lemma answer_simps [simp]: "answer (resp_err e) = Inl e" "answer (resp_ok d a b) = Inr d"
  by (simp_all add: answer_def resp_err_def resp_ok_def)

lemma serve_append: "serve h (b1 @ b2) w = and_then (serve h b1 w) (serve h b2)"
  by (induction h b1 w rule: serve.induct)
    (auto simp: and_then_def split: prod.splits outcome.splits)

lemma serve_cong: "(\<And>i r. (i, r) \<in> set b \<Longrightarrow> h r = h' r) \<Longrightarrow> serve h b w = serve h' b w"
proof (induction b arbitrary: w)
  case (Cons p b)
  obtain i r where p: "p = (i, r)" by (cases p)
  have h: "h r = h' r" using Cons.prems[of i r] p by simp
  have "serve h b w = serve h' b w" for w using Cons.IH Cons.prems by auto
  then show ?case by (simp add: p h)
qed simp

lemma serve_Nil: "serve h [] = (\<lambda>w. (w, [], True))"
  by (rule ext) simp

lemma set_of_op: "p \<in> set (of_op k b) \<longleftrightarrow> p \<in> set b \<and> fr_op (snd p) = k"
  by (auto simp: of_op_def)

lemma of_op_Nil: "(\<And>i r. (i, r) \<in> set b \<Longrightarrow> fr_op r \<noteq> k) \<Longrightarrow> of_op k b = []"
  by (auto simp: of_op_def filter_empty_conv)

lemma and_then_assoc: "and_then (and_then x k) h = and_then x (\<lambda>w. and_then (k w) h)"
  by (simp add: and_then_def split: prod.splits)

lemma and_then_Ret [simp]: "and_then (w, out, True) k = (case k w of (w', out', ok) \<Rightarrow> (w', out @ out', ok))"
  by (simp add: and_then_def)

lemma and_then_right [simp]: "and_then x (\<lambda>w. (w, [], True)) = x"
  by (auto simp: and_then_def split: prod.splits)

lemma executeBatch_table:
  assumes "\<And>i r. (i, r) \<in> set b \<Longrightarrow> fr_op r \<in> table_ops"
  shows "executeBatch it t b w = serve (\<lambda>req. on_file (table_handler req)) (batch_order b) w"
proof -
  have 1: "serve (\<lambda>req. on_file (write_inc_ow req)) (of_op ''write_inc_ow'' b) w
      = serve (\<lambda>req. on_file (table_handler req)) (of_op ''write_inc_ow'' b) w" for w
    by (rule serve_cong) (auto simp: set_of_op table_handler_def)
  have 2: "serve (\<lambda>req. on_file (write_inc req)) (of_op ''write_inc'' b) w
      = serve (\<lambda>req. on_file (table_handler req)) (of_op ''write_inc'' b) w" for w
    by (rule serve_cong) (auto simp: set_of_op table_handler_def)
  have 3: "serve (\<lambda>req. on_file (read_inc req)) (of_op ''read_inc'' b) w
      = serve (\<lambda>req. on_file (table_handler req)) (of_op ''read_inc'' b) w" for w
    by (rule serve_cong) (auto simp: set_of_op table_handler_def)
  have e: "of_op ''write'' b = []" "of_op ''read'' b = []"
    using assms by (force intro!: of_op_Nil simp: table_ops_def)+
  show ?thesis
    unfolding executeBatch_def batch_order_def 1 2 3 e
    by (simp add: write_phase_def serve_append[abs_def] and_then_assoc serve_Nil)
qed

lemma on_file_refines:
  assumes "refines_step m rs (rs', r)" "healthy (w_file w)" "content (w_file w) = concat rs"
  shows "\<exists>w' resp. on_file m w = (w', Ret resp) \<and> answer resp = r \<and> healthy (w_file w')
    \<and> content (w_file w') = concat rs' \<and> w_defrag w' = w_defrag w"
proof (cases r)
  case (Inl e)
  then obtain f where "m (w_file w) = (f, Fail e)" "healthy f" "content f = concat rs'"
    using assms unfolding refines_step_def run_fail_def by auto
  with Inl show ?thesis by (auto simp: on_file_def)
next
  case (Inr d)
  then obtain a b where "run_ok m (concat rs) (resp_ok d a b) (concat rs')"
    using assms(1) unfolding refines_step_def by auto
  then obtain f where "m (w_file w) = (f, Done (resp_ok d a b))" "healthy f" "content f = concat rs'"
    using assms(2,3) unfolding run_ok_def by blast
  with Inr show ?thesis by (auto simp: on_file_def)
qed

lemma table_step_length: "table_step req rs = (rs', r) \<Longrightarrow> length rs' \<le> Suc (length rs)"
  by (auto simp: table_step_def Let_def list_insert_at_def split: if_splits)

lemma table_step_uniform:
  "uniform n rs \<Longrightarrow> fits_table n req \<Longrightarrow> table_step req rs = (rs', r) \<Longrightarrow> uniform n rs'"
  by (auto simp: table_step_def Let_def list_insert_at_def fits_table_def split: if_splits)

lemma run_table_length: "run_table b rs = (rs', out) \<Longrightarrow> length rs' \<le> length rs + length b"
proof (induction b rs arbitrary: rs' out rule: run_table.induct)
  case (2 i req b rs)
  obtain rs1 r where s: "table_step req rs = (rs1, r)" by (cases "table_step req rs")
  obtain rs2 o2 where t: "run_table b rs1 = (rs2, o2)" by (cases "run_table b rs1")
  have "rs' = rs2" using 2(2) s t by simp
  moreover have "length rs2 \<le> length rs1 + length b" using 2(1)[OF s[symmetric] refl t] .
  ultimately show ?case using table_step_length[OF s] by simp
qed simp

lemma serve_table:
  assumes "0 < n" "uniform n rs" "int ((length rs + length b + 1) * n) \<le> max_alloc"
    and "\<And>i r. (i, r) \<in> set b \<Longrightarrow> fits_table n r"
    and "healthy (w_file w)" "content (w_file w) = concat rs"
  shows "\<exists>w' out. serve (\<lambda>req. on_file (table_handler req)) b w = (w', out, True)
    \<and> map (\<lambda>(i, r). (i, answer r)) out = snd (run_table b rs)
    \<and> healthy (w_file w') \<and> content (w_file w') = concat (fst (run_table b rs))
    \<and> w_defrag w' = w_defrag w"
  using assms(2-)
proof (induction b arbitrary: w rs)
  case Nil
  then show ?case by simp
next
  case (Cons p b)
  obtain i req where p: "p = (i, req)" by (cases p)
  obtain rs1 r where s: "table_step req rs = (rs1, r)" by (cases "table_step req rs")
  have f: "fits_table n req" by (rule Cons.prems(3)[of i]) (simp add: p)
  have "(length rs + 1) * n \<le> (length rs + length (p # b) + 1) * n"
    by (intro mult_le_mono1) simp
  then have "int ((length rs + 1) * n) \<le> max_alloc"
    using Cons.prems(2) by (meson of_nat_le_iff order_trans)
  then have t: "table_ok n rs" using assms(1) Cons.prems(1) by (simp add: table_ok_def)
  have "(length rs1 + length b + 1) * n \<le> (length rs + length (p # b) + 1) * n"
    using table_step_length[OF s] by (intro mult_le_mono1) simp
  then have b1: "int ((length rs1 + length b + 1) * n) \<le> max_alloc"
    using Cons.prems(2) by (meson of_nat_le_iff order_trans)
  obtain w1 resp where w1: "on_file (table_handler req) w = (w1, Ret resp)" "answer resp = r"
      "healthy (w_file w1)" "content (w_file w1) = concat rs1" "w_defrag w1 = w_defrag w"
    using on_file_refines[OF table_handler_refines[OF t f, unfolded s] Cons.prems(4,5)] by blast
  obtain w2 out where "serve (\<lambda>req. on_file (table_handler req)) b w1 = (w2, out, True)"
      "map (\<lambda>(i, r). (i, answer r)) out = snd (run_table b rs1)"
      "healthy (w_file w2)" "content (w_file w2) = concat (fst (run_table b rs1))"
      "w_defrag w2 = w_defrag w1"
    using Cons.IH[OF table_step_uniform[OF Cons.prems(1) f s] b1 _ w1(3,4)] Cons.prems(3) by auto
  with w1 s p show ?case by (auto split: prod.splits)
qed

section \<open>Every request of a batch is answered\<close>

definition known_ops :: "string set" where
  "known_ops = {''write_inc_ow'', ''write_inc'', ''write'', ''read_inc'', ''read''}"

lemma serve_ids: "serve h b w = (w', out, True) \<Longrightarrow> map fst out = map fst b"
proof (induction b arbitrary: w w' out)
  case (Cons p b)
  obtain i r where p: "p = (i, r)" by (cases p)
  obtain w1 resp where h: "h r w = (w1, Ret resp)"
    using Cons.prems p by (cases "h r w"; cases "snd (h r w)") auto
  obtain w2 o2 ok where s: "serve h b w1 = (w2, o2, ok)" by (cases "serve h b w1")
  then have "ok" "out = (i, resp) # o2" using Cons.prems p h by auto
  then show ?case using Cons.IH s p by auto
qed simp

lemma assign_block_ids [simp]: "map fst (assign_block c b) = map fst b"
  by (induction c b rule: assign_block.induct) auto

lemma assign_eof_ids:
  "assign_eof b f = (f', b', out) \<Longrightarrow> map fst b' = map fst b \<and> set (map fst out) \<subseteq> set (map fst b)
     \<and> (healthy f \<longrightarrow> out = [])"
proof (induction b f arbitrary: f' b' out rule: assign_eof.induct)
  case (2 i req rest f)
  obtain f1 r where s: "f_size f = (f1, r)" by (cases "f_size f")
  obtain f2 b2 o2 where a: "assign_eof rest f1 = (f2, b2, o2)" by (cases "assign_eof rest f1")
  have h: "healthy f \<Longrightarrow> \<exists>n. r = Done n \<and> healthy f1"
    using s by (auto simp: f_size_def)
  have ih: "map fst b2 = map fst rest \<and> set (map fst o2) \<subseteq> set (map fst rest)
      \<and> (healthy f1 \<longrightarrow> o2 = [])"
    using "2.IH"(1)[OF s[symmetric]] "2.IH"(2)[OF s[symmetric]] "2.IH"(3)[OF s[symmetric]] a
    by (cases r) auto
  show ?case
  proof (cases r)
    case (Done n)
    then show ?thesis using 2(4) s a ih h by auto
  qed (use 2(4) s a ih h in \<open>auto simp del: set_map\<close>)
qed simp

lemma write_phase_ids:
  assumes "write_phase it t b w = (w', out, True)"
  shows "set (map fst out) = set (map fst b) \<and> (healthy (w_file w) \<longrightarrow> map fst out = map fst b)"
proof (cases "b = []")
  case False
  obtain d r where g: "getBlock (w_defrag w) it (int (\<Sum>(i, r)\<leftarrow>b. length (fr_data r))) t = (d, r)"
    by (cases "getBlock (w_defrag w) it (int (\<Sum>(i, r)\<leftarrow>b. length (fr_data r))) t")
  show ?thesis
  proof (cases r)
    case (Inr blk)
    then show ?thesis
      using assms False g serve_ids[of "write_one it t" "assign_block (fb_startPtr blk) b"]
      by (fastforce simp: write_phase_def Let_def)
  next
    case (Inl e)
    obtain f b' o1 where a: "assign_eof b (w_file w) = (f, b', o1)"
      by (cases "assign_eof b (w_file w)")
    obtain w2 o2 where s: "serve (write_one it t) b' (w\<lparr>w_file := f, w_defrag := d\<rparr>) = (w2, o2, True)"
      and out: "out = o1 @ o2"
      using assms False g Inl a by (auto simp: write_phase_def Let_def split: prod.splits)
    show ?thesis
      using serve_ids[OF s] assign_eof_ids[OF a] out by auto
  qed
qed (use assms in \<open>simp add: write_phase_def\<close>)

lemma and_then_True:
  "and_then x k = (w', out, True) \<Longrightarrow>
   \<exists>w1 o1 o2. x = (w1, o1, True) \<and> k w1 = (w', o2, True) \<and> out = o1 @ o2"
  by (auto simp: and_then_def split: prod.splits if_splits)

lemma set_known_ops:
  "set (map fst (filter (\<lambda>(i, r). fr_op r \<in> known_ops) b)) =
   set (map fst (of_op ''write_inc_ow'' b)) \<union> set (map fst (of_op ''write_inc'' b))
   \<union> set (map fst (of_op ''write'' b)) \<union> set (map fst (of_op ''read_inc'' b))
   \<union> set (map fst (of_op ''read'' b))"
proof -
  have ids: "set (map fst (of_op k b)) = {i. \<exists>r. (i, r) \<in> set b \<and> fr_op r = k}" for k
    by (force simp: of_op_def)
  have "set (map fst (filter (\<lambda>(i, r). fr_op r \<in> known_ops) b))
      = {i. \<exists>r. (i, r) \<in> set b \<and> fr_op r \<in> known_ops}"
    by force
  then show ?thesis unfolding ids known_ops_def insert_iff by blast
qed

lemma executeBatch_answers:
  assumes "executeBatch it t b w = (w', out, True)"
  shows "set (map fst out) = set (map fst (filter (\<lambda>(i, r). fr_op r \<in> known_ops) b))"
proof -
  obtain w4 o4 o5 where e5: "serve (\<lambda>req. on_file (read_range req)) (of_op ''read'' b) w4 = (w', o5, True)"
    and x4: "and_then (and_then (and_then
       (serve (\<lambda>req. on_file (write_inc_ow req)) (of_op ''write_inc_ow'' b) w)
       (serve (\<lambda>req. on_file (write_inc req)) (of_op ''write_inc'' b)))
       (write_phase it t (of_op ''write'' b)))
       (serve (\<lambda>req. on_file (read_inc req)) (of_op ''read_inc'' b)) = (w4, o4, True)"
    and out: "out = o4 @ o5"
    using and_then_True[OF assms[unfolded executeBatch_def]] by blast
  obtain w3 o3 o4' where e4: "serve (\<lambda>req. on_file (read_inc req)) (of_op ''read_inc'' b) w3 = (w4, o4', True)"
    and x3: "and_then (and_then
       (serve (\<lambda>req. on_file (write_inc_ow req)) (of_op ''write_inc_ow'' b) w)
       (serve (\<lambda>req. on_file (write_inc req)) (of_op ''write_inc'' b)))
       (write_phase it t (of_op ''write'' b)) = (w3, o3, True)" and o4: "o4 = o3 @ o4'"
    using and_then_True[OF x4] by blast
  obtain w2 o2 o3' where e3: "write_phase it t (of_op ''write'' b) w2 = (w3, o3', True)"
    and x2: "and_then (serve (\<lambda>req. on_file (write_inc_ow req)) (of_op ''write_inc_ow'' b) w)
       (serve (\<lambda>req. on_file (write_inc req)) (of_op ''write_inc'' b)) = (w2, o2, True)"
    and o3: "o3 = o2 @ o3'"
    using and_then_True[OF x3] by blast
  obtain w1 o1 o2' where e1: "serve (\<lambda>req. on_file (write_inc_ow req)) (of_op ''write_inc_ow'' b) w = (w1, o1, True)"
    and e2: "serve (\<lambda>req. on_file (write_inc req)) (of_op ''write_inc'' b) w1 = (w2, o2', True)"
    and o2: "o2 = o1 @ o2'"
    using and_then_True[OF x2] by blast
  show ?thesis
    unfolding set_known_ops out o4 o3 o2 map_append set_append
      serve_ids[OF e1] serve_ids[OF e2] serve_ids[OF e4] serve_ids[OF e5]
      conjunct1[OF write_phase_ids[OF e3]] ..
qed

section \<open>Writes and reads of a data file\<close>

lemma write_phase_Nil: "write_phase it t [] = (\<lambda>w. (w, [], True))"
  by (rule ext) (simp add: write_phase_def)

lemma executeBatch_single:
  "fr_op req = ''write'' \<Longrightarrow> executeBatch it t [(i, req)] w = write_phase it t [(i, req)] w"
  "fr_op req = ''read'' \<Longrightarrow>
     executeBatch it t [(i, req)] w = serve (\<lambda>req. on_file (read_range req)) [(i, req)] w"
  by (simp_all add: executeBatch_def of_op_def write_phase_Nil serve_Nil del: serve.simps)

lemma write_one_healthy:
  assumes "healthy (w_file w)" "0 \<le> fr_startPtr req"
  shows "\<exists>f. write_one it t req w =
      (w\<lparr>w_file := f, w_defrag := saveBlockCheck (w_defrag w) it t (fr_startPtr req) (fr_endPtr req)\<rparr>,
       Ret (resp_ok [] (fr_startPtr req) (fr_endPtr req)))
    \<and> healthy f \<and> content f = pwrite (content (w_file w)) (nat (fr_startPtr req)) (fr_data req)"
proof -
  obtain f where "f_write (fr_data req) (fr_startPtr req) (w_file w) = (f, Done ())" "healthy f"
    "content f = pwrite (content (w_file w)) (nat (fr_startPtr req)) (fr_data req)"
    using run_ok_write[OF assms(2), of "fr_data req" "content (w_file w)"] assms(1)
    unfolding run_ok_def by blast
  then show ?thesis by (intro exI[of _ f]) (simp add: write_one_def)
qed

lemma pwrite_adjacent: "pwrite (pwrite c a d1) (a + length d1) d2 = pwrite c a (d1 @ d2)"
proof (cases "d1 = [] \<or> d2 = []")
  case False
  then show ?thesis
    by (intro nth_equalityI) (auto simp: nth_pwrite length_pwrite nth_append split: if_splits)
qed (auto simp: pwrite_def)

text \<open>
  Several writes that share one free block are laid out back to back: the file ends up as if their
  concatenation had been written at the start of the block, and each caller gets its own range.
\<close>

lemma serve_packed:
  assumes "healthy (w_file w)" "0 \<le> a"
  shows "\<exists>w' out. serve (write_one it t) (assign_block a b) w = (w', out, True)
    \<and> healthy (w_file w')
    \<and> content (w_file w') = pwrite (content (w_file w)) (nat a) (concat (map (fr_data \<circ> snd) b))
    \<and> map (\<lambda>(i, r). (i, rs_startPtr r, rs_endPtr r, rs_err r)) out
      = map (\<lambda>(i, r). (i, fr_startPtr r, fr_endPtr r, None)) (assign_block a b)"
  using assms
proof (induction b arbitrary: a w)
  case Nil
  then show ?case by (simp add: pwrite_def)
next
  case (Cons p b)
  obtain i req where p: "p = (i, req)" by (cases p)
  let ?e = "a + int (length (fr_data req))"
  let ?req = "req\<lparr>fr_startPtr := a, fr_endPtr := ?e\<rparr>"
  obtain f where f: "write_one it t ?req w =
      (w\<lparr>w_file := f, w_defrag := saveBlockCheck (w_defrag w) it t a ?e\<rparr>, Ret (resp_ok [] a ?e))"
    "healthy f" "content f = pwrite (content (w_file w)) (nat a) (fr_data req)"
    using write_one_healthy[of w ?req it t] Cons.prems by auto
  let ?w = "w\<lparr>w_file := f, w_defrag := saveBlockCheck (w_defrag w) it t a ?e\<rparr>"
  have e: "0 \<le> ?e" "nat ?e = nat a + length (fr_data req)" using Cons.prems by simp_all
  have f': "healthy (w_file ?w)" using f(2) by simp
  obtain w' out where ih: "serve (write_one it t) (assign_block ?e b) ?w = (w', out, True)"
    "healthy (w_file w')"
    "content (w_file w') = pwrite (content f) (nat ?e) (concat (map (fr_data \<circ> snd) b))"
    "map (\<lambda>(i, r). (i, rs_startPtr r, rs_endPtr r, rs_err r)) out
      = map (\<lambda>(i, r). (i, fr_startPtr r, fr_endPtr r, None)) (assign_block ?e b)"
    using Cons.IH[OF f' e(1)] by (auto simp: comp_def)
  have "content (w_file w') = pwrite (content (w_file w)) (nat a) (fr_data req @ concat (map (fr_data \<circ> snd) b))"
    unfolding ih(3) f(3) e(2) by (rule pwrite_adjacent)
  then show ?case using ih(1,2,4) f(1) p by (simp add: resp_ok_def comp_def)
qed

text \<open>
  Without a free block, two writes of one batch get the same range start: the second one
  overwrites the first.
\<close>

lemma eof_batch_result:
  assumes h: "healthy (w_file w)" and g: "getBlock (w_defrag w) it (int (length d1 + length d2)) t = (d, Inl e)"
    and r: "fr_data r1 = d1" "fr_data r2 = d2"
  shows "\<exists>w'. write_phase it t [(i, r1), (j, r2)] w =
      (w', [(i, resp_ok [] (int (length (content (w_file w)))) (int (length (content (w_file w)) + length d1))),
            (j, resp_ok [] (int (length (content (w_file w)))) (int (length (content (w_file w)) + length d2)))],
       True)
    \<and> content (w_file w') = content (w_file w) @ d2 @ drop (length d2) d1 \<and> healthy (w_file w')
    \<and> (let n = int (length (content (w_file w))) in
         w_defrag w' = saveBlockCheck (saveBlockCheck d it t n (n + int (length d1))) it t n (n + int (length d2)))"
proof -
  let ?c = "content (w_file w)" and ?n = "int (length (content (w_file w)))"
  obtain f1 where f1: "f_size (w_file w) = (f1, Done ?n)" "healthy f1" "content f1 = ?c"
    using run_ok_size[of ?c] h unfolding run_ok_def by blast
  obtain f2 where f2: "f_size f1 = (f2, Done ?n)" "healthy f2" "content f2 = ?c"
    using run_ok_size[of ?c] f1 unfolding run_ok_def by blast
  let ?r1 = "r1\<lparr>fr_startPtr := ?n, fr_endPtr := ?n + int (length d1)\<rparr>"
  let ?r2 = "r2\<lparr>fr_startPtr := ?n, fr_endPtr := ?n + int (length d2)\<rparr>"
  let ?w = "w\<lparr>w_file := f2, w_defrag := d\<rparr>"
  obtain f3 where f3: "write_one it t ?r1 ?w =
      (?w\<lparr>w_file := f3, w_defrag := saveBlockCheck d it t ?n (?n + int (length d1))\<rparr>,
       Ret (resp_ok [] ?n (?n + int (length d1))))" "healthy f3" "content f3 = pwrite ?c (length ?c) d1"
    using write_one_healthy[of ?w ?r1 it t] f2 r by auto
  let ?w3 = "?w\<lparr>w_file := f3, w_defrag := saveBlockCheck d it t ?n (?n + int (length d1))\<rparr>"
  obtain f4 where f4: "write_one it t ?r2 ?w3 =
      (?w3\<lparr>w_file := f4,
           w_defrag := saveBlockCheck (w_defrag ?w3) it t ?n (?n + int (length d2))\<rparr>,
       Ret (resp_ok [] ?n (?n + int (length d2))))" "content f4 = pwrite (content f3) (length ?c) d2" "healthy f4"
    using write_one_healthy[of ?w3 ?r2 it t] f3 r by auto
  have "content f4 = ?c @ d2 @ drop (length d2) d1"
    unfolding f4(2) f3(3) by (simp add: pwrite_append) (simp add: pwrite_def)
  moreover have "getBlock (w_defrag w) it (\<Sum>(i, r)\<leftarrow>[(i, r1), (j, r2)]. int (length (fr_data r))) t = (d, Inl e)"
    using g r by simp
  ultimately show ?thesis
    using f1 f2 f3 f4 g r by (simp add: write_phase_def Let_def)
qed

lemma eof_batch_overlap:
  assumes "healthy (w_file w)" "getBlock (w_defrag w) it (int (length d1 + length d2)) t = (d, Inl e)"
    and "fr_data r1 = d1" "fr_data r2 = d2"
  shows "\<exists>w'. write_phase it t [(i, r1), (j, r2)] w =
      (w', [(i, resp_ok [] (int (length (content (w_file w)))) (int (length (content (w_file w)) + length d1))),
            (j, resp_ok [] (int (length (content (w_file w)))) (int (length (content (w_file w)) + length d2)))],
       True)
    \<and> content (w_file w') = content (w_file w) @ d2 @ drop (length d2) d1"
  using eof_batch_result[OF assms, of i j] by blast

lemma executeBatch_writes:
  assumes "\<And>i r. (i, r) \<in> set b \<Longrightarrow> fr_op r = ''write''"
  shows "executeBatch it t b w = write_phase it t b w"
proof -
  have o: "of_op ''write'' b = b" using assms by (auto simp: of_op_def intro!: filter_True)
  have z: "of_op k b = []" if "k \<noteq> ''write''" for k using assms that by (intro of_op_Nil) auto
  show ?thesis unfolding executeBatch_def o by (simp add: z serve_Nil del: serve.simps)
qed

text \<open>
  A write on its own goes where \<open>place\<close> of the pool puts it; the client gets that range, and the
  pool is the one after allocation and claim.
\<close>

definition dd_ready :: "datadir \<Rightarrow> string \<Rightarrow> bool" where
  "dd_ready st p \<longleftrightarrow> healthy (dd_files st p) \<and> \<not> dd_crashed st p"

abbreviation dd_content :: "datadir \<Rightarrow> string \<Rightarrow> bytes" where
  "dd_content st p \<equiv> content (dd_files st p)"

text \<open>The state after a request on the file at \<open>p\<close> that left the file \<open>f\<close> and the pool \<open>d\<close>.\<close>

definition dd_after :: "datadir \<Rightarrow> string \<Rightarrow> osfile \<Rightarrow> defrag \<Rightarrow> datadir" where
  "dd_after st p f d =
     \<lparr>dd_files = (dd_files st)(p := f), dd_exists = (dd_exists st)(p := True),
      dd_crashed = (dd_crashed st)(p := False), dd_defrag = d\<rparr>"

lemma dd_after_simps [simp]:
  "dd_files (dd_after st p f d) q = (if q = p then f else dd_files st q)"
  "dd_crashed (dd_after st p f d) q = (if q = p then False else dd_crashed st q)"
  "dd_exists (dd_after st p f d) q = (if q = p then True else dd_exists st q)"
  "dd_defrag (dd_after st p f d) = d"
  by (simp_all add: dd_after_def)

lemma dd_ready_after [simp]:
  "dd_ready (dd_after st p f d) q \<longleftrightarrow> (if q = p then healthy f else dd_ready st q)"
  by (simp add: dd_ready_def)

lemma sendToFileWorker_batch:
  assumes "\<not> dd_crashed st p" "p = full_path (fr_op req) t"
    and "fr_op req \<noteq> ''close''" "fr_op req \<noteq> ''delete_inc''"
    and "executeBatch it t [(0, req)] \<lparr>w_file = dd_files st p, w_defrag = dd_defrag st\<rparr>
      = (w, (i, r) # out, True)"
  shows "sendToFileWorker it t req st = (dd_after st p (w_file w) (w_defrag w), Reply r)"
  using assms by (simp add: sendToFileWorker_def Let_def dd_after_def)

lemma getBlock_pool:
  "pool_alloc it t d n = (d1, r) \<Longrightarrow>
   (\<exists>b. getBlock d it n t = (d1, Inr b) \<and> r = Some (block_span b)) \<or>
   (\<exists>e. getBlock d it n t = (d1, Inl e) \<and> r = None)"
  by (auto simp: pool_alloc_def split: prod.splits sum.splits)

lemma save_async:
  assumes ready: "dd_ready st p" and p: "p = full_path ''write'' t"
    and al: "pool_alloc it t (dd_defrag st) (int (length data)) = (d1, r)"
    and a: "a = defrag_pool.place r (int (length (dd_content st p)))" "0 \<le> a"
  shows "\<exists>f. saveDataToFileAsync it data t st =
      (dd_after st p f (pool_claim it t d1 a (a + int (length data))),
       Reply (a, a + int (length data), None))
    \<and> healthy f \<and> content f = pwrite (dd_content st p) (nat a) data"
proof -
  let ?req = "(request ''write'')\<lparr>fr_data := data\<rparr>"
  let ?req' = "?req\<lparr>fr_startPtr := a, fr_endPtr := a + int (length data)\<rparr>"
  let ?w = "\<lparr>w_file = dd_files st p, w_defrag = dd_defrag st\<rparr>"
  have h: "healthy (dd_files st p)" "\<not> dd_crashed st p" using ready by (simp_all add: dd_ready_def)
  have op: "fr_op ?req = ''write''" by (simp add: request_def)
  have dat: "fr_data ?req = data" by simp
  have "\<exists>f0. write_phase it t [(0, ?req)] ?w =
      serve (write_one it t) [(0, ?req')] \<lparr>w_file = f0, w_defrag = d1\<rparr>
      \<and> healthy f0 \<and> content f0 = dd_content st p"
    using getBlock_pool[OF al]
  proof (elim disjE exE conjE)
    fix b assume "getBlock (dd_defrag st) it (int (length data)) t = (d1, Inr b)" "r = Some (block_span b)"
    then show ?thesis
      using h a by (intro exI[of _ "dd_files st p"]) (simp add: write_phase_def defrag_pool.place_def)
  next
    fix e assume g: "getBlock (dd_defrag st) it (int (length data)) t = (d1, Inl e)" "r = None"
    obtain f0 where f0: "f_size (dd_files st p) = (f0, Done (int (length (dd_content st p))))"
      "healthy f0" "content f0 = dd_content st p"
      using run_ok_size[of "dd_content st p"] h unfolding run_ok_def by blast
    have a': "a = int (length (dd_content st p))" using a g by (simp add: defrag_pool.place_def)
    show ?thesis
      by (intro exI[of _ f0])
        (use g f0 a' in \<open>simp add: write_phase_def and_then_def split: prod.splits outcome.splits\<close>)
  qed
  then obtain f0 where wp: "write_phase it t [(0, ?req)] ?w =
      serve (write_one it t) [(0, ?req')] \<lparr>w_file = f0, w_defrag = d1\<rparr>"
    "healthy f0" "content f0 = dd_content st p" by blast
  obtain f where f: "write_one it t ?req' \<lparr>w_file = f0, w_defrag = d1\<rparr> =
      (\<lparr>w_file = f, w_defrag = saveBlockCheck d1 it t a (a + int (length data))\<rparr>,
       Ret (resp_ok [] a (a + int (length data))))" "healthy f"
    "content f = pwrite (dd_content st p) (nat a) data"
    using write_one_healthy[of "\<lparr>w_file = f0, w_defrag = d1\<rparr>" ?req' it t] wp a by auto
  have "executeBatch it t [(0, ?req)] ?w =
      (\<lparr>w_file = f, w_defrag = saveBlockCheck d1 it t a (a + int (length data))\<rparr>,
       [(0, resp_ok [] a (a + int (length data)))], True)"
    unfolding executeBatch_single(1)[OF op] wp(1) using f(1) by simp
  from sendToFileWorker_batch[OF h(2) _ _ _ this] have
    "sendToFileWorker it t ?req st =
      (dd_after st p f (saveBlockCheck d1 it t a (a + int (length data))),
       Reply (resp_ok [] a (a + int (length data))))"
    using p op by simp
  then show ?thesis
    using f by (intro exI[of _ f]) (simp add: saveDataToFileAsync_def call_bind_def resp_ok_def pool_claim_def)
qed

lemma read_async:
  assumes ready: "dd_ready st p" and p: "p = full_path ''read'' t"
    and ab: "0 \<le> a" "a < b" "b - a \<le> max_alloc"
  shows "\<exists>f. readDataFromFileAsync it t a b st =
      (dd_after st p f (dd_defrag st), Reply (Inr (pread (dd_content st p) (nat a) (nat (b - a)))))
    \<and> healthy f \<and> content f = dd_content st p"
proof -
  let ?req = "(request ''read'')\<lparr>fr_startPtr := a, fr_endPtr := b\<rparr>"
  let ?got = "pread (dd_content st p) (nat a) (nat (b - a))"
  let ?w = "\<lparr>w_file = dd_files st p, w_defrag = dd_defrag st\<rparr>"
  have h: "healthy (dd_files st p)" "\<not> dd_crashed st p" using ready by (simp_all add: dd_ready_def)
  have op: "fr_op ?req = ''read''" by (simp add: request_def)
  have guard: "\<not> (a < 0 \<or> b \<le> a)" "0 \<le> b - a" using ab by simp_all
  have "run_ok (read_range ?req) (dd_content st p) (resp_ok ?got a b) (dd_content st p)"
    unfolding read_range_def Let_def using guard(1)
    by (simp del: not_less not_le de_Morgan_disj)
      (intro run_ok_bind[OF run_ok_make[OF guard(2) ab(3)]] run_ok_bind[OF run_ok_read[OF ab(1)]] run_ok_fret)
  then obtain f where f: "read_range ?req (dd_files st p) = (f, Done (resp_ok ?got a b))"
    "healthy f" "content f = dd_content st p"
    using h unfolding run_ok_def by blast
  have "executeBatch it t [(0, ?req)] ?w =
      (\<lparr>w_file = f, w_defrag = dd_defrag st\<rparr>, [(0, resp_ok ?got a b)], True)"
    unfolding executeBatch_single(2)[OF op] using f(1) by (simp add: on_file_def)
  from sendToFileWorker_batch[OF h(2) _ _ _ this] have
    "sendToFileWorker it t ?req st = (dd_after st p f (dd_defrag st), Reply (resp_ok ?got a b))"
    using p op by simp
  then show ?thesis
    using f ab by (intro exI[of _ f]) (simp add: readDataFromFileAsync_def call_bind_def resp_ok_def)
qed

section \<open>Properties\<close>

definition demo_file :: "bytes \<Rightarrow> osfile" where
  "demo_file c = \<lparr>content = c, closed = False, ticks = 0, faults = (\<lambda>_. Fine)\<rparr>"

definition demo_worker :: "bytes \<Rightarrow> worker" where
  "demo_worker c = \<lparr>w_file = demo_file c, w_defrag = init_defrag\<rparr>"

lemma demo_simps [simp]:
  "healthy (demo_file c)" "content (demo_file c) = c" "w_file (demo_worker c) = demo_file c"
  "w_defrag (demo_worker c) = init_defrag"
  by (simp_all add: demo_file_def healthy_def demo_worker_def)

text \<open>
  C5: A batch of requests on an incremental table refines the list of records. On a healthy file that
  holds a whole number of records, executing any batch of insertions, overwrites, appends and
  reads answers every request with exactly what the contract gives when they run one after the other
  (insertions and overwrites first, then appends, then reads), out-of-range positions included, and
  leaves the file holding exactly the resulting list.
\<close>

theorem table_batch_refines:
  assumes "0 < n" "uniform n rs" "int ((length rs + length b + 1) * n) \<le> max_alloc"
    and "\<forall>(i, r) \<in> set b. fits_table n r"
    and "healthy (w_file w)" "content (w_file w) = concat rs"
  shows "\<exists>w' out. executeBatch it t b w = (w', out, True)
    \<and> map (\<lambda>(i, r). (i, answer r)) out = snd (run_table (batch_order b) rs)
    \<and> healthy (w_file w') \<and> content (w_file w') = concat (fst (run_table (batch_order b) rs))
    \<and> w_defrag w' = w_defrag w"
proof -
  have sub: "set (batch_order b) \<subseteq> set b" by (auto simp: batch_order_def of_op_def)
  have ops: "fr_op r \<in> table_ops" if "(i, r) \<in> set b" for i r
    using assms(4) that by (auto simp: fits_table_def)
  have "length (batch_order b) \<le> length b"
  proof (induction b)
    case (Cons p b)
    then show ?case by (cases p) (auto simp: batch_order_def of_op_def)
  qed (simp add: batch_order_def of_op_def)
  then have "(length rs + length (batch_order b) + 1) * n \<le> (length rs + length b + 1) * n"
    by (intro mult_le_mono1) simp
  then have "int ((length rs + length (batch_order b) + 1) * n) \<le> max_alloc"
    using assms(3) by (meson of_nat_le_iff order_trans)
  then show ?thesis
    using executeBatch_table[OF ops, where w = w and it = it and t = t] serve_table[OF assms(1,2) _ _ assms(5,6), of "batch_order b"] sub assms(4) by fastforce
qed

definition demo_append :: file_request where
  "demo_append = \<lparr>fr_op = ''write_inc'', fr_data = [1, 2, 3, 4], fr_startPtr = 0, fr_endPtr = 0,
     fr_entrySize = 1, fr_inc_id = 0, fr_read_type = 0, fr_count_from = []\<rparr>"

definition demo_insert :: file_request where
  "demo_insert = demo_append\<lparr>fr_op := ''write_inc_ow'', fr_data := [5, 6, 7, 8], fr_inc_id := 1, fr_count_from := ''TOP''\<rparr>"

definition demo_last :: file_request where
  "demo_last = demo_append\<lparr>fr_op := ''read_inc'', fr_inc_id := 2, fr_read_type := 1\<rparr>"

lemma demo_batch_fits:
  "\<forall>(i, r) \<in> set [(0 :: nat, demo_append), (1, demo_last), (2, demo_insert)]. fits_table 4 r"
  by (auto simp: fits_table_def table_ops_def demo_append_def demo_last_def demo_insert_def
      record_total_def i64_def)

lemma demo_batch_run:
  "run_table (batch_order [(0, demo_append), (1, demo_last), (2, demo_insert)]) [[9, 9, 9, 9]]
   = ([[5, 6, 7, 8], [9, 9, 9, 9], [1, 2, 3, 4]],
      [(2, Inr (id_buf 0)), (0, Inr (id_buf 2)), (1, Inr [1, 2, 3, 4, 9, 9, 9, 9])])"
proof -
  have "to_lower ''TOP'' = ''top''" "to_lower [] = []" by code_simp+
  then show ?thesis
    by (simp add: batch_order_def of_op_def demo_append_def demo_last_def demo_insert_def
        table_step_def Let_def i64_def tab_pos_def list_insert_at_def)
qed

lemma table_batch_refines_witness:
  "\<exists>w' out. executeBatch (\<lambda>xs. xs) ''t'' [(0, demo_append), (1, demo_last), (2, demo_insert)]
      (demo_worker [9, 9, 9, 9]) = (w', out, True)
    \<and> map (\<lambda>(i, r). (i, answer r)) out =
        [(2, Inr (id_buf 0)), (0, Inr (id_buf 2)), (1, Inr [1, 2, 3, 4, 9, 9, 9, 9])]
    \<and> content (w_file w') = [5, 6, 7, 8, 9, 9, 9, 9, 1, 2, 3, 4]"
  using table_batch_refines[of 4 "[[9, 9, 9, 9]]" "[(0, demo_append), (1, demo_last), (2, demo_insert)]"
      "demo_worker [9, 9, 9, 9]" "\<lambda>xs. xs" "''t''", OF _ _ _ demo_batch_fits, unfolded demo_batch_run]
  by (auto simp: max_alloc_def)

text \<open>
  Writes to a failing file. \<open>accepted\<close> says which of them the plan of faults lets through: an empty one
  never reaches the file, any other is one operation.
\<close>

fun accepted :: "osfile \<Rightarrow> bytes list \<Rightarrow> bool list" where
  "accepted f [] = []"
| "accepted f (d # ds) = (d = [] \<or> f_fault f = Fine) # accepted (if d = [] then f else tick f) ds"

lemma accepted_content [simp]: "accepted (f\<lparr>content := c\<rparr>) ds = accepted f ds"
proof (induction ds arbitrary: f)
  case (Cons d ds)
  have "f_fault (f\<lparr>content := c\<rparr>) = f_fault f" "tick (f\<lparr>content := c\<rparr>) = (tick f)\<lparr>content := c\<rparr>"
    by (simp_all add: f_fault_def tick_def)
  then show ?case using Cons.IH by simp
qed simp

lemma pread_pwrite_apart: "p + n \<le> off \<or> off + length d \<le> p \<Longrightarrow> pread (pwrite f off d) p n = pread f p n"
  by (intro nth_equalityI) (auto simp: nth_pread nth_pwrite length_pwrite)

text \<open>One write: it succeeds as a whole, or leaves a part of its own range written.\<close>

lemma write_one_cases:
  assumes "0 \<le> a" "fr_startPtr req = a"
  obtains w' r x where "write_one it t req w = (w', Ret r)" "content (w_file w') = pwrite (content (w_file w)) (nat a) x"
    "x = fr_data req \<or> length x \<le> length (fr_data req)"
    "rs_err r = None \<Longrightarrow> x = fr_data req \<and> rs_startPtr r = a \<and> rs_endPtr r = fr_endPtr req"
    "(rs_err r = None) = (fr_data req = [] \<or> f_fault (w_file w) = Fine)"
    "\<And>ds. accepted (w_file w') ds = accepted (if fr_data req = [] then w_file w else tick (w_file w)) ds"
proof -
  have tc: "tick (f\<lparr>content := c\<rparr>) = (tick f)\<lparr>content := c\<rparr>" for f c by (simp add: tick_def)
  have nil: "pwrite c n [] = c" for c n by (simp add: pwrite_def)
  consider "fr_data req = []" | "fr_data req \<noteq> []" "f_fault (w_file w) = Fine"
    | "fr_data req \<noteq> []" "f_fault (w_file w) = NotExist" | m where "fr_data req \<noteq> []" "f_fault (w_file w) = Fails m"
    by (cases "f_fault (w_file w)") auto
  then show thesis
  proof cases
    case 1
    show thesis
      by (rule that[of "fst (write_one it t req w)" "resp_ok [] a (fr_endPtr req)" "fr_data req"])
        (use 1 assms in \<open>simp_all add: write_one_def f_write_def resp_ok_def nil\<close>)
  next
    case 2
    show thesis
      by (rule that[of "fst (write_one it t req w)" "resp_ok [] a (fr_endPtr req)" "fr_data req"])
        (use 2 assms in \<open>simp_all add: write_one_def f_write_def resp_ok_def tc\<close>)
  next
    case 3
    show thesis
      by (rule that[of "fst (write_one it t req w)" "resp_err IoError" "[]"])
        (use 3 assms in \<open>simp_all add: write_one_def f_write_def resp_err_def nil\<close>)
  next
    case (4 m)
    show thesis
      by (rule that[of "fst (write_one it t req w)" "resp_err IoError" "take m (fr_data req)"])
        (use 4 assms in \<open>simp_all add: write_one_def f_write_def resp_err_def tc\<close>)
  qed
qed

lemma serve_block_faulty:
  assumes "0 \<le> a"
  shows "\<exists>w' out. serve (write_one it t) (assign_block a b) w = (w', out, True) \<and> map fst out = map fst b
    \<and> map (\<lambda>(i, r). rs_err r = None) out = accepted (w_file w) (map (fr_data \<circ> snd) b)
    \<and> (\<forall>(r, s) \<in> set (zip (map snd b) (map snd out)). rs_err s = None \<longrightarrow>
         a \<le> rs_startPtr s \<and> rs_endPtr s = rs_startPtr s + int (length (fr_data r))
         \<and> pread (content (w_file w')) (nat (rs_startPtr s)) (length (fr_data r)) = fr_data r)
    \<and> (\<forall>p n. p + n \<le> nat a \<or> nat a + sum_list (map (\<lambda>(i, r). length (fr_data r)) b) \<le> p \<longrightarrow>
         pread (content (w_file w')) p n = pread (content (w_file w)) p n)"
  using assms
proof (induction b arbitrary: a w)
  case (Cons q b)
  obtain i req where q: "q = (i, req)" by (cases q)
  let ?e = "a + int (length (fr_data req))"
  let ?req = "req\<lparr>fr_startPtr := a, fr_endPtr := ?e\<rparr>"
  obtain w1 r x where w1: "write_one it t ?req w = (w1, Ret r)"
    "content (w_file w1) = pwrite (content (w_file w)) (nat a) x" "length x \<le> length (fr_data req)"
    "rs_err r = None \<Longrightarrow> x = fr_data req \<and> rs_startPtr r = a \<and> rs_endPtr r = ?e"
    "(rs_err r = None) = (fr_data req = [] \<or> f_fault (w_file w) = Fine)"
    "\<And>ds. accepted (w_file w1) ds = accepted (if fr_data req = [] then w_file w else tick (w_file w)) ds"
    by (rule write_one_cases[OF Cons.prems, of ?req it t w]) auto
  have e: "0 \<le> ?e" "nat ?e = nat a + length (fr_data req)" using Cons.prems by simp_all
  obtain w' out where ih: "serve (write_one it t) (assign_block ?e b) w1 = (w', out, True)" "map fst out = map fst b"
    "map (\<lambda>(i, r). rs_err r = None) out = accepted (w_file w1) (map (fr_data \<circ> snd) b)"
    "\<forall>(r, s) \<in> set (zip (map snd b) (map snd out)). rs_err s = None \<longrightarrow>
         ?e \<le> rs_startPtr s \<and> rs_endPtr s = rs_startPtr s + int (length (fr_data r))
         \<and> pread (content (w_file w')) (nat (rs_startPtr s)) (length (fr_data r)) = fr_data r"
    "\<forall>p n. p + n \<le> nat ?e \<or> nat ?e + sum_list (map (\<lambda>(i, r). length (fr_data r)) b) \<le> p \<longrightarrow>
         pread (content (w_file w')) p n = pread (content (w_file w1)) p n"
    using Cons.IH[OF e(1), of w1] by (elim exE conjE) (rule that)
  have s: "serve (write_one it t) (assign_block a (q # b)) w = (w', (i, r) # out, True)" using w1(1) ih(1) q by simp
  have own: "rs_err r = None \<longrightarrow> a \<le> rs_startPtr r \<and> rs_endPtr r = rs_startPtr r + int (length (fr_data req))
      \<and> pread (content (w_file w')) (nat (rs_startPtr r)) (length (fr_data req)) = fr_data req"
  proof
    assume ok: "rs_err r = None"
    then show "a \<le> rs_startPtr r \<and> rs_endPtr r = rs_startPtr r + int (length (fr_data req))
      \<and> pread (content (w_file w')) (nat (rs_startPtr r)) (length (fr_data req)) = fr_data req"
      using ih(5)[rule_format, of "nat a" "length (fr_data req)"] w1(4)[OF ok] w1(2) e(2) pread_pwrite_same by simp
  qed
  have rest: "\<forall>(r, s) \<in> set (zip (map snd b) (map snd out)). rs_err s = None \<longrightarrow>
         a \<le> rs_startPtr s \<and> rs_endPtr s = rs_startPtr s + int (length (fr_data r))
         \<and> pread (content (w_file w')) (nat (rs_startPtr s)) (length (fr_data r)) = fr_data r"
    using ih(4) by fastforce
  have frame: "pread (content (w_file w')) p n = pread (content (w_file w)) p n"
    if "p + n \<le> nat a \<or> nat a + sum_list (map (\<lambda>(i, r). length (fr_data r)) (q # b)) \<le> p" for p n
    using ih(5)[rule_format, of p n] pread_pwrite_apart[of p n "nat a" x "content (w_file w)"] that w1(2,3) e(2) q by auto
  have ids: "map fst ((i, r) # out) = map fst (q # b)" using ih(2) q by simp
  have acc: "map (\<lambda>(i, r). rs_err r = None) ((i, r) # out) = accepted (w_file w) (map (fr_data \<circ> snd) (q # b))"
    using ih(3) w1(5,6) q by simp
  have all: "\<forall>(r, s) \<in> set (zip (map snd (q # b)) (map snd ((i, r) # out))). rs_err s = None \<longrightarrow>
         a \<le> rs_startPtr s \<and> rs_endPtr s = rs_startPtr s + int (length (fr_data r))
         \<and> pread (content (w_file w')) (nat (rs_startPtr s)) (length (fr_data r)) = fr_data r"
    using own rest q by simp
  from s ids acc all frame show ?case by blast
qed simp

text \<open>
  C18: Failing writes of a batch hurt nobody else. Whatever operations of the file fail, and however much
  of a failing write got into the file: when a batch of writes is packed into a free block, every
  caller is answered once, with an error exactly where the file refused the write; the data of every
  caller answered without error is in the file at the range it was told, undamaged by the failures
  before and after it; and nothing outside the part of the block handed out has changed.
\<close>

theorem batch_writes_survive_failures:
  assumes "\<And>i r. (i, r) \<in> set b \<Longrightarrow> fr_op r = ''write''" "b \<noteq> []" "0 \<le> fb_startPtr blk"
    and "getBlock (w_defrag w) it (int (sum_list (map (\<lambda>(i, r). length (fr_data r)) b))) t = (d, Inr blk)"
  shows "\<exists>w' out. executeBatch it t b w = (w', out, True) \<and> map fst out = map fst b
    \<and> map (\<lambda>(i, r). rs_err r = None) out = accepted (w_file w) (map (fr_data \<circ> snd) b)
    \<and> (\<forall>(r, s) \<in> set (zip (map snd b) (map snd out)). rs_err s = None \<longrightarrow>
         fb_startPtr blk \<le> rs_startPtr s \<and> rs_endPtr s = rs_startPtr s + int (length (fr_data r))
         \<and> pread (content (w_file w')) (nat (rs_startPtr s)) (length (fr_data r)) = fr_data r)
    \<and> (\<forall>p n. p + n \<le> nat (fb_startPtr blk)
           \<or> nat (fb_startPtr blk) + sum_list (map (\<lambda>(i, r). length (fr_data r)) b) \<le> p \<longrightarrow>
         pread (content (w_file w')) p n = pread (content (w_file w)) p n)"
proof -
  have "executeBatch it t b w = write_phase it t b w" by (rule executeBatch_writes[OF assms(1)])
  also have "\<dots> = serve (write_one it t) (assign_block (fb_startPtr blk) b) (w\<lparr>w_defrag := d\<rparr>)"
    using assms(2,4) by (simp add: write_phase_def)
  finally show ?thesis using serve_block_faulty[OF assms(3), of it t b "w\<lparr>w_defrag := d\<rparr>"] by simp
qed

text \<open>
  Writes of one batch that share a free block do not disturb each other. They are laid out back to
  back from the start of the block: the file ends up as if the concatenation of their data had been
  written there, and each caller is sent the range of its own data.
\<close>

theorem batch_packs_block:
  assumes "healthy (w_file w)" "b \<noteq> []" "0 \<le> fb_startPtr blk"
    and "getBlock (w_defrag w) it (int (sum_list (map (\<lambda>(i, r). length (fr_data r)) b))) t = (d, Inr blk)"
  shows "\<exists>w' out. write_phase it t b w = (w', out, True)
    \<and> content (w_file w') = pwrite (content (w_file w)) (nat (fb_startPtr blk)) (concat (map (fr_data \<circ> snd) b))
    \<and> map (\<lambda>(i, r). (i, rs_startPtr r, rs_endPtr r, rs_err r)) out
      = map (\<lambda>(i, r). (i, fr_startPtr r, fr_endPtr r, None)) (assign_block (fb_startPtr blk) b)"
  using serve_packed[of "w\<lparr>w_defrag := d\<rparr>" "fb_startPtr blk" it t b] assms
  by (auto simp: write_phase_def)

definition demo_write :: "bytes \<Rightarrow> file_request" where
  "demo_write d = (request ''write'')\<lparr>fr_data := d\<rparr>"

lemma batch_packs_block_witness:
  "\<exists>w' out. write_phase (\<lambda>xs. xs) ''t'' [(0, demo_write [1, 2]), (1, demo_write [3])]
      \<lparr>w_file = demo_file (replicate 40 0), w_defrag = demo_free\<rparr> = (w', out, True)
    \<and> content (w_file w') = pwrite (replicate 40 0) 30 [1, 2, 3]"
proof -
  obtain d where "getBlock demo_free (\<lambda>xs. xs) 3 ''t'' = (d, Inr (new_block ''t'' 30 40))"
  proof -
    have "snd (getBlock demo_free (\<lambda>xs. xs) 3 ''t'') = Inr (new_block ''t'' 30 40)" by code_simp
    then show thesis using that by (cases "getBlock demo_free (\<lambda>xs. xs) 3 ''t''") auto
  qed
  then show ?thesis
    using batch_packs_block[of "\<lparr>w_file = demo_file (replicate 40 0), w_defrag = demo_free\<rparr>"
        "[(0, demo_write [1, 2]), (1, demo_write [3])]" "new_block ''t'' 30 40" "\<lambda>xs. xs" "''t''" d]
    by (auto simp: demo_write_def new_block_def)
qed

text \<open>Three writes, of which the second fails after one byte.\<close>

lemma batch_writes_survive_failures_witness:
  "\<exists>w' s1 s2 s3. executeBatch (\<lambda>xs. xs) ''t'' [(4, demo_write [1, 2]), (5, demo_write [3, 3]), (6, demo_write [4])]
      \<lparr>w_file = (demo_file (replicate 40 0))\<lparr>faults := (\<lambda>n. if n = 1 then Fails 1 else Fine)\<rparr>, w_defrag = demo_free\<rparr>
      = (w', [(4, s1), (5, s2), (6, s3)], True)
    \<and> rs_err s1 = None \<and> rs_err s2 \<noteq> None \<and> rs_err s3 = None
    \<and> pread (content (w_file w')) (nat (rs_startPtr s1)) 2 = [1, 2] \<and> pread (content (w_file w')) (nat (rs_startPtr s3)) 1 = [4]
    \<and> pread (content (w_file w')) 0 30 = replicate 30 0"
proof -
  let ?f = "(demo_file (replicate 40 0))\<lparr>faults := (\<lambda>n. if n = 1 then Fails 1 else Fine)\<rparr>"
  let ?b = "[(4 :: nat, demo_write [1, 2]), (5, demo_write [3, 3]), (6, demo_write [4])]"
  obtain d where g: "getBlock demo_free (\<lambda>xs. xs) 5 ''t'' = (d, Inr (new_block ''t'' 30 40))"
  proof -
    have "snd (getBlock demo_free (\<lambda>xs. xs) 5 ''t'') = Inr (new_block ''t'' 30 40)" by code_simp
    then show thesis using that by (cases "getBlock demo_free (\<lambda>xs. xs) 5 ''t''") auto
  qed
  have acc: "accepted ?f [[1, 2], [3, 3], [4]] = [True, False, True]"
    by (simp add: f_fault_def tick_def demo_file_def)
  have op: "fr_op r = ''write''" if "(i, r) \<in> set ?b" for i r using that by (auto simp: demo_write_def request_def)
  have z: "pread (replicate 40 0) 0 30 = replicate 30 0" by code_simp
  have blk: "fb_startPtr (new_block ''t'' 30 40) = 30" by (simp add: new_block_def)
  obtain w' out where r: "executeBatch (\<lambda>xs. xs) ''t'' ?b \<lparr>w_file = ?f, w_defrag = demo_free\<rparr> = (w', out, True)"
    "map fst out = [4, 5, 6]" "map (\<lambda>(i, r). rs_err r = None) out = [True, False, True]"
    "\<forall>(r, s) \<in> set (zip (map snd ?b) (map snd out)). rs_err s = None \<longrightarrow>
       pread (content (w_file w')) (nat (rs_startPtr s)) (length (fr_data r)) = fr_data r"
    "pread (content (w_file w')) 0 30 = replicate 30 0"
    using batch_writes_survive_failures[of ?b "new_block ''t'' 30 40" "\<lparr>w_file = ?f, w_defrag = demo_free\<rparr>" "\<lambda>xs. xs" "''t''" d,
        OF op] g acc blk z by (fastforce simp: demo_write_def)
  then obtain s1 s2 s3 where "out = [(4, s1), (5, s2), (6, s3)]" by (auto simp: map_eq_Cons_conv)
  moreover from this have "rs_err s1 = None" "rs_err s2 \<noteq> None" "rs_err s3 = None"
    "pread (content (w_file w')) (nat (rs_startPtr s1)) 2 = [1, 2]" "pread (content (w_file w')) (nat (rs_startPtr s3)) 1 = [4]"
    using r(3,4) by (simp_all add: demo_write_def numeral_2_eq_2)
  ultimately show ?thesis using r(1,5) by blast
qed

text \<open>
  C37: Appends of one batch collide. When no free block is large enough for a batch of two writes, both
  are given the end of the file as it was before either was written: both callers are told their data
  is stored from there, and the second write has overwritten the first.
\<close>

theorem batch_appends_collide:
  assumes "healthy (w_file w)" "content (w_file w) = c" "fr_data r1 = d1" "fr_data r2 = d2"
    and "getBlock (w_defrag w) it (int (length d1 + length d2)) t = (d, Inl e)"
  shows "\<exists>w'. write_phase it t [(i, r1), (j, r2)] w =
      (w', [(i, resp_ok [] (int (length c)) (int (length c + length d1))),
            (j, resp_ok [] (int (length c)) (int (length c + length d2)))], True)
    \<and> content (w_file w') = c @ d2 @ drop (length d2) d1"
  using eof_batch_overlap[OF assms(1) assms(5,3,4), of i j] unfolding assms(2) .

lemma batch_appends_collide_witness:
  "\<exists>w'. write_phase (\<lambda>xs. xs) ''t'' [(0, demo_write [1, 2]), (1, demo_write [3])] (demo_worker []) =
      (w', [(0, resp_ok [] 0 2), (1, resp_ok [] 0 1)], True)
    \<and> content (w_file w') = [3, 2]"
proof -
  obtain d where "getBlock init_defrag (\<lambda>xs. xs) 3 ''t'' = (d, Inl NoSuitableBlock)"
  proof -
    have "snd (getBlock init_defrag (\<lambda>xs. xs) 3 ''t'') = Inl NoSuitableBlock" by code_simp
    then show thesis using that by (cases "getBlock init_defrag (\<lambda>xs. xs) 3 ''t''") auto
  qed
  then show ?thesis
    using batch_appends_collide[of "demo_worker []" "[]" "demo_write [1, 2]" "[1, 2]" "demo_write [3]" "[3]"
        "\<lambda>xs. xs" "''t''" d NoSuitableBlock 0 1]
    by (simp add: demo_write_def)
qed

text \<open>
  A rejected append crashes its caller. When the data of a \<open>write_inc\<close> request is not exactly one
  record, the worker answers with an error and writes nothing, and \<open>SaveIncDataToFileAsync\<close>, which
  decodes the record number before it looks at the error, panics.
\<close>

theorem save_inc_error_panics:
  assumes "\<not> dd_crashed st (full_path ''write_inc'' t)"
    and "int (length data) \<noteq> record_total e"
  shows "\<exists>st'. saveIncDataToFileAsync it data t e st = (st', Panics)
    \<and> dd_files st' = dd_files st \<and> dd_defrag st' = dd_defrag st"
proof -
  let ?p = "full_path ''write_inc'' t"
  let ?req = "(request ''write_inc'')\<lparr>fr_data := data, fr_entrySize := e\<rparr>"
  let ?w = "\<lparr>w_file = dd_files st ?p, w_defrag = dd_defrag st\<rparr>"
  obtain er where er: "write_inc ?req (w_file ?w) = (w_file ?w, Fail er)"
    using assms(2) by (cases "record_total e \<le> 0") (auto simp: write_inc_def Let_def ffail_def)
  have op: "fr_op ?req = ''write_inc''" by (simp add: request_def)
  have "table_handler ?req = write_inc ?req" by (simp add: table_handler_def op)
  then have "executeBatch it t [(0, ?req)] ?w = (?w, [(0, resp_err er)], True)"
    using executeBatch_table[of "[(0, ?req)]" it t ?w] er
    by (simp add: op table_ops_def batch_order_def of_op_def on_file_def)
  from sendToFileWorker_batch[OF assms(1) _ _ _ this] have
    "sendToFileWorker it t ?req st = (dd_after st ?p (dd_files st ?p) (dd_defrag st), Reply (resp_err er))"
    by (simp add: op)
  then show ?thesis
    by (simp add: saveIncDataToFileAsync_def call_bind_def inc_answer_def resp_err_def dd_after_def)
qed

definition demo_dir :: datadir where
  "demo_dir = \<lparr>dd_files = (\<lambda>_. demo_file []), dd_exists = (\<lambda>_. False), dd_crashed = (\<lambda>_. False),
     dd_defrag = init_defrag\<rparr>"

lemma save_inc_error_panics_witness:
  "snd (saveIncDataToFileAsync (\<lambda>xs. xs) [1, 2] ''t'' 9 demo_dir) = Panics"
  using save_inc_error_panics[of demo_dir "''t''" "[1, 2]" 9 "\<lambda>xs. xs"]
  by (auto simp: demo_dir_def record_total_def i64_def)

text \<open>
  An append to a file that does not hold a whole number of records first fills it up with zeros to
  the next record boundary: nothing that was in the file is lost, and the new record is aligned and
  numbered by its position.
\<close>

theorem write_inc_aligns:
  assumes "healthy f" "record_total (fr_entrySize req) = int n" "0 < n" "int n \<le> max_alloc"
    and "length (fr_data req) = n" "content f = c" "length c mod n \<noteq> 0"
  shows "\<exists>f' pad. write_inc req f =
      (f', Done (resp_ok (id_buf (int (length c div n + 1))) (int ((length c div n + 1) * n))
                   (int ((length c div n + 2) * n))))
    \<and> content f' = c @ pad @ fr_data req \<and> pad = replicate (n - length c mod n) 0
    \<and> length (c @ pad) = (length c div n + 1) * n"
proof -
  define m where "m = n - length c mod n"
  let ?q = "length c div n + 1" and ?pad = "replicate m (0 :: byte)"
  have md: "length c mod n < n" using assms(3) by simp
  have tot: "length c + m = ?q * n"
    using div_mult_mod_eq[of "length c" n] md unfolding m_def add_mult_distrib by linarith
  have rm: "int (length c) mod int n = int (length c mod n)" by (simp add: zmod_int)
  have pad: "int n - int (length c mod n) = int m" using md by (simp add: m_def of_nat_diff)
  have mk: "run_ok (fmake (int m)) c ?pad c"
    using run_ok_make[of "int m" c] assms(4) m_def by simp
  have w1: "run_ok (f_write ?pad (int (length c))) c () (c @ ?pad)"
    using run_ok_write[of "int (length c)" ?pad c] by (simp add: pwrite_append)
  have al: "run_ok (align_file (int n) (int (length c))) c (int (?q * n)) (c @ ?pad)"
  proof -
    have "int (length c) mod int n \<noteq> 0" using assms(7) rm by simp
    then show ?thesis
      unfolding align_file_def Let_def rm pad
      using run_ok_bind[OF mk, of "\<lambda>pad. fbind (f_write pad (int (length c))) (\<lambda>_. fret (int (length c) + int (length pad)))"]
        run_ok_bind[OF w1, of "\<lambda>_. fret (int (length c) + int (length ?pad))"]
        run_ok_fret[of "int (?q * n)" "c @ ?pad"] tot rm
      by (simp flip: of_nat_add)
  qed
  have w2: "run_ok (f_write (fr_data req) (int (?q * n))) (c @ ?pad) () (c @ ?pad @ fr_data req)"
  proof -
    have "pwrite (c @ ?pad) (?q * n) (fr_data req) = c @ ?pad @ fr_data req"
      using pwrite_append[of "c @ ?pad" "fr_data req"] tot by simp
    moreover have "run_ok (f_write (fr_data req) (int (?q * n))) (c @ ?pad) ()
        (pwrite (c @ ?pad) (nat (int (?q * n))) (fr_data req))"
      by (rule run_ok_write) (rule of_nat_0_le_iff)
    ultimately show ?thesis by (simp only: nat_int)
  qed
  have num2: "int ?q * int n = int (?q * n)" by (simp only: of_nat_mult)
  have "int ?q * int n div int n = int ?q" using assms(3) by (intro nonzero_mult_div_cancel_right) simp
  then have num: "int (?q * n) div int n = int ?q" by (simp only: num2)
  have guard: "\<not> int n \<le> 0" "\<not> int (length (fr_data req)) \<noteq> int n" using assms by simp_all
  have e: "int (?q * n) + int n = int ((length c div n + 2) * n)" by (simp add: add_mult_distrib)
  have "run_ok (write_inc req) c
      (resp_ok (id_buf (int ?q)) (int (?q * n)) (int ((length c div n + 2) * n))) (c @ ?pad @ fr_data req)"
    unfolding write_inc_def Let_def assms(2) if_not_P[OF guard(1)] if_not_P[OF guard(2)] e[symmetric]
    by (rule run_ok_bind[OF run_ok_size], rule run_ok_bind[OF al], unfold num, unfold num2,
        rule run_ok_bind[OF w2], rule run_ok_fret)
  then show ?thesis
    using assms(1,6) tot unfolding run_ok_def by (fastforce simp: m_def)
qed

lemma replicate_3: "replicate 3 x = [x, x, x]"
  by (simp add: numeral_3_eq_3)

lemma write_inc_aligns_witness:
  "\<exists>f'. write_inc demo_append (demo_file [7, 7, 7, 7, 9]) = (f', Done (resp_ok (id_buf 2) 8 12))
    \<and> content f' = [7, 7, 7, 7, 9, 0, 0, 0, 1, 2, 3, 4]"
  using write_inc_aligns[of "demo_file [7, 7, 7, 7, 9]" demo_append 4 "[7, 7, 7, 7, 9]"]
  by (auto simp: demo_append_def record_total_def i64_def max_alloc_def replicate_3)

end
