(* ===== verification/Map_Manager.thy ===== *)
theory Map_Manager
  imports Free_List
begin

text \<open>
  The key index of a table (\<open>data/fileSystem/v1/mapManager.go\<close>): 256 hash shards from keys to file
  ranges, a write-ahead log with its queue, buffer and file, periodic snapshots, and the loading of
  both at start-up. Files are strings; which paths cannot be opened, and which steps of a snapshot
  fail, are parameters. The interface of a key index is the locale \<open>key_index\<close>, where the facts
  about replaying logs are proved once; it is interpreted on the sharded index.
\<close>

section \<open>State\<close>

record entry =
  e_file :: string
  e_start :: int
  e_end :: int

record getElement_output =
  ge_Key :: string
  ge_FileName :: string
  ge_StartPtr :: int
  ge_EndPtr :: int

record walOp =
  wo_op :: char
  wo_key :: string
  wo_fileName :: string
  wo_start :: int
  wo_end :: int

definition numShards :: nat where
  "numShards = 256"

record tableIndex =
  ti_name :: string
  ti_safeName :: string
  ti_shards :: "entry gomap list"
  ti_walChan :: "walOp list"
  ti_pending :: nat
  ti_walBuf :: string
  ti_walOpen :: bool

datatype map_error = EmptyTable | CannotOpen | LineTooLong | InvalidPointerRange | KeyNotFound | BadPattern

text \<open>The files of the map directory, and the paths that cannot be opened.\<close>

record map_fs =
  mf_files :: "string \<Rightarrow> string option"
  mf_denied :: "string \<Rightarrow> bool"

definition tableDir :: "string \<Rightarrow> string" where
  "tableDir safe = ''db/maps/'' @ (if safe = ''.'' then [] else safe @ ''/'')"

definition snapPath :: "tableIndex \<Rightarrow> string" where
  "snapPath ti = tableDir (ti_safeName ti) @ ''index.snap''"

definition walPath :: "tableIndex \<Rightarrow> string" where
  "walPath ti = tableDir (ti_safeName ti) @ ''index.wal''"

definition legacySnapPath :: "string" where
  "legacySnapPath = ''db/maps/data_map.snap''"

definition legacyWalPath :: "string" where
  "legacyWalPath = ''db/maps/data_map.wal''"

definition normalizeTableName :: "string \<Rightarrow> map_error + string" where
  "normalizeTableName table = (if trim_space table = [] then Inl EmptyTable else Inr table)"

definition isPointerRangeValid :: "int \<Rightarrow> int \<Rightarrow> bool" where
  "isPointerRangeValid start end' \<longleftrightarrow> 0 \<le> start \<and> start < end'"

section \<open>The sharded map\<close>

text \<open>\<open>fnv.New32a\<close>: xor with each byte, then multiply by the prime.\<close>

definition fnv32a :: "string \<Rightarrow> u32" where
  "fnv32a key = fold (\<lambda>c h. (h XOR word_of_nat (of_char c)) * 16777619) key 2166136261"

definition getShard :: "string \<Rightarrow> nat" where
  "getShard key = unat (fnv32a key) mod numShards"

definition storeKey :: "tableIndex \<Rightarrow> string \<Rightarrow> entry \<Rightarrow> tableIndex \<times> entry option" where
  "storeKey ti k v =
     (let i = getShard k; s = ti_shards ti ! i
      in (ti\<lparr>ti_shards := (ti_shards ti)[i := AList.update k v s]\<rparr>, map_of s k))"

definition deleteKey :: "tableIndex \<Rightarrow> string \<Rightarrow> tableIndex \<times> entry option" where
  "deleteKey ti k =
     (let i = getShard k; s = ti_shards ti ! i
      in (ti\<lparr>ti_shards := (ti_shards ti)[i := AList.delete k s]\<rparr>, map_of s k))"

definition loadEntry :: "tableIndex \<Rightarrow> string \<Rightarrow> entry option" where
  "loadEntry ti k = map_of (ti_shards ti ! getShard k) k"

definition entryToOutput :: "string \<Rightarrow> entry \<Rightarrow> getElement_output" where
  "entryToOutput key e =
     \<lparr>ge_Key = key, ge_FileName = e_file e, ge_StartPtr = e_start e, ge_EndPtr = e_end e\<rparr>"

section \<open>The write-ahead log\<close>

definition nl :: char where
  "nl = CHR 0x0A"

definition bar :: char where
  "bar = CHR ''|''"

definition walLine :: "walOp \<Rightarrow> string" where
  "walLine op =
     (if wo_op op = CHR ''S''
      then ''S|'' @ wo_key op @ ''|'' @ wo_fileName op @ ''|'' @ show_int (wo_start op)
           @ ''|'' @ show_int (wo_end op)
      else ''D|'' @ wo_key op)"

definition writeWalLine :: "tableIndex \<Rightarrow> walOp \<Rightarrow> tableIndex" where
  "writeWalLine ti op = ti\<lparr>ti_walBuf := ti_walBuf ti @ walLine op @ [nl]\<rparr>"

text \<open>
  A flush moves the buffer to the end of the file; once the file has been closed by a rotation that
  failed, nothing reaches it any more.
\<close>

definition flushWal :: "map_fs \<Rightarrow> tableIndex \<Rightarrow> map_fs \<times> tableIndex" where
  "flushWal fs ti =
     (if ti_walOpen ti
      then (fs\<lparr>mf_files := (mf_files fs)(walPath ti \<mapsto>
              (case mf_files fs (walPath ti) of None \<Rightarrow> [] | Some c \<Rightarrow> c) @ ti_walBuf ti)\<rparr>,
            ti\<lparr>ti_walBuf := []\<rparr>)
      else (fs, ti))"

text \<open>One receive of the writer goroutine, and one tick of its 50 ms ticker.\<close>

definition walWriterReceive :: "map_fs \<Rightarrow> tableIndex \<Rightarrow> map_fs \<times> tableIndex" where
  "walWriterReceive fs ti =
     (case ti_walChan ti of
        [] \<Rightarrow> (fs, ti)
      | op # ops \<Rightarrow>
          (let ti1 = (writeWalLine ti op)\<lparr>ti_walChan := ops, ti_pending := ti_pending ti + 1\<rparr>
           in if 100 \<le> ti_pending ti1
              then (case flushWal fs ti1 of (fs', ti2) \<Rightarrow> (fs', ti2\<lparr>ti_pending := 0\<rparr>))
              else (fs, ti1)))"

definition walWriterTick :: "map_fs \<Rightarrow> tableIndex \<Rightarrow> map_fs \<times> tableIndex" where
  "walWriterTick fs ti =
     (if 0 < ti_pending ti
      then (case flushWal fs ti of (fs', ti2) \<Rightarrow> (fs', ti2\<lparr>ti_pending := 0\<rparr>))
      else (fs, ti))"

text \<open>
  A full queue makes the sender flush the buffer and wait until the writer has received; the time-out
  branch cannot be chosen, since \<open>select\<close> has a \<open>default\<close>.
\<close>

definition walCapacity :: nat where
  "walCapacity = 100000"

definition enqueueWal :: "map_fs \<Rightarrow> tableIndex \<Rightarrow> walOp \<Rightarrow> map_fs \<times> tableIndex" where
  "enqueueWal fs ti op =
     (let (fs', ti') = (if length (ti_walChan ti) < walCapacity then (fs, ti)
                        else (case flushWal fs ti of (fs1, ti1) \<Rightarrow> walWriterReceive fs1 ti1))
      in (fs', ti'\<lparr>ti_walChan := ti_walChan ti' @ [op]\<rparr>))"

section \<open>Operations on one table\<close>

definition saveElement :: "map_fs \<Rightarrow> tableIndex \<Rightarrow> string \<Rightarrow> string \<Rightarrow> int \<Rightarrow> int
    \<Rightarrow> (map_fs \<times> tableIndex) \<times> (map_error + getElement_output option)" where
  "saveElement fs ti key file start end' =
     (if \<not> isPointerRangeValid start end' then ((fs, ti), Inl InvalidPointerRange)
      else let (ti1, prev) = storeKey ti key \<lparr>e_file = file, e_start = start, e_end = end'\<rparr>;
               op = \<lparr>wo_op = CHR ''S'', wo_key = key, wo_fileName = file, wo_start = start, wo_end = end'\<rparr>
           in (enqueueWal fs ti1 op, Inr (map_option (entryToOutput key) prev)))"

definition removeElement :: "map_fs \<Rightarrow> tableIndex \<Rightarrow> string \<Rightarrow> map_fs \<times> tableIndex" where
  "removeElement fs ti key =
     enqueueWal fs (fst (deleteKey ti key))
       \<lparr>wo_op = CHR ''D'', wo_key = key, wo_fileName = [], wo_start = 0, wo_end = 0\<rparr>"

definition getElement :: "tableIndex \<Rightarrow> string \<Rightarrow> map_error + getElement_output" where
  "getElement ti key =
     (case loadEntry ti key of Some e \<Rightarrow> Inr (entryToOutput key e) | None \<Rightarrow> Inl KeyNotFound)"

text \<open>
  \<open>regexp.Compile\<close> is a parameter: a predicate on keys, or \<open>None\<close> for an invalid pattern; the cache
  of compiled patterns only saves its work. \<open>make([]string, 0, max)\<close> panics on a bad capacity.
\<close>

fun collectKeys :: "(string \<Rightarrow> bool) \<Rightarrow> int \<Rightarrow> string list \<Rightarrow> string list \<Rightarrow> string list" where
  "collectKeys rx mx [] out = out"
| "collectKeys rx mx (k # ks) out =
     (if rx k then
        (let out' = out @ [k]
         in if 0 < mx \<and> mx \<le> int (length out') then out' else collectKeys rx mx ks out')
      else collectKeys rx mx ks out)"

definition all_keys :: "(entry gomap \<Rightarrow> entry gomap) \<Rightarrow> tableIndex \<Rightarrow> string list" where
  "all_keys it ti = concat (map (\<lambda>s. map fst (go_range it s)) (ti_shards ti))"

definition keysByRegex :: "(string \<Rightarrow> (string \<Rightarrow> bool) option) \<Rightarrow> (entry gomap \<Rightarrow> entry gomap)
    \<Rightarrow> tableIndex \<Rightarrow> string \<Rightarrow> int \<Rightarrow> (map_error + string list) outcome" where
  "keysByRegex compile it ti pattern mx =
     (case compile pattern of
        None \<Rightarrow> Ret (Inl BadPattern)
      | Some rx \<Rightarrow>
          if mx < 0 \<or> max_alloc < 16 * mx then Panic
          else Ret (Inr (collectKeys rx mx (all_keys it ti) [])))"

section \<open>Loading\<close>

definition snapEntry :: "string \<Rightarrow> (string \<times> entry) option" where
  "snapEntry line =
     (case split_char bar line of
        [k, f, a, b] \<Rightarrow>
          (case (atoi a, atoi b) of
             (Some start, Some end') \<Rightarrow>
               if isPointerRangeValid start end'
               then Some (k, \<lparr>e_file = f, e_start = start, e_end = end'\<rparr>) else None
           | _ \<Rightarrow> None)
      | _ \<Rightarrow> None)"

definition loadSnapLine :: "(entry \<Rightarrow> bool) \<Rightarrow> string \<Rightarrow> tableIndex \<Rightarrow> tableIndex" where
  "loadSnapLine filt line ti =
     (case snapEntry line of
        None \<Rightarrow> ti
      | Some (k, e) \<Rightarrow> if filt e then fst (storeKey ti k e) else ti)"

definition read_lines :: "map_fs \<Rightarrow> string \<Rightarrow> (string \<Rightarrow> tableIndex \<Rightarrow> tableIndex) \<Rightarrow> tableIndex
    \<Rightarrow> map_error + tableIndex" where
  "read_lines fs path f ti =
     (case mf_files fs path of
        None \<Rightarrow> Inr ti
      | Some c \<Rightarrow>
          if mf_denied fs path then Inl CannotOpen
          else (case scan_lines c of
                  (ls, ok) \<Rightarrow> if ok then Inr (fold f ls ti) else Inl LineTooLong))"

definition loadSnapshot :: "map_fs \<Rightarrow> string \<Rightarrow> (entry \<Rightarrow> bool) \<Rightarrow> tableIndex \<Rightarrow> map_error + tableIndex" where
  "loadSnapshot fs path filt = read_lines fs path (loadSnapLine filt)"

definition applyWalLine :: "(entry \<Rightarrow> bool) \<Rightarrow> string \<Rightarrow> tableIndex \<Rightarrow> tableIndex" where
  "applyWalLine filt line ti =
     (case split_char bar line of
        t # k # rest \<Rightarrow>
          if t = ''S'' then
            (case rest of
               [f, a, b] \<Rightarrow>
                 (case (atoi a, atoi b) of
                    (Some start, Some end') \<Rightarrow>
                      (let e = \<lparr>e_file = f, e_start = start, e_end = end'\<rparr>
                       in if isPointerRangeValid start end' \<and> filt e then fst (storeKey ti k e) else ti)
                  | _ \<Rightarrow> ti)
             | _ \<Rightarrow> ti)
          else if t = ''D'' then fst (deleteKey ti k)
          else ti
      | _ \<Rightarrow> ti)"

definition applyWalFile :: "map_fs \<Rightarrow> string \<Rightarrow> (entry \<Rightarrow> bool) \<Rightarrow> tableIndex \<Rightarrow> map_error + tableIndex" where
  "applyWalFile fs path filt = read_lines fs path (applyWalLine filt)"

definition fileExists :: "map_fs \<Rightarrow> string \<Rightarrow> bool" where
  [simp]: "fileExists fs path \<longleftrightarrow> mf_files fs path \<noteq> None"

definition importFromLegacy :: "map_fs \<Rightarrow> tableIndex \<Rightarrow> map_error + tableIndex" where
  "importFromLegacy fs ti =
     (let filt = (\<lambda>e. e_file e = ti_name ti \<and> isPointerRangeValid (e_start e) (e_end e))
      in case loadSnapshot fs legacySnapPath filt ti of
           Inl e \<Rightarrow> Inl e
         | Inr ti1 \<Rightarrow> applyWalFile fs legacyWalPath filt ti1)"

definition loadIndex :: "map_fs \<Rightarrow> tableIndex \<Rightarrow> map_error + tableIndex" where
  "loadIndex fs ti =
     (let snapExists = fileExists fs (snapPath ti); walExists = fileExists fs (walPath ti)
      in case (if snapExists then loadSnapshot fs (snapPath ti) (\<lambda>_. True) ti else Inr ti) of
           Inl e \<Rightarrow> Inl e
         | Inr ti1 \<Rightarrow>
             (case (if walExists then applyWalFile fs (walPath ti) (\<lambda>_. True) ti1 else Inr ti1) of
                Inl e \<Rightarrow> Inl e
              | Inr ti2 \<Rightarrow> if snapExists \<or> walExists then Inr ti2 else importFromLegacy fs ti2))"

definition emptyIndex :: "string \<Rightarrow> tableIndex" where
  "emptyIndex table =
     \<lparr>ti_name = table, ti_safeName = sanitizeTableName table,
      ti_shards = replicate numShards [], ti_walChan = [], ti_pending = 0, ti_walBuf = [],
      ti_walOpen = True\<rparr>"

text \<open>\<open>setupWalWriter\<close> opens the log for appending and creates it.\<close>

definition setupWalWriter :: "map_fs \<Rightarrow> tableIndex \<Rightarrow> map_error + (map_fs \<times> tableIndex)" where
  "setupWalWriter fs ti =
     (if mf_denied fs (walPath ti) then Inl CannotOpen
      else Inr (fs\<lparr>mf_files := (mf_files fs)(walPath ti \<mapsto>
                 (case mf_files fs (walPath ti) of None \<Rightarrow> [] | Some c \<Rightarrow> c))\<rparr>, ti))"

definition newTableIndex :: "map_fs \<Rightarrow> string \<Rightarrow> map_error + (map_fs \<times> tableIndex)" where
  "newTableIndex fs table =
     (let ti = emptyIndex table
      in if mf_denied fs (tableDir (ti_safeName ti)) then Inl CannotOpen
         else (case loadIndex fs ti of Inl e \<Rightarrow> Inl e | Inr ti1 \<Rightarrow> setupWalWriter fs ti1))"

section \<open>Snapshots\<close>

text \<open>The steps of a snapshot that fail.\<close>

record snap_faults =
  no_temp :: bool
  no_flush :: bool
  no_sync :: bool
  no_close :: bool
  no_rename :: bool
  no_wal_close :: bool
  no_wal_remove :: bool
  no_wal_open :: bool

definition snapLine :: "string \<times> entry \<Rightarrow> string" where
  "snapLine p = fst p @ ''|'' @ e_file (snd p) @ ''|'' @ show_int (e_start (snd p))
                @ ''|'' @ show_int (e_end (snd p))"

text \<open>The dump holds each shard's lock for that shard only; the rest of a snapshot holds none.\<close>

definition snapshotDump :: "(entry gomap \<Rightarrow> entry gomap) \<Rightarrow> tableIndex \<Rightarrow> string" where
  "snapshotDump it ti = print_lines (map snapLine (concat (map (go_range it) (ti_shards ti))))"

definition rotateWal :: "snap_faults \<Rightarrow> map_fs \<Rightarrow> tableIndex \<Rightarrow> map_fs \<times> tableIndex" where
  "rotateWal sf fs ti =
     (if no_wal_close sf \<or> \<not> ti_walOpen ti then (fs, ti\<lparr>ti_walOpen := False\<rparr>)
      else if no_wal_remove sf then (fs, ti\<lparr>ti_walOpen := False\<rparr>)
      else if no_wal_open sf
           then (fs\<lparr>mf_files := (mf_files fs)(walPath ti := None)\<rparr>, ti\<lparr>ti_walOpen := False\<rparr>)
      else (fs\<lparr>mf_files := (mf_files fs)(walPath ti \<mapsto> [])\<rparr>, ti\<lparr>ti_walBuf := []\<rparr>))"

definition snapshotFinish :: "snap_faults \<Rightarrow> string \<Rightarrow> map_fs \<Rightarrow> tableIndex \<Rightarrow> map_fs \<times> tableIndex" where
  "snapshotFinish sf dump fs ti =
     (if no_flush sf \<or> no_sync sf \<or> no_close sf then (fs, ti)
      else let fs1 = (if no_rename sf then fs
                      else fs\<lparr>mf_files := (mf_files fs)(snapPath ti \<mapsto> dump)\<rparr>);
               (fs2, ti2) = flushWal fs1 ti
           in rotateWal sf fs2 ti2)"

definition writeSnapshot :: "(entry gomap \<Rightarrow> entry gomap) \<Rightarrow> snap_faults \<Rightarrow> map_fs \<Rightarrow> tableIndex
    \<Rightarrow> map_fs \<times> tableIndex" where
  "writeSnapshot it sf fs ti =
     (if no_temp sf then (fs, ti) else snapshotFinish sf (snapshotDump it ti) fs ti)"

section \<open>The registry of tables\<close>

text \<open>
  \<open>lastIndexCache\<close> holds a pointer to an index of the registry, which never drops one: the model
  keeps the table's name and looks the index up.
\<close>

record map_manager =
  mm_registry :: "string \<Rightarrow> tableIndex option"
  mm_cache :: "string option"
  mm_fs :: map_fs

definition loadCachedIndex :: "map_manager \<Rightarrow> string \<Rightarrow> tableIndex option" where
  [simp]: "loadCachedIndex mm table = (if mm_cache mm = Some table then mm_registry mm table else None)"

definition storeCachedIndex :: "map_manager \<Rightarrow> string \<Rightarrow> map_manager" where
  [simp]: "storeCachedIndex mm table = mm\<lparr>mm_cache := Some table\<rparr>"

definition getTableIndex :: "map_manager \<Rightarrow> string \<Rightarrow> map_manager \<times> (map_error + tableIndex)" where
  "getTableIndex mm table =
     (case normalizeTableName table of
        Inl e \<Rightarrow> (mm, Inl e)
      | Inr normalized \<Rightarrow>
          (case loadCachedIndex mm normalized of
             Some idx \<Rightarrow> (mm, Inr idx)
           | None \<Rightarrow>
               (case mm_registry mm normalized of
                  Some idx \<Rightarrow> (storeCachedIndex mm normalized, Inr idx)
                | None \<Rightarrow>
                    (case newTableIndex (mm_fs mm) normalized of
                       Inl e \<Rightarrow> (mm, Inl e)
                     | Inr (fs', idx) \<Rightarrow>
                         (storeCachedIndex (mm\<lparr>mm_registry := (mm_registry mm)(normalized \<mapsto> idx), mm_fs := fs'\<rparr>)
                            normalized, Inr idx)))))"

definition putIndex :: "map_manager \<Rightarrow> string \<Rightarrow> map_fs \<times> tableIndex \<Rightarrow> map_manager" where
  "putIndex mm table r =
     mm\<lparr>mm_registry := (mm_registry mm)(table \<mapsto> snd r), mm_fs := fst r\<rparr>"

definition saveElementByKey :: "map_manager \<Rightarrow> string \<Rightarrow> string \<Rightarrow> int \<Rightarrow> int
    \<Rightarrow> map_manager \<times> (map_error + getElement_output option)" where
  "saveElementByKey mm table key start end' =
     (case getTableIndex mm table of
        (mm1, Inl e) \<Rightarrow> (mm1, Inl e)
      | (mm1, Inr idx) \<Rightarrow>
          (case saveElement (mm_fs mm1) idx key table start end' of
             (r, res) \<Rightarrow> (putIndex mm1 table r, res)))"

definition removeElementByKey :: "map_manager \<Rightarrow> string \<Rightarrow> string \<Rightarrow> map_manager \<times> map_error option" where
  "removeElementByKey mm table key =
     (case getTableIndex mm table of
        (mm1, Inl e) \<Rightarrow> (mm1, Some e)
      | (mm1, Inr idx) \<Rightarrow> (putIndex mm1 table (removeElement (mm_fs mm1) idx key), None))"

definition getElementByKey :: "map_manager \<Rightarrow> string \<Rightarrow> string
    \<Rightarrow> map_manager \<times> (map_error + getElement_output)" where
  "getElementByKey mm table key =
     (case getTableIndex mm table of
        (mm1, Inl e) \<Rightarrow> (mm1, Inl e)
      | (mm1, Inr idx) \<Rightarrow> (mm1, getElement idx key))"

definition getKeysByRegex :: "(string \<Rightarrow> (string \<Rightarrow> bool) option) \<Rightarrow> (entry gomap \<Rightarrow> entry gomap)
    \<Rightarrow> map_manager \<Rightarrow> string \<Rightarrow> string \<Rightarrow> int
    \<Rightarrow> map_manager \<times> (map_error + string list) outcome" where
  "getKeysByRegex compile it mm table pattern mx =
     (case getTableIndex mm table of
        (mm1, Inl e) \<Rightarrow> (mm1, Ret (Inl e))
      | (mm1, Inr idx) \<Rightarrow> (mm1, keysByRegex compile it idx pattern mx))"

text \<open>\<open>ResetForTests\<close> empties every shard and the cache, and keeps the registry and the files.\<close>

definition resetForTests :: "map_manager \<Rightarrow> map_manager" where
  "resetForTests mm =
     mm\<lparr>mm_registry := (\<lambda>t. map_option (\<lambda>ti. ti\<lparr>ti_shards := replicate numShards []\<rparr>)
                                (mm_registry mm t)),
        mm_cache := None\<rparr>"

section \<open>The interface: a key index\<close>

text \<open>
  What the stores rely on: a key index behaves as a map under storing and deleting. Logs are lists of
  updates \<open>(key, value or deletion)\<close>; replaying one twice, or replaying a part that already is in the
  index, changes nothing.
\<close>

type_synonym 'e update = "string \<times> 'e option"

definition upd_all :: "'e update list \<Rightarrow> (string \<Rightarrow> 'e option) \<Rightarrow> string \<Rightarrow> 'e option" where
  "upd_all us m = fold (\<lambda>(k, v) m. m(k := v)) us m"

lemma upd_all_simps [simp]:
  "upd_all [] m = m" "upd_all (u # us) m = upd_all us (m(fst u := snd u))"
  "upd_all (us @ vs) m = upd_all vs (upd_all us m)"
  by (simp_all add: upd_all_def split_beta)

lemma upd_all_other: "k \<notin> fst ` set us \<Longrightarrow> upd_all us m k = m k"
  by (induction us arbitrary: m) auto

lemma upd_all_touched: "k \<in> fst ` set us \<Longrightarrow> upd_all us m k = upd_all us m' k"
proof (induction us arbitrary: m m')
  case (Cons u us)
  obtain j v where u: "u = (j, v)" by (cases u)
  show ?case
  proof (cases "k \<in> fst ` set us")
    case True
    then show ?thesis using Cons.IH u by simp
  next
    case False
    then have "k = j" using Cons.prems u by auto
    with False show ?thesis by (simp add: u upd_all_other)
  qed
qed simp

lemma upd_all_again: "upd_all vs (upd_all (us @ vs) m) = upd_all (us @ vs) m"
proof
  fix k
  show "upd_all vs (upd_all (us @ vs) m) k = upd_all (us @ vs) m k"
  proof (cases "k \<in> fst ` set vs")
    case True
    then show ?thesis using upd_all_touched[of k vs "upd_all (us @ vs) m" "upd_all us m"] by simp
  qed (simp add: upd_all_other)
qed

lemma upd_all_distinct:
  "distinct (map fst ps) \<Longrightarrow> upd_all (map (\<lambda>(k, e). (k, Some e)) ps) Map.empty = map_of ps"
proof -
  have "distinct (map fst ps) \<Longrightarrow>
      upd_all (map (\<lambda>(k, e). (k, Some e)) ps) m = (\<lambda>k. case map_of ps k of None \<Rightarrow> m k | Some e \<Rightarrow> Some e)"
    for m
  proof (induction ps arbitrary: m)
    case (Cons p ps)
    obtain k e where p: "p = (k, e)" by (cases p)
    then have "map_of ps k = None" using Cons.prems by (simp add: map_of_eq_None_iff)
    then show ?case using Cons p by (auto simp: fun_eq_iff split: option.splits)
  qed (simp add: fun_eq_iff)
  then show "distinct (map fst ps) \<Longrightarrow> ?thesis" by (auto simp: fun_eq_iff split: option.splits)
qed

locale key_index =
  fixes look :: "'i \<Rightarrow> string \<Rightarrow> 'e option"
    and put :: "'i \<Rightarrow> string \<Rightarrow> 'e \<Rightarrow> 'i"
    and drop_key :: "'i \<Rightarrow> string \<Rightarrow> 'i"
    and wf :: "'i \<Rightarrow> bool"
  assumes look_put: "wf i \<Longrightarrow> look (put i k e) = (look i)(k \<mapsto> e)"
    and look_drop: "wf i \<Longrightarrow> look (drop_key i k) = (look i)(k := None)"
    and wf_put: "wf i \<Longrightarrow> wf (put i k e)"
    and wf_drop: "wf i \<Longrightarrow> wf (drop_key i k)"
begin

definition update :: "'e update \<Rightarrow> 'i \<Rightarrow> 'i" where
  "update u i = (case snd u of Some e \<Rightarrow> put i (fst u) e | None \<Rightarrow> drop_key i (fst u))"

definition replay :: "'e update list \<Rightarrow> 'i \<Rightarrow> 'i" where
  "replay us i = fold update us i"

lemma replay_simps [simp]:
  "replay [] i = i" "replay (u # us) i = replay us (update u i)"
  "replay (us @ vs) i = replay vs (replay us i)"
  by (simp_all add: replay_def)

lemma wf_update: "wf i \<Longrightarrow> wf (update u i)"
  by (simp add: update_def wf_put wf_drop split: option.splits)

lemma look_update: "wf i \<Longrightarrow> look (update (k, v) i) = (look i)(k := v)"
  by (simp add: update_def look_put look_drop split: option.splits)

lemma wf_replay: "wf i \<Longrightarrow> wf (replay us i)"
  by (induction us arbitrary: i) (auto simp: wf_update)

lemma look_replay: "wf i \<Longrightarrow> look (replay us i) = upd_all us (look i)"
proof (induction us arbitrary: i)
  case (Cons u us)
  obtain k v where "u = (k, v)" by (cases u)
  with Cons show ?case by (simp add: wf_update look_update del: fun_upd_apply)
qed simp

lemma replay_again: "wf i \<Longrightarrow> look (replay vs (replay (us @ vs) i)) = look (replay (us @ vs) i)"
  using upd_all_again[of vs us "look i"] by (simp add: look_replay wf_replay del: replay_simps(3))

lemma replay_extensional: "wf i \<Longrightarrow> wf j \<Longrightarrow> look i = look j \<Longrightarrow> look (replay us i) = look (replay us j)"
  by (simp add: look_replay)

end

section \<open>The sharded map is a key index\<close>

definition index_wf :: "tableIndex \<Rightarrow> bool" where
  "index_wf ti \<longleftrightarrow> length (ti_shards ti) = numShards
     \<and> (\<forall>i < numShards. keys_distinct (ti_shards ti ! i)
          \<and> (\<forall>p \<in> set (ti_shards ti ! i). getShard (fst p) = i))"

lemma getShard_bound [simp]: "getShard k < numShards"
  by (simp add: getShard_def numShards_def)

lemma index_wf_length: "index_wf ti \<Longrightarrow> getShard k < length (ti_shards ti)"
  by (simp add: index_wf_def)

lemma index_wf_shard:
  "index_wf ti \<Longrightarrow> i < numShards \<Longrightarrow>
   keys_distinct (ti_shards ti ! i) \<and> (\<forall>p \<in> set (ti_shards ti ! i). getShard (fst p) = i)"
  by (simp add: index_wf_def)

lemma index_wf_replace:
  assumes "index_wf ti" "keys_distinct s" "\<And>p. p \<in> set s \<Longrightarrow> getShard (fst p) = getShard k"
  shows "index_wf (ti\<lparr>ti_shards := (ti_shards ti)[getShard k := s]\<rparr>)"
  using assms by (auto simp: index_wf_def nth_list_update)

lemma loadEntry_replace:
  assumes "index_wf ti" "map_of s = (map_of (ti_shards ti ! getShard k))(k := v)"
  shows "loadEntry (ti\<lparr>ti_shards := (ti_shards ti)[getShard k := s]\<rparr>) = (loadEntry ti)(k := v)"
  using assms index_wf_length[OF assms(1), of k] by (auto simp: loadEntry_def nth_list_update fun_eq_iff)

lemma shard_index_wf: "index_wf (fst (storeKey ti k e))" "index_wf (fst (deleteKey ti k))" if "index_wf ti"
proof -
  note s = index_wf_shard[OF that getShard_bound[of k]]
  show "index_wf (fst (storeKey ti k e))"
    unfolding storeKey_def Let_def fst_conv
    by (rule index_wf_replace[OF that]) (use s in \<open>auto simp: set_update_gomap\<close>)
  show "index_wf (fst (deleteKey ti k))"
    unfolding deleteKey_def Let_def fst_conv
    by (rule index_wf_replace[OF that]) (use s in \<open>auto simp: set_delete_gomap\<close>)
qed

interpretation shards: key_index loadEntry "\<lambda>ti k e. fst (storeKey ti k e)" "\<lambda>ti k. fst (deleteKey ti k)"
  index_wf
  by unfold_locales
    (auto simp: storeKey_def deleteKey_def Let_def intro!: loadEntry_replace
       shard_index_wf[unfolded storeKey_def deleteKey_def Let_def fst_conv])

lemma index_wf_empty [simp]: "index_wf (emptyIndex t)" "loadEntry (emptyIndex t) = Map.empty"
  by (auto simp: index_wf_def emptyIndex_def loadEntry_def fun_eq_iff)

lemma emptyIndex_fields [simp]:
  "ti_name (emptyIndex t) = t" "ti_safeName (emptyIndex t) = sanitizeTableName t"
  "ti_walChan (emptyIndex t) = []" "ti_walBuf (emptyIndex t) = []" "ti_walOpen (emptyIndex t)"
  by (simp_all add: emptyIndex_def)

lemma index_other_fields [simp]:
  "ti_walChan (fst (storeKey ti k e)) = ti_walChan ti" "ti_walBuf (fst (storeKey ti k e)) = ti_walBuf ti"
  "ti_safeName (fst (storeKey ti k e)) = ti_safeName ti" "ti_walOpen (fst (storeKey ti k e)) = ti_walOpen ti"
  "ti_name (fst (storeKey ti k e)) = ti_name ti" "ti_pending (fst (storeKey ti k e)) = ti_pending ti"
  "ti_walChan (fst (deleteKey ti k)) = ti_walChan ti" "ti_walBuf (fst (deleteKey ti k)) = ti_walBuf ti"
  "ti_safeName (fst (deleteKey ti k)) = ti_safeName ti" "ti_walOpen (fst (deleteKey ti k)) = ti_walOpen ti"
  "ti_name (fst (deleteKey ti k)) = ti_name ti" "ti_pending (fst (deleteKey ti k)) = ti_pending ti"
  by (simp_all add: storeKey_def deleteKey_def Let_def)

text \<open>All keys of the shards are the keys bound in the index, each once.\<close>

definition all_entries :: "(entry gomap \<Rightarrow> entry gomap) \<Rightarrow> tableIndex \<Rightarrow> entry gomap" where
  "all_entries it ti = concat (map (go_range it) (ti_shards ti))"

lemma all_entries_distinct:
  assumes wf: "index_wf ti"
  shows "distinct (map fst (all_entries it ti))"
proof -
  let ?part = "\<lambda>n. concat (map (go_range it) (take n (ti_shards ti)))"
  have "n \<le> numShards \<Longrightarrow> distinct (map fst (?part n)) \<and> (\<forall>p \<in> set (?part n). getShard (fst p) < n)" for n
  proof (induction n)
    case (Suc n)
    let ?s = "ti_shards ti ! n"
    have n: "n < length (ti_shards ti)" using Suc.prems wf by (simp add: index_wf_def)
    have s: "keys_distinct ?s" "\<forall>p \<in> set ?s. getShard (fst p) = n"
      using index_wf_shard[OF wf, of n] Suc.prems by auto
    have "mset (map fst (go_range it ?s)) = mset (map fst ?s)" by simp
    then have "distinct (map fst (go_range it ?s))"
      using s(1) mset_eq_imp_distinct_iff unfolding keys_distinct_def by blast
    moreover have "?part (Suc n) = ?part n @ go_range it ?s"
      using n by (simp add: take_Suc_conv_app_nth)
    ultimately show ?case
      using Suc s(2) by fastforce
  qed simp
  from this[of numShards] show ?thesis
    using wf by (simp add: all_entries_def index_wf_def)
qed

lemma set_all_entries: "index_wf ti \<Longrightarrow> (k, e) \<in> set (all_entries it ti) \<longleftrightarrow> loadEntry ti k = Some e"
proof -
  assume wf: "index_wf ti"
  have "(k, e) \<in> set (all_entries it ti) \<longleftrightarrow> (\<exists>i < numShards. (k, e) \<in> set (ti_shards ti ! i))"
    using wf by (auto simp: all_entries_def index_wf_def set_conv_nth[of "ti_shards ti"])
  also have "\<dots> \<longleftrightarrow> (k, e) \<in> set (ti_shards ti ! getShard k)"
    using index_wf_shard[OF wf] getShard_bound[of k] by (metis fst_conv)
  also have "\<dots> \<longleftrightarrow> loadEntry ti k = Some e"
    using index_wf_shard[OF wf getShard_bound[of k]] by (simp add: loadEntry_def keys_distinct_map_of)
  finally show ?thesis .
qed

lemma map_of_all_entries: "index_wf ti \<Longrightarrow> map_of (all_entries it ti) = loadEntry ti"
proof
  fix k assume wf: "index_wf ti"
  have "map_of (all_entries it ti) k = Some e \<longleftrightarrow> loadEntry ti k = Some e" for e
    using set_all_entries[OF wf] all_entries_distinct[OF wf, of it]
    by (metis map_of_eq_Some_iff)
  then show "map_of (all_entries it ti) k = loadEntry ti k"
    by (metis option.exhaust)
qed

section \<open>Printing and reading the log and the snapshot\<close>

text \<open>
  An operation or an entry survives its line when its names hold no separator or line break, the
  line fits the scanner's buffer, and the range is one the loader accepts.
\<close>

definition clean_name :: "string \<Rightarrow> bool" where
  "clean_name s \<longleftrightarrow> bar \<notin> set s \<and> nl \<notin> set s"

definition int64 :: "int \<Rightarrow> bool" where
  "int64 i \<longleftrightarrow> - (2 ^ 63) \<le> i \<and> i < 2 ^ 63"

definition clean_entry :: "string \<Rightarrow> entry \<Rightarrow> bool" where
  "clean_entry k e \<longleftrightarrow> clean_name k \<and> clean_name (e_file e) \<and> isPointerRangeValid (e_start e) (e_end e)
     \<and> int64 (e_start e) \<and> int64 (e_end e) \<and> length (snapLine (k, e)) + 2 < max_token"

definition op_entry :: "walOp \<Rightarrow> entry" where
  "op_entry op = \<lparr>e_file = wo_fileName op, e_start = wo_start op, e_end = wo_end op\<rparr>"

definition op_update :: "walOp \<Rightarrow> entry update" where
  "op_update op = (wo_key op, if wo_op op = CHR ''S'' then Some (op_entry op) else None)"

definition clean_op :: "walOp \<Rightarrow> bool" where
  "clean_op op \<longleftrightarrow>
     (if wo_op op = CHR ''S'' then clean_entry (wo_key op) (op_entry op)
      else clean_name (wo_key op) \<and> (wo_key op = [] \<or> last (wo_key op) \<noteq> CHR 0x0D)
           \<and> length (wo_key op) + 2 < max_token)"

lemma clean_name_simps [simp]: "clean_name (show_int i)" "clean_name ''S''" "clean_name ''D''"
  by (auto simp: clean_name_def bar_def nl_def)

lemma split_clean: "ws \<noteq> [] \<Longrightarrow> \<forall>w \<in> set ws. clean_name w \<Longrightarrow> split_char bar (join_char bar ws) = ws"
  by (rule split_join_char) (auto simp: clean_name_def)

lemma walLine_join:
  "walLine op =
     (if wo_op op = CHR ''S''
      then join_char bar [''S'', wo_key op, wo_fileName op, show_int (wo_start op), show_int (wo_end op)]
      else join_char bar [''D'', wo_key op])"
  by (simp add: walLine_def bar_def)

lemma snapLine_join:
  "snapLine (k, e) = join_char bar [k, e_file e, show_int (e_start e), show_int (e_end e)]"
  by (simp add: snapLine_def bar_def)

lemma applyWalLine_walLine:
  assumes "clean_op op"
  shows "applyWalLine (\<lambda>_. True) (walLine op) ti = shards.update (op_update op) ti"
proof (cases "wo_op op = CHR ''S''")
  case True
  then have c: "clean_entry (wo_key op) (op_entry op)" using assms by (simp add: clean_op_def)
  then have "split_char bar (walLine op) =
      [''S'', wo_key op, wo_fileName op, show_int (wo_start op), show_int (wo_end op)]"
    unfolding walLine_join if_P[OF True]
    by (intro split_clean) (auto simp: clean_entry_def op_entry_def)
  then show ?thesis
    using True c by (simp add: applyWalLine_def shards.update_def op_update_def op_entry_def
        clean_entry_def int64_def)
next
  case False
  then have "split_char bar (walLine op) = [''D'', wo_key op]"
    unfolding walLine_join if_not_P[OF False] using assms False
    by (intro split_clean) (auto simp: clean_op_def)
  then show ?thesis
    using False by (simp add: applyWalLine_def shards.update_def op_update_def)
qed

lemma entry_eta: "\<lparr>e_file = e_file e, e_start = e_start e, e_end = e_end e\<rparr> = e"
  by (cases e) simp

lemma loadSnapLine_snapLine:
  assumes "clean_entry k e"
  shows "loadSnapLine (\<lambda>_. True) (snapLine (k, e)) ti = shards.update (k, Some e) ti"
proof -
  have "split_char bar (snapLine (k, e)) = [k, e_file e, show_int (e_start e), show_int (e_end e)]"
    unfolding snapLine_join using assms by (intro split_clean) (auto simp: clean_entry_def)
  then show ?thesis
    using assms
    by (simp add: loadSnapLine_def snapEntry_def shards.update_def clean_entry_def int64_def entry_eta)
qed

lemma last_show_int_not_cr: "last (show_int i) \<noteq> CHR 0x0D"
  by (metis last_in_set show_int_nonempty show_int_not_sep(3))

lemma clean_snapLine: "clean_entry k e \<Longrightarrow> clean_line (snapLine (k, e))"
  by (auto simp: clean_line_def clean_entry_def clean_name_def snapLine_def nl_def last_show_int_not_cr)

lemma clean_walLine:
  assumes "clean_op op"
  shows "clean_line (walLine op)"
proof (cases "wo_op op = CHR ''S''")
  case True
  then have w: "walLine op = ''S|'' @ snapLine (wo_key op, op_entry op)"
    by (simp add: walLine_def snapLine_def op_entry_def)
  have c: "clean_line (snapLine (wo_key op, op_entry op))"
    "length (snapLine (wo_key op, op_entry op)) + 2 < max_token"
    using assms True clean_snapLine by (auto simp: clean_op_def clean_entry_def)
  moreover have "snapLine (wo_key op, op_entry op) \<noteq> []" by (simp add: snapLine_def)
  ultimately show ?thesis unfolding w by (simp add: clean_line_def)
next
  case False
  with assms show ?thesis
    by (auto simp: clean_line_def walLine_def clean_op_def clean_name_def nl_def)
qed

definition wal_text :: "walOp list \<Rightarrow> string" where
  "wal_text ops = print_lines (map walLine ops)"

lemma wal_text_simps [simp]: "wal_text [] = []" "wal_text (ops @ ops') = wal_text ops @ wal_text ops'"
  "wal_text (op # ops) = walLine op @ nl # wal_text ops"
  by (simp_all add: wal_text_def print_lines_def nl_def)

lemma fold_wal_lines:
  "\<forall>op \<in> set ops. clean_op op \<Longrightarrow>
   fold (applyWalLine (\<lambda>_. True)) (map walLine ops) ti = shards.replay (map op_update ops) ti"
  by (induction ops arbitrary: ti) (auto simp: applyWalLine_walLine)

lemma applyWalFile_text:
  assumes "\<forall>op \<in> set ops. clean_op op" "mf_files fs p = Some (wal_text ops)" "\<not> mf_denied fs p"
  shows "applyWalFile fs p (\<lambda>_. True) ti = Inr (shards.replay (map op_update ops) ti)"
proof -
  have "scan_lines (wal_text ops) = (map walLine ops, True)"
    unfolding wal_text_def by (rule scan_print_lines) (use assms(1) clean_walLine in auto)
  then show ?thesis
    using assms by (simp add: applyWalFile_def read_lines_def fold_wal_lines)
qed

definition entries_clean :: "tableIndex \<Rightarrow> bool" where
  "entries_clean ti \<longleftrightarrow> (\<forall>k e. loadEntry ti k = Some e \<longrightarrow> clean_entry k e)"

lemma fold_snap_lines:
  "\<forall>p \<in> set ps. clean_entry (fst p) (snd p) \<Longrightarrow>
   fold (loadSnapLine (\<lambda>_. True)) (map snapLine ps) ti =
   shards.replay (map (\<lambda>(k, e). (k, Some e)) ps) ti"
  by (induction ps arbitrary: ti) (auto simp: loadSnapLine_snapLine)

text \<open>Loading a snapshot into an empty index gives the map that was dumped.\<close>

lemma loadSnapshot_dump:
  assumes wf: "index_wf ti" and c: "entries_clean ti"
    and f: "mf_files fs p = Some (snapshotDump it ti)" "\<not> mf_denied fs p"
  shows "\<exists>ti'. loadSnapshot fs p (\<lambda>_. True) (emptyIndex t) = Inr ti' \<and> index_wf ti'
    \<and> loadEntry ti' = loadEntry ti \<and> ti_safeName ti' = sanitizeTableName t"
proof -
  let ?ps = "all_entries it ti"
  have cl: "\<forall>p \<in> set ?ps. clean_entry (fst p) (snd p)"
    using c set_all_entries[OF wf] by (auto simp: entries_clean_def)
  have "snapshotDump it ti = print_lines (map snapLine ?ps)"
    by (simp add: snapshotDump_def all_entries_def)
  moreover have "scan_lines (print_lines (map snapLine ?ps)) = (map snapLine ?ps, True)"
    by (rule scan_print_lines) (use cl clean_snapLine in auto)
  ultimately have l: "loadSnapshot fs p (\<lambda>_. True) (emptyIndex t)
      = Inr (shards.replay (map (\<lambda>(k, e). (k, Some e)) ?ps) (emptyIndex t))"
    using f fold_snap_lines[OF cl] by (simp add: loadSnapshot_def read_lines_def)
  have "loadEntry (shards.replay (map (\<lambda>(k, e). (k, Some e)) ?ps) (emptyIndex t)) = map_of ?ps"
    using upd_all_distinct[OF all_entries_distinct[OF wf, of it]] by (simp add: shards.look_replay)
  moreover have "ti_safeName (shards.replay us ti0) = ti_safeName ti0" for us ti0
    by (induction us arbitrary: ti0) (auto simp: shards.update_def split: option.splits)
  ultimately show ?thesis
    using l map_of_all_entries[OF wf] shards.wf_replay by auto
qed

section \<open>Recovery\<close>

text \<open>
  The life of one table's index between starts: saves and removals, receives and ticks of the log
  writer, and complete snapshots.
\<close>

definition save_ok :: "tableIndex \<Rightarrow> string \<Rightarrow> string \<Rightarrow> int \<Rightarrow> int \<Rightarrow> bool" where
  "save_ok ti k f a b \<longleftrightarrow> clean_entry k \<lparr>e_file = f, e_start = a, e_end = b\<rparr>"

definition remove_ok :: "string \<Rightarrow> bool" where
  "remove_ok k \<longleftrightarrow> clean_name k \<and> (k = [] \<or> last k \<noteq> CHR 0x0D) \<and> length k + 2 < max_token"

definition no_faults :: snap_faults where
  "no_faults = \<lparr>no_temp = False, no_flush = False, no_sync = False, no_close = False,
     no_rename = False, no_wal_close = False, no_wal_remove = False, no_wal_open = False\<rparr>"

inductive index_step :: "map_fs \<times> tableIndex \<Rightarrow> map_fs \<times> tableIndex \<Rightarrow> bool" where
  save: "save_ok ti k f a b \<Longrightarrow> index_step (fs, ti) (fst (saveElement fs ti k f a b))"
| remove: "remove_ok k \<Longrightarrow> index_step (fs, ti) (removeElement fs ti k)"
| receive: "index_step (fs, ti) (walWriterReceive fs ti)"
| tick: "index_step (fs, ti) (walWriterTick fs ti)"
| snapshot: "index_step (fs, ti) (writeSnapshot it no_faults fs ti)"

inductive_cases index_step_cases: "index_step (fs, ti) s'"

inductive index_run :: "map_fs \<times> tableIndex \<Rightarrow> map_fs \<times> tableIndex \<Rightarrow> bool" where
  init: "index_run s s"
| step: "index_run s s' \<Longrightarrow> index_step s' s'' \<Longrightarrow> index_run s s''"

text \<open>
  \<open>base\<close> is the map in the snapshot file (empty without one), \<open>ws\<close> the operations in the log file
  \<open>bs\<close> those in the buffer, \<open>ex\<close> those applied but not yet queued. The index in memory is the base
  with all of them and the queue applied.
\<close>

definition snapshot_of :: "map_fs \<Rightarrow> string \<Rightarrow> (string \<Rightarrow> entry option) \<Rightarrow> bool" where
  "snapshot_of fs p base \<longleftrightarrow>
     (mf_files fs p = None \<and> base = Map.empty) \<or>
     (\<exists>ti it. mf_files fs p = Some (snapshotDump it ti) \<and> index_wf ti \<and> entries_clean ti
        \<and> base = loadEntry ti)"

definition log_inv :: "walOp list \<Rightarrow> (string \<Rightarrow> entry option) \<Rightarrow> walOp list \<Rightarrow> walOp list \<Rightarrow> map_fs \<times> tableIndex \<Rightarrow> bool" where
  "log_inv ex base ws bs s \<longleftrightarrow>
     (case s of (fs, ti) \<Rightarrow>
        index_wf ti \<and> entries_clean ti \<and> ti_walOpen ti
        \<and> \<not> mf_denied fs (snapPath ti) \<and> \<not> mf_denied fs (walPath ti)
        \<and> snapshot_of fs (snapPath ti) base
        \<and> mf_files fs (walPath ti) = Some (wal_text ws) \<and> ti_walBuf ti = wal_text bs
        \<and> (\<forall>op \<in> set (ws @ bs @ ti_walChan ti @ ex). clean_op op)
        \<and> loadEntry ti = upd_all (map op_update (ws @ bs @ ti_walChan ti @ ex)) base)"

lemma wal_snap_paths [simp]: "walPath ti \<noteq> snapPath ti'" "snapPath ti' \<noteq> walPath ti"
proof -
  have "last (walPath ti) = CHR ''l''" "last (snapPath ti') = CHR ''p''"
    by (simp_all add: walPath_def snapPath_def)
  then show "walPath ti \<noteq> snapPath ti'" "snapPath ti' \<noteq> walPath ti" by auto
qed

lemma paths_update [simp]:
  "walPath (ti\<lparr>ti_walBuf := x\<rparr>) = walPath ti" "walPath (ti\<lparr>ti_walChan := y\<rparr>) = walPath ti"
  "walPath (ti\<lparr>ti_pending := n\<rparr>) = walPath ti" "snapPath (ti\<lparr>ti_walBuf := x\<rparr>) = snapPath ti"
  "snapPath (ti\<lparr>ti_walChan := y\<rparr>) = snapPath ti" "snapPath (ti\<lparr>ti_pending := n\<rparr>) = snapPath ti"
  "walPath (fst (storeKey ti k e)) = walPath ti" "snapPath (fst (storeKey ti k e)) = snapPath ti"
  "walPath (fst (deleteKey ti k)) = walPath ti" "snapPath (fst (deleteKey ti k)) = snapPath ti"
  by (simp_all add: walPath_def snapPath_def)

lemma index_update [simp]:
  "index_wf (ti\<lparr>ti_walBuf := x\<rparr>) = index_wf ti" "index_wf (ti\<lparr>ti_walChan := y\<rparr>) = index_wf ti"
  "index_wf (ti\<lparr>ti_pending := n\<rparr>) = index_wf ti" "loadEntry (ti\<lparr>ti_walBuf := x\<rparr>) = loadEntry ti"
  "loadEntry (ti\<lparr>ti_walChan := y\<rparr>) = loadEntry ti" "loadEntry (ti\<lparr>ti_pending := n\<rparr>) = loadEntry ti"
  by (simp_all add: index_wf_def loadEntry_def fun_eq_iff)

lemma entries_clean_update [simp]:
  "entries_clean (ti\<lparr>ti_walBuf := x\<rparr>) = entries_clean ti"
  "entries_clean (ti\<lparr>ti_walChan := y\<rparr>) = entries_clean ti"
  "entries_clean (ti\<lparr>ti_pending := n\<rparr>) = entries_clean ti"
  by (simp_all add: entries_clean_def)

lemma log_inv_flush: "log_inv ex base ws bs (fs, ti) \<Longrightarrow> log_inv ex base (ws @ bs) [] (flushWal fs ti)"
  by (auto simp: log_inv_def flushWal_def snapshot_of_def)

lemma log_inv_pending: "log_inv ex base ws bs (fs, ti) \<Longrightarrow> log_inv ex base ws bs (fs, ti\<lparr>ti_pending := n\<rparr>)"
  by (simp add: log_inv_def)

lemma log_inv_receive:
  assumes "log_inv ex base ws bs (fs, ti)"
  shows "\<exists>ws' bs'. log_inv ex base ws' bs' (walWriterReceive fs ti)"
proof (cases "ti_walChan ti")
  case Nil
  then show ?thesis using assms by (auto simp: walWriterReceive_def)
next
  case (Cons op ops)
  let ?ti = "(writeWalLine ti op)\<lparr>ti_walChan := ops, ti_pending := ti_pending ti + 1\<rparr>"
  have 1: "log_inv ex base ws (bs @ [op]) (fs, ?ti)"
    using assms Cons by (auto simp: log_inv_def writeWalLine_def)
  obtain fs2 ti2 where f: "flushWal fs ?ti = (fs2, ti2)" by (cases "flushWal fs ?ti")
  have 2: "log_inv ex base (ws @ bs @ [op]) [] (fs2, ti2\<lparr>ti_pending := 0\<rparr>)"
    using log_inv_flush[OF 1] f by (auto intro: log_inv_pending)
  show ?thesis
    using Cons 1 2 f by (auto simp: walWriterReceive_def Let_def)
qed

lemma log_inv_enqueue:
  assumes "log_inv [op] base ws bs (fs, ti)"
  shows "\<exists>ws' bs'. log_inv [] base ws' bs' (enqueueWal fs ti op)"
proof -
  have add: "log_inv [] base ws' bs' (fs', ti'\<lparr>ti_walChan := ti_walChan ti' @ [op]\<rparr>)"
    if "log_inv [op] base ws' bs' (fs', ti')" for ws' bs' fs' ti'
    using that by (auto simp: log_inv_def)
  show ?thesis
  proof (cases "length (ti_walChan ti) < walCapacity")
    case True
    then show ?thesis using add[OF assms] by (auto simp: enqueueWal_def)
  next
    case False
    obtain fs1 ti1 where f: "flushWal fs ti = (fs1, ti1)" by (cases "flushWal fs ti")
    obtain fs2 ti2 where r: "walWriterReceive fs1 ti1 = (fs2, ti2)" by (cases "walWriterReceive fs1 ti1")
    obtain ws' bs' where "log_inv [op] base ws' bs' (fs2, ti2)"
      using log_inv_receive[OF log_inv_flush[OF assms, unfolded f]] r by auto
    from add[OF this] show ?thesis using False f r by (simp add: enqueueWal_def) blast
  qed
qed

lemma log_inv_save:
  assumes inv: "log_inv [] base ws bs (fs, ti)" and ok: "save_ok ti k f a b"
  shows "\<exists>ws' bs'. log_inv [] base ws' bs' (fst (saveElement fs ti k f a b))"
proof -
  let ?e = "\<lparr>e_file = f, e_start = a, e_end = b\<rparr>"
  let ?op = "\<lparr>wo_op = CHR ''S'', wo_key = k, wo_fileName = f, wo_start = a, wo_end = b\<rparr>"
  have c: "clean_entry k ?e" using ok by (simp add: save_ok_def)
  then have v: "isPointerRangeValid a b" by (simp add: clean_entry_def)
  have "clean_op ?op" "op_update ?op = (k, Some ?e)"
    using c by (simp_all add: clean_op_def op_entry_def op_update_def)
  then have "log_inv [?op] base ws bs (fs, fst (storeKey ti k ?e))"
    using inv c by (auto simp: log_inv_def shards.look_put shards.wf_put entries_clean_def)
  from log_inv_enqueue[OF this] show ?thesis
    using v by (cases "storeKey ti k ?e") (simp add: saveElement_def)
qed

lemma log_inv_remove:
  assumes inv: "log_inv [] base ws bs (fs, ti)" and ok: "remove_ok k"
  shows "\<exists>ws' bs'. log_inv [] base ws' bs' (removeElement fs ti k)"
proof -
  let ?op = "\<lparr>wo_op = CHR ''D'', wo_key = k, wo_fileName = [], wo_start = 0, wo_end = 0\<rparr>"
  have "clean_op ?op" "op_update ?op = (k, None)"
    using ok by (simp_all add: clean_op_def op_update_def remove_ok_def)
  then have "log_inv [?op] base ws bs (fs, fst (deleteKey ti k))"
    using inv by (auto simp: log_inv_def shards.look_drop shards.wf_drop entries_clean_def)
  from log_inv_enqueue[OF this] show ?thesis by (simp add: removeElement_def)
qed

text \<open>
  A snapshot makes the map in memory the base. The queue is replayed on top of it later; that
  repeats what the base has already seen, and changes nothing.
\<close>

lemma log_inv_snapshot:
  assumes inv: "log_inv [] base ws bs (fs, ti)"
  shows "log_inv [] (loadEntry ti) [] [] (writeSnapshot it no_faults fs ti)"
proof -
  let ?us = "map op_update (ws @ bs)" and ?q = "map op_update (ti_walChan ti)"
  have "upd_all ?q (loadEntry ti) = loadEntry ti"
    using inv upd_all_again[of ?q ?us base] by (simp add: log_inv_def)
  moreover have "snapshot_of (fs\<lparr>mf_files := (mf_files fs)(snapPath ti \<mapsto> snapshotDump it ti,
      walPath ti \<mapsto> x, walPath ti \<mapsto> y)\<rparr>) (snapPath ti) (loadEntry ti)" for x y
    using inv by (auto simp: snapshot_of_def log_inv_def)
  ultimately show ?thesis
    using inv by (simp add: writeSnapshot_def snapshotFinish_def no_faults_def flushWal_def rotateWal_def log_inv_def)
qed

lemma log_inv_step:
  assumes "log_inv [] base ws bs s" "index_step s s'"
  shows "\<exists>base' ws' bs'. log_inv [] base' ws' bs' s'"
  using assms(2,1)
proof cases
  case (save ti k f a b fs)
  then show ?thesis using assms(1) log_inv_save by blast
next
  case (remove k fs ti)
  then show ?thesis using assms(1) log_inv_remove by blast
next
  case (receive fs ti)
  then show ?thesis using assms(1) log_inv_receive by blast
next
  case (tick fs ti)
  obtain fs2 ti2 where f: "flushWal fs ti = (fs2, ti2)" by (cases "flushWal fs ti")
  then have "log_inv [] base (ws @ bs) [] (fs2, ti2\<lparr>ti_pending := 0\<rparr>)"
    using log_inv_flush assms(1) tick by (metis log_inv_pending)
  then show ?thesis using tick assms(1) f by (auto simp: walWriterTick_def)
next
  case (snapshot fs ti it)
  then show ?thesis using assms(1) log_inv_snapshot by blast
qed

lemma log_inv_run:
  "index_run s s' \<Longrightarrow> log_inv [] base ws bs s \<Longrightarrow> \<exists>base' ws' bs'. log_inv [] base' ws' bs' s'"
  by (induction rule: index_run.induct) (blast dest: log_inv_step)+

lemma index_step_safeName: "index_step s s' \<Longrightarrow> ti_safeName (snd s') = ti_safeName (snd s)"
proof -
  have f: "ti_safeName (snd (flushWal fs ti)) = ti_safeName ti" for fs ti
    by (simp add: flushWal_def)
  have r: "ti_safeName (snd (walWriterReceive fs ti)) = ti_safeName ti" for fs ti
    by (auto simp: walWriterReceive_def writeWalLine_def Let_def flushWal_def split: list.split prod.split if_splits)
  have e: "ti_safeName (snd (enqueueWal fs ti op)) = ti_safeName ti" for fs ti op
    using f r by (auto simp: enqueueWal_def split: prod.splits) (metis snd_conv)
  assume "index_step s s'"
  then show ?thesis
  proof cases
    case (save ti k f a b fs)
    have "ti_safeName (fst (storeKey ti k x)) = ti_safeName ti" for x by simp
    then show ?thesis using save e by (simp add: saveElement_def Let_def split_beta)
  next
    case (remove k fs ti)
    then show ?thesis using e by (simp add: removeElement_def)
  next
    case (receive fs ti)
    then show ?thesis using r by simp
  next
    case (tick fs ti)
    then show ?thesis by (simp add: walWriterTick_def flushWal_def)
  next
    case (snapshot fs ti it)
    then show ?thesis
      by (simp add: writeSnapshot_def snapshotFinish_def no_faults_def flushWal_def rotateWal_def Let_def)
  qed
qed

lemma index_run_safeName: "index_run s s' \<Longrightarrow> ti_safeName (snd s') = ti_safeName (snd s)"
  by (induction rule: index_run.induct) (auto dest: index_step_safeName)

lemma replay_walPath [simp]: "walPath (shards.replay us ti) = walPath ti"
  by (induction us arbitrary: ti) (auto simp: shards.update_def split: option.splits)

text \<open>What a start-up reads from disk at any moment of such a run.\<close>

lemma loadIndex_log_inv:
  assumes inv: "log_inv [] base ws bs (fs, ti)" and sf: "ti_safeName ti = sanitizeTableName t"
  shows "\<exists>ti'. loadIndex fs (emptyIndex t) = Inr ti' \<and> index_wf ti'
    \<and> loadEntry ti' = upd_all (map op_update ws) base \<and> walPath ti' = walPath ti"
proof -
  have p: "snapPath (emptyIndex t) = snapPath ti" "walPath (emptyIndex t) = walPath ti"
    using sf by (simp_all add: snapPath_def walPath_def)
  have w: "mf_files fs (walPath ti) = Some (wal_text ws)" "\<not> mf_denied fs (walPath ti)"
    "\<forall>op \<in> set ws. clean_op op" and nd: "\<not> mf_denied fs (snapPath ti)"
    and sn: "snapshot_of fs (snapPath ti) base"
    using inv by (auto simp: log_inv_def)
  have "\<exists>ti1. (if mf_files fs (snapPath ti) \<noteq> None
        then loadSnapshot fs (snapPath ti) (\<lambda>_. True) (emptyIndex t) else Inr (emptyIndex t)) = Inr ti1
      \<and> index_wf ti1 \<and> loadEntry ti1 = base \<and> walPath ti1 = walPath ti"
    using sn unfolding snapshot_of_def
  proof (elim disjE conjE exE)
    assume "mf_files fs (snapPath ti) = None" "base = Map.empty"
    then show ?thesis by (auto simp: p)
  next
    fix ti0 it assume f: "mf_files fs (snapPath ti) = Some (snapshotDump it ti0)"
      and c: "index_wf ti0" "entries_clean ti0" "base = loadEntry ti0"
    from loadSnapshot_dump[OF c(1,2) f nd, of t] f c(3) sf show ?thesis
      by (auto simp: walPath_def)
  qed
  then obtain ti1 where l: "(if mf_files fs (snapPath ti) \<noteq> None
        then loadSnapshot fs (snapPath ti) (\<lambda>_. True) (emptyIndex t) else Inr (emptyIndex t)) = Inr ti1"
      "index_wf ti1" "loadEntry ti1 = base" "walPath ti1 = walPath ti" by blast
  have "applyWalFile fs (walPath ti) (\<lambda>_. True) ti1 = Inr (shards.replay (map op_update ws) ti1)"
    by (rule applyWalFile_text[OF w(3,1,2)])
  then have "loadIndex fs (emptyIndex t) = Inr (shards.replay (map op_update ws) ti1)"
    unfolding loadIndex_def fileExists_def Let_def p l(1) using w(1) by simp
  then show ?thesis
    using l by (auto simp: shards.look_replay shards.wf_replay)
qed

text \<open>A table that has never been used: none of its files exists, nor a legacy one.\<close>

definition fresh_table :: "map_fs \<Rightarrow> string \<Rightarrow> bool" where
  "fresh_table fs t \<longleftrightarrow>
     (let ti = emptyIndex t
      in mf_files fs (snapPath ti) = None \<and> mf_files fs (walPath ti) = None
         \<and> mf_files fs legacySnapPath = None \<and> mf_files fs legacyWalPath = None
         \<and> \<not> mf_denied fs (snapPath ti) \<and> \<not> mf_denied fs (walPath ti)
         \<and> \<not> mf_denied fs (tableDir (ti_safeName ti)))"

lemma newTableIndex_fresh:
  assumes "fresh_table fs t"
  shows "newTableIndex fs t =
    Inr (fs\<lparr>mf_files := (mf_files fs)(walPath (emptyIndex t) \<mapsto> [])\<rparr>, emptyIndex t)"
  using assms
  by (simp add: newTableIndex_def fresh_table_def Let_def loadIndex_def importFromLegacy_def
      loadSnapshot_def applyWalFile_def read_lines_def setupWalWriter_def)

lemma log_inv_fresh:
  assumes "fresh_table fs t"
  shows "log_inv [] Map.empty [] [] (fs\<lparr>mf_files := (mf_files fs)(walPath (emptyIndex t) \<mapsto> [])\<rparr>, emptyIndex t)"
  using assms by (simp add: log_inv_def fresh_table_def Let_def entries_clean_def snapshot_of_def)

lemma run_recovers:
  assumes fr: "fresh_table fs t" and start: "newTableIndex fs t = Inr s0"
    and run: "index_run s0 (fs', ti)" and nd: "\<not> mf_denied fs' (tableDir (sanitizeTableName t))"
  shows "\<exists>fs'' ti'' bs. newTableIndex fs' t = Inr (fs'', ti'') \<and> index_wf ti''
    \<and> ti_walBuf ti = wal_text bs
    \<and> loadEntry ti = upd_all (map op_update (bs @ ti_walChan ti)) (loadEntry ti'')"
proof -
  have s0: "s0 = (fs\<lparr>mf_files := (mf_files fs)(walPath (emptyIndex t) \<mapsto> [])\<rparr>, emptyIndex t)"
    using newTableIndex_fresh[OF fr] start by simp
  obtain base ws bs where inv: "log_inv [] base ws bs (fs', ti)"
    using log_inv_run[OF run] log_inv_fresh[OF fr] s0 by blast
  have sf: "ti_safeName ti = sanitizeTableName t"
    using index_run_safeName[OF run] s0 by simp
  obtain ti' where l: "loadIndex fs' (emptyIndex t) = Inr ti'" "index_wf ti'"
      "loadEntry ti' = upd_all (map op_update ws) base" "walPath ti' = walPath ti"
    using loadIndex_log_inv[OF inv sf] by blast
  have d: "\<not> mf_denied fs' (walPath ti')" using inv l(4) by (simp add: log_inv_def)
  have m: "ti_walBuf ti = wal_text bs"
    "loadEntry ti = upd_all (map op_update (bs @ ti_walChan ti)) (loadEntry ti')"
    using inv l(3) by (simp_all add: log_inv_def)
  show ?thesis
    using l(2) d m
    by (simp add: newTableIndex_def Let_def nd l(1) setupWalWriter_def) blast
qed

section \<open>Properties\<close>

lemma flush_index [simp]:
  "index_wf (snd (flushWal fs ti)) = index_wf ti" "loadEntry (snd (flushWal fs ti)) = loadEntry ti"
  by (simp_all add: flushWal_def)

lemma receive_index [simp]:
  "index_wf (snd (walWriterReceive fs ti)) = index_wf ti"
  "loadEntry (snd (walWriterReceive fs ti)) = loadEntry ti"
proof -
  have w: "index_wf (writeWalLine ti op) = index_wf ti" "loadEntry (writeWalLine ti op) = loadEntry ti" for op
    by (simp_all add: writeWalLine_def)
  show "index_wf (snd (walWriterReceive fs ti)) = index_wf ti"
    "loadEntry (snd (walWriterReceive fs ti)) = loadEntry ti"
    by (simp_all add: walWriterReceive_def Let_def split_beta w split: list.split)
qed

lemma enqueue_index [simp]:
  "index_wf (snd (enqueueWal fs ti op)) = index_wf ti"
  "loadEntry (snd (enqueueWal fs ti op)) = loadEntry ti"
  by (simp_all add: enqueueWal_def split_beta)

text \<open>
  Saving a key in a table's index with a valid range succeeds, keeps the shards well formed,
  reports the previous entry of the key if there was one, and afterwards a lookup of the key returns
  the new range while every other key is looked up as before.
\<close>

theorem saveElement_functional:
  assumes "index_wf ti" "isPointerRangeValid a b"
  shows "\<exists>fs' ti'. saveElement fs ti k f a b = ((fs', ti'), Inr (map_option (entryToOutput k) (loadEntry ti k)))
    \<and> index_wf ti'
    \<and> (\<forall>k'. getElement ti' k' =
          (if k' = k then Inr \<lparr>ge_Key = k, ge_FileName = f, ge_StartPtr = a, ge_EndPtr = b\<rparr>
           else getElement ti k'))"
proof -
  let ?e = "\<lparr>e_file = f, e_start = a, e_end = b\<rparr>"
  let ?op = "\<lparr>wo_op = CHR ''S'', wo_key = k, wo_fileName = f, wo_start = a, wo_end = b\<rparr>"
  obtain fs' ti' where e: "enqueueWal fs (fst (storeKey ti k ?e)) ?op = (fs', ti')"
    by (cases "enqueueWal fs (fst (storeKey ti k ?e)) ?op")
  have i: "index_wf ti'" "loadEntry ti' = (loadEntry ti)(k \<mapsto> ?e)"
    using enqueue_index[of fs "fst (storeKey ti k ?e)" ?op] e shards.wf_put shards.look_put assms(1)
    by auto
  have p: "snd (storeKey ti k ?e) = loadEntry ti k"
    by (simp add: storeKey_def loadEntry_def Let_def)
  have "saveElement fs ti k f a b = ((fs', ti'), Inr (map_option (entryToOutput k) (loadEntry ti k)))"
    using assms(2) e p by (simp add: saveElement_def Let_def split_beta)
  then show ?thesis
    using i by (auto simp: getElement_def entryToOutput_def)
qed

lemma saveElement_functional_witness:
  "\<exists>fs' ti'. saveElement \<lparr>mf_files = Map.empty, mf_denied = (\<lambda>_. False)\<rparr> (emptyIndex ''t'') ''k'' ''t'' 0 9
      = ((fs', ti'), Inr None)
    \<and> getElement ti' ''k'' = Inr \<lparr>ge_Key = ''k'', ge_FileName = ''t'', ge_StartPtr = 0, ge_EndPtr = 9\<rparr>
    \<and> getElement ti' ''j'' = Inl KeyNotFound"
  using saveElement_functional[of "emptyIndex ''t''" 0 9
      "\<lparr>mf_files = Map.empty, mf_denied = (\<lambda>_. False)\<rparr>" "''k''" "''t''"]
  by (auto simp: isPointerRangeValid_def getElement_def)

text \<open>
  Removing a key makes its lookup fail with a not-found error and leaves every other key of the
  table alone, whatever the state of the log.
\<close>

theorem removeElement_functional:
  assumes "index_wf ti"
  shows "index_wf (snd (removeElement fs ti k))
    \<and> (\<forall>k'. getElement (snd (removeElement fs ti k)) k' = (if k' = k then Inl KeyNotFound else getElement ti k'))"
  using assms shards.wf_drop shards.look_drop by (simp add: removeElement_def getElement_def)

lemma removeElement_functional_witness:
  "getElement (snd (removeElement \<lparr>mf_files = Map.empty, mf_denied = (\<lambda>_. False)\<rparr> (emptyIndex ''t'') ''k'')) ''k''
   = Inl KeyNotFound"
  using removeElement_functional[of "emptyIndex ''t''" "\<lparr>mf_files = Map.empty, mf_denied = (\<lambda>_. False)\<rparr>" "''k''"]
  by simp

lemma collectKeys_filter:
  "collectKeys rx mx ks out =
     (if mx \<le> int (length out) \<and> 0 < mx
      then (case filter rx ks of [] \<Rightarrow> out | k # _ \<Rightarrow> out @ [k])
      else out @ (if mx \<le> 0 then filter rx ks else take (nat mx - length out) (filter rx ks)))"
proof (induction rx mx ks out rule: collectKeys.induct)
  case (2 rx mx k ks out)
  show ?case
  proof (cases "rx k \<and> 0 < mx \<and> \<not> mx \<le> int (length out)")
    case True
    then obtain n where "nat mx - length out = Suc n" by (cases "nat mx - length out") auto
    moreover from this have "nat mx - Suc (length out) = n" by simp
    ultimately show ?thesis
      using True 2 by (auto simp: Let_def split: list.splits)
  qed (use 2 in \<open>auto simp: Let_def split: list.splits\<close>)
qed (auto)

lemma set_all_keys: "index_wf ti \<Longrightarrow> set (all_keys it ti) = {k. loadEntry ti k \<noteq> None}"
proof -
  assume wf: "index_wf ti"
  have "all_keys it ti = map fst (all_entries it ti)"
    by (simp add: all_keys_def all_entries_def map_concat comp_def)
  then show ?thesis using set_all_entries[OF wf] by (force simp: image_iff)
qed

lemma distinct_all_keys: "index_wf ti \<Longrightarrow> distinct (all_keys it ti)"
  using all_entries_distinct[of ti it] by (simp add: all_keys_def all_entries_def map_concat comp_def)

text \<open>
  A search by regular expression returns each key at most once, only keys of the table that match,
  at most \<open>max\<close> of them when \<open>max\<close> is positive, and all of them when \<open>max\<close> is zero or was not
  reached, for every iteration order of the shards.
\<close>

theorem keysByRegex_correct:
  assumes "index_wf ti" "compile pattern = Some rx" "0 \<le> mx" "16 * mx \<le> max_alloc"
  shows "\<exists>ks. keysByRegex compile it ti pattern mx = Ret (Inr ks) \<and> distinct ks
    \<and> (\<forall>k \<in> set ks. rx k \<and> loadEntry ti k \<noteq> None)
    \<and> (0 < mx \<longrightarrow> int (length ks) \<le> mx)
    \<and> (mx = 0 \<or> int (length ks) < mx \<longrightarrow> set ks = {k. rx k \<and> loadEntry ti k \<noteq> None})"
proof -
  define ms where "ms = filter rx (all_keys it ti)"
  have ms: "distinct ms" "set ms = {k. rx k \<and> loadEntry ti k \<noteq> None}"
    using distinct_all_keys[OF assms(1)] set_all_keys[OF assms(1)] by (auto simp: ms_def)
  have "keysByRegex compile it ti pattern mx = Ret (Inr (if mx = 0 then ms else take (nat mx) ms))"
    using assms(2-) collectKeys_filter[of rx mx "all_keys it ti" "[]"]
    by (simp add: keysByRegex_def ms_def)
  then show ?thesis
    using ms by (auto simp: dest: in_set_takeD)
qed

lemma keysByRegex_correct_witness:
  "\<exists>ks. keysByRegex (\<lambda>p. Some (\<lambda>k. k = p)) (\<lambda>xs. xs) (emptyIndex ''t'') ''k'' 3 = Ret (Inr ks) \<and> ks = []"
  using keysByRegex_correct[of "emptyIndex ''t''" "\<lambda>p. Some (\<lambda>k. k = p)" "''k''" "\<lambda>k. k = ''k''" 3 "\<lambda>xs. xs"]
  by (auto simp: max_alloc_def)

text \<open>
  C6: Crash recovery of a key index. Start from an unused table and run any sequence of saves and
  removals of names the log can carry, receives and ticks of the log writer, and complete
  snapshots; then stop at any point and start again from the files. Loading succeeds, and the index
  in memory is the recovered one with exactly the operations applied that were still in the log
  buffer and in the queue: nothing older is lost, reordered or invented.
\<close>

theorem index_crash_recovery:
  assumes "fresh_table fs t" "newTableIndex fs t = Inr s0" "index_run s0 (fs', ti)"
    and "\<not> mf_denied fs' (tableDir (sanitizeTableName t))"
  shows "\<exists>fs'' ti'' bs. newTableIndex fs' t = Inr (fs'', ti'') \<and> index_wf ti''
    \<and> ti_walBuf ti = wal_text bs
    \<and> loadEntry ti = upd_all (map op_update (bs @ ti_walChan ti)) (loadEntry ti'')"
  using run_recovers[OF assms] .

definition empty_fs :: map_fs where
  "empty_fs = \<lparr>mf_files = Map.empty, mf_denied = (\<lambda>_. False)\<rparr>"

lemma fresh_empty_fs [simp]: "fresh_table empty_fs t"
  by (simp add: fresh_table_def empty_fs_def Let_def)

definition demo_start :: "map_fs \<times> tableIndex" where
  "demo_start = (empty_fs\<lparr>mf_files := (mf_files empty_fs)(walPath (emptyIndex ''t'') \<mapsto> [])\<rparr>, emptyIndex ''t'')"

lemma demo_start_new: "newTableIndex empty_fs ''t'' = Inr demo_start"
  by (simp add: newTableIndex_fresh demo_start_def)

lemma demo_save_ok: "save_ok ti ''k'' ''t'' 0 9"
  by (simp add: save_ok_def clean_entry_def clean_name_def bar_def nl_def isPointerRangeValid_def
      int64_def snapLine_def max_token_def show_int_def show_nat.simps)

lemma index_crash_recovery_witness:
  "\<exists>fs'' ti''. newTableIndex (fst (fst (saveElement (fst demo_start) (snd demo_start) ''k'' ''t'' 0 9))) ''t'' = Inr (fs'', ti'')
    \<and> index_wf ti''"
proof -
  let ?s = "fst (saveElement (fst demo_start) (snd demo_start) ''k'' ''t'' 0 9)"
  have "index_step demo_start ?s"
    using index_step.save[OF demo_save_ok, of "fst demo_start" "snd demo_start"] by simp
  then have "index_run demo_start (fst ?s, snd ?s)"
    using index_run.step[OF index_run.init] by simp
  moreover have "\<not> mf_denied (fst ?s) (tableDir (sanitizeTableName ''t''))"
    by (simp add: saveElement_def enqueueWal_def demo_start_def empty_fs_def emptyIndex_def
        walCapacity_def isPointerRangeValid_def Let_def storeKey_def)
  ultimately show ?thesis
    using index_crash_recovery[OF fresh_empty_fs demo_start_new] by blast
qed

definition pend_ok :: "map_fs \<times> tableIndex \<Rightarrow> bool" where
  "pend_ok s \<longleftrightarrow> (ti_pending (snd s) = 0 \<longrightarrow> ti_walBuf (snd s) = [])"

lemma walBuf_flush: "ti_walOpen ti \<Longrightarrow> ti_walBuf (snd (flushWal fs ti)) = []"
  by (simp add: flushWal_def)

lemma flush_fields [simp]:
  "ti_walOpen (snd (flushWal fs ti)) = ti_walOpen ti" "ti_walChan (snd (flushWal fs ti)) = ti_walChan ti"
  "ti_pending (snd (flushWal fs ti)) = ti_pending ti"
  by (simp_all add: flushWal_def)

lemma pend_ok_receive:
  "ti_walOpen ti \<Longrightarrow> pend_ok (fs, ti) \<Longrightarrow> pend_ok (walWriterReceive fs ti)
     \<and> ti_walOpen (snd (walWriterReceive fs ti))
     \<and> ti_walChan (snd (walWriterReceive fs ti)) = tl (ti_walChan ti)"
  using walBuf_flush
  by (auto simp: pend_ok_def walWriterReceive_def Let_def writeWalLine_def split_beta split: list.split)

lemma pend_ok_enqueue:
  assumes "ti_walOpen ti" "ti_pending ti = 0 \<longrightarrow> ti_walBuf ti = []"
  shows "pend_ok (enqueueWal fs ti op)"
proof -
  have "pend_ok (flushWal fs ti)" using assms walBuf_flush by (simp add: pend_ok_def)
  then have "pend_ok (walWriterReceive (fst (flushWal fs ti)) (snd (flushWal fs ti)))"
    using pend_ok_receive[of "snd (flushWal fs ti)" "fst (flushWal fs ti)"] assms(1) by simp
  then show ?thesis using assms by (simp add: enqueueWal_def pend_ok_def split_beta)
qed

lemma pend_ok_step:
  assumes "index_step s s'" "pend_ok s" "ti_walOpen (snd s)"
  shows "pend_ok s'"
  using assms(1)
proof cases
  case (save ti k f a b fs)
  then show ?thesis
    using assms(2,3) pend_ok_enqueue
    by (simp add: saveElement_def Let_def split_beta pend_ok_def)
next
  case (remove k fs ti)
  then show ?thesis
    using assms(2,3) pend_ok_enqueue[of "fst (deleteKey ti k)"] by (simp add: removeElement_def pend_ok_def)
next
  case (receive fs ti)
  then show ?thesis using assms(2,3) pend_ok_receive by simp
next
  case (tick fs ti)
  then show ?thesis using assms(2,3) walBuf_flush by (simp add: walWriterTick_def pend_ok_def split_beta)
next
  case (snapshot fs ti it)
  then show ?thesis
    using assms(3) by (simp add: writeSnapshot_def snapshotFinish_def no_faults_def flushWal_def
        rotateWal_def Let_def pend_ok_def)
qed

lemma log_inv_open: "log_inv ex base ws bs s \<Longrightarrow> ti_walOpen (snd s)"
  by (auto simp: log_inv_def)

lemma pend_ok_run:
  "index_run s s' \<Longrightarrow> log_inv [] base ws bs s \<Longrightarrow> pend_ok s \<Longrightarrow> pend_ok s'"
proof (induction rule: index_run.induct)
  case (step s s' s'')
  then show ?case using log_inv_run[OF step.hyps(1) step.prems(1)] log_inv_open pend_ok_step by blast
qed

text \<open>\<open>n\<close> receives of the writer.\<close>

fun receives :: "nat \<Rightarrow> map_fs \<times> tableIndex \<Rightarrow> map_fs \<times> tableIndex" where
  "receives 0 s = s"
| "receives (Suc n) s = receives n (walWriterReceive (fst s) (snd s))"

lemma receives_run: "index_run s0 s \<Longrightarrow> index_run s0 (receives n s)"
proof (induction n arbitrary: s)
  case (Suc n)
  have "index_step s (walWriterReceive (fst s) (snd s))"
    using index_step.receive[of "fst s" "snd s"] by simp
  with Suc show ?case by (simp add: index_run.step)
qed simp

lemma receives_drain:
  "ti_walOpen (snd s) \<Longrightarrow> pend_ok s \<Longrightarrow>
   ti_walChan (snd (receives n s)) = drop n (ti_walChan (snd s)) \<and>
   loadEntry (snd (receives n s)) = loadEntry (snd s) \<and> ti_walOpen (snd (receives n s))
   \<and> pend_ok (receives n s)"
proof (induction n arbitrary: s)
  case (Suc n)
  then show ?case
    using pend_ok_receive[of "snd s" "fst s"] by (simp add: drop_Suc)
qed simp

text \<open>
  C13: The log catches up. From any point of such a run, as many receives of the writer as there are
  queued operations, followed by one tick of its ticker, leave the files in a state from which a
  start-up recovers exactly the index that is in memory.
\<close>

theorem index_drain_recovery:
  assumes "fresh_table fs t" "newTableIndex fs t = Inr s0" "index_run s0 s"
    and s': "s' = (case receives (length (ti_walChan (snd s))) s of (f, i) \<Rightarrow> walWriterTick f i)"
    and nd: "\<not> mf_denied (fst s') (tableDir (sanitizeTableName t))"
  shows "\<exists>fs'' ti''. newTableIndex (fst s') t = Inr (fs'', ti'') \<and> loadEntry ti'' = loadEntry (snd s)"
proof -
  have s0: "s0 = (fs\<lparr>mf_files := (mf_files fs)(walPath (emptyIndex t) \<mapsto> [])\<rparr>, emptyIndex t)"
    using newTableIndex_fresh[OF assms(1)] assms(2) by simp
  have i0: "log_inv [] Map.empty [] [] s0" using log_inv_fresh[OF assms(1)] s0 by simp
  have "ti_walOpen (snd s)" using log_inv_run[OF assms(3) i0] log_inv_open by blast
  moreover have "pend_ok s"
    using pend_ok_run[OF assms(3) i0] s0 by (simp add: pend_ok_def)
  ultimately obtain f i where r: "receives (length (ti_walChan (snd s))) s = (f, i)"
      "ti_walChan i = []" "loadEntry i = loadEntry (snd s)" "ti_walOpen i" "pend_ok (f, i)"
    using receives_drain[of s "length (ti_walChan (snd s))"]
    by (cases "receives (length (ti_walChan (snd s))) s") auto
  have w: "s' = walWriterTick f i" using s' r by simp
  have "index_run s0 (f, i)" using receives_run[OF assms(3)] r(1) by metis
  then have run: "index_run s0 (fst s', snd s')"
    using index_run.step[OF _ index_step.tick] w by simp
  have k: "ti_walChan (snd s') = []" "ti_walBuf (snd s') = []" "loadEntry (snd s') = loadEntry (snd s)"
    using r w walBuf_flush by (auto simp: walWriterTick_def pend_ok_def split_beta)
  obtain fs'' ti'' bs where n: "newTableIndex (fst s') t = Inr (fs'', ti'')" "ti_walBuf (snd s') = wal_text bs"
      "loadEntry (snd s') = upd_all (map op_update (bs @ ti_walChan (snd s'))) (loadEntry ti'')"
    using run_recovers[OF assms(1,2) run nd] by blast
  have "bs = []" using n(2) k(2) by (cases bs) auto
  then show ?thesis using n k by simp
qed

text \<open>
  Two keys are saved and the first is removed again, all of it still queued; three receives and a tick
  later the files give the second key alone.
\<close>

lemma queued_save:
  "isPointerRangeValid a b \<Longrightarrow> length (ti_walChan ti) < walCapacity \<Longrightarrow> fst (saveElement fs ti k f a b) =
   (fs, (fst (storeKey ti k \<lparr>e_file = f, e_start = a, e_end = b\<rparr>))\<lparr>ti_walChan := ti_walChan ti
      @ [\<lparr>wo_op = CHR ''S'', wo_key = k, wo_fileName = f, wo_start = a, wo_end = b\<rparr>]\<rparr>)"
  by (simp add: saveElement_def Let_def split_beta enqueueWal_def)

lemma queued_remove:
  "length (ti_walChan ti) < walCapacity \<Longrightarrow> removeElement fs ti k =
   (fs, (fst (deleteKey ti k))\<lparr>ti_walChan := ti_walChan ti
      @ [\<lparr>wo_op = CHR ''D'', wo_key = k, wo_fileName = [], wo_start = 0, wo_end = 0\<rparr>]\<rparr>)"
  by (simp add: removeElement_def enqueueWal_def)

lemma queue_irrelevant:
  "loadEntry (ti\<lparr>ti_walChan := q\<rparr>) = loadEntry ti" "index_wf (ti\<lparr>ti_walChan := q\<rparr>) = index_wf ti"
  by (simp_all add: loadEntry_def index_wf_def fun_eq_iff)

lemma writer_denied:
  "mf_denied (fst (walWriterReceive fs ti)) = mf_denied fs" "mf_denied (fst (walWriterTick fs ti)) = mf_denied fs"
  by (simp_all add: walWriterReceive_def walWriterTick_def flushWal_def Let_def split: list.split)

lemma receives_denied: "mf_denied (fst (receives n s)) = mf_denied (fst s)"
  by (induction n arbitrary: s) (simp_all add: writer_denied)

lemma index_drain_recovery_witness:
  "\<exists>s f i fs'' ti''. index_run demo_start s \<and> length (ti_walChan (snd s)) = 3
    \<and> receives 3 s = (f, i) \<and> newTableIndex (fst (walWriterTick f i)) ''t'' = Inr (fs'', ti'')
    \<and> loadEntry ti'' = [''m'' \<mapsto> \<lparr>e_file = ''t'', e_start = 9, e_end = 12\<rparr>]"
proof -
  define s1 where "s1 = fst (saveElement (fst demo_start) (snd demo_start) ''k'' ''t'' 0 9)"
  define s2 where "s2 = fst (saveElement (fst s1) (snd s1) ''m'' ''t'' 9 12)"
  define s3 where "s3 = removeElement (fst s2) (snd s2) ''k''"
  have v: "isPointerRangeValid 0 9" "isPointerRangeValid 9 12" by (simp_all add: isPointerRangeValid_def)
  have ok: "save_ok ti ''m'' ''t'' 9 12" "remove_ok ''k''" for ti
    by (simp_all add: save_ok_def remove_ok_def clean_entry_def clean_name_def bar_def nl_def isPointerRangeValid_def
      int64_def snapLine_def max_token_def show_int_def show_nat.simps)
  have "index_step demo_start s1" using index_step.save[OF demo_save_ok, of "fst demo_start" "snd demo_start"] by (simp add: s1_def)
  moreover have "index_step s1 s2" using index_step.save[OF ok(1), of "fst s1" "snd s1"] by (simp add: s2_def)
  moreover have "index_step s2 s3" using index_step.remove[OF ok(2), of "fst s2" "snd s2"] by (simp add: s3_def)
  ultimately have run: "index_run demo_start s3" using index_run.intros by metis
  have d: "ti_walChan (snd demo_start) = []" "index_wf (snd demo_start)" "loadEntry (snd demo_start) = Map.empty"
    "mf_denied (fst demo_start) = (\<lambda>_. False)"
    by (simp_all add: demo_start_def empty_fs_def)
  have 1: "length (ti_walChan (snd s1)) = 1" "index_wf (snd s1)" "fst s1 = fst demo_start"
    "loadEntry (snd s1) = [''k'' \<mapsto> \<lparr>e_file = ''t'', e_start = 0, e_end = 9\<rparr>]"
    unfolding s1_def using queued_save[OF v(1), of "snd demo_start"] d
    by (simp_all add: walCapacity_def shards.wf_put shards.look_put queue_irrelevant)
  have 2: "length (ti_walChan (snd s2)) = 2" "index_wf (snd s2)" "fst s2 = fst demo_start"
    "loadEntry (snd s2) = [''k'' \<mapsto> \<lparr>e_file = ''t'', e_start = 0, e_end = 9\<rparr>, ''m'' \<mapsto> \<lparr>e_file = ''t'', e_start = 9, e_end = 12\<rparr>]"
    unfolding s2_def using queued_save[OF v(2), of "snd s1"] 1
    by (simp_all add: walCapacity_def shards.wf_put shards.look_put queue_irrelevant)
  have 3: "length (ti_walChan (snd s3)) = 3" "fst s3 = fst demo_start"
    "loadEntry (snd s3) = [''m'' \<mapsto> \<lparr>e_file = ''t'', e_start = 9, e_end = 12\<rparr>]"
    unfolding s3_def using queued_remove[of "snd s2"] 2
    by (simp_all add: walCapacity_def shards.look_drop fun_upd_twist queue_irrelevant)
  obtain f i where r: "receives 3 s3 = (f, i)" by fastforce
  have "walWriterTick f i = (case receives (length (ti_walChan (snd s3))) s3 of (f, i) \<Rightarrow> walWriterTick f i)"
    using r 3(1) by simp
  moreover have "\<not> mf_denied (fst (walWriterTick f i)) (tableDir (sanitizeTableName ''t''))"
    using receives_denied[of 3 s3] r 3(2) d(4) by (simp add: writer_denied)
  ultimately show ?thesis
    using index_drain_recovery[OF fresh_empty_fs demo_start_new run, of "walWriterTick f i"] run 3(1) r
    unfolding 3(3) by blast
qed

text \<open>
  The log has no escape for its separator. A deletion of the key \<open>a|b\<close> is replayed at start-up as
  a deletion of the key \<open>a\<close>, and a save of such a key is not replayed at all.
\<close>

theorem wal_separator_in_key:
  assumes "clean_name a" "clean_name b" "clean_name f"
  shows "applyWalLine filt (walLine \<lparr>wo_op = CHR ''D'', wo_key = a @ bar # b, wo_fileName = [],
            wo_start = 0, wo_end = 0\<rparr>) ti = fst (deleteKey ti a)
    \<and> applyWalLine filt (walLine \<lparr>wo_op = CHR ''S'', wo_key = a @ bar # b, wo_fileName = f,
            wo_start = s, wo_end = e\<rparr>) ti = ti"
proof -
  have "split_char bar (join_char bar [''D'', a, b]) = [''D'', a, b]"
    "split_char bar (join_char bar [''S'', a, b, f, show_int s, show_int e])
     = [''S'', a, b, f, show_int s, show_int e]"
    using assms by (intro split_clean; auto)+
  then show ?thesis
    by (simp add: walLine_join applyWalLine_def)
qed

lemma wal_separator_in_key_witness:
  "applyWalLine (\<lambda>_. True) (walLine \<lparr>wo_op = CHR ''D'', wo_key = ''user|old'', wo_fileName = [],
            wo_start = 0, wo_end = 0\<rparr>) (emptyIndex ''t'') = fst (deleteKey (emptyIndex ''t'') ''user'')"
  using wal_separator_in_key[of "''user''" "''old''" "''t''" "\<lambda>_. True" "emptyIndex ''t''"]
  by (simp add: clean_name_def bar_def nl_def)

lemma newTableIndex_reads:
  assumes "log_inv [] base ws bs (fs, ti)" "ti_safeName ti = sanitizeTableName t"
    and "\<not> mf_denied fs (tableDir (sanitizeTableName t))"
  shows "\<exists>fs'' ti''. newTableIndex fs t = Inr (fs'', ti'') \<and> loadEntry ti'' = upd_all (map op_update ws) base"
proof -
  obtain ti' where l: "loadIndex fs (emptyIndex t) = Inr ti'"
      "loadEntry ti' = upd_all (map op_update ws) base" "walPath ti' = walPath ti"
    using loadIndex_log_inv[OF assms(1,2)] by blast
  have "\<not> mf_denied fs (walPath ti')" using assms(1) l(3) by (simp add: log_inv_def)
  then show ?thesis using l assms(3) by (simp add: newTableIndex_def Let_def setupWalWriter_def)
qed

text \<open>
  C38: A snapshot is not atomic. When a key is saved and its log line written after the dump of the
  shards but before the rotation of the log, the snapshot lacks the key and the rotation deletes its
  log line: the key is in memory, and after the next start it is gone.
\<close>

theorem snapshot_loses_interleaved_save:
  assumes inv: "log_inv [] base ws [] (fs, ti)" and q: "ti_walChan ti = []" "ti_pending ti = 0"
    and sf: "ti_safeName ti = sanitizeTableName t" and nd: "\<not> mf_denied fs (tableDir (sanitizeTableName t))"
    and new: "loadEntry ti k = None" and ok: "save_ok ti k f a b"
    and s1: "s1 = fst (saveElement fs ti k f a b)"
    and s2: "s2 = walWriterReceive (fst s1) (snd s1)"
    and s3: "s3 = snapshotFinish no_faults (snapshotDump it ti) (fst s2) (snd s2)"
  shows "loadEntry (snd s3) k = Some \<lparr>e_file = f, e_start = a, e_end = b\<rparr>
    \<and> (\<exists>fs' ti'. newTableIndex (fst s3) t = Inr (fs', ti') \<and> loadEntry ti' k = None)"
proof -
  let ?e = "\<lparr>e_file = f, e_start = a, e_end = b\<rparr>"
  let ?op = "\<lparr>wo_op = CHR ''S'', wo_key = k, wo_fileName = f, wo_start = a, wo_end = b\<rparr>"
  let ?ti = "fst (storeKey ti k ?e)"
  have c: "clean_entry k ?e" using ok by (simp add: save_ok_def)
  then have v: "isPointerRangeValid a b" by (simp add: clean_entry_def)
  have o: "clean_op ?op" using c by (simp add: clean_op_def op_entry_def)
  have wf: "index_wf ti" "entries_clean ti" "ti_walOpen ti" "ti_walBuf ti = []"
    "mf_files fs (walPath ti) = Some (wal_text ws)" "\<not> mf_denied fs (snapPath ti)" "\<not> mf_denied fs (walPath ti)"
    using inv by (auto simp: log_inv_def)
  have 1: "s1 = (fs, ?ti\<lparr>ti_walChan := [?op]\<rparr>)"
    using v q s1 by (simp add: saveElement_def Let_def split_beta enqueueWal_def walCapacity_def)
  have 2: "s2 = (fs, ?ti\<lparr>ti_walChan := [], ti_walBuf := wal_text [?op], ti_pending := 1\<rparr>)"
    using 1 q wf s2 by (simp add: walWriterReceive_def writeWalLine_def)
  let ?fs3 = "fs\<lparr>mf_files := (mf_files fs)(snapPath ti \<mapsto> snapshotDump it ti, walPath ti \<mapsto> [])\<rparr>"
  have 3: "s3 = (?fs3, ?ti\<lparr>ti_walChan := [], ti_walBuf := [], ti_pending := 1\<rparr>)"
    using 2 wf s3 by (simp add: snapshotFinish_def no_faults_def flushWal_def rotateWal_def Let_def)
  have "log_inv [] (loadEntry ti) [] [] (?fs3, ti)"
    using wf q by (auto simp: log_inv_def snapshot_of_def)
  then obtain fs' ti' where "newTableIndex ?fs3 t = Inr (fs', ti')" "loadEntry ti' = loadEntry ti"
    using newTableIndex_reads[of "loadEntry ti" "[]" "[]" ?fs3 ti t] sf nd by auto
  then show ?thesis
    using 3 new shards.look_put[OF wf(1), of k ?e] by simp
qed

lemma snapshot_loses_interleaved_save_witness:
  "\<exists>s1 s2 s3. s1 = fst (saveElement (fst demo_start) (snd demo_start) ''k'' ''t'' 0 9)
    \<and> s2 = walWriterReceive (fst s1) (snd s1)
    \<and> s3 = snapshotFinish no_faults (snapshotDump (\<lambda>xs. xs) (snd demo_start)) (fst s2) (snd s2)
    \<and> (\<exists>fs' ti'. newTableIndex (fst s3) ''t'' = Inr (fs', ti') \<and> loadEntry ti' ''k'' = None)"
proof -
  have i: "log_inv [] Map.empty [] [] (fst demo_start, snd demo_start)"
    using log_inv_fresh[OF fresh_empty_fs] by (simp add: demo_start_def)
  have f: "ti_walChan (snd demo_start) = []" "ti_pending (snd demo_start) = 0"
    "ti_safeName (snd demo_start) = sanitizeTableName ''t''" "loadEntry (snd demo_start) ''k'' = None"
    by (simp_all add: demo_start_def) (simp add: emptyIndex_def)
  have d: "\<not> mf_denied (fst demo_start) (tableDir (sanitizeTableName ''t''))"
    by (simp add: demo_start_def empty_fs_def)
  show ?thesis
    by (rule exI, rule exI, rule exI, (rule conjI, rule refl)+)
      (rule conjunct2[OF snapshot_loses_interleaved_save[OF i f(1,2,3) d f(4) demo_save_ok refl refl refl]])
qed

end
