(* ===== verification/Kv_Store.thy ===== *)
theory Kv_Store
  imports File_Worker Map_Manager
begin

text \<open>
  The key-value store on top of the file workers, the free lists and the key index: the library API
  (\<open>lib/export\<close>), the HTTP routes \<open>save\<close>, \<open>read\<close>, \<open>free\<close>, \<open>save_encrypted\<close>, \<open>read_encrypted\<close> and
  \<open>key_by_regex\<close>, and the tasks a peer may ask for (\<open>network-manager/tasks\<close>). Messages to subscribers
  are collected in an outbox. A request to the other servers is the function \<open>env_remote\<close> of the
  environment, absent while the network manager is not initialized. The text of error responses is
  left out: they are a status with an empty body.
\<close>

section \<open>Messages, requests and the state\<close>

record nm_message =
  nm_Task :: string
  nm_Args :: "string list"
  nm_Content :: bytes
  nm_ReqSendBy :: string
  nm_ReqResBy :: string
  nm_Finished :: bool

definition nm_empty :: nm_message where
  "nm_empty = \<lparr>nm_Task = [], nm_Args = [], nm_Content = [], nm_ReqSendBy = [], nm_ReqResBy = [],
               nm_Finished = False\<rparr>"

datatype notice = NotifySubscribers string bytes | NotifyDeleteAndRemove string

record http_request =
  rq_method :: string
  rq_path :: string
  rq_header :: "string \<Rightarrow> string"
  rq_query :: "string \<Rightarrow> string"
  rq_body :: "bytes option"

record http_response =
  hr_status :: nat
  hr_body :: bytes

definition http_error :: "nat \<Rightarrow> http_response" where
  "http_error s = \<lparr>hr_status = s, hr_body = []\<rparr>"

definition http_ok :: "bytes \<Rightarrow> http_response" where
  "http_ok b = \<lparr>hr_status = 200, hr_body = b\<rparr>"

record kv_env =
  env_it :: "free_block gomap \<Rightarrow> free_block gomap"
  env_mit :: "entry gomap \<Rightarrow> entry gomap"
  env_compile :: "string \<Rightarrow> (string \<Rightarrow> bool) option"
  env_aead :: aead
  env_serverIP :: string
  env_remote :: "(nm_message \<Rightarrow> nm_message) option"

record kv =
  kv_dir :: datadir
  kv_maps :: map_manager
  kv_outbox :: "notice list"
  kv_freed :: nat
  kv_skipped :: nat

type_synonym 'a kv_call = "kv \<times> 'a call"

definition kv_notify :: "notice \<Rightarrow> kv \<Rightarrow> kv" where
  "kv_notify n s = s\<lparr>kv_outbox := kv_outbox s @ [n]\<rparr>"

definition with_dir :: "(datadir \<Rightarrow> datadir \<times> 'a call) \<Rightarrow> kv \<Rightarrow> 'a kv_call" where
  "with_dir f s = (case f (kv_dir s) of (d, r) \<Rightarrow> (s\<lparr>kv_dir := d\<rparr>, r))"

definition kv_bind :: "'a kv_call \<Rightarrow> (kv \<Rightarrow> 'a \<Rightarrow> 'b kv_call) \<Rightarrow> 'b kv_call" where
  "kv_bind c k = (case c of
      (s, Reply x) \<Rightarrow> k s x
    | (s, Blocks) \<Rightarrow> (s, Blocks)
    | (s, Panics) \<Rightarrow> (s, Panics))"

text \<open>A value computed by code that may panic.\<close>

definition kv_lift :: "kv \<Rightarrow> 'a outcome \<Rightarrow> (kv \<Rightarrow> 'a \<Rightarrow> 'b kv_call) \<Rightarrow> 'b kv_call" where
  "kv_lift s m k = (case m of Ret x \<Rightarrow> k s x | Panic \<Rightarrow> (s, Panics))"

section \<open>Steps the store operations share\<close>

text \<open>The synchronous data manager on the directory of the workers.\<close>

definition dd_v1_save :: "(free_block gomap \<Rightarrow> free_block gomap) \<Rightarrow> bytes \<Rightarrow> string \<Rightarrow> datadir
    \<Rightarrow> datadir \<times> (worker_error + int \<times> int)" where
  "dd_v1_save it data filePath st =
     (let p = full_path ''write'' filePath
      in case v1_SaveDataToFile it data filePath \<lparr>w_file = dd_files st p, w_defrag = dd_defrag st\<rparr> of
           (w, r) \<Rightarrow> (st\<lparr>dd_files := (dd_files st)(p := w_file w),
                       dd_exists := (dd_exists st)(p := True), dd_defrag := w_defrag w\<rparr>, r))"

definition dd_v1_read :: "string \<Rightarrow> int \<Rightarrow> int \<Rightarrow> datadir \<Rightarrow> datadir \<times> (worker_error + bytes) call" where
  "dd_v1_read filePath a b st =
     (let p = full_path ''read'' filePath
      in case v1_ReadDataFromFile (dd_exists st p) a b (dd_files st p) of
           (f, Done d) \<Rightarrow> (st\<lparr>dd_files := (dd_files st)(p := f)\<rparr>, Reply (Inr d))
         | (f, Fail e) \<Rightarrow> (st\<lparr>dd_files := (dd_files st)(p := f)\<rparr>, Reply (Inl e))
         | (f, Crash) \<Rightarrow> (st\<lparr>dd_files := (dd_files st)(p := f)\<rparr>, Panics))"

definition kv_mark_free :: "string \<Rightarrow> string \<Rightarrow> int \<Rightarrow> int \<Rightarrow> kv \<Rightarrow> kv" where
  "kv_mark_free key file a b s =
     s\<lparr>kv_dir := (kv_dir s)\<lparr>dd_defrag := fst (markAsFree (dd_defrag (kv_dir s)) key file a b)\<rparr>\<rparr>"

text \<open>The counters of ranges freed and of ranges a save left as they were.\<close>

definition recordDefragFree :: "kv \<Rightarrow> kv" where
  [simp]: "recordDefragFree s = s\<lparr>kv_freed := kv_freed s + 1\<rparr>"

definition recordDefragSkip :: "kv \<Rightarrow> kv" where
  [simp]: "recordDefragSkip s = s\<lparr>kv_skipped := kv_skipped s + 1\<rparr>"

text \<open>
  Every save ends by binding the key to the range written and by freeing the range the key had
  before, unless it is the same one.
\<close>

definition bind_key :: "string \<Rightarrow> string \<Rightarrow> int \<Rightarrow> int \<Rightarrow> kv \<Rightarrow> kv \<times> map_error option" where
  "bind_key table key startPtr endPtr s =
     (case saveElementByKey (kv_maps s) table key startPtr endPtr of
        (mm, Inl e) \<Rightarrow> (s\<lparr>kv_maps := mm\<rparr>, Some e)
      | (mm, Inr None) \<Rightarrow> (s\<lparr>kv_maps := mm\<rparr>, None)
      | (mm, Inr (Some prev)) \<Rightarrow>
          (let s1 = s\<lparr>kv_maps := mm\<rparr>
           in if ge_FileName prev \<noteq> table \<or> ge_StartPtr prev \<noteq> startPtr \<or> ge_EndPtr prev \<noteq> endPtr
              then (recordDefragFree (kv_mark_free (ge_Key prev) (ge_FileName prev) (ge_StartPtr prev) (ge_EndPtr prev) s1),
                    None)
              else (recordDefragSkip s1, None)))"

definition get_meta :: "string \<Rightarrow> string \<Rightarrow> kv \<Rightarrow> kv \<times> (map_error + getElement_output)" where
  "get_meta table key s =
     (case getElementByKey (kv_maps s) table key of (mm, r) \<Rightarrow> (s\<lparr>kv_maps := mm\<rparr>, r))"

definition remove_meta :: "string \<Rightarrow> string \<Rightarrow> kv \<Rightarrow> kv" where
  "remove_meta table key s = s\<lparr>kv_maps := fst (removeElementByKey (kv_maps s) table key)\<rparr>"

definition read_request :: "kv_env \<Rightarrow> string \<Rightarrow> string \<Rightarrow> nm_message" where
  "read_request env table key =
     nm_empty\<lparr>nm_Task := ''read'', nm_Args := [table, key], nm_ReqSendBy := env_serverIP env\<rparr>"

section \<open>The library API\<close>

datatype kv_error =
    InvalidKeyOrTable | FileFailed worker_error | MapFailed map_error | ReadFailed read_error
  | NotInitialized | NotFound | EncryptFailed | DecryptFailed

definition export_Save :: "kv_env \<Rightarrow> string \<Rightarrow> string \<Rightarrow> bytes \<Rightarrow> kv \<Rightarrow> kv_error option kv_call" where
  "export_Save env key table data s =
     (if key = [] \<or> table = [] then (s, Reply (Some InvalidKeyOrTable))
      else kv_bind (with_dir (saveDataToFileAsync (env_it env) (fst (encode data)) table) s)
        (\<lambda>s (startPtr, endPtr, err). case err of
             Some e \<Rightarrow> (s, Reply (Some (FileFailed e)))
           | None \<Rightarrow>
               (case bind_key table key startPtr endPtr s of
                  (s, Some e) \<Rightarrow> (s, Reply (Some (MapFailed e)))
                | (s, None) \<Rightarrow> (kv_notify (NotifySubscribers key data) s, Reply None))))"

definition export_Read :: "kv_env \<Rightarrow> string \<Rightarrow> string \<Rightarrow> kv \<Rightarrow> (kv_error + bytes) kv_call" where
  "export_Read env key table s =
     (case env_remote env of
        None \<Rightarrow> (s, Reply (Inl NotInitialized))
      | Some sendTaskReq \<Rightarrow>
          (case get_meta table key s of
             (s, Inl _) \<Rightarrow>
               (let res = sendTaskReq (read_request env table key)
                in (s, Reply (if nm_Finished res then Inr (nm_Content res) else Inl NotFound)))
           | (s, Inr fs_data) \<Rightarrow>
               kv_bind (with_dir (readDataFromFileAsync (env_it env) table (ge_StartPtr fs_data)
                           (ge_EndPtr fs_data)) s)
                 (\<lambda>s r. case r of
                    Inl e \<Rightarrow> (s, Reply (Inl (ReadFailed e)))
                  | Inr data \<Rightarrow>
                      kv_lift s (decode data) (\<lambda>s obj. (s, Reply (Inr (dec_data obj)))))))"

definition export_Free :: "string \<Rightarrow> string \<Rightarrow> kv \<Rightarrow> kv_error option kv_call" where
  "export_Free key table s =
     (case get_meta table key s of
        (s, Inl e) \<Rightarrow> (s, Reply (Some (MapFailed e)))
      | (s, Inr fs_data) \<Rightarrow>
          (let s1 = remove_meta table key s;
               s2 = kv_mark_free key table (ge_StartPtr fs_data) (ge_EndPtr fs_data) s1
           in (kv_notify (NotifyDeleteAndRemove key) s2, Reply None)))"

text \<open>\<open>rnd\<close> is the nonce the random source delivers, if it does.\<close>

definition export_SaveEncrypted :: "kv_env \<Rightarrow> bytes option \<Rightarrow> string \<Rightarrow> string \<Rightarrow> string \<Rightarrow> bytes \<Rightarrow> kv
    \<Rightarrow> kv_error option kv_call" where
  "export_SaveEncrypted env rnd key table encryption_key data s =
     kv_lift s (encrypt (env_aead env) rnd data encryption_key)
       (\<lambda>s enc. case enc of
          Inl _ \<Rightarrow> (s, Reply (Some EncryptFailed))
        | Inr encrypted_data \<Rightarrow>
            kv_bind (with_dir (saveDataToFileAsync (env_it env) (fst (encode encrypted_data)) table) s)
              (\<lambda>s (startPtr, endPtr, err). case err of
                   Some e \<Rightarrow> (s, Reply (Some (FileFailed e)))
                 | None \<Rightarrow>
                     (case bind_key table key startPtr endPtr s of
                        (s, Some e) \<Rightarrow> (s, Reply (Some (MapFailed e)))
                      | (s, None) \<Rightarrow> (kv_notify (NotifySubscribers key data) s, Reply None))))"

definition decrypt_reply :: "kv_env \<Rightarrow> bytes \<Rightarrow> string \<Rightarrow> kv \<Rightarrow> (kv_error + bytes) kv_call" where
  "decrypt_reply env content' key s =
     kv_lift s (decrypt (env_aead env) content' key)
       (\<lambda>s r. (s, Reply (case r of Inl _ \<Rightarrow> Inl DecryptFailed | Inr d \<Rightarrow> Inr d)))"

definition export_ReadEncrypted :: "kv_env \<Rightarrow> string \<Rightarrow> string \<Rightarrow> string \<Rightarrow> kv
    \<Rightarrow> (kv_error + bytes) kv_call" where
  "export_ReadEncrypted env key table encryption_key s =
     (case env_remote env of
        None \<Rightarrow> (s, Reply (Inl NotInitialized))
      | Some sendTaskReq \<Rightarrow>
          (case get_meta table key s of
             (s, Inl _) \<Rightarrow>
               (let res = sendTaskReq (read_request env table key)
                in if nm_Finished res then decrypt_reply env (nm_Content res) encryption_key s
                   else (s, Reply (Inl NotFound)))
           | (s, Inr fs_data) \<Rightarrow>
               kv_bind (with_dir (dd_v1_read table (ge_StartPtr fs_data) (ge_EndPtr fs_data)) s)
                 (\<lambda>s r. case r of
                    Inl e \<Rightarrow> (s, Reply (Inl (ReadFailed (WorkerFailed e))))
                  | Inr data \<Rightarrow>
                      kv_lift s (decode data) (\<lambda>s obj. decrypt_reply env (dec_data obj) encryption_key s))))"

section \<open>The HTTP routes\<close>

definition parseArgs :: "string \<Rightarrow> string \<Rightarrow> string list" where
  "parseArgs path endpoint =
     [[], endpoint] @ split_char (CHR ''/'') (trim_prefix path (''/'' @ endpoint @ ''/''))"

definition go_index :: "string list \<Rightarrow> nat \<Rightarrow> string outcome" where
  "go_index xs i = (if i < length xs then Ret (xs ! i) else Panic)"

text \<open>The two path segments; the guards before the indexing differ between the routes.\<close>

definition table_and_key :: "string list \<Rightarrow> kv \<Rightarrow> (string \<Rightarrow> string \<Rightarrow> kv \<Rightarrow> http_response kv_call)
    \<Rightarrow> http_response kv_call" where
  "table_and_key parts s k =
     kv_lift s (go_index parts 2) (\<lambda>s file. kv_lift s (go_index parts 3) (\<lambda>s key. k file key s))"

definition route_AsyncSave :: "kv_env \<Rightarrow> http_request \<Rightarrow> kv \<Rightarrow> http_response kv_call" where
  "route_AsyncSave env r s =
     (if rq_method r \<noteq> ''POST'' then (s, Reply (http_error 405))
      else let pathParts = parseArgs (rq_path r) ''save''
           in if length pathParts < 4 then (s, Reply (http_error 400))
              else table_and_key pathParts s (\<lambda>file key s.
                case rq_body r of
                  None \<Rightarrow> (s, Reply (http_error 400))
                | Some body \<Rightarrow>
                    kv_bind (with_dir (saveDataToFileAsync (env_it env) (fst (encode body)) file) s)
                      (\<lambda>s (startPtr, endPtr, saveErr). case saveErr of
                           Some _ \<Rightarrow> (s, Reply (http_error 500))
                         | None \<Rightarrow>
                             (case bind_key file key startPtr endPtr s of
                                (s, Some _) \<Rightarrow> (s, Reply (http_error 500))
                              | (s, None) \<Rightarrow>
                                  (kv_notify (NotifySubscribers key body) s,
                                   Reply (http_ok (bytes_of_string ''save'')))))))"

definition route_AsyncRead :: "kv_env \<Rightarrow> http_request \<Rightarrow> kv \<Rightarrow> http_response kv_call" where
  "route_AsyncRead env r s =
     (if rq_method r \<noteq> ''GET'' then (s, Reply (http_error 405))
      else let pathParts = parseArgs (rq_path r) ''read''
           in if length pathParts < 2 then (s, Reply (http_error 400))
              else table_and_key pathParts s (\<lambda>file key s.
                case get_meta file key s of
                  (s, Inl _) \<Rightarrow>
                    (case env_remote env of
                       None \<Rightarrow> (s, Reply (http_error 404))
                     | Some sendTaskReq \<Rightarrow>
                         (let res = sendTaskReq (read_request env file key)
                          in (s, Reply (if nm_Finished res then http_ok (nm_Content res)
                                        else http_error 404))))
                | (s, Inr fsData) \<Rightarrow>
                    kv_bind (with_dir (readDataFromFileAsync (env_it env) file (ge_StartPtr fsData)
                                (ge_EndPtr fsData)) s)
                      (\<lambda>s res. case res of
                         Inl _ \<Rightarrow> (s, Reply (http_error 404))
                       | Inr data \<Rightarrow>
                           kv_lift s (decode data) (\<lambda>s obj. (s, Reply (http_ok (dec_data obj)))))))"

definition route_Free :: "http_request \<Rightarrow> kv \<Rightarrow> http_response kv_call" where
  "route_Free r s =
     (if rq_method r \<noteq> ''GET'' then (s, Reply (http_error 405))
      else let pathParts = parseArgs (rq_path r) ''free''
           in if length pathParts < 2 then (s, Reply (http_error 400))
              else table_and_key pathParts s (\<lambda>file key s.
                case get_meta file key s of
                  (s, Inl _) \<Rightarrow> (s, Reply (http_error 404))
                | (s, Inr fs_data) \<Rightarrow>
                    (let s1 = remove_meta file key s;
                         s2 = kv_mark_free key file (ge_StartPtr fs_data) (ge_EndPtr fs_data) s1
                     in (kv_notify (NotifyDeleteAndRemove key) s2,
                         Reply (http_ok (bytes_of_string ''free''))))))"

definition route_SaveEncrypted :: "kv_env \<Rightarrow> bytes option \<Rightarrow> http_request \<Rightarrow> kv \<Rightarrow> http_response kv_call" where
  "route_SaveEncrypted env rnd r s =
     (if rq_method r \<noteq> ''POST'' then (s, Reply (http_error 405))
      else let pathParts = parseArgs (rq_path r) ''save_encrypted''
           in if length pathParts < 2 then (s, Reply (http_error 400))
              else table_and_key pathParts s (\<lambda>file key s.
                let encryption_header = rq_header r ''encryption_key''
                in if encryption_header = [] then (s, Reply (http_error 400))
                   else case rq_body r of
                     None \<Rightarrow> (s, Reply (http_error 400))
                   | Some body \<Rightarrow>
                       kv_lift s (encrypt (env_aead env) rnd body encryption_header)
                         (\<lambda>s enc. case enc of
                            Inl _ \<Rightarrow> (s, Reply (http_error 500))
                          | Inr encrypted_data \<Rightarrow>
                              (case dd_v1_save (env_it env) (fst (encode encrypted_data)) file (kv_dir s) of
                                 (d, Inl _) \<Rightarrow> (s\<lparr>kv_dir := d\<rparr>, Reply (http_error 500))
                               | (d, Inr (startPtr, endPtr)) \<Rightarrow>
                                   (case bind_key file key startPtr endPtr (s\<lparr>kv_dir := d\<rparr>) of
                                      (s, Some _) \<Rightarrow> (s, Reply (http_error 500))
                                    | (s, None) \<Rightarrow>
                                        (kv_notify (NotifySubscribers key body) s,
                                         Reply (http_ok (bytes_of_string ''save''))))))))"

text \<open>
  When a peer's data does not decrypt, the route has already sent status 200.
\<close>

definition route_ReadEncrypted :: "kv_env \<Rightarrow> http_request \<Rightarrow> kv \<Rightarrow> http_response kv_call" where
  "route_ReadEncrypted env r s =
     (if rq_method r \<noteq> ''GET'' then (s, Reply (http_error 405))
      else let pathParts = parseArgs (rq_path r) ''read_encrypted''
           in if length pathParts < 2 then (s, Reply (http_error 400))
              else table_and_key pathParts s (\<lambda>file key s.
                let encryption_header = rq_header r ''encryption_key''
                in if encryption_header = [] then (s, Reply (http_error 400))
                   else case env_remote env of
                     None \<Rightarrow> (s, Reply (http_error 500))
                   | Some sendTaskReq \<Rightarrow>
                       (case get_meta file key s of
                          (s, Inl _) \<Rightarrow>
                            (let res = sendTaskReq (read_request env file key)
                             in if nm_Finished res then
                                  kv_lift s (decrypt (env_aead env) (nm_Content res) encryption_header)
                                    (\<lambda>s d. (s, Reply (case d of Inl _ \<Rightarrow> http_ok [] | Inr b \<Rightarrow> http_ok b)))
                                else (s, Reply (http_error 404)))
                        | (s, Inr fs_data) \<Rightarrow>
                            kv_bind (with_dir (dd_v1_read file (ge_StartPtr fs_data) (ge_EndPtr fs_data)) s)
                              (\<lambda>s res. case res of
                                 Inl _ \<Rightarrow> (s, Reply (http_error 404))
                               | Inr data \<Rightarrow>
                                   kv_lift s (decode data) (\<lambda>s obj.
                                   kv_lift s (decrypt (env_aead env) (dec_data obj) encryption_header)
                                     (\<lambda>s d. (s, Reply (case d of Inl _ \<Rightarrow> http_error 500 | Inr b \<Rightarrow> http_ok b))))))))"

text \<open>The keys found are sent as a JSON array; the model returns the list.\<close>

definition route_GetKeysByRegex :: "kv_env \<Rightarrow> http_request \<Rightarrow> kv \<Rightarrow> (nat + string list) kv_call" where
  "route_GetKeysByRegex env r s =
     (if rq_method r \<noteq> ''GET'' then (s, Reply (Inl 405))
      else let pathParts = parseArgs (rq_path r) ''key_by_regex''
           in if length pathParts < 3 \<or> pathParts ! 2 = [] then (s, Reply (Inl 400))
              else let table = pathParts ! 2; regex = rq_query r ''regex''; maxStr = rq_query r ''max''
                   in if regex = [] then (s, Reply (Inl 400))
                      else case (if maxStr = [] then Some 0 else atoi maxStr) of
                        None \<Rightarrow> (s, Reply (Inl 400))
                      | Some mx \<Rightarrow>
                          (case getKeysByRegex (env_compile env) (env_mit env) (kv_maps s) table regex mx of
                             (mm, Panic) \<Rightarrow> (s\<lparr>kv_maps := mm\<rparr>, Panics)
                           | (mm, Ret (Inl _)) \<Rightarrow> (s\<lparr>kv_maps := mm\<rparr>, Reply (Inl 500))
                           | (mm, Ret (Inr ks)) \<Rightarrow> (s\<lparr>kv_maps := mm\<rparr>, Reply (Inr ks))))"

section \<open>Tasks for peers\<close>

definition task_args :: "nm_message \<Rightarrow> kv \<Rightarrow> (string \<Rightarrow> string \<Rightarrow> kv \<Rightarrow> nm_message kv_call)
    \<Rightarrow> nm_message kv_call" where
  "task_args req s k =
     kv_lift s (go_index (nm_Args req) 0) (\<lambda>s file.
     kv_lift s (go_index (nm_Args req) 1) (\<lambda>s key.
       if length file < 1 \<or> length key < 1 then (s, Reply nm_empty) else k file key s))"

definition task_Save :: "kv_env \<Rightarrow> nm_message \<Rightarrow> kv \<Rightarrow> nm_message kv_call" where
  "task_Save env req s =
     task_args req s (\<lambda>file key s.
       case dd_v1_save (env_it env) (fst (encode (nm_Content req))) file (kv_dir s) of
         (d, Inl _) \<Rightarrow> (s\<lparr>kv_dir := d\<rparr>, Reply nm_empty)
       | (d, Inr (startPtr, endPtr)) \<Rightarrow>
           (case bind_key file key startPtr endPtr (s\<lparr>kv_dir := d\<rparr>) of
              (s, Some _) \<Rightarrow> (s, Reply nm_empty)
            | (s, None) \<Rightarrow> (s, Reply (req\<lparr>nm_Finished := True, nm_Content := []\<rparr>))))"

definition task_Read :: "kv_env \<Rightarrow> nm_message \<Rightarrow> kv \<Rightarrow> nm_message kv_call" where
  "task_Read env req s =
     task_args req s (\<lambda>file key s.
       case get_meta file key s of
         (s, Inl _) \<Rightarrow> (s, Reply nm_empty)
       | (s, Inr fs_data) \<Rightarrow>
           kv_bind (with_dir (readDataFromFileAsync (env_it env) file (ge_StartPtr fs_data)
                       (ge_EndPtr fs_data)) s)
             (\<lambda>s r. case r of
                Inl _ \<Rightarrow> (s, Reply nm_empty)
              | Inr data \<Rightarrow>
                  kv_lift s (decode data)
                    (\<lambda>s obj. (s, Reply (req\<lparr>nm_Content := dec_data obj, nm_Finished := True\<rparr>)))))"

definition task_Free :: "nm_message \<Rightarrow> kv \<Rightarrow> nm_message kv_call" where
  "task_Free req s =
     task_args req s (\<lambda>file key s.
       case get_meta file key s of
         (s, Inl _) \<Rightarrow> (s, Reply nm_empty)
       | (s, Inr fs_data) \<Rightarrow>
           (let s1 = remove_meta file key s;
                s2 = kv_mark_free key file (ge_StartPtr fs_data) (ge_EndPtr fs_data) s1
            in (s2, Reply (req\<lparr>nm_Finished := True\<rparr>))))"

section \<open>The table of a key\<close>

text \<open>The index a call on table \<open>t\<close> works with, and what is stored under a key.\<close>

definition mm_index :: "map_manager \<Rightarrow> string \<Rightarrow> tableIndex option" where
  "mm_index mm t = (case snd (getTableIndex mm t) of Inl _ \<Rightarrow> None | Inr idx \<Rightarrow> Some idx)"

abbreviation kv_index :: "kv \<Rightarrow> string \<Rightarrow> tableIndex option" where
  "kv_index s t \<equiv> mm_index (kv_maps s) t"

definition kv_look :: "kv \<Rightarrow> string \<Rightarrow> string \<Rightarrow> entry option" where
  "kv_look s t k = (case kv_index s t of None \<Rightarrow> None | Some idx \<Rightarrow> loadEntry idx k)"

definition data_path :: "string \<Rightarrow> string" where
  "data_path t = full_path ''write'' t"

lemma data_path_read [simp]: "full_path ''read'' t = data_path t" "full_path ''write'' t = data_path t"
  by (simp_all add: data_path_def full_path_def)

abbreviation kv_file :: "kv \<Rightarrow> string \<Rightarrow> bytes" where
  "kv_file s t \<equiv> dd_content (kv_dir s) (data_path t)"

definition stored :: "kv \<Rightarrow> string \<Rightarrow> entry \<Rightarrow> bytes" where
  "stored s t e = pread (kv_file s t) (nat (e_start e)) (nat (e_end e - e_start e))"

definition kv_abs :: "kv \<Rightarrow> string \<Rightarrow> string \<Rightarrow> bytes option" where
  "kv_abs s t k = (case kv_look s t k of None \<Rightarrow> None | Some e \<Rightarrow> unframe (stored s t e))"

lemma getTableIndex_index:
  "getTableIndex mm t = (mm1, Inr idx) \<Longrightarrow> mm_index mm t = Some idx \<and> mm_registry mm1 t = Some idx
     \<and> mm_index mm1 t = Some idx \<and> trim_space t \<noteq> []"
  by (auto simp: getTableIndex_def mm_index_def normalizeTableName_def
      split: if_splits option.splits sum.splits prod.splits)

lemma mm_index_get:
  assumes "mm_index mm t = Some idx"
  obtains mm1 where "getTableIndex mm t = (mm1, Inr idx)"
  using assms unfolding mm_index_def by (cases "getTableIndex mm t") (auto split: sum.splits)

lemma mm_index_put:
  "trim_space t \<noteq> [] \<Longrightarrow> mm_index (putIndex mm t (fs, idx)) t = Some idx"
  by (auto simp: mm_index_def putIndex_def getTableIndex_def normalizeTableName_def split: option.splits)

lemma bind_key_spec:
  assumes idx: "kv_index s t = Some idx" "index_wf idx" and v: "isPointerRangeValid a b"
  shows "\<exists>s' idx'. bind_key t k a b s = (s', None)
    \<and> kv_index s' t = Some idx' \<and> index_wf idx'
    \<and> loadEntry idx' = (loadEntry idx)(k \<mapsto> \<lparr>e_file = t, e_start = a, e_end = b\<rparr>)
    \<and> kv_dir s' = (case loadEntry idx k of None \<Rightarrow> kv_dir s
        | Some e \<Rightarrow> if e_file e = t \<and> e_start e = a \<and> e_end e = b then kv_dir s
                    else kv_dir (kv_mark_free k (e_file e) (e_start e) (e_end e) s))"
proof -
  let ?e = "\<lparr>e_file = t, e_start = a, e_end = b\<rparr>"
  let ?op = "\<lparr>wo_op = CHR ''S'', wo_key = k, wo_fileName = t, wo_start = a, wo_end = b\<rparr>"
  obtain mm1 where g: "getTableIndex (kv_maps s) t = (mm1, Inr idx)" using mm_index_get[OF idx(1)] .
  note gi = getTableIndex_index[OF g]
  obtain fs' idx' where e: "enqueueWal (mm_fs mm1) (fst (storeKey idx k ?e)) ?op = (fs', idx')"
    by (cases "enqueueWal (mm_fs mm1) (fst (storeKey idx k ?e)) ?op")
  have i: "index_wf idx'" "loadEntry idx' = (loadEntry idx)(k \<mapsto> ?e)"
    using enqueue_index[of "mm_fs mm1" "fst (storeKey idx k ?e)" ?op] e shards.wf_put shards.look_put idx(2)
    by auto
  have p: "snd (storeKey idx k ?e) = loadEntry idx k"
    by (simp add: storeKey_def loadEntry_def Let_def)
  let ?mm = "putIndex mm1 t (fs', idx')"
  have sv: "saveElementByKey (kv_maps s) t k a b = (?mm, Inr (map_option (entryToOutput k) (loadEntry idx k)))"
    using g v e p by (simp add: saveElementByKey_def saveElement_def Let_def split_beta)
  have ix: "mm_index ?mm t = Some idx'" using gi by (simp add: mm_index_put)
  show ?thesis
  proof (cases "loadEntry idx k")
    case None
    then show ?thesis using sv ix i by (simp add: bind_key_def)
  next
    case (Some pe)
    then show ?thesis
      using sv ix i by (auto simp: bind_key_def entryToOutput_def Let_def kv_mark_free_def)
  qed
qed

lemma get_meta_spec:
  assumes "kv_index s t = Some idx"
  shows "\<exists>s'. get_meta t k s = (s', case loadEntry idx k of None \<Rightarrow> Inl KeyNotFound
       | Some e \<Rightarrow> Inr (entryToOutput k e))
     \<and> kv_index s' t = Some idx \<and> kv_dir s' = kv_dir s"
proof -
  obtain mm1 where g: "getTableIndex (kv_maps s) t = (mm1, Inr idx)" using mm_index_get[OF assms] .
  with getTableIndex_index[OF g] show ?thesis
    by (auto simp: get_meta_def getElementByKey_def getElement_def split: option.split)
qed

lemma remove_meta_spec:
  assumes "kv_index s t = Some idx" "index_wf idx"
  shows "\<exists>idx'. kv_index (remove_meta t k s) t = Some idx' \<and> index_wf idx'
    \<and> loadEntry idx' = (loadEntry idx)(k := None) \<and> kv_dir (remove_meta t k s) = kv_dir s"
proof -
  obtain mm1 where g: "getTableIndex (kv_maps s) t = (mm1, Inr idx)" using mm_index_get[OF assms(1)] .
  note gi = getTableIndex_index[OF g]
  obtain fs' idx' where r: "removeElement (mm_fs mm1) idx k = (fs', idx')"
    by (cases "removeElement (mm_fs mm1) idx k")
  have "index_wf idx'" "loadEntry idx' = (loadEntry idx)(k := None)"
    using r assms(2) enqueue_index[of "mm_fs mm1" "fst (deleteKey idx k)"] shards.wf_drop shards.look_drop
    unfolding removeElement_def by (metis snd_conv)+
  then show ?thesis
    using g gi r by (simp add: remove_meta_def removeElementByKey_def mm_index_put)
qed

section \<open>The invariant of a table\<close>

text \<open>
  Values small enough that their frame can be read back into memory.
\<close>

definition kv_fits :: "bytes \<Rightarrow> bool" where
  "kv_fits d \<longleftrightarrow> int (length d) + 11 \<le> max_alloc"

definition live_spans :: "tableIndex \<Rightarrow> string \<Rightarrow> (int \<times> int) option" where
  "live_spans idx k = map_option (\<lambda>e. (e_start e, e_end e)) (loadEntry idx k)"

definition holds_frame :: "kv \<Rightarrow> string \<Rightarrow> entry \<Rightarrow> bool" where
  "holds_frame s t e \<longleftrightarrow> e_file e = t \<and>
     (\<exists>d. kv_fits d \<and> stored s t e = frame d \<and> e_end e - e_start e = int (length (frame d)))"

text \<open>
  Every file operation on the table succeeds, its index is loaded and well formed, the ranges of its
  keys lie in the file, are disjoint from each other and from the free blocks, and each holds the
  frame of a value.
\<close>

definition kv_inv :: "string \<Rightarrow> kv \<Rightarrow> bool" where
  "kv_inv t s \<longleftrightarrow> dd_ready (kv_dir s) (data_path t) \<and>
     (\<exists>idx. kv_index s t = Some idx \<and> index_wf idx
        \<and> defrag_pool.separated t (dd_defrag (kv_dir s)) (live_spans idx) (int (length (kv_file s t)))
        \<and> (\<forall>k e. loadEntry idx k = Some e \<longrightarrow> holds_frame s t e \<and> dd_exists (kv_dir s) (data_path t)))"

lemma kv_fits_slice: "kv_fits d \<Longrightarrow> go_slice d"
  by (simp add: kv_fits_def go_slice_def)

lemma frame_alloc: "kv_fits d \<Longrightarrow> int (length (frame d)) \<le> max_alloc"
  using pointer_size_range[of "2 + length d"] by (auto simp: kv_fits_def length_frame)

lemma unframe_frame: "kv_fits d \<Longrightarrow> unframe (frame d) = Some d"
  by (simp add: unframe_def decode_frame kv_fits_slice)

lemma fst_encode [simp]: "fst (encode d) = frame d"
  by (simp add: frame_def)

text \<open>
  What a write step has to do for the rest of a save: put the data at the range the pool gives, and
  leave the maps alone.
\<close>

definition wrote :: "kv_env \<Rightarrow> string \<Rightarrow> bytes \<Rightarrow> datadir \<Rightarrow> datadir \<Rightarrow> int \<Rightarrow> bool" where
  "wrote env t data d d' a \<longleftrightarrow>
     (\<exists>p1 r. pool_alloc (env_it env) t (dd_defrag d) (int (length data)) = (p1, r)
        \<and> a = defrag_pool.place r (int (length (dd_content d (data_path t))))
        \<and> (dd_defrag d' = pool_claim (env_it env) t p1 a (a + int (length data)) \<or> dd_defrag d' = p1))
     \<and> dd_ready d' (data_path t) \<and> dd_exists d' (data_path t)
     \<and> dd_content d' (data_path t) = pwrite (dd_content d (data_path t)) (nat a) data
     \<and> (\<forall>q. q \<noteq> data_path t \<longrightarrow> dd_files d' q = dd_files d q \<and> dd_exists d' q = dd_exists d q
            \<and> dd_crashed d' q = dd_crashed d q)"

text \<open>
  What the rest of a save needs of it, also when the write was one of a batch: the block asked for may
  have been longer, and the pool is the one after that request, up to claims that change no span.
\<close>

definition placed :: "kv_env \<Rightarrow> string \<Rightarrow> bytes \<Rightarrow> datadir \<Rightarrow> datadir \<Rightarrow> int \<Rightarrow> bool" where
  "placed env t data d d' a \<longleftrightarrow>
     (\<exists>p1 r m. int (length data) \<le> m \<and> pool_alloc (env_it env) t (dd_defrag d) m = (p1, r)
        \<and> a = defrag_pool.place r (int (length (dd_content d (data_path t))))
        \<and> free_ok t (dd_defrag d') \<and> free_spans t (dd_defrag d') = free_spans t p1)
     \<and> dd_ready d' (data_path t) \<and> dd_exists d' (data_path t)
     \<and> dd_content d' (data_path t) = pwrite (dd_content d (data_path t)) (nat a) data"

lemma stored_eq: "kv_file s' t = kv_file s t \<Longrightarrow> stored s' t e = stored s t e"
  by (simp add: stored_def)

lemma kv_look_index: "kv_index s t = Some idx \<Longrightarrow> kv_look s t = loadEntry idx"
  by (simp add: kv_look_def fun_eq_iff)

lemma kv_abs_index:
  "kv_index s t = Some idx \<Longrightarrow>
   kv_abs s t k = (case loadEntry idx k of None \<Rightarrow> None | Some e \<Rightarrow> unframe (stored s t e))"
  by (simp add: kv_abs_def kv_look_def)

text \<open>A write at a range apart from a live one leaves what is stored there.\<close>

lemma stored_other:
  assumes "kv_file s' t = pwrite (kv_file s t) (nat a) d" "0 \<le> a" "0 \<le> e_start e" "e_start e < e_end e"
    and "e_end e \<le> int (length (kv_file s t))" "apart (a, a + int (length d)) (e_start e, e_end e)"
  shows "stored s' t e = stored s t e"
proof -
  have "nat (e_start e) + nat (e_end e - e_start e) \<le> nat a \<or> nat a + length d \<le> nat (e_start e)"
    "nat (e_start e) + nat (e_end e - e_start e) \<le> length (kv_file s t)"
    using assms(2-) by (auto simp: apart_def nat_le_iff)
  then show ?thesis unfolding stored_def assms(1) by (rule pread_pwrite_other)
qed

lemma save_placed:
  assumes inv: "kv_inv t s" and fits: "kv_fits data" and w: "placed env t (frame data) (kv_dir s) d' a"
  shows "\<exists>s'. bind_key t k a (a + int (length (frame data))) (s\<lparr>kv_dir := d'\<rparr>) = (s', None)
    \<and> kv_inv t s' \<and> kv_abs s' t = (kv_abs s t)(k \<mapsto> data)"
proof -
  let ?n = "int (length (frame data))" and ?c = "kv_file s t" and ?len = "int (length (kv_file s t))"
  let ?D = "dd_defrag (kv_dir s)"
  obtain idx where idx: "kv_index s t = Some idx" "index_wf idx"
    and sep: "defrag_pool.separated t ?D (live_spans idx) ?len"
    and hold: "\<And>k e. loadEntry idx k = Some e \<Longrightarrow> holds_frame s t e"
    using inv unfolding kv_inv_def by blast
  obtain p1 r m where m: "?n \<le> m" and al: "pool_alloc (env_it env) t ?D m = (p1, r)"
    and a: "a = defrag_pool.place r ?len"
    and dd: "free_ok t (dd_defrag d') \<and> free_spans t (dd_defrag d') = free_spans t p1"
    using w unfolding placed_def by blast
  have rdy: "dd_ready d' (data_path t)" "dd_exists d' (data_path t)"
    and cont: "dd_content d' (data_path t) = pwrite ?c (nat a) (frame data)"
    using w unfolding placed_def by blast+
  have n: "0 < ?n" by simp
  define p3 where "p3 = (case live_spans idx k of None \<Rightarrow> dd_defrag d'
      | Some sp \<Rightarrow> pool_release t (dd_defrag d') k (fst sp) (snd sp))"
  note ss = defrag_pool.store_fits[OF sep n m al a dd p3_def refl, unfolded fst_conv snd_conv]
  have a0: "0 \<le> a" using defrag_pool.place_fits(2)[OF sep n m al] a by simp
  have v: "isPointerRangeValid a (a + ?n)" using a0 n by (simp add: isPointerRangeValid_def)
  have lv: "0 \<le> e_start e \<and> e_start e < e_end e \<and> e_end e \<le> ?len \<and> apart (a, a + ?n) (e_start e, e_end e)"
    if "loadEntry idx k' = Some e" for k' e
  proof -
    have l: "live_spans idx k' = Some (e_start e, e_end e)" using that by (simp add: live_spans_def)
    show ?thesis using defrag_pool.separated_live[OF sep l] ss(2) l by auto
  qed
  obtain s' idx' where b: "bind_key t k a (a + ?n) (s\<lparr>kv_dir := d'\<rparr>) = (s', None)"
    and i': "kv_index s' t = Some idx'" "index_wf idx'"
      "loadEntry idx' = (loadEntry idx)(k \<mapsto> \<lparr>e_file = t, e_start = a, e_end = a + ?n\<rparr>)"
    and dir: "kv_dir s' = (case loadEntry idx k of None \<Rightarrow> kv_dir (s\<lparr>kv_dir := d'\<rparr>)
        | Some e \<Rightarrow> if e_file e = t \<and> e_start e = a \<and> e_end e = a + ?n then kv_dir (s\<lparr>kv_dir := d'\<rparr>)
                    else kv_dir (kv_mark_free k (e_file e) (e_start e) (e_end e) (s\<lparr>kv_dir := d'\<rparr>)))"
    using bind_key_spec[of "s\<lparr>kv_dir := d'\<rparr>" t idx a "a + ?n" k] idx v by auto
  have files: "dd_files (kv_dir s') = dd_files d'" "dd_exists (kv_dir s') = dd_exists d'"
    "dd_crashed (kv_dir s') = dd_crashed d'"
    unfolding dir by (simp_all add: kv_mark_free_def split: option.split)
  have pool: "dd_defrag (kv_dir s') = p3"
  proof (cases "loadEntry idx k")
    case None
    then show ?thesis using dir by (simp add: p3_def live_spans_def)
  next
    case (Some e)
    have ne: "\<not> (e_start e = a \<and> e_end e = a + ?n)" using lv[OF Some] n by (auto simp: apart_def)
    have "e_file e = t" using hold[OF Some] by (simp add: holds_frame_def)
    then show ?thesis
      using dir Some ne by (auto simp: p3_def live_spans_def kv_mark_free_def pool_release_def)
  qed
  have spans: "live_spans idx' = (live_spans idx)(k \<mapsto> (a, a + ?n))"
    by (auto simp: live_spans_def i'(3) fun_eq_iff)
  have file': "kv_file s' t = pwrite ?c (nat a) (frame data)" using files(1) cont by simp
  have len': "int (length (kv_file s' t)) = max ?len (a + ?n)"
    using file' a0 by (simp add: length_pwrite of_nat_max)
  have new: "stored s' t \<lparr>e_file = t, e_start = a, e_end = a + ?n\<rparr> = frame data"
    unfolding stored_def file' by (simp add: pread_pwrite_same)
  have old: "stored s' t e = stored s t e" if "loadEntry idx k' = Some e" for k' e
    using lv[OF that] a0 by (intro stored_other[OF file']) auto
  have hold': "holds_frame s' t e" if "loadEntry idx' k' = Some e" for k' e
  proof (cases "k' = k")
    case True
    then have "e = \<lparr>e_file = t, e_start = a, e_end = a + ?n\<rparr>" using that i'(3) by simp
    then show ?thesis using new fits by (auto simp: holds_frame_def)
  next
    case False
    then have "loadEntry idx k' = Some e" using that i'(3) by simp
    then show ?thesis using hold old by (simp add: holds_frame_def)
  qed
  have "dd_ready (kv_dir s') (data_path t)" using rdy(1) files by (simp add: dd_ready_def)
  then have "kv_inv t s'"
    unfolding kv_inv_def
    using i' hold' ss(1) rdy(2) files(2) pool spans len' by (intro conjI exI[of _ idx']) auto
  moreover have "kv_abs s' t = (kv_abs s t)(k \<mapsto> data)"
  proof
    fix k'
    show "kv_abs s' t k' = ((kv_abs s t)(k \<mapsto> data)) k'"
      unfolding kv_abs_index[OF i'(1)] fun_upd_apply kv_abs_index[OF idx(1)] i'(3)
      using new old unframe_frame[OF fits] by (auto split: option.split)
  qed
  ultimately show ?thesis using b by blast
qed

lemma wrote_placed:
  assumes inv: "kv_inv t s" and w: "wrote env t data (kv_dir s) d' a" and n: "data \<noteq> []"
  shows "placed env t data (kv_dir s) d' a"
proof -
  obtain idx where sep: "defrag_pool.separated t (dd_defrag (kv_dir s)) (live_spans idx) (int (length (kv_file s t)))"
    using inv unfolding kv_inv_def by blast
  obtain p1 r where al: "pool_alloc (env_it env) t (dd_defrag (kv_dir s)) (int (length data)) = (p1, r)"
    and a: "a = defrag_pool.place r (int (length (kv_file s t)))"
    and dp: "dd_defrag d' = pool_claim (env_it env) t p1 a (a + int (length data)) \<or> dd_defrag d' = p1"
    using w unfolding wrote_def by blast
  have n': "0 < int (length data)" using n by simp
  note cf = defrag_pool.claim_fresh[OF sep n' al a]
  have "free_ok t (dd_defrag d') \<and> free_spans t (dd_defrag d') = free_spans t p1"
    using dp cf by (elim disjE) (simp_all only: simp_thms)
  then show ?thesis using w al a unfolding wrote_def placed_def by blast
qed

lemma save_core:
  assumes "kv_inv t s" "kv_fits data" "wrote env t (frame data) (kv_dir s) d' a"
  shows "\<exists>s'. bind_key t k a (a + int (length (frame data))) (s\<lparr>kv_dir := d'\<rparr>) = (s', None)
    \<and> kv_inv t s' \<and> kv_abs s' t = (kv_abs s t)(k \<mapsto> data)"
proof -
  have "frame data \<noteq> []" using length_frame_ge[of data] by auto
  then show ?thesis using save_placed[OF assms(1,2) wrote_placed[OF assms(1,3)]] by blast
qed

section \<open>The writers and readers keep the contract\<close>

lemma kv_inv_dir:
  assumes "kv_inv t s" "kv_index s' t = kv_index s t" "dd_ready (kv_dir s') (data_path t)"
    and "kv_file s' t = kv_file s t" "dd_defrag (kv_dir s') = dd_defrag (kv_dir s)"
    and "dd_exists (kv_dir s) (data_path t) \<longrightarrow> dd_exists (kv_dir s') (data_path t)"
  shows "kv_inv t s' \<and> kv_abs s' t = kv_abs s t"
proof -
  have h: "holds_frame s' t e = holds_frame s t e" for e
    using assms(4) by (simp add: holds_frame_def stored_def)
  have st: "stored s' t = stored s t" using assms(4) by (simp add: stored_def fun_eq_iff)
  have "kv_abs s' t = kv_abs s t"
    unfolding kv_abs_def[abs_def] kv_look_def assms(2) st ..
  then show ?thesis
    using assms unfolding kv_inv_def h by auto
qed

lemma separated_ready:
  assumes "kv_inv t s" "kv_fits data"
    and "pool_alloc (env_it env) t (dd_defrag (kv_dir s)) (int (length (frame data))) = (p1, r)"
  shows "0 \<le> defrag_pool.place r (int (length (kv_file s t)))"
proof -
  obtain idx where "defrag_pool.separated t (dd_defrag (kv_dir s)) (live_spans idx) (int (length (kv_file s t)))"
    using assms(1) unfolding kv_inv_def by blast
  from defrag_pool.place_fresh(2)[OF this _ assms(3)] show ?thesis by simp
qed

lemma wrote_async:
  assumes inv: "kv_inv t s" and fits: "kv_fits data"
  shows "\<exists>d' a. with_dir (saveDataToFileAsync (env_it env) (frame data) t) s =
      (s\<lparr>kv_dir := d'\<rparr>, Reply (a, a + int (length (frame data)), None))
    \<and> wrote env t (frame data) (kv_dir s) d' a"
proof -
  obtain p1 r where al: "pool_alloc (env_it env) t (dd_defrag (kv_dir s)) (int (length (frame data))) = (p1, r)"
    by (cases "pool_alloc (env_it env) t (dd_defrag (kv_dir s)) (int (length (frame data)))")
  define a where "a = defrag_pool.place r (int (length (kv_file s t)))"
  have a0: "0 \<le> a" using separated_ready[OF inv fits al] by (simp add: a_def)
  have ready: "dd_ready (kv_dir s) (data_path t)" using inv by (simp add: kv_inv_def)
  obtain f where f: "saveDataToFileAsync (env_it env) (frame data) t (kv_dir s) =
      (dd_after (kv_dir s) (data_path t) f (pool_claim (env_it env) t p1 a (a + int (length (frame data)))),
       Reply (a, a + int (length (frame data)), None))"
    "healthy f" "content f = pwrite (kv_file s t) (nat a) (frame data)"
    using save_async[OF ready data_path_def al a_def a0] by blast
  let ?d = "dd_after (kv_dir s) (data_path t) f (pool_claim (env_it env) t p1 a (a + int (length (frame data))))"
  have "wrote env t (frame data) (kv_dir s) ?d a"
    unfolding wrote_def using al a_def f by (intro conjI exI[of _ p1] exI[of _ r]) auto
  then show ?thesis using f by (auto simp: with_dir_def)
qed

lemma run_ok_Done:
  "run_ok m c x c' \<Longrightarrow> healthy f \<Longrightarrow> content f = c \<Longrightarrow>
   (\<And>f'. m f = (f', Done x) \<Longrightarrow> healthy f' \<Longrightarrow> content f' = c' \<Longrightarrow> thesis) \<Longrightarrow> thesis"
  unfolding run_ok_def by blast

lemma run_ok_ensureDir: "run_ok ensureDirExists c () c"
  by (simp add: run_ok_def ensureDirExists_def)

lemma run_ok_v1_write: "0 \<le> a \<Longrightarrow> run_ok (v1_write_at d a) c () (pwrite c (nat a) d)"
  unfolding v1_write_at_def
  by (intro run_ok_own_handle run_ok_bind[OF run_ok_touch])
    (simp, rule run_ok_bind[OF run_ok_touch], rule run_ok_write)

lemma run_ok_v1_append: "run_ok (v1_append d) c (int (length c)) (pwrite c (length c) d)"
proof -
  have "run_ok (f_write d (int (length c))) c () (pwrite c (length c) d)"
    using run_ok_write[of "int (length c)" d c] by simp
  then show ?thesis
    unfolding v1_append_def
    by (intro run_ok_own_handle run_ok_bind[OF run_ok_touch] run_ok_bind[OF run_ok_size]
        run_ok_bind[of "f_write d (int (length c))" c "()" "pwrite c (length c) d"] run_ok_fret)
qed

lemma v1_save_healthy:
  assumes h: "healthy (w_file w)" and al: "pool_alloc it t (w_defrag w) (int (length data)) = (p1, r)"
    and r: "r = None \<Longrightarrow> data \<noteq> []" "\<And>sp. r = Some sp \<Longrightarrow> 0 \<le> fst sp"
    and a: "a = defrag_pool.place r (int (length (content (w_file w))))"
  shows "\<exists>f d. v1_SaveDataToFile it data t w = (\<lparr>w_file = f, w_defrag = d\<rparr>, Inr (a, a + int (length data)))
    \<and> healthy f \<and> content f = pwrite (content (w_file w)) (nat a) data
    \<and> (r = None \<longrightarrow> d = p1) \<and> (r \<noteq> None \<longrightarrow> d = pool_claim it t p1 a (a + int (length data)))"
proof -
  let ?c = "content (w_file w)"
  obtain f0 where f0: "ensureDirExists (w_file w) = (f0, Done ())" "healthy f0" "content f0 = ?c"
    by (rule run_ok_Done[OF run_ok_ensureDir h refl])
  from getBlock_pool[OF al] show ?thesis
  proof (elim disjE exE conjE)
    fix b assume g: "getBlock (w_defrag w) it (int (length data)) t = (p1, Inr b)" and rb: "r = Some (block_span b)"
    then have a': "a = fb_startPtr b" "0 \<le> a" using a r(2) by (auto simp: defrag_pool.place_def)
    obtain f where "v1_write_at data a f0 = (f, Done ())" "healthy f" "content f = pwrite ?c (nat a) data"
      by (rule run_ok_Done[OF run_ok_v1_write[OF a'(2)] f0(2,3)])
    then show ?thesis
      using f0 g a' rb by (simp add: v1_SaveDataToFile_def Let_def pool_claim_def)
  next
    fix e assume g: "getBlock (w_defrag w) it (int (length data)) t = (p1, Inl e)" and rn: "r = None"
    have a': "a = int (length ?c)" using a rn by (simp add: defrag_pool.place_def)
    obtain f where "v1_append data f0 = (f, Done (int (length ?c)))" "healthy f"
      "content f = pwrite ?c (length ?c) data"
      by (rule run_ok_Done[OF run_ok_v1_append f0(2,3)])
    then show ?thesis using f0 g a' rn by (simp add: v1_SaveDataToFile_def)
  qed
qed

lemma kv_inv_index: "kv_inv t s \<Longrightarrow> \<exists>idx. kv_index s t = Some idx \<and> index_wf idx"
  unfolding kv_inv_def by blast

lemma alloc_nonneg:
  assumes "kv_inv t s" "pool_alloc it t (dd_defrag (kv_dir s)) n = (p1, Some sp)"
  shows "0 \<le> fst sp"
proof -
  have "free_ok t (dd_defrag (kv_dir s))"
    using assms(1) defrag_pool.separated_pool unfolding kv_inv_def by blast
  with defrag_pool.alloc_Some[OF this assms(2)] defrag_pool.span_wf show ?thesis by blast
qed

lemma wrote_v1:
  assumes inv: "kv_inv t s" and fits: "kv_fits data"
  shows "\<exists>d' a. dd_v1_save (env_it env) (frame data) t (kv_dir s) = (d', Inr (a, a + int (length (frame data))))
    \<and> wrote env t (frame data) (kv_dir s) d' a"
proof -
  let ?n = "int (length (frame data))"
  let ?w = "\<lparr>w_file = dd_files (kv_dir s) (data_path t), w_defrag = dd_defrag (kv_dir s)\<rparr>"
  obtain p1 r where al: "pool_alloc (env_it env) t (dd_defrag (kv_dir s)) ?n = (p1, r)"
    by (cases "pool_alloc (env_it env) t (dd_defrag (kv_dir s)) ?n")
  define a where "a = defrag_pool.place r (int (length (kv_file s t)))"
  have h: "healthy (w_file ?w)" "\<not> dd_crashed (kv_dir s) (data_path t)"
    using inv by (simp_all add: kv_inv_def dd_ready_def)
  obtain f d where f: "v1_SaveDataToFile (env_it env) (frame data) t ?w =
      (\<lparr>w_file = f, w_defrag = d\<rparr>, Inr (a, a + ?n))"
    "healthy f" "content f = pwrite (kv_file s t) (nat a) (frame data)"
    "r = None \<longrightarrow> d = p1" "r \<noteq> None \<longrightarrow> d = pool_claim (env_it env) t p1 a (a + ?n)"
    using v1_save_healthy[OF h(1), of "env_it env" t "frame data" p1 r a] al a_def alloc_nonneg[OF inv, of "env_it env" ?n p1]
    by auto
  let ?d = "(kv_dir s)\<lparr>dd_files := (dd_files (kv_dir s))(data_path t := f),
      dd_exists := (dd_exists (kv_dir s))(data_path t := True), dd_defrag := d\<rparr>"
  have "wrote env t (frame data) (kv_dir s) ?d a"
    unfolding wrote_def dd_ready_def using al a_def f h by (intro conjI exI[of _ p1] exI[of _ r]) auto
  then show ?thesis using f(1) by (simp add: dd_v1_save_def Let_def)
qed

text \<open>Both ways of reading return the frame that is stored and change nothing that matters.\<close>

lemma held:
  assumes "kv_inv t s" "kv_index s t = Some idx" "loadEntry idx k = Some e"
  shows "\<exists>d. kv_fits d \<and> stored s t e = frame d \<and> kv_abs s t k = Some d
    \<and> 0 \<le> e_start e \<and> e_start e < e_end e \<and> e_end e \<le> int (length (kv_file s t))
    \<and> e_end e - e_start e \<le> max_alloc \<and> dd_exists (kv_dir s) (data_path t) \<and> e_file e = t"
proof -
  have sep: "defrag_pool.separated t (dd_defrag (kv_dir s)) (live_spans idx) (int (length (kv_file s t)))"
    and h: "holds_frame s t e" "dd_exists (kv_dir s) (data_path t)"
    using assms unfolding kv_inv_def by auto
  have l: "live_spans idx k = Some (e_start e, e_end e)" using assms(3) by (simp add: live_spans_def)
  obtain d where d: "kv_fits d" "stored s t e = frame d" "e_end e - e_start e = int (length (frame d))"
    using h(1) unfolding holds_frame_def by blast
  then show ?thesis
    using defrag_pool.separated_live[OF sep l] h frame_alloc[OF d(1)] unframe_frame[OF d(1)]
    by (auto simp: kv_abs_index[OF assms(2)] assms(3) holds_frame_def)
qed

lemma read_async_core:
  assumes inv: "kv_inv t s" and idx: "kv_index s t = Some idx" and e: "loadEntry idx k = Some e"
  shows "\<exists>d' d. with_dir (readDataFromFileAsync it t (e_start e) (e_end e)) s =
      (s\<lparr>kv_dir := d'\<rparr>, Reply (Inr (frame d)))
    \<and> kv_abs s t k = Some d \<and> kv_fits d \<and> kv_inv t (s\<lparr>kv_dir := d'\<rparr>) \<and> kv_abs (s\<lparr>kv_dir := d'\<rparr>) t = kv_abs s t
    \<and> dd_defrag d' = dd_defrag (kv_dir s)"
proof -
  obtain d where d: "kv_fits d" "stored s t e = frame d" "kv_abs s t k = Some d"
    "0 \<le> e_start e" "e_start e < e_end e" "e_end e - e_start e \<le> max_alloc"
    using held[OF assms] by blast
  have ready: "dd_ready (kv_dir s) (data_path t)" using inv by (simp add: kv_inv_def)
  obtain f where f: "readDataFromFileAsync it t (e_start e) (e_end e) (kv_dir s) =
      (dd_after (kv_dir s) (data_path t) f (dd_defrag (kv_dir s)), Reply (Inr (stored s t e)))"
    "healthy f" "content f = kv_file s t"
    using read_async[OF ready data_path_read(1)[symmetric] d(4,5,6)] unfolding stored_def by blast
  let ?d = "dd_after (kv_dir s) (data_path t) f (dd_defrag (kv_dir s))"
  have "kv_inv t (s\<lparr>kv_dir := ?d\<rparr>) \<and> kv_abs (s\<lparr>kv_dir := ?d\<rparr>) t = kv_abs s t"
    using f by (intro kv_inv_dir[OF inv]) auto
  then show ?thesis
    using f(1) d by (intro exI[of _ ?d] exI[of _ d]) (simp add: with_dir_def)
qed

lemma run_ok_v1_read:
  assumes "0 \<le> a" "a < b" "b \<le> int (length c)" "b - a \<le> max_alloc"
  shows "run_ok (v1_ReadDataFromFile True a b) c (pread c (nat a) (nat (b - a))) c"
proof -
  have g: "\<not> (a < 0 \<or> b \<le> a \<or> int (length c) < b)" "0 \<le> b - a" using assms by simp_all
  show ?thesis
    unfolding v1_ReadDataFromFile_def
    by (simp only: not_True_eq_False if_False, rule run_ok_own_handle, rule run_ok_bind[OF run_ok_touch],
        rule run_ok_bind[OF run_ok_size], simp only: g(1) if_False, rule run_ok_bind[OF run_ok_touch],
        rule run_ok_bind[OF run_ok_make[OF g(2) assms(4)]], rule run_ok_read[OF assms(1)])
qed

lemma read_v1_core:
  assumes inv: "kv_inv t s" and idx: "kv_index s t = Some idx" and e: "loadEntry idx k = Some e"
  shows "\<exists>d' d. with_dir (dd_v1_read t (e_start e) (e_end e)) s =
      (s\<lparr>kv_dir := d'\<rparr>, Reply (Inr (frame d)))
    \<and> kv_abs s t k = Some d \<and> kv_fits d \<and> kv_inv t (s\<lparr>kv_dir := d'\<rparr>) \<and> kv_abs (s\<lparr>kv_dir := d'\<rparr>) t = kv_abs s t
    \<and> dd_defrag d' = dd_defrag (kv_dir s)"
proof -
  obtain d where d: "kv_fits d" "stored s t e = frame d" "kv_abs s t k = Some d"
    "0 \<le> e_start e" "e_start e < e_end e" "e_end e \<le> int (length (kv_file s t))"
    "e_end e - e_start e \<le> max_alloc" "dd_exists (kv_dir s) (data_path t)"
    using held[OF assms] by blast
  have h: "healthy (dd_files (kv_dir s) (data_path t))" "\<not> dd_crashed (kv_dir s) (data_path t)"
    using inv by (simp_all add: kv_inv_def dd_ready_def)
  have ok: "run_ok (v1_ReadDataFromFile True (e_start e) (e_end e)) (kv_file s t) (stored s t e) (kv_file s t)"
    unfolding stored_def by (rule run_ok_v1_read[OF d(4-7)])
  obtain f where f: "v1_ReadDataFromFile True (e_start e) (e_end e) (dd_files (kv_dir s) (data_path t))
      = (f, Done (stored s t e))" "healthy f" "content f = kv_file s t"
    by (rule run_ok_Done[OF ok h(1) refl])
  let ?d = "(kv_dir s)\<lparr>dd_files := (dd_files (kv_dir s))(data_path t := f)\<rparr>"
  have "kv_inv t (s\<lparr>kv_dir := ?d\<rparr>) \<and> kv_abs (s\<lparr>kv_dir := ?d\<rparr>) t = kv_abs s t"
    using f h by (intro kv_inv_dir[OF inv]) (auto simp: dd_ready_def)
  then show ?thesis
    using f(1) d by (intro exI[of _ ?d] exI[of _ d]) (simp add: with_dir_def dd_v1_read_def Let_def)
qed

lemma free_core:
  assumes inv: "kv_inv t s" and idx: "kv_index s t = Some idx" and e: "loadEntry idx k = Some e"
  shows "kv_inv t (kv_mark_free k t (e_start e) (e_end e) (remove_meta t k s))
    \<and> kv_abs (kv_mark_free k t (e_start e) (e_end e) (remove_meta t k s)) t = (kv_abs s t)(k := None)"
proof -
  let ?s = "kv_mark_free k t (e_start e) (e_end e) (remove_meta t k s)"
  have wf: "index_wf idx" using kv_inv_index[OF inv] idx by auto
  obtain idx' where i: "kv_index (remove_meta t k s) t = Some idx'" "index_wf idx'"
    "loadEntry idx' = (loadEntry idx)(k := None)" "kv_dir (remove_meta t k s) = kv_dir s"
    using remove_meta_spec[OF idx wf] by blast
  have sep: "defrag_pool.separated t (dd_defrag (kv_dir s)) (live_spans idx) (int (length (kv_file s t)))"
    and hold: "\<And>k e. loadEntry idx k = Some e \<Longrightarrow> holds_frame s t e \<and> dd_exists (kv_dir s) (data_path t)"
    and rdy: "dd_ready (kv_dir s) (data_path t)"
    using inv idx unfolding kv_inv_def by auto
  have l: "live_spans idx k = Some (e_start e, e_end e)" using e by (simp add: live_spans_def)
  have spans: "live_spans idx' = (live_spans idx)(k := None)"
    by (auto simp: live_spans_def i(3) fun_eq_iff)
  have s: "kv_index ?s t = Some idx'" "kv_file ?s t = kv_file s t"
    "dd_defrag (kv_dir ?s) = pool_release t (dd_defrag (kv_dir s)) k (e_start e) (e_end e)"
    "dd_files (kv_dir ?s) = dd_files (kv_dir s)" "dd_exists (kv_dir ?s) = dd_exists (kv_dir s)"
    "dd_crashed (kv_dir ?s) = dd_crashed (kv_dir s)"
    using i by (simp_all add: kv_mark_free_def pool_release_def)
  have st: "stored ?s t = stored s t" using s(2) by (simp add: stored_def fun_eq_iff)
  have h: "holds_frame ?s t x = holds_frame s t x" for x
    unfolding holds_frame_def st ..
  have sep': "defrag_pool.separated t (dd_defrag (kv_dir ?s)) (live_spans idx') (int (length (kv_file ?s t)))"
    using defrag_pool.release_separated[OF sep l] unfolding s(2,3) spans fst_conv snd_conv .
  have hold': "holds_frame ?s t x \<and> dd_exists (kv_dir ?s) (data_path t)" if "loadEntry idx' k' = Some x" for k' x
  proof -
    have "loadEntry idx k' = Some x" using that unfolding i(3) by (simp split: if_splits)
    then show ?thesis unfolding h s(5) by (rule hold)
  qed
  have "dd_ready (kv_dir ?s) (data_path t)"
    using rdy unfolding dd_ready_def s(4,6) .
  then have "kv_inv t ?s"
    unfolding kv_inv_def using s(1) i(2) sep' hold' by blast
  moreover have "kv_abs ?s t = (kv_abs s t)(k := None)"
  proof
    fix k'
    show "kv_abs ?s t k' = ((kv_abs s t)(k := None)) k'"
      unfolding kv_abs_index[OF s(1)] fun_upd_apply kv_abs_index[OF idx] i(3) st by simp
  qed
  ultimately show ?thesis by blast
qed

section \<open>The operations as the fronts run them\<close>

lemma kv_bind_Reply [simp]: "kv_bind (s, Reply x) k = k s x"
  by (simp add: kv_bind_def)

lemma kv_lift_Ret [simp]: "kv_lift s (Ret x) k = k s x"
  by (simp add: kv_lift_def)

lemma kv_outbox_inv [simp]:
  "kv_inv t (s\<lparr>kv_outbox := ns\<rparr>) = kv_inv t s" "kv_abs (s\<lparr>kv_outbox := ns\<rparr>) t = kv_abs s t"
proof -
  let ?s = "s\<lparr>kv_outbox := ns\<rparr>"
  have st: "stored ?s t = stored s t" by (simp add: stored_def fun_eq_iff)
  then have h: "holds_frame ?s t = holds_frame s t" by (simp add: holds_frame_def fun_eq_iff)
  have m: "kv_maps ?s = kv_maps s" "kv_dir ?s = kv_dir s" by simp_all
  show "kv_inv t ?s = kv_inv t s" unfolding kv_inv_def h m ..
  show "kv_abs ?s t = kv_abs s t" unfolding kv_abs_def[abs_def] kv_look_def m st ..
qed

lemma kv_notify_inv [simp]: "kv_inv t (kv_notify n s) = kv_inv t s" "kv_abs (kv_notify n s) t = kv_abs s t"
  by (simp_all add: kv_notify_def)

lemma decode_frame_fits: "kv_fits d \<Longrightarrow> \<exists>r. decode (frame d) = Ret r \<and> dec_data r = d"
  by (simp add: decode_frame kv_fits_slice)

lemma save_lib:
  assumes "kv_inv t s" "k \<noteq> []" "t \<noteq> []" "kv_fits d"
  shows "\<exists>s'. export_Save env k t d s = (s', Reply None) \<and> kv_inv t s' \<and> kv_abs s' t = (kv_abs s t)(k \<mapsto> d)"
proof -
  obtain d' a where w: "with_dir (saveDataToFileAsync (env_it env) (frame d) t) s =
      (s\<lparr>kv_dir := d'\<rparr>, Reply (a, a + int (length (frame d)), None))" "wrote env t (frame d) (kv_dir s) d' a"
    using wrote_async[OF assms(1,4)] by blast
  obtain s' where "bind_key t k a (a + int (length (frame d))) (s\<lparr>kv_dir := d'\<rparr>) = (s', None)"
      "kv_inv t s'" "kv_abs s' t = (kv_abs s t)(k \<mapsto> d)"
    using save_core[OF assms(1,4) w(2)] by blast
  then show ?thesis using w(1) assms by (simp add: export_Save_def)
qed

lemma get_meta_inv:
  assumes "kv_inv t s"
  obtains s' idx where "kv_index s' t = Some idx" "kv_inv t s'" "kv_abs s' t = kv_abs s t"
    "get_meta t k s = (s', case loadEntry idx k of None \<Rightarrow> Inl KeyNotFound | Some e \<Rightarrow> Inr (entryToOutput k e))"
    "loadEntry idx k = None \<longleftrightarrow> kv_abs s t k = None"
proof -
  obtain idx where i: "kv_index s t = Some idx" using kv_inv_index[OF assms] by blast
  obtain s' where s': "get_meta t k s = (s', case loadEntry idx k of None \<Rightarrow> Inl KeyNotFound
       | Some e \<Rightarrow> Inr (entryToOutput k e))" "kv_index s' t = Some idx" "kv_dir s' = kv_dir s"
    using get_meta_spec[OF i] by blast
  have "kv_inv t s' \<and> kv_abs s' t = kv_abs s t"
    using assms s' i by (intro kv_inv_dir[OF assms]) (auto simp: kv_inv_def)
  moreover have "loadEntry idx k = None \<longleftrightarrow> kv_abs s t k = None"
    using held[OF assms i] by (cases "loadEntry idx k") (auto simp: kv_abs_index[OF i])
  ultimately show ?thesis using that[OF s'(2) _ _ s'(1)] by simp
qed

lemma read_lib:
  assumes inv: "kv_inv t s" and rem: "env_remote env = Some f"
  shows "\<exists>s'. export_Read env k t s = (s', Reply (case kv_abs s t k of
        Some d \<Rightarrow> Inr d
      | None \<Rightarrow> (let res = f (read_request env t k) in if nm_Finished res then Inr (nm_Content res) else Inl NotFound)))
    \<and> kv_inv t s' \<and> kv_abs s' t = kv_abs s t"
proof -
  obtain s1 idx where m: "kv_index s1 t = Some idx" "kv_inv t s1" "kv_abs s1 t = kv_abs s t"
    "get_meta t k s = (s1, case loadEntry idx k of None \<Rightarrow> Inl KeyNotFound | Some e \<Rightarrow> Inr (entryToOutput k e))"
    "loadEntry idx k = None \<longleftrightarrow> kv_abs s t k = None"
    by (rule get_meta_inv[OF inv, where k = k])
  show ?thesis
  proof (cases "loadEntry idx k")
    case None
    then show ?thesis using m rem by (auto simp: export_Read_def Let_def)
  next
    case (Some e)
    obtain d' d where r: "with_dir (readDataFromFileAsync (env_it env) t (e_start e) (e_end e)) s1 =
        (s1\<lparr>kv_dir := d'\<rparr>, Reply (Inr (frame d)))"
      "kv_abs s1 t k = Some d" "kv_fits d" "kv_inv t (s1\<lparr>kv_dir := d'\<rparr>)" "kv_abs (s1\<lparr>kv_dir := d'\<rparr>) t = kv_abs s1 t"
      using read_async_core[OF m(2,1) Some] by blast
    obtain rr where "decode (frame d) = Ret rr" "dec_data rr = d" using decode_frame_fits[OF r(3)] by blast
    then show ?thesis
      using r m Some rem by (simp add: export_Read_def entryToOutput_def)
  qed
qed

lemma free_lib:
  assumes inv: "kv_inv t s"
  shows "\<exists>s'. export_Free k t s = (s', Reply (if kv_abs s t k = None then Some (MapFailed KeyNotFound) else None))
    \<and> kv_inv t s' \<and> kv_abs s' t = (kv_abs s t)(k := None)"
proof -
  obtain s1 idx where m: "kv_index s1 t = Some idx" "kv_inv t s1" "kv_abs s1 t = kv_abs s t"
    "get_meta t k s = (s1, case loadEntry idx k of None \<Rightarrow> Inl KeyNotFound | Some e \<Rightarrow> Inr (entryToOutput k e))"
    "loadEntry idx k = None \<longleftrightarrow> kv_abs s t k = None"
    by (rule get_meta_inv[OF inv, where k = k])
  show ?thesis
  proof (cases "loadEntry idx k")
    case None
    then show ?thesis using m by (auto simp: export_Free_def)
  next
    case (Some e)
    then show ?thesis
      using m free_core[OF m(2,1) Some] by (simp add: export_Free_def entryToOutput_def Let_def)
  qed
qed

lemma save_peer:
  assumes "kv_inv t s" "k \<noteq> []" "t \<noteq> []" "kv_fits (nm_Content req)" "nm_Args req = [t, k]"
  shows "\<exists>s'. task_Save env req s = (s', Reply (req\<lparr>nm_Finished := True, nm_Content := []\<rparr>))
    \<and> kv_inv t s' \<and> kv_abs s' t = (kv_abs s t)(k \<mapsto> nm_Content req)"
proof -
  let ?d = "nm_Content req"
  obtain d' a where w: "dd_v1_save (env_it env) (frame ?d) t (kv_dir s) = (d', Inr (a, a + int (length (frame ?d))))"
    "wrote env t (frame ?d) (kv_dir s) d' a"
    using wrote_v1[OF assms(1,4)] by blast
  obtain s' where "bind_key t k a (a + int (length (frame ?d))) (s\<lparr>kv_dir := d'\<rparr>) = (s', None)"
      "kv_inv t s'" "kv_abs s' t = (kv_abs s t)(k \<mapsto> ?d)"
    using save_core[OF assms(1,4) w(2)] by blast
  then show ?thesis
    using w(1) assms by (auto simp: task_Save_def task_args_def go_index_def Suc_le_eq)
qed

lemma read_peer:
  assumes inv: "kv_inv t s" and "k \<noteq> []" "t \<noteq> []" "nm_Args req = [t, k]"
  shows "\<exists>s'. task_Read env req s = (s', Reply (case kv_abs s t k of
        Some d \<Rightarrow> req\<lparr>nm_Content := d, nm_Finished := True\<rparr> | None \<Rightarrow> nm_empty))
    \<and> kv_inv t s' \<and> kv_abs s' t = kv_abs s t"
proof -
  obtain s1 idx where m: "kv_index s1 t = Some idx" "kv_inv t s1" "kv_abs s1 t = kv_abs s t"
    "get_meta t k s = (s1, case loadEntry idx k of None \<Rightarrow> Inl KeyNotFound | Some e \<Rightarrow> Inr (entryToOutput k e))"
    "loadEntry idx k = None \<longleftrightarrow> kv_abs s t k = None"
    by (rule get_meta_inv[OF inv, where k = k])
  show ?thesis
  proof (cases "loadEntry idx k")
    case None
    then show ?thesis using m assms by (auto simp: task_Read_def task_args_def go_index_def Suc_le_eq)
  next
    case (Some e)
    obtain d' d where r: "with_dir (readDataFromFileAsync (env_it env) t (e_start e) (e_end e)) s1 =
        (s1\<lparr>kv_dir := d'\<rparr>, Reply (Inr (frame d)))"
      "kv_abs s1 t k = Some d" "kv_fits d" "kv_inv t (s1\<lparr>kv_dir := d'\<rparr>)" "kv_abs (s1\<lparr>kv_dir := d'\<rparr>) t = kv_abs s1 t"
      using read_async_core[OF m(2,1) Some] by blast
    obtain rr where "decode (frame d) = Ret rr" "dec_data rr = d" using decode_frame_fits[OF r(3)] by blast
    then show ?thesis
      using r m Some assms by (simp add: task_Read_def task_args_def go_index_def Suc_le_eq entryToOutput_def)
  qed
qed

lemma free_peer:
  assumes inv: "kv_inv t s" and "k \<noteq> []" "t \<noteq> []" "nm_Args req = [t, k]"
  shows "\<exists>s'. task_Free req s = (s', Reply (if kv_abs s t k = None then nm_empty else req\<lparr>nm_Finished := True\<rparr>))
    \<and> kv_inv t s' \<and> kv_abs s' t = (kv_abs s t)(k := None)"
proof -
  obtain s1 idx where m: "kv_index s1 t = Some idx" "kv_inv t s1" "kv_abs s1 t = kv_abs s t"
    "get_meta t k s = (s1, case loadEntry idx k of None \<Rightarrow> Inl KeyNotFound | Some e \<Rightarrow> Inr (entryToOutput k e))"
    "loadEntry idx k = None \<longleftrightarrow> kv_abs s t k = None"
    by (rule get_meta_inv[OF inv, where k = k])
  show ?thesis
  proof (cases "loadEntry idx k")
    case None
    then show ?thesis using m assms by (auto simp: task_Free_def task_args_def go_index_def Suc_le_eq)
  next
    case (Some e)
    then obtain d where "kv_abs s t k = Some d" using m(5) by auto
    then show ?thesis
      using m Some assms free_core[OF m(2,1) Some]
      by (simp add: task_Free_def task_args_def go_index_def Suc_le_eq entryToOutput_def Let_def)
  qed
qed

end
