(* ===== verification/Kv_Fronts.thy ===== *)
theory Kv_Fronts
  imports Kv_Store
begin

text \<open>
  The three ways into the key-value store (library calls, HTTP requests, tasks sent by a peer) as
  fronts of one abstract map per table: a contract \<open>table_front\<close> that each of them keeps, and the
  refinement of any interleaving of their commands. Also the encrypted calls, and the path parser's
  missing guard.
\<close>

section \<open>Request paths\<close>

lemma parseArgs_path:
  "CHR ''/'' \<notin> set t \<Longrightarrow> CHR ''/'' \<notin> set k \<Longrightarrow>
   parseArgs (''/'' @ ep @ ''/'' @ t @ ''/'' @ k) ep = [[], ep, t, k]"
proof -
  assume c: "CHR ''/'' \<notin> set t" "CHR ''/'' \<notin> set k"
  have "trim_prefix ((''/'' @ ep @ ''/'') @ (t @ ''/'' @ k)) (''/'' @ ep @ ''/'') = t @ CHR ''/'' # k"
    unfolding trim_prefix_append by simp
  then show ?thesis
    using c by (simp add: parseArgs_def split_char_append split_char_clean)
qed

lemma table_and_key_four [simp]: "table_and_key [a, b, t, k] s c = c t k s"
  by (simp add: table_and_key_def go_index_def)

section \<open>Files an operation leaves alone\<close>

text \<open>A request touches one file.\<close>

definition same_elsewhere :: "string \<Rightarrow> datadir \<Rightarrow> datadir \<Rightarrow> bool" where
  "same_elsewhere p d d' \<longleftrightarrow> (\<forall>q. q \<noteq> p \<longrightarrow> dd_files d' q = dd_files d q
      \<and> dd_crashed d' q = dd_crashed d q \<and> dd_exists d' q = dd_exists d q)"

lemma same_elsewhere_after [simp]: "same_elsewhere p d (dd_after d p f g)"
  by (simp add: same_elsewhere_def)

lemma send_elsewhere: "same_elsewhere (full_path (fr_op req) t) d (fst (sendToFileWorker it t req d))"
proof -
  let ?p = "full_path (fr_op req) t"
  show ?thesis
  proof (cases "dd_crashed d ?p")
    case True
    then show ?thesis by (simp add: same_elsewhere_def sendToFileWorker_def Let_def)
  next
    case False
    obtain w out status where "fileWorkerLoop it t [(0, req)] \<lparr>w_file = dd_files d ?p, w_defrag = dd_defrag d\<rparr>
        = (w, out, status)" by (metis prod_cases3)
    with False show ?thesis
      unfolding same_elsewhere_def sendToFileWorker_def Let_def by simp
  qed
qed

lemma read_elsewhere:
  assumes "with_dir (readDataFromFileAsync it t a b) s = (s\<lparr>kv_dir := d'\<rparr>, r)"
  shows "same_elsewhere (data_path t) (kv_dir s) d'"
proof -
  let ?req = "(request ''read'')\<lparr>fr_startPtr := a, fr_endPtr := b\<rparr>"
  have "fst (readDataFromFileAsync it t a b (kv_dir s)) = fst (sendToFileWorker it t ?req (kv_dir s))"
    by (auto simp: readDataFromFileAsync_def call_bind_def split: prod.splits call.splits)
  moreover have "fst (readDataFromFileAsync it t a b (kv_dir s)) = d'"
  proof -
    obtain d2 r2 where e: "readDataFromFileAsync it t a b (kv_dir s) = (d2, r2)" by fastforce
    then have "s\<lparr>kv_dir := d2\<rparr> = s\<lparr>kv_dir := d'\<rparr>" using assms by (simp add: with_dir_def)
    then have "kv_dir (s\<lparr>kv_dir := d2\<rparr>) = kv_dir (s\<lparr>kv_dir := d'\<rparr>)" by simp
    then show ?thesis using e by simp
  qed
  moreover have "full_path (fr_op ?req) t = data_path t" by (simp add: request_def)
  ultimately show ?thesis using send_elsewhere[of ?req t "kv_dir s" it] by simp
qed

lemma same_elsewhere_trans: "same_elsewhere p a b \<Longrightarrow> same_elsewhere p b c \<Longrightarrow> same_elsewhere p a c"
  by (simp add: same_elsewhere_def)

lemma bind_key_elsewhere: "same_elsewhere p (kv_dir s) (kv_dir (fst (bind_key t k a b s)))"
  by (auto simp: same_elsewhere_def bind_key_def kv_mark_free_def Let_def
      split: prod.splits sum.splits option.splits)

lemma get_meta_dir [simp]: "kv_dir (fst (get_meta t k s)) = kv_dir s"
  by (simp add: get_meta_def split: prod.splits)

lemma free_elsewhere: "same_elsewhere p (kv_dir s) (kv_dir (kv_mark_free k t a b (remove_meta t' k' s)))"
  by (simp add: same_elsewhere_def kv_mark_free_def remove_meta_def)

section \<open>Commands and fronts\<close>

datatype kv_cmd = Put string bytes | Get string | Del string

datatype kv_reply = Stored | Value bytes | Freed | Missing | Refused

fun cmd_key :: "kv_cmd \<Rightarrow> string" where
  "cmd_key (Put k d) = k"
| "cmd_key (Get k) = k"
| "cmd_key (Del k) = k"

fun cmd_fits :: "kv_cmd \<Rightarrow> bool" where
  "cmd_fits (Put k d) \<longleftrightarrow> kv_fits d"
| "cmd_fits _ \<longleftrightarrow> True"

definition http_get :: "string \<Rightarrow> http_request" where
  "http_get path = \<lparr>rq_method = ''GET'', rq_path = path, rq_header = (\<lambda>_. []), rq_query = (\<lambda>_. []),
                    rq_body = None\<rparr>"

definition http_post :: "string \<Rightarrow> bytes \<Rightarrow> http_request" where
  "http_post path d = (http_get path)\<lparr>rq_method := ''POST'', rq_body := Some d\<rparr>"

definition peer_request :: "string \<Rightarrow> string \<Rightarrow> string \<Rightarrow> bytes \<Rightarrow> nm_message" where
  "peer_request task t k d = nm_empty\<lparr>nm_Task := task, nm_Args := [t, k], nm_Content := d\<rparr>"

definition and_reply :: "'a kv_call \<Rightarrow> ('a \<Rightarrow> kv_reply) \<Rightarrow> kv \<times> kv_reply" where
  "and_reply c f = (case c of (s, Reply x) \<Rightarrow> (s, f x) | (s, _) \<Rightarrow> (s, Refused))"

fun lib_exec :: "kv_env \<Rightarrow> string \<Rightarrow> kv_cmd \<Rightarrow> kv \<Rightarrow> kv \<times> kv_reply" where
  "lib_exec env t (Put k d) s =
     and_reply (export_Save env k t d s) (\<lambda>e. if e = None then Stored else Refused)"
| "lib_exec env t (Get k) s =
     and_reply (export_Read env k t s)
       (\<lambda>r. case r of Inr d \<Rightarrow> Value d | Inl e \<Rightarrow> if e = NotFound then Missing else Refused)"
| "lib_exec env t (Del k) s =
     and_reply (export_Free k t s)
       (\<lambda>e. if e = None then Freed else if e = Some (MapFailed KeyNotFound) then Missing else Refused)"

definition of_status :: "kv_reply \<Rightarrow> http_response \<Rightarrow> kv_reply" where
  "of_status ok h = (if hr_status h = 200 then ok else if hr_status h = 404 then Missing else Refused)"

fun http_exec :: "kv_env \<Rightarrow> string \<Rightarrow> kv_cmd \<Rightarrow> kv \<Rightarrow> kv \<times> kv_reply" where
  "http_exec env t (Put k d) s =
     and_reply (route_AsyncSave env (http_post (''/'' @ ''save'' @ ''/'' @ t @ ''/'' @ k) d) s) (of_status Stored)"
| "http_exec env t (Get k) s =
     and_reply (route_AsyncRead env (http_get (''/'' @ ''read'' @ ''/'' @ t @ ''/'' @ k)) s)
       (\<lambda>h. of_status (Value (hr_body h)) h)"
| "http_exec env t (Del k) s =
     and_reply (route_Free (http_get (''/'' @ ''free'' @ ''/'' @ t @ ''/'' @ k)) s) (of_status Freed)"

fun peer_exec :: "kv_env \<Rightarrow> string \<Rightarrow> kv_cmd \<Rightarrow> kv \<Rightarrow> kv \<times> kv_reply" where
  "peer_exec env t (Put k d) s =
     and_reply (task_Save env (peer_request ''save'' t k d) s) (\<lambda>m. if nm_Finished m then Stored else Refused)"
| "peer_exec env t (Get k) s =
     and_reply (task_Read env (peer_request ''read'' t k []) s)
       (\<lambda>m. if nm_Finished m then Value (nm_Content m) else Missing)"
| "peer_exec env t (Del k) s =
     and_reply (task_Free (peer_request ''free'' t k []) s) (\<lambda>m. if nm_Finished m then Freed else Missing)"

text \<open>What a front should answer, over the map of the table; the first argument finds a missing key.\<close>

fun map_exec :: "(string \<Rightarrow> kv_reply) \<Rightarrow> kv_cmd \<Rightarrow> (string \<rightharpoonup> bytes) \<Rightarrow> (string \<rightharpoonup> bytes) \<times> kv_reply" where
  "map_exec miss (Put k d) m = (m(k \<mapsto> d), Stored)"
| "map_exec miss (Get k) m = (m, case m k of Some d \<Rightarrow> Value d | None \<Rightarrow> miss k)"
| "map_exec miss (Del k) m = (m(k := None), if m k = None then Missing else Freed)"

definition ask_peers :: "kv_env \<Rightarrow> string \<Rightarrow> string \<Rightarrow> kv_reply" where
  "ask_peers env t k = (case env_remote env of None \<Rightarrow> Missing
     | Some f \<Rightarrow> (let res = f (read_request env t k)
                  in if nm_Finished res then Value (nm_Content res) else Missing))"

fun run_cmds :: "('c \<Rightarrow> 's \<Rightarrow> 's \<times> 'r) \<Rightarrow> 'c list \<Rightarrow> 's \<Rightarrow> 's \<times> 'r list" where
  "run_cmds f [] s = (s, [])"
| "run_cmds f (c # cs) s = (case f c s of (s1, r) \<Rightarrow> (case run_cmds f cs s1 of (s2, rs) \<Rightarrow> (s2, r # rs)))"

lemma run_cmds_append:
  "run_cmds f (cs @ ds) s = (case run_cmds f cs s of (s1, rs) \<Rightarrow> (case run_cmds f ds s1 of (s2, ss) \<Rightarrow> (s2, rs @ ss)))"
  by (induction cs arbitrary: s) (auto split: prod.split)

lemma and_reply_Reply [simp]: "and_reply (s, Reply x) f = (s, f x)"
  by (simp add: and_reply_def)

lemma http_simps [simp]:
  "rq_method (http_get p) = ''GET''" "rq_path (http_get p) = p" "rq_method (http_post p d) = ''POST''"
  "rq_path (http_post p d) = p" "rq_body (http_post p d) = Some d"
  "hr_status (http_ok b) = 200" "hr_body (http_ok b) = b" "hr_status (http_error n) = n"
  by (simp_all add: http_get_def http_post_def http_ok_def http_error_def)

section \<open>The contract of a front\<close>

text \<open>
  One step of the front on a table in order leaves the table in order, and the map of the table and
  the reply are those of the specification.
\<close>

locale table_front =
  fixes t :: string
    and allowed :: "'c \<Rightarrow> bool"
    and exec :: "'c \<Rightarrow> kv \<Rightarrow> kv \<times> kv_reply"
    and spec :: "'c \<Rightarrow> (string \<rightharpoonup> bytes) \<Rightarrow> (string \<rightharpoonup> bytes) \<times> kv_reply"
  assumes step: "kv_inv t s \<Longrightarrow> allowed c \<Longrightarrow>
    kv_inv t (fst (exec c s)) \<and> spec c (kv_abs s t) = (kv_abs (fst (exec c s)) t, snd (exec c s))"
begin

lemma runs_refine:
  "kv_inv t s \<Longrightarrow> (\<And>c. c \<in> set cs \<Longrightarrow> allowed c) \<Longrightarrow>
   kv_inv t (fst (run_cmds exec cs s))
   \<and> run_cmds spec cs (kv_abs s t) = (kv_abs (fst (run_cmds exec cs s)) t, snd (run_cmds exec cs s))"
proof (induction cs arbitrary: s)
  case (Cons c cs)
  obtain s1 r where e: "exec c s = (s1, r)" by fastforce
  have s1: "kv_inv t s1" "spec c (kv_abs s t) = (kv_abs s1 t, r)"
    using step[OF Cons.prems(1), of c] Cons.prems(2)[of c] e by simp_all
  obtain s2 rs where e2: "run_cmds exec cs s1 = (s2, rs)" by fastforce
  have "kv_inv t s2 \<and> run_cmds spec cs (kv_abs s1 t) = (kv_abs s2 t, rs)"
    using Cons.IH[OF s1(1)] Cons.prems(2) e2 by simp
  then show ?case using e e2 s1(2) by simp
qed simp

end
section \<open>The fronts keep the contract\<close>

lemma save_http:
  assumes "kv_inv t s" "CHR ''/'' \<notin> set t" "CHR ''/'' \<notin> set k" "kv_fits d"
  shows "\<exists>s'. route_AsyncSave env (http_post (''/'' @ ''save'' @ ''/'' @ t @ ''/'' @ k) d) s =
      (s', Reply (http_ok (bytes_of_string ''save'')))
    \<and> kv_inv t s' \<and> kv_abs s' t = (kv_abs s t)(k \<mapsto> d)"
proof -
  obtain d' a where w: "with_dir (saveDataToFileAsync (env_it env) (frame d) t) s =
      (s\<lparr>kv_dir := d'\<rparr>, Reply (a, a + int (length (frame d)), None))" "wrote env t (frame d) (kv_dir s) d' a"
    using wrote_async[OF assms(1,4)] by blast
  obtain s' where "bind_key t k a (a + int (length (frame d))) (s\<lparr>kv_dir := d'\<rparr>) = (s', None)"
      "kv_inv t s'" "kv_abs s' t = (kv_abs s t)(k \<mapsto> d)"
    using save_core[OF assms(1,4) w(2)] by blast
  then show ?thesis
    using w(1) parseArgs_path[OF assms(2,3), of "''save''"] by (simp add: route_AsyncSave_def Let_def)
qed

lemma read_http:
  assumes inv: "kv_inv t s" and p: "CHR ''/'' \<notin> set t" "CHR ''/'' \<notin> set k"
  shows "\<exists>s'. route_AsyncRead env (http_get (''/'' @ ''read'' @ ''/'' @ t @ ''/'' @ k)) s =
      (s', Reply (case kv_abs s t k of Some d \<Rightarrow> http_ok d
         | None \<Rightarrow> (case env_remote env of None \<Rightarrow> http_error 404
             | Some f \<Rightarrow> (let res = f (read_request env t k)
                          in if nm_Finished res then http_ok (nm_Content res) else http_error 404))))
    \<and> kv_inv t s' \<and> kv_abs s' t = kv_abs s t"
proof -
  obtain s1 idx where m: "kv_index s1 t = Some idx" "kv_inv t s1" "kv_abs s1 t = kv_abs s t"
    "get_meta t k s = (s1, case loadEntry idx k of None \<Rightarrow> Inl KeyNotFound | Some e \<Rightarrow> Inr (entryToOutput k e))"
    "loadEntry idx k = None \<longleftrightarrow> kv_abs s t k = None"
    by (rule get_meta_inv[OF inv, where k = k])
  note path = parseArgs_path[OF p, of "''read''"]
  show ?thesis
  proof (cases "loadEntry idx k")
    case None
    then show ?thesis using m path by (simp add: route_AsyncRead_def Let_def split: option.split)
  next
    case (Some e)
    obtain d' d where r: "with_dir (readDataFromFileAsync (env_it env) t (e_start e) (e_end e)) s1 =
        (s1\<lparr>kv_dir := d'\<rparr>, Reply (Inr (frame d)))"
      "kv_abs s1 t k = Some d" "kv_fits d" "kv_inv t (s1\<lparr>kv_dir := d'\<rparr>)" "kv_abs (s1\<lparr>kv_dir := d'\<rparr>) t = kv_abs s1 t"
      using read_async_core[OF m(2,1) Some] by blast
    obtain rr where "decode (frame d) = Ret rr" "dec_data rr = d" using decode_frame_fits[OF r(3)] by blast
    then show ?thesis
      using r m Some path by (simp add: route_AsyncRead_def entryToOutput_def Let_def)
  qed
qed

lemma free_http:
  assumes inv: "kv_inv t s" and p: "CHR ''/'' \<notin> set t" "CHR ''/'' \<notin> set k"
  shows "\<exists>s'. route_Free (http_get (''/'' @ ''free'' @ ''/'' @ t @ ''/'' @ k)) s =
      (s', Reply (if kv_abs s t k = None then http_error 404 else http_ok (bytes_of_string ''free'')))
    \<and> kv_inv t s' \<and> kv_abs s' t = (kv_abs s t)(k := None)"
proof -
  obtain s1 idx where m: "kv_index s1 t = Some idx" "kv_inv t s1" "kv_abs s1 t = kv_abs s t"
    "get_meta t k s = (s1, case loadEntry idx k of None \<Rightarrow> Inl KeyNotFound | Some e \<Rightarrow> Inr (entryToOutput k e))"
    "loadEntry idx k = None \<longleftrightarrow> kv_abs s t k = None"
    by (rule get_meta_inv[OF inv, where k = k])
  note path = parseArgs_path[OF p, of "''free''"]
  show ?thesis
  proof (cases "loadEntry idx k")
    case None
    then have "kv_abs s t k = None" using m(5) by simp
    then show ?thesis using m(2,3,4) None path by (simp add: route_Free_def Let_def fun_upd_idem)
  next
    case (Some e)
    then obtain d where "kv_abs s t k = Some d" using m(5) by auto
    then show ?thesis
      using m Some path free_core[OF m(2,1) Some] by (simp add: route_Free_def entryToOutput_def Let_def)
  qed
qed

definition plain :: "string \<Rightarrow> bool" where
  "plain w \<longleftrightarrow> w \<noteq> [] \<and> CHR ''/'' \<notin> set w"

definition cmd_ok :: "string \<Rightarrow> kv_cmd \<Rightarrow> bool" where
  "cmd_ok t c \<longleftrightarrow> plain t \<and> plain (cmd_key c) \<and> cmd_fits c"

text \<open>A library read is refused while the network manager is not initialized.\<close>

fun lib_spec :: "kv_env \<Rightarrow> string \<Rightarrow> kv_cmd \<Rightarrow> (string \<rightharpoonup> bytes) \<Rightarrow> (string \<rightharpoonup> bytes) \<times> kv_reply" where
  "lib_spec env t (Get k) m = (m, if env_remote env = None then Refused
      else snd (map_exec (ask_peers env t) (Get k) m))"
| "lib_spec env t c m = map_exec (ask_peers env t) c m"

interpretation lib: table_front t "cmd_ok t" "lib_exec env t" "lib_spec env t"
proof
  fix s c assume inv: "kv_inv t s" and ok: "cmd_ok t c"
  show "kv_inv t (fst (lib_exec env t c s)) \<and>
    lib_spec env t c (kv_abs s t) = (kv_abs (fst (lib_exec env t c s)) t, snd (lib_exec env t c s))"
  proof (cases c)
    case (Put k d)
    then show ?thesis using save_lib[OF inv, of k d env] ok by (auto simp: cmd_ok_def plain_def)
  next
    case (Get k)
    show ?thesis
    proof (cases "env_remote env")
      case None
      then show ?thesis using Get inv by (simp add: export_Read_def)
    next
      case (Some f)
      obtain s' where "export_Read env k t s = (s', Reply (case kv_abs s t k of Some d \<Rightarrow> Inr d
          | None \<Rightarrow> (let res = f (read_request env t k) in if nm_Finished res then Inr (nm_Content res) else Inl NotFound)))"
        "kv_inv t s'" "kv_abs s' t = kv_abs s t"
        using read_lib[OF inv Some, of k] by blast
      then show ?thesis
        using Get Some by (simp add: ask_peers_def Let_def split: option.split)
    qed
  next
    case (Del k)
    then show ?thesis using free_lib[OF inv, of k] by auto
  qed
qed

interpretation http: table_front t "cmd_ok t" "http_exec env t" "map_exec (ask_peers env t)"
proof
  fix s c assume inv: "kv_inv t s" and ok: "cmd_ok t c"
  show "kv_inv t (fst (http_exec env t c s)) \<and>
    map_exec (ask_peers env t) c (kv_abs s t) = (kv_abs (fst (http_exec env t c s)) t, snd (http_exec env t c s))"
  proof (cases c)
    case (Put k d)
    then show ?thesis using save_http[OF inv, of k d env] ok
      by (auto simp: cmd_ok_def plain_def of_status_def simp del: append.simps)
  next
    case (Get k)
    obtain s' where e: "route_AsyncRead env (http_get (''/'' @ ''read'' @ ''/'' @ t @ ''/'' @ k)) s =
      (s', Reply (case kv_abs s t k of Some d \<Rightarrow> http_ok d
         | None \<Rightarrow> (case env_remote env of None \<Rightarrow> http_error 404
             | Some f \<Rightarrow> (let res = f (read_request env t k)
                          in if nm_Finished res then http_ok (nm_Content res) else http_error 404))))"
      "kv_inv t s'" "kv_abs s' t = kv_abs s t"
      using read_http[OF inv, of k env] ok Get by (auto simp: cmd_ok_def plain_def simp del: append.simps)
    show ?thesis
      unfolding Get http_exec.simps e(1) using e(2,3)
      by (simp add: of_status_def ask_peers_def Let_def split: option.split)
  next
    case (Del k)
    then show ?thesis using free_http[OF inv, of k] ok
      by (auto simp: cmd_ok_def plain_def of_status_def simp del: append.simps)
  qed
qed

interpretation peer: table_front t "cmd_ok t" "peer_exec env t" "map_exec (\<lambda>_. Missing)"
proof
  fix s c assume inv: "kv_inv t s" and ok: "cmd_ok t c"
  then have n: "t \<noteq> []" "cmd_key c \<noteq> []" by (auto simp: cmd_ok_def plain_def)
  have a: "nm_Args (peer_request x t k d) = [t, k]" "nm_Content (peer_request x t k d) = d" for x k d
    by (simp_all add: peer_request_def)
  have nf: "\<not> nm_Finished nm_empty" by (simp add: nm_empty_def)
  show "kv_inv t (fst (peer_exec env t c s)) \<and>
    map_exec (\<lambda>_. Missing) c (kv_abs s t) = (kv_abs (fst (peer_exec env t c s)) t, snd (peer_exec env t c s))"
  proof (cases c)
    case (Put k d)
    then show ?thesis
      using save_peer[OF inv, of k "peer_request ''save'' t k d" env] n ok a by (auto simp: cmd_ok_def)
  next
    case (Get k)
    then have kn: "k \<noteq> []" using n by simp
    obtain s' where e: "task_Read env (peer_request ''read'' t k []) s = (s', Reply (case kv_abs s t k of
        Some d \<Rightarrow> (peer_request ''read'' t k [])\<lparr>nm_Content := d, nm_Finished := True\<rparr> | None \<Rightarrow> nm_empty))"
      "kv_inv t s'" "kv_abs s' t = kv_abs s t"
      using read_peer[OF inv kn n(1) a(1), of env "''read''" "[]"] by blast
    show ?thesis
      unfolding Get peer_exec.simps e(1) using e(2,3) nf by (simp split: option.split)
  next
    case (Del k)
    then have kn: "k \<noteq> []" using n by simp
    obtain s' where e: "task_Free (peer_request ''free'' t k []) s =
        (s', Reply (if kv_abs s t k = None then nm_empty else (peer_request ''free'' t k [])\<lparr>nm_Finished := True\<rparr>))"
      "kv_inv t s'" "kv_abs s' t = (kv_abs s t)(k := None)"
      using free_peer[OF inv kn n(1) a(1), of "''free''" "[]"] by blast
    show ?thesis
      unfolding Del peer_exec.simps e(1) using e(2,3) nf by simp
  qed
qed
section \<open>All fronts together\<close>

datatype front = Lib | Http | Peer

fun any_exec :: "kv_env \<Rightarrow> string \<Rightarrow> front \<times> kv_cmd \<Rightarrow> kv \<Rightarrow> kv \<times> kv_reply" where
  "any_exec env t (Lib, c) = lib_exec env t c"
| "any_exec env t (Http, c) = http_exec env t c"
| "any_exec env t (Peer, c) = peer_exec env t c"

fun any_spec :: "kv_env \<Rightarrow> string \<Rightarrow> front \<times> kv_cmd \<Rightarrow> (string \<rightharpoonup> bytes) \<Rightarrow> (string \<rightharpoonup> bytes) \<times> kv_reply" where
  "any_spec env t (Lib, c) = lib_spec env t c"
| "any_spec env t (Http, c) = map_exec (ask_peers env t) c"
| "any_spec env t (Peer, c) = map_exec (\<lambda>_. Missing) c"

interpretation fronts: table_front t "\<lambda>c. cmd_ok t (snd c)" "any_exec env t" "any_spec env t"
proof
  fix s :: kv and c :: "front \<times> kv_cmd" assume a: "kv_inv t s" "cmd_ok t (snd c)"
  obtain f c' where c: "c = (f, c')" by fastforce
  show "kv_inv t (fst (any_exec env t c s)) \<and>
    any_spec env t c (kv_abs s t) = (kv_abs (fst (any_exec env t c s)) t, snd (any_exec env t c s))"
    using a lib.step[of t s c' env] http.step[of t s c' env] peer.step[of t s c' env] c by (cases f) simp_all
qed

lemma any_spec_other: "cmd_key (snd c) \<noteq> k \<Longrightarrow> fst (any_spec env t c m) k = m k"
proof -
  assume a: "cmd_key (snd c) \<noteq> k"
  obtain f c' where c: "c = (f, c')" by fastforce
  show ?thesis using a unfolding c by (cases f; cases c') auto
qed

lemma runs_other:
  "(\<And>c. c \<in> set cs \<Longrightarrow> cmd_key (snd c) \<noteq> k) \<Longrightarrow> fst (run_cmds (any_spec env t) cs m) k = m k"
proof (induction cs arbitrary: m)
  case (Cons c cs)
  have "fst (run_cmds (any_spec env t) cs m') k = m' k" for m' using Cons by simp
  moreover have "fst (any_spec env t c m) k = m k" using Cons.prems by (intro any_spec_other) simp
  ultimately show ?case by (simp add: split_beta)
qed simp

section \<open>A new store\<close>

definition fresh_kv :: kv where
  "fresh_kv = \<lparr>kv_dir = demo_dir, kv_maps = \<lparr>mm_registry = Map.empty, mm_cache = None, mm_fs = empty_fs\<rparr>,
     kv_outbox = [], kv_freed = 0, kv_skipped = 0\<rparr>"

lemma fresh_index: "trim_space t \<noteq> [] \<Longrightarrow> kv_index fresh_kv t = Some (emptyIndex t)"
  by (simp add: mm_index_def getTableIndex_def normalizeTableName_def fresh_kv_def newTableIndex_def
      empty_fs_def loadIndex_def importFromLegacy_def loadSnapshot_def applyWalFile_def read_lines_def setupWalWriter_def Let_def)

lemma emptyIndex_load: "loadEntry (emptyIndex t) k = None"
  by (simp add: loadEntry_def emptyIndex_def numShards_def getShard_def)
lemma fresh_spans: "free_spans t init_defrag = {}" "free_ok t init_defrag"
  by (simp_all add: free_spans_def free_ok_def table_blocks_def init_defrag_def getTableFreeList_def
      fl_load_def Let_def split: sum.split)

lemma fresh_inv:
  assumes "trim_space t \<noteq> []"
  shows "kv_inv t fresh_kv" "kv_abs fresh_kv t = Map.empty"
proof -
  have "live_spans (emptyIndex t) = Map.empty" by (simp add: live_spans_def fun_eq_iff)
  moreover have "dd_ready demo_dir p" for p by (simp add: dd_ready_def demo_dir_def)
  moreover have "dd_defrag demo_dir = init_defrag" by (simp add: demo_dir_def)
  moreover have "kv_dir fresh_kv = demo_dir" by (simp add: fresh_kv_def)
  ultimately show "kv_inv t fresh_kv"
    unfolding kv_inv_def
    by (auto simp: fresh_index[OF assms] defrag_pool.separated_def fresh_spans)
  show "kv_abs fresh_kv t = Map.empty"
    by (simp add: fun_eq_iff kv_abs_index[OF fresh_index[OF assms]])
qed

section \<open>Encrypted calls\<close>

lemma save_encrypted_lib:
  assumes inv: "kv_inv t s" and e: "encrypt (env_aead env) rnd d pw = Ret (Inr ct)" and fits: "kv_fits ct"
  shows "\<exists>s'. export_SaveEncrypted env rnd k t pw d s = (s', Reply None)
    \<and> kv_inv t s' \<and> kv_abs s' t = (kv_abs s t)(k \<mapsto> ct)"
proof -
  obtain d' a where w: "with_dir (saveDataToFileAsync (env_it env) (frame ct) t) s =
      (s\<lparr>kv_dir := d'\<rparr>, Reply (a, a + int (length (frame ct)), None))" "wrote env t (frame ct) (kv_dir s) d' a"
    using wrote_async[OF inv fits] by blast
  obtain s' where "bind_key t k a (a + int (length (frame ct))) (s\<lparr>kv_dir := d'\<rparr>) = (s', None)"
      "kv_inv t s'" "kv_abs s' t = (kv_abs s t)(k \<mapsto> ct)"
    using save_core[OF inv fits w(2)] by blast
  then show ?thesis using w(1) e by (simp add: export_SaveEncrypted_def)
qed

lemma read_encrypted_local:
  assumes inv: "kv_inv t s" and a: "kv_abs s t k = Some ct" and dec: "decrypt (env_aead env) ct pw = Ret (Inr d)"
    and rem: "env_remote env \<noteq> None"
  shows "\<exists>s'. export_ReadEncrypted env k t pw s = (s', Reply (Inr d)) \<and> kv_inv t s' \<and> kv_abs s' t = kv_abs s t"
    and "\<lbrakk>plain t; plain k; rq_header r ''encryption_key'' = pw; pw \<noteq> []; rq_method r = ''GET'';
      rq_path r = ''/'' @ ''read_encrypted'' @ ''/'' @ t @ ''/'' @ k\<rbrakk> \<Longrightarrow>
      \<exists>s'. route_ReadEncrypted env r s = (s', Reply (http_ok d)) \<and> kv_inv t s' \<and> kv_abs s' t = kv_abs s t"
proof -
  obtain s1 idx where m: "kv_index s1 t = Some idx" "kv_inv t s1" "kv_abs s1 t = kv_abs s t"
    "get_meta t k s = (s1, case loadEntry idx k of None \<Rightarrow> Inl KeyNotFound | Some e \<Rightarrow> Inr (entryToOutput k e))"
    "loadEntry idx k = None \<longleftrightarrow> kv_abs s t k = None"
    by (rule get_meta_inv[OF inv, where k = k])
  obtain e where e: "loadEntry idx k = Some e" using m(5) a by fastforce
  obtain f where f: "env_remote env = Some f" using rem by blast
  obtain d' d0 where r: "with_dir (dd_v1_read t (e_start e) (e_end e)) s1 =
      (s1\<lparr>kv_dir := d'\<rparr>, Reply (Inr (frame d0)))"
    "kv_abs s1 t k = Some d0" "kv_fits d0" "kv_inv t (s1\<lparr>kv_dir := d'\<rparr>)" "kv_abs (s1\<lparr>kv_dir := d'\<rparr>) t = kv_abs s1 t"
    using read_v1_core[OF m(2,1) e] by blast
  then have d0: "d0 = ct" using m(3) a by simp
  obtain rr where rr: "decode (frame d0) = Ret rr" "dec_data rr = d0" using decode_frame_fits[OF r(3)] by blast
  show "\<exists>s'. export_ReadEncrypted env k t pw s = (s', Reply (Inr d)) \<and> kv_inv t s' \<and> kv_abs s' t = kv_abs s t"
    using r m e f rr d0 dec by (simp add: export_ReadEncrypted_def decrypt_reply_def entryToOutput_def)
  show "\<exists>s'. route_ReadEncrypted env r s = (s', Reply (http_ok d)) \<and> kv_inv t s' \<and> kv_abs s' t = kv_abs s t"
    if "plain t" "plain k" "rq_header r ''encryption_key'' = pw" "pw \<noteq> []" "rq_method r = ''GET''"
      "rq_path r = ''/'' @ ''read_encrypted'' @ ''/'' @ t @ ''/'' @ k" for r
  proof -
    have "parseArgs (rq_path r) ''read_encrypted'' = [[], ''read_encrypted'', t, k]"
      using that(1,2) parseArgs_path[of t k "''read_encrypted''"] unfolding that(6) plain_def by blast
    then show ?thesis
      using r(1,4,5) m e f rr d0 dec that by (simp add: route_ReadEncrypted_def Let_def entryToOutput_def)
  qed
qed
section \<open>The first read call\<close>

text \<open>
  \<open>ReadElement\<close> of \<open>fileSystem/v1/fs.go\<close>, which nothing calls any more: it reads from the one table of the
  first version and skips two bytes as the version's header.
\<close>

definition readElement :: "string \<Rightarrow> kv \<Rightarrow> (kv_error + bytes) kv_call" where
  "readElement key s =
     (case get_meta ''data.bin'' key s of
        (s, Inl e) \<Rightarrow> (s, Reply (Inl (MapFailed e)))
      | (s, Inr element) \<Rightarrow>
          (let startPtrCorrected = ge_StartPtr element + 2
           in kv_bind (with_dir (dd_v1_read ''data.bin'' startPtrCorrected (ge_EndPtr element)) s)
                (\<lambda>s r. (s, Reply (case r of Inl e \<Rightarrow> Inl (FileFailed e) | Inr data \<Rightarrow> Inr data)))))"

lemma pread_drop: "a + n \<le> length f \<Longrightarrow> k \<le> n \<Longrightarrow> pread f (a + k) (n - k) = drop k (pread f a n)"
  by (simp add: pread_def drop_take add.commute)

text \<open>It returns what is left of the frame, not the value.\<close>

lemma legacy_read_keeps_header:
  assumes inv: "kv_inv ''data.bin'' s" and a: "kv_abs s ''data.bin'' k = Some d"
  shows "\<exists>s'. readElement k s = (s', Reply (Inr (drop 2 (frame d)))) \<and> drop 2 (frame d) \<noteq> d"
proof -
  obtain s1 idx where m: "kv_index s1 ''data.bin'' = Some idx" "kv_inv ''data.bin'' s1" "kv_abs s1 ''data.bin'' = kv_abs s ''data.bin''"
    "get_meta ''data.bin'' k s = (s1, case loadEntry idx k of None \<Rightarrow> Inl KeyNotFound | Some e \<Rightarrow> Inr (entryToOutput k e))"
    "loadEntry idx k = None \<longleftrightarrow> kv_abs s ''data.bin'' k = None"
    by (rule get_meta_inv[OF inv, where k = k])
  obtain e where e: "loadEntry idx k = Some e" using m(5) a by fastforce
  let ?c = "kv_file s1 ''data.bin''" and ?p = "data_path ''data.bin''"
  obtain d' where d': "stored s1 ''data.bin'' e = frame d'" "kv_abs s1 ''data.bin'' k = Some d'"
    "0 \<le> e_start e" "e_start e < e_end e" "e_end e \<le> int (length ?c)" "e_end e - e_start e \<le> max_alloc"
    "dd_exists (kv_dir s1) ?p"
    using held[OF m(2,1) e] by blast
  then have d: "stored s1 ''data.bin'' e = frame d" using m(3) a by simp
  have len: "nat (e_end e - e_start e) = length (frame d)"
    using d by (metis length_pread stored_def)
  then have n: "4 \<le> e_end e - e_start e" using length_frame_ge[of d] by linarith
  have st: "pread ?c (nat (e_start e + 2)) (nat (e_end e - (e_start e + 2))) = drop 2 (frame d)"
  proof -
    have x: "nat (e_start e + 2) = nat (e_start e) + 2" "nat (e_end e - (e_start e + 2)) = nat (e_end e - e_start e) - 2"
      using d'(3) n by linarith+
    have b: "nat (e_start e) + nat (e_end e - e_start e) \<le> length ?c" "2 \<le> nat (e_end e - e_start e)"
      using d'(3-5) n by linarith+
    show ?thesis using pread_drop[OF b] d unfolding x stored_def by simp
  qed
  have h: "healthy (dd_files (kv_dir s1) ?p)" using m(2) by (simp add: kv_inv_def dd_ready_def)
  have lim: "0 \<le> e_start e + 2" "e_start e + 2 < e_end e" "e_end e - (e_start e + 2) \<le> max_alloc"
    using d' n by linarith+
  obtain f where f: "v1_ReadDataFromFile True (e_start e + 2) (e_end e) (dd_files (kv_dir s1) ?p) = (f, Done (drop 2 (frame d)))"
    by (rule run_ok_Done[OF run_ok_v1_read[OF lim(1,2) d'(5) lim(3), unfolded st] h refl])
  have "length (drop 2 (frame d)) \<noteq> length d" using pointer_size_range[of "2 + length d"] by (auto simp: length_frame)
  then have ne: "drop 2 (frame d) \<noteq> d" by metis
  show ?thesis
    using m(4) e f d'(7) ne
    by (simp add: readElement_def entryToOutput_def with_dir_def dd_v1_read_def Let_def)
qed

section \<open>Properties\<close>

text \<open>
  The key-value store refines a finite map per table. On a table in order, any sequence of saves,
  reads and frees that the library, the HTTP server and peers issue in any interleaving gives the
  replies of the map the table stands for, leaves the table in order and standing for the map after
  the sequence; a read of an absent key asks the other servers, except for a peer's. Table and key
  names are not empty and hold no slash, and values fit in memory.
\<close>

theorem kv_trace_refines:
  assumes "kv_inv t s" and "\<And>c. c \<in> set cs \<Longrightarrow> cmd_ok t (snd c)"
  shows "\<exists>s' replies. run_cmds (any_exec env t) cs s = (s', replies) \<and> kv_inv t s'
    \<and> run_cmds (any_spec env t) cs (kv_abs s t) = (kv_abs s' t, replies)"
  using fronts.runs_refine[OF assms] by (metis prod.collapse)

definition demo_env :: kv_env where
  "demo_env = \<lparr>env_it = (\<lambda>xs. xs), env_mit = (\<lambda>xs. xs), env_compile = (\<lambda>_. None),
     env_aead = \<lparr>seal = (\<lambda>k n p. p @ take 2 k), open_gcm = (\<lambda>k n c. Some (take (length c - 2) c)),
                 nonceSize = 1\<rparr>,
     env_serverIP = ''me'', env_remote = Some (\<lambda>m. m)\<rparr>"

definition demo_cmds :: "(front \<times> kv_cmd) list" where
  "demo_cmds = [(Http, Put ''k'' [1, 2]), (Peer, Put ''k'' [3]), (Lib, Get ''k''), (Http, Del ''k''), (Peer, Get ''k'')]"

lemma kv_trace_refines_witness:
  "\<exists>s'. run_cmds (any_exec demo_env ''t'') demo_cmds fresh_kv
    = (s', [Stored, Stored, Value [3], Freed, Missing])"
proof -
  have inv: "kv_inv ''t'' fresh_kv" "kv_abs fresh_kv ''t'' = Map.empty" by (rule fresh_inv, code_simp)+
  have ok: "cmd_ok ''t'' (snd c)" if "c \<in> set demo_cmds" for c
    using that by (auto simp: demo_cmds_def cmd_ok_def plain_def kv_fits_def max_alloc_def)
  have "snd (run_cmds (any_spec demo_env ''t'') demo_cmds Map.empty) = [Stored, Stored, Value [3], Freed, Missing]"
    by (simp add: demo_cmds_def demo_env_def)
  then show ?thesis
    using kv_trace_refines[OF inv(1) ok, of demo_cmds demo_env] inv(2) by (metis snd_conv)
qed

text \<open>
  C20: An encrypted save survives whatever the fronts do to other keys: the encrypted read with the same
  password, through the library or the HTTP server, returns the plaintext.
\<close>

theorem encrypted_value_survives:
  assumes "kv_inv t s" "aead_ok (env_aead env)" "pw \<noteq> []" "length nonce = nonceSize (env_aead env)"
    and "\<And>ct. encrypt (env_aead env) (Some nonce) d pw = Ret (Inr ct) \<Longrightarrow> kv_fits ct"
    and "plain t" "plain k" "env_remote env \<noteq> None"
    and "\<And>c. c \<in> set cs \<Longrightarrow> cmd_ok t (snd c) \<and> cmd_key (snd c) \<noteq> k"
    and "rq_header r ''encryption_key'' = pw" "rq_method r = ''GET''"
    and "rq_path r = ''/'' @ ''read_encrypted'' @ ''/'' @ t @ ''/'' @ k"
  shows "\<exists>s1 s2 s3 s4. export_SaveEncrypted env (Some nonce) k t pw d s = (s1, Reply None)
    \<and> fst (run_cmds (any_exec env t) cs s1) = s2
    \<and> export_ReadEncrypted env k t pw s2 = (s3, Reply (Inr d))
    \<and> route_ReadEncrypted env r s2 = (s4, Reply (http_ok d))"
proof -
  obtain key where "deriveKey pw = Ret key" using deriveKey_total assms(3) by blast
  then obtain ct where e: "encrypt (env_aead env) (Some nonce) d pw = Ret (Inr ct)" by (simp add: encrypt_def)
  have dec: "decrypt (env_aead env) ct pw = Ret (Inr d)"
    using decrypt_encrypt[OF assms(2,3,4), of d] e by simp
  obtain s1 where s1: "export_SaveEncrypted env (Some nonce) k t pw d s = (s1, Reply None)"
    "kv_inv t s1" "kv_abs s1 t = (kv_abs s t)(k \<mapsto> ct)"
    using save_encrypted_lib[OF assms(1) e assms(5)[OF e]] by blast
  let ?s2 = "fst (run_cmds (any_exec env t) cs s1)"
  have s2: "kv_inv t ?s2" "fst (run_cmds (any_spec env t) cs (kv_abs s1 t)) = kv_abs ?s2 t"
    using fronts.runs_refine[OF s1(2), of cs env] assms(9) by simp_all
  have "kv_abs ?s2 t k = kv_abs s1 t k"
    using runs_other[of cs k env t "kv_abs s1 t"] assms(9) s2(2) by simp
  then have a: "kv_abs ?s2 t k = Some ct" using s1(3) by simp
  show ?thesis
    using s1(1) read_encrypted_local(1)[OF s2(1) a dec assms(8)]
      read_encrypted_local(2)[OF s2(1) a dec assms(8,6,7,10,3,11,12)] by blast
qed

lemma encrypted_value_survives_witness:
  "\<exists>s1 s2 s3. export_SaveEncrypted demo_env (Some [9]) ''k'' ''t'' ''pw'' [1, 2, 3] fresh_kv = (s1, Reply None)
    \<and> fst (run_cmds (any_exec demo_env ''t'') [(Http, Put ''j'' [5])] s1) = s2
    \<and> export_ReadEncrypted demo_env ''k'' ''t'' ''pw'' s2 = (s3, Reply (Inr [1, 2, 3]))"
proof -
  have inv: "kv_inv ''t'' fresh_kv" by (rule fresh_inv) code_simp
  have fits: "kv_fits ct" if "encrypt (env_aead demo_env) (Some [9]) [1, 2, 3] ''pw'' = Ret (Inr ct)" for ct
  proof -
    obtain key where "deriveKey ''pw'' = Ret key" using deriveKey_total by blast
    then have "length ct \<le> 6" using that by (auto simp: encrypt_def demo_env_def)
    then show ?thesis by (simp add: kv_fits_def max_alloc_def)
  qed
  show ?thesis
    using encrypted_value_survives[OF inv, of demo_env "''pw''" "[9]" "[1, 2, 3]" "''k''" "[(Http, Put ''j'' [5])]"
        "(http_get ''/read_encrypted/t/k'')\<lparr>rq_header := (\<lambda>_. ''pw'')\<rparr>", OF _ _ _ fits]
    by (auto simp: aead_ok_def demo_env_def plain_def cmd_ok_def kv_fits_def max_alloc_def)
qed

text \<open>
  The guards of the read, free and encrypted routes test for fewer than two path parts, which never
  happens: a request whose path names a table and no key panics when the key is taken.
\<close>

theorem one_segment_path_panics:
  assumes "CHR ''/'' \<notin> set w"
  shows "route_AsyncRead env (http_get (''/'' @ ''read'' @ ''/'' @ w)) s = (s, Panics)
    \<and> route_Free (http_get (''/'' @ ''free'' @ ''/'' @ w)) s = (s, Panics)
    \<and> route_ReadEncrypted env (http_get (''/'' @ ''read_encrypted'' @ ''/'' @ w)) s = (s, Panics)
    \<and> route_SaveEncrypted env rnd (http_post (''/'' @ ''save_encrypted'' @ ''/'' @ w) d) s = (s, Panics)
    \<and> route_AsyncSave env (http_post (''/'' @ ''save'' @ ''/'' @ w) d) s = (s, Reply (http_error 400))"
proof -
  have "trim_prefix ((''/'' @ ep @ ''/'') @ w) (''/'' @ ep @ ''/'') = w" for ep
    by (rule trim_prefix_append)
  then have p: "parseArgs (''/'' @ ep @ ''/'' @ w) ep = [[], ep, w]" for ep
    using assms by (simp add: parseArgs_def split_char_clean)
  have k: "table_and_key [a, b, c] s f = (s, Panics)" for a b c f
    by (simp add: table_and_key_def go_index_def kv_lift_def)
  show ?thesis
    unfolding route_AsyncRead_def route_Free_def route_ReadEncrypted_def route_SaveEncrypted_def
      route_AsyncSave_def http_simps p Let_def k by simp
qed

lemma one_segment_path_panics_witness:
  "route_Free (http_get ''/free/users'') fresh_kv = (fresh_kv, Panics)"
  using one_segment_path_panics[of "''users''" demo_env fresh_kv] by simp

end
