(* ===== verification/Inc_Index.thy ===== *)
theory Inc_Index
  imports Go_Strings
begin

text \<open>
  The entry-key index of the incremental tables (\<open>data/incIndex/index.go\<close>): per table file a slice
  of keys by position (the empty string where a position has no key) and the map from keys to
  positions, both in memory, and the slice as JSON on disk. The JSON file is modelled by what
  unmarshalling it gives, with keys as \<open>encoding/json\<close> leaves them; reads and writes of it may fail. \<open>ix_locked\<close> marks the files that cannot be
  written or removed.
\<close>

section \<open>State and operations\<close>

record pos_index =
  px_keys :: "string list"
  px_positions :: "string \<Rightarrow> u64 option"

datatype idx_file = NoFile | EmptyFile | Payload "string list" | BadJson | Unreadable

datatype idx_error = DuplicateKey | IdxReadFailed | IdxJsonFailed | IdxWriteFailed

record idx_state =
  ix_indices :: "string \<Rightarrow> pos_index option"
  ix_disk :: "string \<Rightarrow> idx_file"
  ix_locked :: "string \<Rightarrow> bool"

definition empty_pos_index :: pos_index where
  "empty_pos_index = \<lparr>px_keys = [], px_positions = Map.empty\<rparr>"

text \<open>The loops \<open>for i, key := range keys\<close> that record the positions of the keys that are not empty.\<close>

fun note_positions :: "nat \<Rightarrow> string list \<Rightarrow> (string \<Rightarrow> u64 option) \<Rightarrow> (string \<Rightarrow> u64 option)" where
  "note_positions i [] m = m"
| "note_positions i (k # ks) m =
     note_positions (Suc i) ks (if k = [] then m else m(k \<mapsto> word_of_nat i))"

definition px_load :: "idx_file \<Rightarrow> idx_error + pos_index" where
  "px_load f = (case f of
      NoFile \<Rightarrow> Inr empty_pos_index
    | EmptyFile \<Rightarrow> Inr empty_pos_index
    | Unreadable \<Rightarrow> Inl IdxReadFailed
    | BadJson \<Rightarrow> Inl IdxJsonFailed
    | Payload ks \<Rightarrow> Inr \<lparr>px_keys = ks, px_positions = note_positions 0 ks Map.empty\<rparr>)"

definition getIndex :: "idx_state \<Rightarrow> string \<Rightarrow> idx_state \<times> (idx_error + pos_index)" where
  "getIndex st tableFile =
     (case ix_indices st tableFile of
        Some idx \<Rightarrow> (st, Inr idx)
      | None \<Rightarrow>
          (case px_load (ix_disk st tableFile) of
             Inl e \<Rightarrow> (st, Inl e)
           | Inr idx \<Rightarrow> (st\<lparr>ix_indices := (ix_indices st)(tableFile \<mapsto> idx)\<rparr>, Inr idx)))"

text \<open>The index object is shared: its new value is in memory even when writing the file fails.\<close>

definition saveLocked :: "idx_state \<Rightarrow> string \<Rightarrow> pos_index \<Rightarrow> idx_state \<times> idx_error option" where
  "saveLocked st tableFile idx =
     (let st1 = st\<lparr>ix_indices := (ix_indices st)(tableFile \<mapsto> idx)\<rparr>
      in if ix_locked st1 tableFile then (st1, Some IdxWriteFailed)
         else (st1\<lparr>ix_disk := (ix_disk st1)(tableFile := Payload (map json_string (px_keys idx)))\<rparr>, None))"

definition ensureLength :: "u64 \<Rightarrow> string list \<Rightarrow> string list" where
  "ensureLength len ks = ks @ replicate (unat len - length ks) []"

definition reindexFrom :: "u64 \<Rightarrow> pos_index \<Rightarrow> pos_index" where
  "reindexFrom pos idx =
     (let p = min (unat pos) (length (px_keys idx))
      in idx\<lparr>px_positions := note_positions p (drop p (px_keys idx)) (px_positions idx)\<rparr>)"

text \<open>\<open>copy(xs[d:], xs[s:])\<close> within one slice.\<close>

definition copy_within :: "nat \<Rightarrow> nat \<Rightarrow> 'a list \<Rightarrow> 'a list" where
  "copy_within d s xs =
     (let moved = take (length xs - d) (drop s xs)
      in take d xs @ moved @ drop (d + length moved) xs)"

definition px_insert :: "u64 \<Rightarrow> string \<Rightarrow> pos_index \<Rightarrow> pos_index" where
  "px_insert pos key idx =
     (let ks = ensureLength pos (px_keys idx) @ [[]];
          ks1 = copy_within (unat pos + 1) (unat pos) ks
      in reindexFrom pos (idx\<lparr>px_keys := ks1[unat pos := key]\<rparr>))"

text \<open>
  The operations return the state and an error if any; \<open>ix_insert\<close> is \<open>Insert\<close>, \<open>ix_set\<close> is \<open>Set\<close>.
  \<open>Set\<close> indexes the slice after growing it to \<open>pos + 1\<close>, which wraps for the largest position.
\<close>

definition ix_insert :: "string \<Rightarrow> u64 \<Rightarrow> string \<Rightarrow> idx_state \<Rightarrow> idx_state \<times> idx_error option" where
  "ix_insert tableFile pos key st =
     (if key = [] then (st, None)
      else (case getIndex st tableFile of
              (st, Inl e) \<Rightarrow> (st, Some e)
            | (st, Inr idx) \<Rightarrow>
                if px_positions idx key \<noteq> None then (st, Some DuplicateKey)
                else saveLocked st tableFile (px_insert pos key idx)))"

definition ix_set :: "string \<Rightarrow> u64 \<Rightarrow> string \<Rightarrow> idx_state \<Rightarrow> (idx_state \<times> idx_error option) outcome" where
  "ix_set tableFile pos key st =
     (if key = [] then Ret (st, None)
      else (case getIndex st tableFile of
              (st, Inl e) \<Rightarrow> Ret (st, Some e)
            | (st, Inr idx) \<Rightarrow>
                (let ks = ensureLength (pos + 1) (px_keys idx); idx1 = idx\<lparr>px_keys := ks\<rparr>;
                     st1 = st\<lparr>ix_indices := (ix_indices st)(tableFile \<mapsto> idx1)\<rparr>
                 in if length ks \<le> unat pos then Panic
                    else let current = ks ! unat pos
                         in if current = key
                            then Ret (saveLocked st1 tableFile
                                   (idx1\<lparr>px_positions := (px_positions idx1)(key \<mapsto> pos)\<rparr>))
                            else if px_positions idx1 key \<noteq> None then Ret (st1, Some DuplicateKey)
                            else let m = (if current \<noteq> [] then (px_positions idx1)(current := None)
                                          else px_positions idx1)
                                 in Ret (saveLocked st1 tableFile
                                      (idx1\<lparr>px_keys := ks[unat pos := key], px_positions := m(key \<mapsto> pos)\<rparr>)))))"

definition ix_lookup :: "string \<Rightarrow> string \<Rightarrow> idx_state \<Rightarrow> idx_state \<times> (idx_error + u64 \<times> bool)" where
  "ix_lookup tableFile key st =
     (case getIndex st tableFile of
        (st, Inl e) \<Rightarrow> (st, Inl e)
      | (st, Inr idx) \<Rightarrow> (st, Inr (case px_positions idx key of Some p \<Rightarrow> (p, True) | None \<Rightarrow> (0, False))))"

definition ix_remove :: "string \<Rightarrow> string \<Rightarrow> idx_state \<Rightarrow> idx_state \<times> idx_error option" where
  "ix_remove tableFile key st =
     (if key = [] then (st, None)
      else (case getIndex st tableFile of
              (st, Inl e) \<Rightarrow> (st, Some e)
            | (st, Inr idx) \<Rightarrow>
                (case px_positions idx key of
                   None \<Rightarrow> (st, None)
                 | Some pos \<Rightarrow>
                     saveLocked st tableFile
                       \<lparr>px_keys = (if unat pos < length (px_keys idx) then (px_keys idx)[unat pos := []]
                                   else px_keys idx),
                        px_positions = (px_positions idx)(key := None)\<rparr>)))"

definition ix_dropTable :: "string \<Rightarrow> idx_state \<Rightarrow> idx_state \<times> idx_error option" where
  "ix_dropTable tableFile st =
     (let st1 = st\<lparr>ix_indices := (ix_indices st)(tableFile := None)\<rparr>
      in if ix_disk st1 tableFile \<noteq> NoFile \<and> ix_locked st1 tableFile then (st1, Some IdxWriteFailed)
         else (st1\<lparr>ix_disk := (ix_disk st1)(tableFile := NoFile)\<rparr>, None))"

text \<open>A restart of the process keeps the files only.\<close>

definition ix_restart :: "idx_state \<Rightarrow> idx_state" where
  "ix_restart st = st\<lparr>ix_indices := Map.empty\<rparr>"

section \<open>The index invariant\<close>

text \<open>
  The two halves agree: a key is mapped to a position exactly when it is the non-empty key at that
  position. It follows that no key occurs twice.
\<close>

definition px_ok :: "pos_index \<Rightarrow> bool" where
  "px_ok idx \<longleftrightarrow> length (px_keys idx) < 2 ^ 63 \<and>
     (\<forall>k p. px_positions idx k = Some p \<longleftrightarrow>
        k \<noteq> [] \<and> unat p < length (px_keys idx) \<and> px_keys idx ! unat p = k)"

lemma px_okD:
  assumes "px_ok idx"
  shows "length (px_keys idx) < 2 ^ 63"
    and "px_positions idx k = Some p \<longleftrightarrow> k \<noteq> [] \<and> unat p < length (px_keys idx) \<and> px_keys idx ! unat p = k"
  using assms unfolding px_ok_def by blast+

text \<open>The keys alone determine the index.\<close>

definition keys_unique :: "string list \<Rightarrow> bool" where
  "keys_unique ks \<longleftrightarrow> (\<forall>i < length ks. \<forall>j < length ks. ks ! i = ks ! j \<longrightarrow> ks ! i = [] \<or> i = j)"

lemma keys_uniqueD: "keys_unique ks \<Longrightarrow> i < length ks \<Longrightarrow> j < length ks \<Longrightarrow> ks ! i = ks ! j \<Longrightarrow> ks ! i \<noteq> [] \<Longrightarrow> i = j"
  by (auto simp: keys_unique_def)

lemma px_ok_unique:
  assumes "px_ok idx"
  shows "keys_unique (px_keys idx)"
  unfolding keys_unique_def
proof (intro allI impI)
  fix i j assume i: "i < length (px_keys idx)" and j: "j < length (px_keys idx)" and e: "px_keys idx ! i = px_keys idx ! j"
  show "px_keys idx ! i = [] \<or> i = j"
  proof (rule disjCI)
    assume "i \<noteq> j" 
    let ?k = "px_keys idx ! i"
    note len = px_okD(1)[OF assms]
    have u: "unat (word_of_nat n :: u64) = n" if "n < length (px_keys idx)" for n
      using that len by (intro unat_u64) simp
    show "?k = []"
    proof (rule ccontr)
      assume k: "?k \<noteq> []"
      have "px_positions idx ?k = Some (word_of_nat i)" "px_positions idx ?k = Some (word_of_nat j)"
        using k i j e u by (simp_all add: px_okD(2)[OF assms])
      then have "(word_of_nat i :: u64) = word_of_nat j" by simp
      then have "unat (word_of_nat i :: u64) = unat (word_of_nat j :: u64)" by simp
      then show False using u i j \<open>i \<noteq> j\<close> by simp
    qed
  qed
qed

lemma note_positions_none:
  "k \<notin> set ks \<or> k = [] \<Longrightarrow> note_positions i ks m k = m k"
  by (induction i ks m rule: note_positions.induct) auto

lemma note_positions_some:
  "keys_unique ks \<Longrightarrow> j < length ks \<Longrightarrow> ks ! j \<noteq> [] \<Longrightarrow>
   note_positions i ks m (ks ! j) = Some (word_of_nat (i + j))"
proof (induction ks arbitrary: i j m)
  case (Cons k ks)
  have uniq: "keys_unique ks"
    unfolding keys_unique_def
  proof (intro allI impI)
    fix a b assume "a < length ks" "b < length ks" "ks ! a = ks ! b"
    then show "ks ! a = [] \<or> a = b" using keys_uniqueD[OF Cons.prems(1), of "Suc a" "Suc b"] by auto
  qed
  show ?case
  proof (cases j)
    case 0
    have "k \<notin> set ks"
    proof
      assume "k \<in> set ks"
      then obtain b where "b < length ks" "ks ! b = k" by (auto simp: in_set_conv_nth)
      then show False using keys_uniqueD[OF Cons.prems(1), of 0 "Suc b"] Cons.prems(3) 0 by auto
    qed
    then show ?thesis using 0 Cons.prems(3) by (simp add: note_positions_none)
  next
    case (Suc b)
    then show ?thesis
      using Cons.IH[OF uniq, of b "Suc i"] Cons.prems(2,3) by simp
  qed
qed simp

lemma px_ok_note:
  assumes "length ks < 2 ^ 63" "keys_unique ks"
  shows "px_ok \<lparr>px_keys = ks, px_positions = note_positions 0 ks Map.empty\<rparr>"
proof -
  have "note_positions 0 ks Map.empty k = Some p \<longleftrightarrow> k \<noteq> [] \<and> unat p < length ks \<and> ks ! unat p = k" for k p
  proof (cases "k \<in> set ks \<and> k \<noteq> []")
    case True
    then obtain j where j: "j < length ks" "ks ! j = k" by (auto simp: in_set_conv_nth)
    have n: "note_positions 0 ks Map.empty k = Some (word_of_nat j)"
      using note_positions_some[OF assms(2) j(1), of 0 Map.empty] j(2) True by simp
    have u: "unat (word_of_nat j :: u64) = j" using j(1) assms(1) by (intro unat_u64) simp
    have "p = word_of_nat j \<longleftrightarrow> unat p = j" using u unsigned_word_eqI by metis
    then show ?thesis
      using n True j keys_uniqueD[OF assms(2) _ j(1), of "unat p"] by auto
  next
    case False
    then show ?thesis by (auto simp: note_positions_none)
  qed
  then show ?thesis using assms(1) by (simp add: px_ok_def)
qed

text \<open>An index in order is the one its keys give.\<close>

lemma option_eqI: "(\<And>p. a = Some p \<longleftrightarrow> b = Some p) \<Longrightarrow> a = b"
  by (metis option.exhaust)

lemma px_ok_eq:
  assumes "px_ok idx"
  shows "px_positions idx = note_positions 0 (px_keys idx) Map.empty"
proof (intro ext option_eqI)
  fix k and p :: u64
  have n: "px_ok \<lparr>px_keys = px_keys idx, px_positions = note_positions 0 (px_keys idx) Map.empty\<rparr>"
    using px_okD(1)[OF assms] px_ok_unique[OF assms] by (rule px_ok_note)
  show "px_positions idx k = Some p \<longleftrightarrow> note_positions 0 (px_keys idx) Map.empty k = Some p"
    unfolding px_okD(2)[OF assms] using px_okD(2)[OF n, unfolded pos_index.select_convs] by blast
qed

section \<open>Insertion\<close>

lemma note_positions_append:
  "note_positions i (xs @ ys) m = note_positions (i + length xs) ys (note_positions i xs m)"
  by (induction i xs m rule: note_positions.induct) simp_all

lemma note_positions_split:
  "p \<le> length ks \<Longrightarrow> note_positions 0 ks m = note_positions p (drop p ks) (note_positions 0 (take p ks) m)"
  using note_positions_append[of 0 "take p ks" "drop p ks" m]
  by (simp only: append_take_drop_id length_take add_0 min_absorb2)

lemma note_positions_cong:
  "(\<And>k. k \<notin> set ks \<or> k = [] \<Longrightarrow> m k = m' k) \<Longrightarrow> note_positions i ks m = note_positions i ks m'"
proof (induction ks arbitrary: i m m')
  case (Cons x ks)
  show ?case
    using Cons.prems by (simp, intro conjI impI; intro Cons.IH; auto)
qed (auto simp: fun_eq_iff)

lemma length_ensureLength [simp]: "length (ensureLength n ks) = max (length ks) (unat n)"
  by (simp add: ensureLength_def)

lemma nth_ensureLength:
  "i < max (length ks) (unat n) \<Longrightarrow> ensureLength n ks ! i = (if i < length ks then ks ! i else [])"
  by (auto simp: ensureLength_def nth_append)

text \<open>Growing the slice, shifting its tail by one and storing the key is inserting the key.\<close>

lemma copy_within_insert:
  "p \<le> length xs \<Longrightarrow> (copy_within (p + 1) p (xs @ [z]))[p := y] = take p xs @ y # drop p xs"
proof -
  assume p: "p \<le> length xs"
  have "take (Suc p) (xs @ [z]) = take p xs @ [(xs @ [z]) ! p]"
    using p take_Suc_conv_app_nth[of p "xs @ [z]"] by simp
  then have "copy_within (p + 1) p (xs @ [z]) = take p xs @ [(xs @ [z]) ! p] @ drop p xs"
    using p by (simp add: copy_within_def Let_def)
  then show ?thesis using p by (simp add: list_update_append)
qed

definition insert_at :: "u64 \<Rightarrow> string \<Rightarrow> string list \<Rightarrow> string list" where
  "insert_at pos key ks = (let xs = ensureLength pos ks in take (unat pos) xs @ key # drop (unat pos) xs)"

lemma px_insert_eq: "px_insert pos key idx = reindexFrom pos (idx\<lparr>px_keys := insert_at pos key (px_keys idx)\<rparr>)"
  using copy_within_insert[of "unat pos" "ensureLength pos (px_keys idx)" "[]" key]
  by (simp add: px_insert_def insert_at_def Let_def)

lemma px_insert_keys: "px_keys (px_insert pos key idx) = insert_at pos key (px_keys idx)"
  by (simp add: px_insert_eq reindexFrom_def Let_def)

lemma px_insert_positions:
  assumes ok: "px_ok idx" and new: "px_positions idx key = None" "key \<noteq> []"
  shows "px_positions (px_insert pos key idx) = note_positions 0 (insert_at pos key (px_keys idx)) Map.empty"
proof -
  let ?p = "unat pos" and ?ks = "insert_at pos key (px_keys idx)" and ?xs = "ensureLength pos (px_keys idx)"
  have len: "?p < length ?ks" "?p \<le> length ?xs" by (simp_all add: insert_at_def Let_def)
  have split: "take ?p ?ks = take ?p ?xs" "drop ?p ?ks = key # drop ?p ?xs"
    using len(2) by (simp_all add: insert_at_def Let_def)
  have xs: "note_positions 0 ?xs Map.empty = px_positions idx"
  proof -
    have "note_positions i (replicate n []) m = m" for i n m
      by (induction n arbitrary: i) auto
    then show ?thesis
      by (simp add: ensureLength_def note_positions_append px_ok_eq[OF ok])
  qed
  have *: "note_positions ?p (key # drop ?p ?xs) (px_positions idx)
      = note_positions ?p (key # drop ?p ?xs) (note_positions 0 (take ?p ?xs) Map.empty)"
  proof (rule note_positions_cong)
    fix k assume k: "k \<notin> set (key # drop ?p ?xs) \<or> k = []"
    have "k \<notin> set (drop ?p ?xs) \<or> k = []" using k by auto
    then show "px_positions idx k = note_positions 0 (take ?p ?xs) Map.empty k"
      unfolding xs[symmetric] note_positions_split[OF len(2)] by (rule note_positions_none)
  qed
  have "px_positions (px_insert pos key idx) = note_positions ?p (drop ?p ?ks) (px_positions idx)"
    using len(1) by (simp add: px_insert_eq reindexFrom_def Let_def min_def)
  also have "\<dots> = note_positions ?p (drop ?p ?ks) (note_positions 0 (take ?p ?ks) Map.empty)"
    unfolding split using * .
  also have "\<dots> = note_positions 0 ?ks Map.empty"
    using len(1) by (intro note_positions_split[symmetric]) simp
  finally show ?thesis .
qed

lemma nth_insert_at:
  "i < length (insert_at pos key ks) \<Longrightarrow>
   insert_at pos key ks ! i = (if i = unat pos then key
      else if i < unat pos then (if i < length ks then ks ! i else [])
      else ks ! (i - 1))"
  by (auto simp: insert_at_def Let_def nth_append nth_ensureLength nth_Cons')

lemma length_insert_at: "length (insert_at pos key ks) = Suc (max (length ks) (unat pos))"
  by (simp add: insert_at_def Let_def)

lemma insert_at_unique:
  assumes "keys_unique ks" "key \<notin> set ks"
  shows "keys_unique (insert_at pos key ks)"
proof -
  let ?p = "unat pos" and ?ls = "insert_at pos key ks"
  text \<open>Every other non-empty key comes from one position of the old slice.\<close>
  define old where "old i = (if i < ?p then i else i - 1)" for i
  have src: "i = ?p \<or> ?ls ! i = [] \<or> (old i < length ks \<and> ?ls ! i = ks ! old i)" if "i < length ?ls" for i
    using that nth_insert_at[OF that] unfolding old_def length_insert_at by (auto simp: max_def split: if_splits)
  show ?thesis
    unfolding keys_unique_def
  proof (intro allI impI, rule disjCI)
    fix i j assume ij: "i < length ?ls" "j < length ?ls" "?ls ! i = ?ls ! j" "i \<noteq> j"
    show "?ls ! i = []"
    proof (rule ccontr)
      assume k: "?ls ! i \<noteq> []"
      have mem: "a \<noteq> ?p \<Longrightarrow> a < length ?ls \<Longrightarrow> ?ls ! a \<noteq> [] \<Longrightarrow> ?ls ! a \<in> set ks" for a
        using src[of a] by auto
      have pk: "?ls ! ?p = key" using nth_insert_at[of ?p pos key ks] by (simp add: length_insert_at)
      have "i \<noteq> ?p" "j \<noteq> ?p" using mem[of j] mem[of i] ij k pk assms(2) by auto
      then have "old i < length ks" "old j < length ks" "ks ! old i = ks ! old j" "ks ! old i \<noteq> []"
        using src[OF ij(1)] src[OF ij(2)] ij(3) k by auto
      then have "old i = old j" using keys_uniqueD[OF assms(1)] by blast
      then show False using \<open>i \<noteq> ?p\<close> \<open>j \<noteq> ?p\<close> ij(4) by (auto simp: old_def split: if_splits)
    qed
  qed
qed
lemma px_key_fresh: "px_ok idx \<Longrightarrow> px_positions idx key = None \<Longrightarrow> key \<noteq> [] \<Longrightarrow> key \<notin> set (px_keys idx)"
proof
  assume a: "px_ok idx" "px_positions idx key = None" "key \<noteq> []" and "key \<in> set (px_keys idx)"
  then obtain j where j: "j < length (px_keys idx)" "px_keys idx ! j = key" by (auto simp: in_set_conv_nth)
  have "unat (word_of_nat j :: u64) = j" using j(1) px_okD(1)[OF a(1)] by (intro unat_u64) simp
  then have "px_positions idx key = Some (word_of_nat j)" using j a(3) by (simp add: px_okD(2)[OF a(1)])
  with a(2) show False by simp
qed

text \<open>The slice can be grown to hold the position.\<close>

definition px_room :: "u64 \<Rightarrow> pos_index \<Rightarrow> bool" where
  "px_room pos idx \<longleftrightarrow> Suc (max (length (px_keys idx)) (unat pos)) < 2 ^ 63"

lemma px_insert_load:
  assumes "px_ok idx" "px_positions idx key = None" "key \<noteq> []"
  shows "px_load (Payload (insert_at pos key (px_keys idx))) = Inr (px_insert pos key idx)"
proof -
  have "px_insert pos key idx = \<lparr>px_keys = insert_at pos key (px_keys idx),
      px_positions = note_positions 0 (insert_at pos key (px_keys idx)) Map.empty\<rparr>"
    by (rule pos_index.equality) (simp_all add: px_insert_keys px_insert_positions[OF assms])
  then show ?thesis by (simp add: px_load_def)
qed

lemma px_insert_ok:
  assumes "px_ok idx" "px_positions idx key = None" "key \<noteq> []" "px_room pos idx"
  shows "px_ok (px_insert pos key idx)"
proof -
  have "px_ok \<lparr>px_keys = insert_at pos key (px_keys idx),
      px_positions = note_positions 0 (insert_at pos key (px_keys idx)) Map.empty\<rparr>"
    using assms(4) px_ok_unique[OF assms(1)] px_key_fresh[OF assms(1,2,3)]
    by (intro px_ok_note insert_at_unique) (auto simp: length_insert_at px_room_def)
  then show ?thesis using px_insert_load[OF assms(1,2,3)] by (simp add: px_load_def)
qed

lemma unat_succ: "unat (p :: u64) < 2 ^ 63 \<Longrightarrow> unat (p + 1) = unat p + 1"
  by (subst unat_add_lem[THEN iffD1]) simp_all

definition shifted :: "u64 \<Rightarrow> u64 \<Rightarrow> u64" where
  "shifted pos p = (if unat pos \<le> unat p then p + 1 else p)"

lemma px_insert_look:
  assumes ok: "px_ok idx" and new: "px_positions idx key = None" "key \<noteq> []" and room: "px_room pos idx"
  shows "px_positions (px_insert pos key idx) =
    (\<lambda>k. if k = key then Some pos else map_option (shifted pos) (px_positions idx k))"
proof
  fix k
  let ?i = "px_insert pos key idx" and ?ks = "px_keys idx"
  note ok' = px_insert_ok[OF ok new room]
  have len: "length ?ks < 2 ^ 63" by (rule px_okD(1)[OF ok])
  show "px_positions ?i k = (if k = key then Some pos else map_option (shifted pos) (px_positions idx k))"
  proof (cases "k = key")
    case True
    then show ?thesis
      using new(2) nth_insert_at[of "unat pos" pos key ?ks]
      by (simp add: px_okD(2)[OF ok'] px_insert_keys length_insert_at)
  next
    case False
    show ?thesis
    proof (cases "px_positions idx k")
      case None
      then have "k = [] \<or> k \<notin> set ?ks" using px_key_fresh[OF ok] by blast
      then have "k = [] \<or> k \<notin> set (insert_at pos key ?ks)"
        using False by (auto simp: insert_at_def Let_def ensureLength_def dest!: in_set_takeD in_set_dropD)
      then have "px_positions ?i k = None"
        unfolding px_insert_positions[OF ok new] by (auto simp: note_positions_none)
      then show ?thesis using False None by simp
    next
      case (Some p)
      then have p: "k \<noteq> []" "unat p < length ?ks" "?ks ! unat p = k" by (simp_all add: px_okD(2)[OF ok])
      have s: "unat (p + 1) = unat p + 1" using p(2) len by (intro unat_succ) simp
      have "unat (shifted pos p) < length (insert_at pos key ?ks) \<and> insert_at pos key ?ks ! unat (shifted pos p) = k"
        using p s nth_insert_at[of "unat (shifted pos p)" pos key ?ks]
        by (auto simp: shifted_def length_insert_at)
      then have "px_positions ?i k = Some (shifted pos p)"
        using p(1) by (simp add: px_okD(2)[OF ok'] px_insert_keys)
      then show ?thesis using False Some by simp
    qed
  qed
qed

section \<open>Setting and removing a key\<close>

lemma px_grow_ok:
  assumes "px_ok idx" "unat n < 2 ^ 63"
  shows "px_ok (idx\<lparr>px_keys := ensureLength n (px_keys idx)\<rparr>)"
  unfolding px_ok_def
proof (intro conjI allI)
  show "length (px_keys (idx\<lparr>px_keys := ensureLength n (px_keys idx)\<rparr>)) < 2 ^ 63"
    using px_okD(1)[OF assms(1)] assms(2) by simp
  fix k and p :: u64
  show "(px_positions (idx\<lparr>px_keys := ensureLength n (px_keys idx)\<rparr>) k = Some p) \<longleftrightarrow>
     k \<noteq> [] \<and> unat p < length (px_keys (idx\<lparr>px_keys := ensureLength n (px_keys idx)\<rparr>))
     \<and> px_keys (idx\<lparr>px_keys := ensureLength n (px_keys idx)\<rparr>) ! unat p = k"
    using nth_ensureLength[of "unat p" "px_keys idx" n] by (auto simp: px_okD(2)[OF assms(1)] split: if_splits)
qed

lemma px_put_ok:
  assumes ok: "px_ok idx" and new: "px_positions idx key = None" "key \<noteq> []" and pos: "unat pos < length (px_keys idx)"
  shows "px_ok \<lparr>px_keys = (px_keys idx)[unat pos := key],
      px_positions = ((px_positions idx)(px_keys idx ! unat pos := None))(key \<mapsto> pos)\<rparr>"
  unfolding px_ok_def pos_index.select_convs
proof (intro conjI allI)
  show "length ((px_keys idx)[unat pos := key]) < 2 ^ 63" using px_okD(1)[OF ok] by simp
  fix k and p :: u64
  have eq: "unat p = unat pos \<longleftrightarrow> p = pos" using unsigned_word_eqI by metis
  have nk: "px_keys idx ! unat p \<noteq> key" if "unat p < length (px_keys idx)" 
    using that px_key_fresh[OF ok new] by (metis nth_mem)
  have uq: "k = [] \<or> p = pos" if "px_keys idx ! unat pos = k" "unat p < length (px_keys idx)" "px_keys idx ! unat p = k"
    using keys_uniqueD[OF px_ok_unique[OF ok], of "unat p" "unat pos"] that pos eq by auto
  show "(((px_positions idx)(px_keys idx ! unat pos := None))(key \<mapsto> pos)) k = Some p \<longleftrightarrow>
     k \<noteq> [] \<and> unat p < length ((px_keys idx)[unat pos := key]) \<and> (px_keys idx)[unat pos := key] ! unat p = k"
  proof (cases "k = key")
    case True
    then show ?thesis using pos new(2) nk eq by (auto simp: nth_list_update)
  next
    case False
    have "(((px_positions idx)(px_keys idx ! unat pos := None))(key \<mapsto> pos)) k = Some p \<longleftrightarrow>
        k \<noteq> px_keys idx ! unat pos \<and> px_positions idx k = Some p"
      using False by simp
    also have "\<dots> \<longleftrightarrow> k \<noteq> [] \<and> unat p < length ((px_keys idx)[unat pos := key])
        \<and> (px_keys idx)[unat pos := key] ! unat p = k"
      unfolding px_okD(2)[OF ok] length_list_update
    proof (cases "p = pos")
      case True
      then show "(k \<noteq> px_keys idx ! unat pos \<and> k \<noteq> [] \<and> unat p < length (px_keys idx) \<and> px_keys idx ! unat p = k) \<longleftrightarrow>
        (k \<noteq> [] \<and> unat p < length (px_keys idx) \<and> (px_keys idx)[unat pos := key] ! unat p = k)"
        using False pos by auto
    next
      case False
      then have "(px_keys idx)[unat pos := key] ! unat p = px_keys idx ! unat p" using eq by simp
      then show "(k \<noteq> px_keys idx ! unat pos \<and> k \<noteq> [] \<and> unat p < length (px_keys idx) \<and> px_keys idx ! unat p = k) \<longleftrightarrow>
        (k \<noteq> [] \<and> unat p < length (px_keys idx) \<and> (px_keys idx)[unat pos := key] ! unat p = k)"
        using uq False by metis
    qed
    finally show ?thesis .
  qed
qed

lemma px_remove_ok:
  assumes ok: "px_ok idx" and k: "px_positions idx key = Some pos"
  shows "px_ok \<lparr>px_keys = (px_keys idx)[unat pos := []], px_positions = (px_positions idx)(key := None)\<rparr>"
  unfolding px_ok_def pos_index.select_convs
proof (intro conjI allI)
  show "length ((px_keys idx)[unat pos := []]) < 2 ^ 63" using px_okD(1)[OF ok] by simp
  fix k' and p :: u64
  have kp: "key \<noteq> []" "unat pos < length (px_keys idx)" "px_keys idx ! unat pos = key"
    using k by (simp_all add: px_okD(2)[OF ok])
  have eq: "unat p = unat pos" if "unat p < length (px_keys idx)" "px_keys idx ! unat p = key"
    using keys_uniqueD[OF px_ok_unique[OF ok] that(1) kp(2)] that(2) kp by simp
  show "((px_positions idx)(key := None)) k' = Some p \<longleftrightarrow>
     k' \<noteq> [] \<and> unat p < length ((px_keys idx)[unat pos := []]) \<and> (px_keys idx)[unat pos := []] ! unat p = k'"
    using kp eq by (auto simp: px_okD(2)[OF ok] nth_list_update)
qed
section \<open>The index of one table file\<close>

definition ix_look :: "idx_state \<Rightarrow> string \<Rightarrow> string \<Rightarrow> u64 option" where
  "ix_look st f k = (case snd (getIndex st f) of Inl _ \<Rightarrow> None | Inr idx \<Rightarrow> px_positions idx k)"

lemma ix_look_some: "ix_indices st f = Some idx \<Longrightarrow> ix_look st f = px_positions idx"
  by (simp add: ix_look_def getIndex_def fun_eq_iff)

lemma ix_look_get: "getIndex st f = (st', Inr idx) \<Longrightarrow> ix_look st f = px_positions idx"
  by (simp add: ix_look_def fun_eq_iff)

text \<open>The index in memory is in order, or the one that would be loaded.\<close>

definition file_ok :: "idx_state \<Rightarrow> string \<Rightarrow> bool" where
  "file_ok st f \<longleftrightarrow> (case ix_indices st f of
      Some idx \<Rightarrow> px_ok idx | None \<Rightarrow> (case px_load (ix_disk st f) of Inl _ \<Rightarrow> True | Inr idx \<Rightarrow> px_ok idx))"

lemma getIndex_frame:
  assumes "getIndex st f = (st', r)"
  shows "ix_disk st' = ix_disk st" "ix_locked st' = ix_locked st"
    "r = Inr idx \<Longrightarrow> ix_indices st' = (ix_indices st)(f \<mapsto> idx)" "r = Inl e \<Longrightarrow> st' = st"
    "r = Inr idx \<Longrightarrow> ix_indices st f = Some idx \<or> ix_indices st f = None \<and> px_load (ix_disk st f) = Inr idx"
  using assms by (auto simp: getIndex_def split: option.splits sum.splits)

lemma getIndex_file:
  assumes "file_ok st f" "getIndex st f = (st', r)"
  shows "file_ok st' f" "r = Inr idx \<Longrightarrow> px_ok idx \<and> ix_indices st' f = Some idx"
  using assms by (auto simp: getIndex_def file_ok_def split: option.splits sum.splits)

lemma saveLocked_frame:
  assumes "saveLocked st f idx = (st', e)"
  shows "ix_locked st' = ix_locked st" "ix_indices st' = (ix_indices st)(f \<mapsto> idx)"
    "e = (if ix_locked st f then Some IdxWriteFailed else None)"
    "ix_disk st' = (if ix_locked st f then ix_disk st else (ix_disk st)(f := Payload (map json_string (px_keys idx))))"
  using assms by (auto simp: saveLocked_def Let_def split: if_splits)

lemma file_ok_loaded: "ix_indices st f = Some idx \<Longrightarrow> file_ok st f \<longleftrightarrow> px_ok idx"
  by (simp add: file_ok_def)

lemma set_ensureLength: "set (ensureLength n ks) \<subseteq> insert [] (set ks)"
  by (auto simp: ensureLength_def)

text \<open>
  \<open>Set\<close>: the slice grows, and then either the key is refused or an index in order is saved. Growing the
  slice keeps the positions.
\<close>

lemma ix_set_cases:
  assumes ok: "file_ok st f" and pos: "unat pos + 1 < 2 ^ 63" and k: "k \<noteq> []"
    and g: "getIndex st f = (st1, Inr idx)"
  shows "\<exists>st' e idx1 idx2. ix_set f pos k st = Ret (st', e) \<and> px_ok idx1 \<and> px_ok idx2
    \<and> px_positions idx1 = px_positions idx \<and> set (px_keys idx1) \<subseteq> insert [] (set (px_keys idx))
    \<and> set (px_keys idx2) \<subseteq> insert k (insert [] (set (px_keys idx)))
    \<and> (if ix_look st f k \<noteq> None \<and> ix_look st f k \<noteq> Some pos
       then e = Some DuplicateKey \<and> st' = st1\<lparr>ix_indices := (ix_indices st1)(f \<mapsto> idx1)\<rparr> \<and> px_positions idx1 = ix_look st f
       else (st', e) = saveLocked (st1\<lparr>ix_indices := (ix_indices st1)(f \<mapsto> idx1)\<rparr>) f idx2
         \<and> px_positions idx2 = (\<lambda>k'. if k' = k then Some pos else if ix_look st f k' = Some pos then None
                                 else ix_look st f k'))"
proof -
  have ik: "px_ok idx" using getIndex_file(2)[OF ok g] by simp
  have p1: "unat (pos + 1) = unat pos + 1" using pos by (intro unat_succ) simp
  let ?ks = "ensureLength (pos + 1) (px_keys idx)"
  let ?i1 = "idx\<lparr>px_keys := ?ks\<rparr>"
  let ?st1 = "st1\<lparr>ix_indices := (ix_indices st1)(f \<mapsto> ?i1)\<rparr>"
  have i1: "px_ok ?i1" using pos p1 by (intro px_grow_ok[OF ik]) simp
  have len: "unat pos < length ?ks" using p1 by simp
  have look: "ix_look st f = px_positions idx" by (rule ix_look_get[OF g])
  have posn: "px_positions idx k' = Some pos \<longleftrightarrow> k' \<noteq> [] \<and> ?ks ! unat pos = k'" for k'
    using px_okD(2)[OF i1, of k' pos] len by simp
  note grown = set_ensureLength[of "pos + 1" "px_keys idx"]
  show ?thesis
  proof (cases "px_positions idx k = Some pos")
    case True
    let ?i2 = "?i1\<lparr>px_positions := (px_positions ?i1)(k \<mapsto> pos)\<rparr>"
    have c: "?ks ! unat pos = k" using True posn by blast
    have same: "(px_positions idx)(k \<mapsto> pos) = px_positions idx" using True by (simp add: fun_upd_idem)
    have "ix_set f pos k st = Ret (saveLocked ?st1 f ?i2)"
      using g k len c unfolding ix_set_def Let_def by (simp del: length_ensureLength)
    moreover have "px_positions idx = (\<lambda>k'. if k' = k then Some pos else if px_positions idx k' = Some pos then None
        else px_positions idx k')"
      using True posn c by (auto simp: fun_eq_iff)
    moreover have "px_ok ?i2" "set (px_keys ?i2) \<subseteq> insert k (insert [] (set (px_keys idx)))"
      using i1 same grown by auto
    ultimately show ?thesis
      unfolding look using True same i1 grown
      by (intro exI[of _ "fst (saveLocked ?st1 f ?i2)"] exI[of _ "snd (saveLocked ?st1 f ?i2)"] exI[of _ ?i1] exI[of _ ?i2]) simp
  next
    case False
    then have c: "?ks ! unat pos \<noteq> k" using posn k by blast
    show ?thesis
    proof (cases "px_positions idx k")
      case (Some q)
      have "ix_set f pos k st = Ret (?st1, Some DuplicateKey)"
        using g k len c Some unfolding ix_set_def Let_def by (simp del: length_ensureLength)
      then show ?thesis
        unfolding look using False Some i1 ik grown
        by (intro exI[of _ ?st1] exI[of _ "Some DuplicateKey"] exI[of _ ?i1] exI[of _ idx]) auto
    next
      case None
      let ?i2 = "\<lparr>px_keys = ?ks[unat pos := k], px_positions = ((px_positions idx)(?ks ! unat pos := None))(k \<mapsto> pos)\<rparr>"
      have i2: "px_ok ?i2" using px_put_ok[OF i1 _ k, of pos] None len by simp
      have empty: "px_positions idx [] = None"
        using px_okD(2)[OF ik, of "[]"] by (cases "px_positions idx []") auto
      have m: "?i1\<lparr>px_keys := ?ks[unat pos := k],
          px_positions := (if ?ks ! unat pos \<noteq> [] then (px_positions idx)(?ks ! unat pos := None)
                           else px_positions idx)(k \<mapsto> pos)\<rparr> = ?i2"
        using empty by (intro pos_index.equality) (auto simp: fun_upd_idem)
      have "ix_set f pos k st = Ret (saveLocked ?st1 f (?i1\<lparr>px_keys := ?ks[unat pos := k],
          px_positions := (if ?ks ! unat pos \<noteq> [] then (px_positions idx)(?ks ! unat pos := None)
                           else px_positions idx)(k \<mapsto> pos)\<rparr>))"
        using g k len c None unfolding ix_set_def Let_def by (simp del: length_ensureLength)
      then have "ix_set f pos k st = Ret (saveLocked ?st1 f ?i2)" unfolding m .
      moreover have "((px_positions idx)(?ks ! unat pos := None))(k \<mapsto> pos) =
          (\<lambda>k'. if k' = k then Some pos else if px_positions idx k' = Some pos then None else px_positions idx k')"
        using posn empty by (auto simp: fun_eq_iff)
      moreover have "set (px_keys ?i2) \<subseteq> insert k (insert [] (set (px_keys idx)))"
        using set_update_subset_insert[of ?ks "unat pos" k] grown by auto
      ultimately show ?thesis
        unfolding look using None i1 i2 grown
        by (intro exI[of _ "fst (saveLocked ?st1 f ?i2)"] exI[of _ "snd (saveLocked ?st1 f ?i2)"] exI[of _ ?i1] exI[of _ ?i2]) simp
    qed
  qed
qed

section \<open>The index of every table file\<close>

text \<open>
  What the file gives when it is loaded; trailing empty keys may be missing from it. The file keeps a
  key as it is when it is valid UTF-8.
\<close>

definition disk_agrees :: "idx_file \<Rightarrow> pos_index \<Rightarrow> bool" where
  "disk_agrees d idx \<longleftrightarrow> (case px_load d of Inl _ \<Rightarrow> False | Inr idx' \<Rightarrow> px_positions idx' = px_positions idx)"

definition px_utf8 :: "pos_index \<Rightarrow> bool" where
  "px_utf8 idx \<longleftrightarrow> (\<forall>k \<in> set (px_keys idx). utf8_ok k)"

definition px_fine :: "pos_index \<Rightarrow> bool" where
  "px_fine idx \<longleftrightarrow> px_ok idx \<and> px_utf8 idx"

lemma px_fine_sub:
  "px_fine idx \<Longrightarrow> px_ok idx' \<Longrightarrow> utf8_ok k \<Longrightarrow> set (px_keys idx') \<subseteq> insert k (insert [] (set (px_keys idx))) \<Longrightarrow> px_fine idx'"
  by (auto simp: px_fine_def px_utf8_def)

lemma json_keys: "px_utf8 idx \<Longrightarrow> map json_string (px_keys idx) = px_keys idx"
  by (auto simp: px_utf8_def json_string_ok intro: map_idI)

definition idx_ok :: "idx_state \<Rightarrow> bool" where
  "idx_ok st \<longleftrightarrow> (\<forall>f idx. px_load (ix_disk st f) = Inr idx \<longrightarrow> px_fine idx)
     \<and> (\<forall>f idx. ix_indices st f = Some idx \<longrightarrow> px_fine idx \<and> (\<not> ix_locked st f \<longrightarrow> disk_agrees (ix_disk st f) idx))"

lemma idx_okD:
  assumes "idx_ok st"
  shows "px_load (ix_disk st f) = Inr idx \<Longrightarrow> px_fine idx"
    and "ix_indices st f = Some idx \<Longrightarrow> px_fine idx"
    and "ix_indices st f = Some idx \<Longrightarrow> \<not> ix_locked st f \<Longrightarrow> disk_agrees (ix_disk st f) idx"
  using assms unfolding idx_ok_def by blast+

lemma idx_okI:
  assumes "\<And>f idx. px_load (ix_disk st f) = Inr idx \<Longrightarrow> px_fine idx"
    and "\<And>f idx. ix_indices st f = Some idx \<Longrightarrow> px_fine idx"
    and "\<And>f idx. ix_indices st f = Some idx \<Longrightarrow> \<not> ix_locked st f \<Longrightarrow> disk_agrees (ix_disk st f) idx"
  shows "idx_ok st"
  unfolding idx_ok_def using assms by blast

lemma idx_ok_file: "idx_ok st \<Longrightarrow> file_ok st f"
  using idx_okD[of st f] by (auto simp: file_ok_def px_fine_def split: option.split sum.split)

text \<open>An index may stand in memory that is in order and that the file would give.\<close>

lemma idx_ok_put:
  assumes "idx_ok st" "px_fine idx" "\<not> ix_locked st f \<Longrightarrow> disk_agrees (ix_disk st f) idx"
  shows "idx_ok (st\<lparr>ix_indices := (ix_indices st)(f \<mapsto> idx)\<rparr>)"
  using assms idx_okD[OF assms(1)] by (intro idx_okI) (auto split: if_splits)

lemma getIndex_ok:
  assumes ok: "idx_ok st" and g: "getIndex st f = (st', r)"
  shows "idx_ok st'" "r = Inr idx \<Longrightarrow> px_fine idx"
proof -
  note fr = getIndex_frame[OF g]
  have "px_fine i \<and> (\<not> ix_locked st f \<longrightarrow> disk_agrees (ix_disk st f) i)" if "r = Inr i" for i
    using fr(5)[OF that] idx_okD[OF ok, of f i] by (auto simp: disk_agrees_def)
  moreover have "st' = st\<lparr>ix_indices := (ix_indices st)(f \<mapsto> i)\<rparr>" if "r = Inr i" for i
    using fr(1,2) fr(3)[OF that] by (intro idx_state.equality) simp_all
  ultimately show "idx_ok st'" "r = Inr idx \<Longrightarrow> px_fine idx"
    using fr(4) idx_ok_put[OF ok] ok by (cases r; fastforce)+
qed

lemma saveLocked_ok:
  assumes ok: "idx_ok st" and idx: "px_fine idx" and sv: "saveLocked st f idx = (st', e)"
  shows "idx_ok st'"
proof -
  note s = saveLocked_frame[OF sv]
  have load: "px_load (Payload (map json_string (px_keys idx))) = Inr idx"
    using idx px_ok_eq[of idx] json_keys[of idx] by (simp add: px_fine_def px_load_def pos_index.equality)
  show ?thesis
  proof (rule idx_okI)
    fix h i assume "px_load (ix_disk st' h) = Inr i"
    then show "px_fine i" using s(4) load idx idx_okD(1)[OF ok, of h i] by (auto split: if_splits)
  next
    fix h i assume "ix_indices st' h = Some i"
    then show "px_fine i" using s(2) idx idx_okD(2)[OF ok, of h i] by (auto split: if_splits)
  next
    fix h i assume "ix_indices st' h = Some i" "\<not> ix_locked st' h"
    then show "disk_agrees (ix_disk st' h) i"
      using s load idx_okD(3)[OF ok, of h i] by (auto simp: disk_agrees_def split: if_splits)
  qed
qed

text \<open>A memory that is dropped and loaded again finds the same positions.\<close>

lemma ix_look_restart:
  assumes "idx_ok st" "\<not> ix_locked st f"
  shows "ix_look (ix_restart st) f = ix_look st f"
proof (cases "ix_indices st f")
  case None
  then show ?thesis
    by (simp add: ix_look_def ix_restart_def getIndex_def fun_eq_iff split: sum.split)
next
  case (Some idx)
  then have "disk_agrees (ix_disk st f) idx" using idx_okD(3)[OF assms(1)] assms(2) by blast
  then show ?thesis
    by (auto simp: ix_look_some[OF Some] disk_agrees_def ix_look_def ix_restart_def getIndex_def fun_eq_iff split: sum.splits)
qed

text \<open>A key that is not valid UTF-8 is not found after a restart, whatever was saved.\<close>

lemma raw_key_lost_at_restart:
  assumes "saveLocked st f idx = (st', None)" "\<not> utf8_ok k"
  shows "ix_look (ix_restart st') f k = None"
proof -
  have "ix_disk st' f = Payload (map json_string (px_keys idx))"
    using saveLocked_frame(3,4)[OF assms(1)] by (simp split: if_splits)
  moreover have "k \<notin> set (map json_string (px_keys idx))" using assms(2) by auto
  ultimately show ?thesis
    by (auto simp: ix_look_def ix_restart_def getIndex_def px_load_def note_positions_none)
qed

section \<open>Steps and reachable states\<close>

definition ix_room :: "idx_state \<Rightarrow> string \<Rightarrow> u64 \<Rightarrow> bool" where
  "ix_room st f pos \<longleftrightarrow> (case snd (getIndex st f) of Inl _ \<Rightarrow> True | Inr idx \<Rightarrow> px_room pos idx)"

lemma insert_at_keys: "set (insert_at pos key ks) \<subseteq> insert key (insert [] (set ks))"
  using set_ensureLength[of pos ks] by (auto simp: insert_at_def Let_def dest: in_set_takeD in_set_dropD)

lemma ix_insert_ok:
  assumes ok: "idx_ok st" and room: "ix_room st f pos" and u: "utf8_ok k"
  shows "idx_ok (fst (ix_insert f pos k st))" and "ix_locked (fst (ix_insert f pos k st)) = ix_locked st"
proof -
  obtain st1 r where g: "getIndex st f = (st1, r)" by fastforce
  note gk = getIndex_ok[OF ok g] and fr = getIndex_frame[OF g]
  have "idx_ok (fst (ix_insert f pos k st)) \<and> ix_locked (fst (ix_insert f pos k st)) = ix_locked st"
  proof (cases "k = [] \<or> (\<exists>e. r = Inl e) \<or> (\<exists>idx. r = Inr idx \<and> px_positions idx k \<noteq> None)")
    case True
    then show ?thesis using ok gk(1) fr(2) g by (auto simp: ix_insert_def)
  next
    case False
    then obtain idx where r: "r = Inr idx" "px_positions idx k = None" "k \<noteq> []" by (cases r) auto
    have i: "px_ok idx" using gk(2)[OF r(1)] by (simp add: px_fine_def)
    have "px_ok (px_insert pos k idx)"
      using r room g by (intro px_insert_ok[OF i]) (auto simp: ix_room_def)
    then have p: "px_fine (px_insert pos k idx)"
      using px_fine_sub[OF gk(2)[OF r(1)] _ u] insert_at_keys by (simp add: px_insert_keys)
    obtain st2 e where sv: "saveLocked st1 f (px_insert pos k idx) = (st2, e)" by fastforce
    show ?thesis using saveLocked_ok[OF gk(1) p sv] saveLocked_frame(1)[OF sv] sv r g fr(2) by (simp add: ix_insert_def)
  qed
  then show "idx_ok (fst (ix_insert f pos k st))" and "ix_locked (fst (ix_insert f pos k st)) = ix_locked st"
    by blast+
qed

lemma ix_set_ok:
  assumes ok: "idx_ok st" and pos: "unat pos + 1 < 2 ^ 63" and u: "utf8_ok k" and s: "ix_set f pos k st = Ret (st', e)"
  shows "idx_ok st' \<and> ix_locked st' = ix_locked st"
proof (cases "k = []")
  case True
  then show ?thesis using s ok by (simp add: ix_set_def)
next
  case k: False
  obtain st1 r where g: "getIndex st f = (st1, r)" by fastforce
  note gk = getIndex_ok[OF ok g] and fr = getIndex_frame[OF g]
  show ?thesis
  proof (cases r)
    case (Inl e')
    then show ?thesis using s k g gk(1) fr(2) by (simp add: ix_set_def)
  next
    case (Inr idx)
    obtain st2 e2 i1 i2 where c0: "ix_set f pos k st = Ret (st2, e2)" and c: "px_ok i1" "px_ok i2"
      "px_positions i1 = px_positions idx" "set (px_keys i1) \<subseteq> insert [] (set (px_keys idx))"
      "set (px_keys i2) \<subseteq> insert k (insert [] (set (px_keys idx)))"
      and c7: "if ix_look st f k \<noteq> None \<and> ix_look st f k \<noteq> Some pos
       then e2 = Some DuplicateKey \<and> st2 = st1\<lparr>ix_indices := (ix_indices st1)(f \<mapsto> i1)\<rparr> \<and> px_positions i1 = ix_look st f
       else (st2, e2) = saveLocked (st1\<lparr>ix_indices := (ix_indices st1)(f \<mapsto> i1)\<rparr>) f i2
         \<and> px_positions i2 = (\<lambda>k'. if k' = k then Some pos else if ix_look st f k' = Some pos then None else ix_look st f k')"
      using ix_set_cases[OF idx_ok_file[OF ok] pos k g[unfolded Inr]] by blast
    have c6: "st2 = st1\<lparr>ix_indices := (ix_indices st1)(f \<mapsto> i1)\<rparr>
        \<or> (st2, e2) = saveLocked (st1\<lparr>ix_indices := (ix_indices st1)(f \<mapsto> i1)\<rparr>) f i2"
      using c7 by (cases "ix_look st f k \<noteq> None \<and> ix_look st f k \<noteq> Some pos") auto
    have e: "st2 = st'" "e2 = e" using c0 s by simp_all
    have f1: "px_fine i1" "px_fine i2"
      using px_fine_sub[OF gk(2)[OF Inr] c(1) u] px_fine_sub[OF gk(2)[OF Inr] c(2) u] c(4,5) by auto
    have at: "\<not> ix_locked st1 f \<Longrightarrow> disk_agrees (ix_disk st1 f) i1"
      using idx_okD(3)[OF gk(1), of f idx] fr(3)[OF Inr] c(3) by (simp add: disk_agrees_def split: sum.splits)
    note ok1 = idx_ok_put[OF gk(1) f1(1) at]
    have "st' = st1\<lparr>ix_indices := (ix_indices st1)(f \<mapsto> i1)\<rparr>
        \<or> saveLocked (st1\<lparr>ix_indices := (ix_indices st1)(f \<mapsto> i1)\<rparr>) f i2 = (st', e)" using c6 unfolding e by metis
    then show ?thesis
    proof
      assume "saveLocked (st1\<lparr>ix_indices := (ix_indices st1)(f \<mapsto> i1)\<rparr>) f i2 = (st', e)"
      from saveLocked_ok[OF ok1 f1(2) this] saveLocked_frame(1)[OF this] show ?thesis using fr(2) by simp
    qed (use ok1 fr(2) in simp)
  qed
qed

lemma ix_remove_ok:
  assumes ok: "idx_ok st"
  shows "idx_ok (fst (ix_remove f k st))" and "ix_locked (fst (ix_remove f k st)) = ix_locked st"
    and "ix_look (fst (ix_remove f k st)) f = (ix_look st f)(k := None)"
proof -
  obtain st1 r where g: "getIndex st f = (st1, r)" by fastforce
  note gk = getIndex_ok[OF ok g] and fr = getIndex_frame[OF g]
  have l0: "ix_look st f = (case r of Inl _ \<Rightarrow> Map.empty | Inr idx \<Rightarrow> px_positions idx)"
    using g by (cases r) (simp_all add: ix_look_def fun_eq_iff)
  have e0: "px_positions idx [] = None" if "r = Inr idx" for idx
    using gk(2)[OF that] px_okD(2)[of idx "[]"] by (cases "px_positions idx []") (auto simp: px_fine_def)
  have "idx_ok (fst (ix_remove f k st)) \<and> ix_locked (fst (ix_remove f k st)) = ix_locked st
    \<and> ix_look (fst (ix_remove f k st)) f = (ix_look st f)(k := None)"
  proof (cases r)
    case (Inl e)
    then show ?thesis using g l0 ok fr(4) by (simp add: ix_remove_def fun_upd_idem)
  next
    case (Inr idx)
    note i = gk(2)[OF Inr] and m = fr(3)[OF Inr]
    have st1: "ix_look st1 f = px_positions idx" using m by (intro ix_look_some) simp
    show ?thesis
    proof (cases "k = [] \<or> px_positions idx k = None")
      case True
      then show ?thesis
        using g Inr l0 gk(1) fr(2) e0[OF Inr] st1 ok by (auto simp: ix_remove_def fun_upd_idem)
    next
      case False
      then obtain pos where k: "k \<noteq> []" "px_positions idx k = Some pos" by auto
      have i0: "px_ok idx" using i by (simp add: px_fine_def)
      let ?i = "\<lparr>px_keys = (px_keys idx)[unat pos := []], px_positions = (px_positions idx)(k := None)\<rparr>"
      have "unat pos < length (px_keys idx)" using k(2) by (simp add: px_okD(2)[OF i0])
      then have rm: "ix_remove f k st = saveLocked st1 f ?i" using k g Inr by (simp add: ix_remove_def)
      have "set (px_keys ?i) \<subseteq> insert [] (insert [] (set (px_keys idx)))"
        using set_update_subset_insert[of "px_keys idx" "unat pos" "[]"] by auto
      then have p: "px_fine ?i" by (intro px_fine_sub[OF i px_remove_ok[OF i0 k(2)], of "[]"]) simp_all
      obtain st2 e where sv: "saveLocked st1 f ?i = (st2, e)" by fastforce
      have "ix_indices st2 f = Some ?i" using saveLocked_frame(2)[OF sv] by simp
      from ix_look_some[OF this] show ?thesis
        using rm sv saveLocked_ok[OF gk(1) p sv] saveLocked_frame(1)[OF sv] fr(2) l0 Inr by simp
    qed
  qed
  then show "idx_ok (fst (ix_remove f k st))" and "ix_locked (fst (ix_remove f k st)) = ix_locked st"
    and "ix_look (fst (ix_remove f k st)) f = (ix_look st f)(k := None)" by blast+
qed

lemma ix_drop_ok:
  assumes ok: "idx_ok st"
  shows "idx_ok (fst (ix_dropTable f st))" and "ix_locked (fst (ix_dropTable f st)) = ix_locked st"
proof -
  let ?st = "fst (ix_dropTable f st)"
  have s: "ix_indices ?st = (ix_indices st)(f := None)" "ix_locked ?st = ix_locked st"
    "ix_disk ?st = ix_disk st \<or> ix_disk ?st = (ix_disk st)(f := NoFile)"
    by (simp_all add: ix_dropTable_def Let_def)
  have e: "px_fine empty_pos_index" by (simp add: px_fine_def px_utf8_def px_ok_def empty_pos_index_def)
  show "ix_locked ?st = ix_locked st" by (rule s)
  show "idx_ok ?st"
  proof (rule idx_okI)
    show "px_fine i" if "px_load (ix_disk ?st h) = Inr i" for h i
      using that s(3) idx_okD(1)[OF ok, of h i] e by (auto simp: px_load_def split: if_splits)
    show "px_fine i" if "ix_indices ?st h = Some i" for h i
      using that s(1) idx_okD(2)[OF ok, of h i] by (auto split: if_splits)
    show "disk_agrees (ix_disk ?st h) i" if "ix_indices ?st h = Some i" "\<not> ix_locked ?st h" for h i
      using that s idx_okD(3)[OF ok, of h i] by (auto split: if_splits)
  qed
qed

text \<open>
  One call of the package, or a restart of the process. Positions are those a slice in memory can have, and
  keys are valid UTF-8.
\<close>

inductive ix_step :: "idx_state \<Rightarrow> idx_state \<Rightarrow> bool" where
  insert_key: "ix_room st f pos \<Longrightarrow> utf8_ok k \<Longrightarrow> ix_step st (fst (ix_insert f pos k st))"
| set_key: "unat pos + 1 < 2 ^ 63 \<Longrightarrow> utf8_ok k \<Longrightarrow> ix_set f pos k st = Ret (st', e) \<Longrightarrow> ix_step st st'"
| lookup_key: "ix_step st (fst (ix_lookup f k st))"
| remove_key: "ix_step st (fst (ix_remove f k st))"
| drop_table: "ix_step st (fst (ix_dropTable f st))"
| restart: "ix_step st (ix_restart st)"

inductive ix_reach :: "idx_state \<Rightarrow> idx_state \<Rightarrow> bool" for s0 where
  here: "ix_reach s0 s0"
| there: "ix_reach s0 s \<Longrightarrow> ix_step s s' \<Longrightarrow> ix_reach s0 s'"

lemma ix_step_ok: "ix_step st st' \<Longrightarrow> idx_ok st \<Longrightarrow> idx_ok st' \<and> ix_locked st' = ix_locked st"
proof (induction rule: ix_step.induct)
  case (insert_key st f pos k)
  then show ?case using ix_insert_ok by blast
next
  case (set_key pos k f st st' e)
  then show ?case using ix_set_ok by blast
next
  case (lookup_key st f k)
  obtain st1 r where g: "getIndex st f = (st1, r)" by fastforce
  have "fst (ix_lookup f k st) = st1" using g by (cases r) (simp_all add: ix_lookup_def)
  then show ?case using getIndex_ok(1)[OF lookup_key g] getIndex_frame(2)[OF g] by simp
next
  case (remove_key st f k)
  then show ?case using ix_remove_ok by blast
next
  case (drop_table st f)
  then show ?case using ix_drop_ok by blast
next
  case (restart st)
  then show ?case
    by (auto simp: ix_restart_def intro!: idx_okI elim: idx_okD(1))
qed

lemma ix_reach_ok: "ix_reach s0 s \<Longrightarrow> idx_ok s0 \<Longrightarrow> idx_ok s"
  by (induction rule: ix_reach.induct) (auto dest: ix_step_ok)

definition ix_start :: idx_state where
  "ix_start = \<lparr>ix_indices = Map.empty, ix_disk = (\<lambda>_. NoFile), ix_locked = (\<lambda>_. False)\<rparr>"

lemma ix_start_ok: "idx_ok ix_start"
  by (rule idx_okI) (auto simp: ix_start_def px_load_def px_fine_def px_utf8_def px_ok_def empty_pos_index_def)

section \<open>Properties\<close>

text \<open>
  C10: In every state the index reaches from an empty directory by insertions and settings of keys that
  are valid UTF-8, removals, lookups, dropped tables and restarts, the slice of keys and the map of
  positions of each loaded table describe each other, and for a table whose file can be written a restart
  changes no lookup. (A key that is not valid UTF-8 is written as another one and not found again.)
\<close>

theorem index_positions_agree:
  assumes "ix_reach ix_start st"
  shows "(\<forall>f idx. ix_indices st f = Some idx \<longrightarrow>
      (\<forall>k p. px_positions idx k = Some p \<longleftrightarrow> k \<noteq> [] \<and> unat p < length (px_keys idx) \<and> px_keys idx ! unat p = k))
    \<and> (\<forall>f. \<not> ix_locked st f \<longrightarrow> ix_look (ix_restart st) f = ix_look st f)"
proof -
  have ok: "idx_ok st" using ix_reach_ok[OF assms ix_start_ok] .
  then show ?thesis using ix_look_restart px_okD(2) idx_okD(2)[OF ok] unfolding px_fine_def by blast
qed

lemma index_positions_agree_witness:
  "ix_look (ix_restart (fst (ix_insert ''f'' 2 ''k'' ix_start))) ''f'' = ix_look (fst (ix_insert ''f'' 2 ''k'' ix_start)) ''f''"
proof -
  have "ix_room ix_start ''f'' 2"
    by (simp add: ix_room_def ix_start_def getIndex_def px_load_def px_room_def empty_pos_index_def)
  moreover have "utf8_ok ''k''" by code_simp
  ultimately have "ix_reach ix_start (fst (ix_insert ''f'' 2 ''k'' ix_start))"
    using ix_reach.there[OF ix_reach.here ix_step.insert_key] by blast
  from index_positions_agree[OF this] show ?thesis
    by (simp add: ix_insert_def ix_start_def getIndex_def px_load_def saveLocked_def Let_def empty_pos_index_def)
qed

text \<open>
  Inserting a new key at a position binds it there and moves every key at or above the position up
  by one, keeping the others; inserting a key that is already there is refused and moves nothing.
\<close>

theorem index_insert_shifts:
  assumes "file_ok st f" "getIndex st f = (st1, Inr idx)" "\<not> ix_locked st f" "ix_room st f pos" "k \<noteq> []"
  shows "ix_look (fst (ix_insert f pos k st)) f =
      (if ix_look st f k = None then (\<lambda>k'. if k' = k then Some pos else map_option (shifted pos) (ix_look st f k'))
       else ix_look st f)
    \<and> snd (ix_insert f pos k st) = (if ix_look st f k = None then None else Some DuplicateKey)"
proof -
  have ik: "px_ok idx" "ix_indices st1 f = Some idx" using getIndex_file(2)[OF assms(1,2)] by auto
  have look: "ix_look st f = px_positions idx" by (rule ix_look_get[OF assms(2)])
  show ?thesis
  proof (cases "px_positions idx k")
    case None
    have room: "px_room pos idx" using assms(2,4) by (simp add: ix_room_def)
    obtain st2 e where sv: "saveLocked st1 f (px_insert pos k idx) = (st2, e)" by fastforce
    note so = saveLocked_frame[OF sv]
    have "ix_indices st2 f = Some (px_insert pos k idx)" using so(2) by simp
    from ix_look_some[OF this] show ?thesis
      unfolding look using assms(2,3,5) None sv so(3) getIndex_frame(2)[OF assms(2)] px_insert_look[OF ik(1) None assms(5) room]
      by (simp add: ix_insert_def)
  next
    case (Some p)
    then show ?thesis unfolding look using assms(2,5) ix_look_some[OF ik(2)] by (simp add: ix_insert_def)
  qed
qed

lemma index_insert_shifts_witness:
  "ix_look (fst (ix_insert ''f'' 1 ''b'' ix_start)) ''f'' ''b'' = Some 1"
proof -
  have g: "getIndex ix_start ''f'' =
      (ix_start\<lparr>ix_indices := (ix_indices ix_start)(''f'' \<mapsto> empty_pos_index)\<rparr>, Inr empty_pos_index)"
    by (simp add: getIndex_def ix_start_def px_load_def)
  have "ix_room ix_start ''f'' 1" by (simp add: ix_room_def g px_room_def empty_pos_index_def)
  moreover have "ix_look ix_start ''f'' ''b'' = None" by (simp add: ix_look_get[OF g] empty_pos_index_def)
  ultimately show ?thesis
    using index_insert_shifts[OF idx_ok_file[OF ix_start_ok] g, of 1 "''b''"] by (simp add: ix_start_def)
qed

text \<open>
  Setting the key of a position frees the key the position had, binds the new key and touches no
  other; a key bound to another position is refused and no lookup changes.
\<close>

theorem index_set_rebinds:
  assumes "file_ok st f" "getIndex st f = (st1, Inr idx)" "\<not> ix_locked st f" "unat pos + 1 < 2 ^ 63" "k \<noteq> []"
  shows "\<exists>st' e. ix_set f pos k st = Ret (st', e) \<and> file_ok st' f \<and> ix_locked st' = ix_locked st
    \<and> e = (if ix_look st f k = None \<or> ix_look st f k = Some pos then None else Some DuplicateKey)
    \<and> ix_look st' f = (if e = None then (\<lambda>k'. if k' = k then Some pos
         else if ix_look st f k' = Some pos then None else ix_look st f k') else ix_look st f)"
proof -
  note fr = getIndex_frame(2)[OF assms(2)]
  obtain st' e i1 i2 where c: "ix_set f pos k st = Ret (st', e)" "px_ok i1" "px_ok i2"
    "if ix_look st f k \<noteq> None \<and> ix_look st f k \<noteq> Some pos
       then e = Some DuplicateKey \<and> st' = st1\<lparr>ix_indices := (ix_indices st1)(f \<mapsto> i1)\<rparr> \<and> px_positions i1 = ix_look st f
       else (st', e) = saveLocked (st1\<lparr>ix_indices := (ix_indices st1)(f \<mapsto> i1)\<rparr>) f i2
         \<and> px_positions i2 = (\<lambda>k'. if k' = k then Some pos else if ix_look st f k' = Some pos then None else ix_look st f k')"
    using ix_set_cases[OF assms(1,4,5,2)] by blast
  show ?thesis
  proof (cases "ix_look st f k \<noteq> None \<and> ix_look st f k \<noteq> Some pos")
    case True
    then have s: "e = Some DuplicateKey" "st' = st1\<lparr>ix_indices := (ix_indices st1)(f \<mapsto> i1)\<rparr>" "px_positions i1 = ix_look st f"
      using c(4) by auto
    have m: "ix_indices st' f = Some i1" using s(2) by simp
    show ?thesis
      using True c(1,2) s fr ix_look_some[OF m] file_ok_loaded[OF m] by (intro exI[of _ st'] exI[of _ e]) auto
  next
    case False
    then have s: "saveLocked (st1\<lparr>ix_indices := (ix_indices st1)(f \<mapsto> i1)\<rparr>) f i2 = (st', e)"
      "px_positions i2 = (\<lambda>k'. if k' = k then Some pos else if ix_look st f k' = Some pos then None else ix_look st f k')"
      using c(4) by auto
    note sv = saveLocked_frame[OF s(1)]
    have m: "ix_indices st' f = Some i2" using sv(2) by simp
    show ?thesis
      using False c(1,3) s(2) sv(1,3) fr assms(3) ix_look_some[OF m] file_ok_loaded[OF m]
      by (intro exI[of _ st'] exI[of _ e]) auto
  qed
qed

lemma index_set_rebinds_witness:
  "\<exists>st'. ix_set ''f'' 3 ''k'' ix_start = Ret (st', None) \<and> ix_look st' ''f'' ''k'' = Some 3"
proof -
  have g: "getIndex ix_start ''f'' =
      (ix_start\<lparr>ix_indices := (ix_indices ix_start)(''f'' \<mapsto> empty_pos_index)\<rparr>, Inr empty_pos_index)"
    by (simp add: getIndex_def ix_start_def px_load_def)
  have "ix_look ix_start ''f'' ''k'' = None" by (simp add: ix_look_get[OF g] empty_pos_index_def)
  then show ?thesis
    using index_set_rebinds[OF idx_ok_file[OF ix_start_ok] g, of 3 "''k''"] by (auto simp: ix_start_def)
qed

text \<open>
  C21: The incremental update of the positions is equivalent to building them anew: after a successful
  insertion of a key that is valid UTF-8 into a table whose keys are, the index in memory is the one that
  loading the file just written builds from scratch.
\<close>

theorem index_insert_equals_rebuild:
  assumes "idx_ok st" "ix_room st f pos" "k \<noteq> []" "utf8_ok k" "ix_insert f pos k st = (st', None)"
  shows "\<exists>idx. ix_indices st' f = Some idx \<and> px_load (ix_disk st' f) = Inr idx"
proof -
  obtain st1 r where g: "getIndex st f = (st1, r)" by fastforce
  note gk = getIndex_ok[OF assms(1) g]
  obtain idx where r: "r = Inr idx" "px_positions idx k = None"
    using assms(3,5) g by (cases r) (auto simp: ix_insert_def split: if_splits)
  have i: "px_ok idx" "px_utf8 idx" using gk(2)[OF r(1)] by (simp_all add: px_fine_def)
  have sv: "saveLocked st1 f (px_insert pos k idx) = (st', None)" using assms(3,5) g r by (simp add: ix_insert_def)
  have "px_utf8 (px_insert pos k idx)"
    using i(2) assms(4) insert_at_keys[of pos k "px_keys idx"] by (auto simp: px_utf8_def px_insert_keys)
  then have "ix_indices st' f = Some (px_insert pos k idx)" "ix_disk st' f = Payload (px_keys (px_insert pos k idx))"
    using saveLocked_frame[OF sv] json_keys by (simp_all split: if_splits)
  moreover have "px_load (Payload (px_keys (px_insert pos k idx))) = Inr (px_insert pos k idx)"
    unfolding px_insert_keys using i(1) r(2) assms(3) by (intro px_insert_load) auto
  ultimately show ?thesis by simp
qed

lemma index_insert_equals_rebuild_witness:
  "\<exists>idx. ix_indices (fst (ix_insert ''f'' 1 ''b'' ix_start)) ''f'' = Some idx
    \<and> px_load (ix_disk (fst (ix_insert ''f'' 1 ''b'' ix_start)) ''f'') = Inr idx"
proof -
  have g: "getIndex ix_start ''f'' =
      (ix_start\<lparr>ix_indices := (ix_indices ix_start)(''f'' \<mapsto> empty_pos_index)\<rparr>, Inr empty_pos_index)"
    by (simp add: getIndex_def ix_start_def px_load_def)
  have room: "ix_room ix_start ''f'' 1" by (simp add: ix_room_def g px_room_def empty_pos_index_def)
  have u: "utf8_ok ''b''" by code_simp
  have "snd (ix_insert ''f'' 1 ''b'' ix_start) = None"
    unfolding ix_insert_def g by (simp add: saveLocked_def Let_def ix_start_def empty_pos_index_def)
  then have "ix_insert ''f'' 1 ''b'' ix_start = (fst (ix_insert ''f'' 1 ''b'' ix_start), None)"
    by (metis prod.collapse)
  from index_insert_equals_rebuild[OF ix_start_ok room _ u this] show ?thesis by simp
qed

end
