(* ===== verification/Inc_Tables.thy ===== *)
theory Inc_Tables
  imports Kv_Fronts Inc_Index
begin

text \<open>
  The incremental tables as a client sees them: the routes \<open>save_inc\<close>, \<open>read_inc\<close> and \<open>delete_inc\<close>
  (\<open>routes/inc_save.go\<close>, \<open>inc_read.go\<close>, \<open>inc_delete.go\<close>). A table is an entry of the key-value store
  that names a file of records, the file, and the entry-key index of that file; each request goes
  through all three. The JSON of a response is modelled by the values in it, a response with a status
  and a text by the status.
\<close>

section \<open>State and replies\<close>

record ist =
  ist_kv :: kv
  ist_ix :: idx_state
  ist_out :: "(string \<times> string \<times> u64 \<times> bytes) list"

type_synonym 'a ist_call = "ist \<times> 'a call"

text \<open>
  \<open>Saved id warning\<close> carries the two sizes the warning prints, \<open>Entry\<close> is the answer to a single read,
  \<open>Entries\<close> the list of the others.
\<close>

datatype inc_reply =
    Status nat | Saved u64 "(u64 \<times> u64) option" | Entry bytes | Entries "(u64 \<times> bytes) list"

definition reply :: "ist \<Rightarrow> 'a \<Rightarrow> 'a ist_call" where
  "reply s x = (s, Reply x)"

definition ibind :: "'a ist_call \<Rightarrow> (ist \<Rightarrow> 'a \<Rightarrow> 'b ist_call) \<Rightarrow> 'b ist_call" where
  "ibind c k = (case c of
      (s, Reply x) \<Rightarrow> k s x
    | (s, Blocks) \<Rightarrow> (s, Blocks)
    | (s, Panics) \<Rightarrow> (s, Panics))"

definition ilift :: "ist \<Rightarrow> 'a outcome \<Rightarrow> (ist \<Rightarrow> 'a \<Rightarrow> 'b ist_call) \<Rightarrow> 'b ist_call" where
  "ilift s m k = (case m of Ret x \<Rightarrow> k s x | Panic \<Rightarrow> (s, Panics))"

text \<open>A step that may have answered the request already.\<close>

definition unless_replied :: "('r + 'a) ist_call \<Rightarrow> (ist \<Rightarrow> 'a \<Rightarrow> 'r ist_call) \<Rightarrow> 'r ist_call" where
  "unless_replied c k = ibind c (\<lambda>s x. case x of Inl r \<Rightarrow> reply s r | Inr y \<Rightarrow> k s y)"

definition on_dir :: "(datadir \<Rightarrow> datadir \<times> 'a call) \<Rightarrow> ist \<Rightarrow> 'a ist_call" where
  "on_dir f s = (case with_dir f (ist_kv s) of (k, r) \<Rightarrow> (s\<lparr>ist_kv := k\<rparr>, r))"

definition inc_notify :: "string \<Rightarrow> string \<Rightarrow> u64 \<Rightarrow> bytes \<Rightarrow> ist \<Rightarrow> ist" where
  "inc_notify key op i body s = s\<lparr>ist_out := ist_out s @ [(key, op, i, body)]\<rparr>"

definition path_args :: "string list \<Rightarrow> ist \<Rightarrow> (string \<Rightarrow> string \<Rightarrow> ist \<Rightarrow> 'a ist_call) \<Rightarrow> 'a ist_call" where
  "path_args parts s k =
     ilift s (go_index parts 2) (\<lambda>s file. ilift s (go_index parts 3) (\<lambda>s key. k file key s))"

section \<open>save_inc\<close>

text \<open>
  The headers: the size is refused when it is not a number, the id is then ignored; an unknown mode is
  \<open>append\<close>, an unknown direction is \<open>top\<close>.
\<close>

record inc_headers =
  ih_size :: "u64 option"
  ih_id :: "u64 option"
  ih_mode :: string
  ih_from :: string
  ih_key :: string

definition save_headers :: "http_request \<Rightarrow> inc_headers option" where
  "save_headers r =
     (let size_header = rq_header r ''max_entry_size'';
          id_header = rq_header r ''id'';
          mode_header = rq_header r ''mode'';
          count_from_header = rq_header r ''count_from'';
          rest = \<lparr>ih_size = None,
                  ih_id = (if id_header = [] then None else parse_uint id_header),
                  ih_mode = (if mode_header \<noteq> ''append'' \<and> mode_header \<noteq> ''overwrite'' then ''append''
                             else mode_header),
                  ih_from = (if count_from_header \<noteq> ''top'' \<and> count_from_header \<noteq> ''bottom'' then ''top''
                             else count_from_header),
                  ih_key = rq_header r ''entry_key''\<rparr>
      in if size_header = [] then Some rest
         else (case parse_uint size_header of
                 None \<Rightarrow> None
               | Some n \<Rightarrow> Some (rest\<lparr>ih_size := Some n\<rparr>)))"

definition inc_table_file :: "string \<Rightarrow> string" where
  "inc_table_file key = ''inc_table_'' @ key @ ''.tbl''"

text \<open>The first entry of a table: its metadata is saved like any other value.\<close>

definition create_inc_table :: "kv_env \<Rightarrow> string \<Rightarrow> string \<Rightarrow> u64 \<Rightarrow> ist
    \<Rightarrow> (inc_reply + inc_table_entry_data) ist_call" where
  "create_inc_table env file key entry_size s =
     (let new_data = \<lparr>td_entrySize = entry_size, td_tableFileName = inc_table_file key\<rparr>
      in case structToBytesBinary new_data of
           Inl _ \<Rightarrow> reply s (Inl (Status 500))
         | Inr byte_body \<Rightarrow>
             ibind (on_dir (saveDataToFileAsync (env_it env) (fst (encode byte_body)) file) s)
               (\<lambda>s (startPtr, endPtr, saveErr). case saveErr of
                  Some _ \<Rightarrow> reply s (Inl (Status 500))
                | None \<Rightarrow>
                    (case bind_key file key startPtr endPtr (ist_kv s) of
                       (k, Some _) \<Rightarrow> reply (s\<lparr>ist_kv := k\<rparr>) (Inl (Status 500))
                     | (k, None) \<Rightarrow> reply (s\<lparr>ist_kv := k\<rparr>) (Inr new_data))))"

definition load_inc_table :: "kv_env \<Rightarrow> string \<Rightarrow> getElement_output \<Rightarrow> ist
    \<Rightarrow> (inc_reply + inc_table_entry_data) ist_call" where
  "load_inc_table env file fsData s =
     ibind (on_dir (readDataFromFileAsync (env_it env) file (ge_StartPtr fsData) (ge_EndPtr fsData)) s)
       (\<lambda>s res. case res of
          Inl _ \<Rightarrow> reply s (Inl (Status 500))
        | Inr data \<Rightarrow>
            ilift s (decode data) (\<lambda>s obj.
              reply s (case bytesToStructBinary (dec_data obj) of
                         Inl _ \<Rightarrow> Inl (Status 500) | Inr td \<Rightarrow> Inr td)))"

definition size_warning :: "inc_headers \<Rightarrow> u64 \<Rightarrow> (u64 \<times> u64) option" where
  "size_warning h entry_size =
     (case ih_size h of None \<Rightarrow> None
      | Some requested \<Rightarrow> if requested \<noteq> entry_size then Some (requested, entry_size) else None)"

definition find_inc_table :: "kv_env \<Rightarrow> string \<Rightarrow> string \<Rightarrow> inc_headers \<Rightarrow> ist
    \<Rightarrow> (inc_reply + inc_table_entry_data \<times> (u64 \<times> u64) option) ist_call" where
  "find_inc_table env file key h s =
     (case get_meta file key (ist_kv s) of
        (k, Inl _) \<Rightarrow>
          ibind (create_inc_table env file key (case ih_size h of None \<Rightarrow> 0 | Some n \<Rightarrow> n) (s\<lparr>ist_kv := k\<rparr>))
            (\<lambda>s r. reply s (case r of Inl e \<Rightarrow> Inl e | Inr td \<Rightarrow> Inr (td, None)))
      | (k, Inr fsData) \<Rightarrow>
          ibind (load_inc_table env file fsData (s\<lparr>ist_kv := k\<rparr>))
            (\<lambda>s r. reply s (case r of Inl e \<Rightarrow> Inl e
                            | Inr td \<Rightarrow> Inr (td, size_warning h (td_entrySize td)))))"

definition respondWithIncID :: "ist \<Rightarrow> u64 \<Rightarrow> (u64 \<times> u64) option \<Rightarrow> inc_reply ist_call" where
  "respondWithIncID s i warning = reply s (Saved i warning)"

text \<open>The index is told after the record is written; a refusal does not undo the write.\<close>

definition index_reply :: "idx_state \<times> idx_error option \<Rightarrow> u64 \<Rightarrow> (u64 \<times> u64) option \<Rightarrow> ist
    \<Rightarrow> inc_reply ist_call" where
  "index_reply res i warning s =
     (case res of
        (x, None) \<Rightarrow> respondWithIncID (s\<lparr>ist_ix := x\<rparr>) i warning
      | (x, Some DuplicateKey) \<Rightarrow> reply (s\<lparr>ist_ix := x\<rparr>) (Status 409)
      | (x, Some _) \<Rightarrow> reply (s\<lparr>ist_ix := x\<rparr>) (Status 500))"

definition insert_reply :: "inc_table_entry_data \<Rightarrow> string \<Rightarrow> u64 \<Rightarrow> (u64 \<times> u64) option \<Rightarrow> ist
    \<Rightarrow> inc_reply ist_call" where
  "insert_reply td entryKey i warning s =
     (if entryKey = [] then respondWithIncID s i warning
      else index_reply (ix_insert (td_tableFileName td) i entryKey (ist_ix s)) i warning s)"

definition save_append :: "kv_env \<Rightarrow> string \<Rightarrow> inc_headers \<Rightarrow> bytes \<Rightarrow> bytes \<Rightarrow> inc_table_entry_data
    \<Rightarrow> (u64 \<times> u64) option \<Rightarrow> ist \<Rightarrow> inc_reply ist_call" where
  "save_append env key h enc body td warning s =
     ibind (on_dir (saveIncDataToFileAsync (env_it env) enc (td_tableFileName td) (td_entrySize td)) s)
       (\<lambda>s (i, err). case err of
          Some _ \<Rightarrow> reply s (Status 500)
        | None \<Rightarrow> insert_reply td (ih_key h) i warning (inc_notify key ''add'' i body s))"

definition save_overwrite :: "kv_env \<Rightarrow> string \<Rightarrow> inc_headers \<Rightarrow> u64 \<Rightarrow> bytes \<Rightarrow> bytes
    \<Rightarrow> inc_table_entry_data \<Rightarrow> (u64 \<times> u64) option \<Rightarrow> ist \<Rightarrow> inc_reply ist_call" where
  "save_overwrite env key h entry_id enc body td warning s =
     ibind (on_dir (saveIncDataToFileAsync_OverWrite (env_it env) enc (td_tableFileName td) (td_entrySize td)
              entry_id (ih_from h)) s)
       (\<lambda>s (i, err). case err of
          Some _ \<Rightarrow> reply s (Status 500)
        | None \<Rightarrow>
            (let s1 = inc_notify key ''overwrite'' i body s
             in if ih_key h = [] then respondWithIncID s1 i warning
                else ilift s1 (ix_set (td_tableFileName td) i (ih_key h) (ist_ix s1))
                       (\<lambda>s1 res. index_reply res i warning s1)))"

definition save_insert :: "kv_env \<Rightarrow> string \<Rightarrow> inc_headers \<Rightarrow> u64 \<Rightarrow> bytes \<Rightarrow> bytes
    \<Rightarrow> inc_table_entry_data \<Rightarrow> (u64 \<times> u64) option \<Rightarrow> ist \<Rightarrow> inc_reply ist_call" where
  "save_insert env key h entry_id enc body td warning s =
     ibind (on_dir (saveIncDataToFileAsync_Put (env_it env) enc (td_tableFileName td) (td_entrySize td)
              entry_id (ih_from h)) s)
       (\<lambda>s (i, err). case err of
          Some _ \<Rightarrow> reply s (Status 500)
        | None \<Rightarrow> insert_reply td (ih_key h) i warning (inc_notify key ''insert'' i body s))"

text \<open>A key that would be inserted is looked up before anything is written.\<close>

definition key_is_free :: "inc_headers \<Rightarrow> inc_table_entry_data \<Rightarrow> ist \<Rightarrow> (inc_reply + unit) ist_call" where
  "key_is_free h td s =
     (if ih_key h \<noteq> [] \<and> (ih_id h = None \<or> ih_mode h \<noteq> ''overwrite'')
      then (case ix_lookup (td_tableFileName td) (ih_key h) (ist_ix s) of
              (x, Inl _) \<Rightarrow> reply (s\<lparr>ist_ix := x\<rparr>) (Inl (Status 500))
            | (x, Inr (_, found)) \<Rightarrow> reply (s\<lparr>ist_ix := x\<rparr>) (if found then Inl (Status 409) else Inr ()))
      else reply s (Inr ()))"

definition save_entry :: "kv_env \<Rightarrow> string \<Rightarrow> inc_headers \<Rightarrow> bytes \<Rightarrow> inc_table_entry_data
    \<Rightarrow> (u64 \<times> u64) option \<Rightarrow> ist \<Rightarrow> inc_reply ist_call" where
  "save_entry env key h body td warning s =
     unless_replied (key_is_free h td s) (\<lambda>s _.
       if i64 (td_entrySize td) < int (length body) then reply s (Status 400)
       else ilift s (encodeIncEntry (td_entrySize td) body) (\<lambda>s enc.
         let enc = (case enc of None \<Rightarrow> [] | Some b \<Rightarrow> b)
         in case ih_id h of
              None \<Rightarrow> save_append env key h enc body td warning s
            | Some entry_id \<Rightarrow>
                if ih_mode h = ''overwrite'' then save_overwrite env key h entry_id enc body td warning s
                else save_insert env key h entry_id enc body td warning s))"

definition route_SaveIncremental :: "kv_env \<Rightarrow> http_request \<Rightarrow> ist \<Rightarrow> inc_reply ist_call" where
  "route_SaveIncremental env r s =
     (if rq_method r \<noteq> ''POST'' then reply s (Status 405)
      else let pathParts = parseArgs (rq_path r) ''save_inc''
           in if length pathParts < 2 then reply s (Status 400)
              else path_args pathParts s (\<lambda>file key s.
                case save_headers r of
                  None \<Rightarrow> reply s (Status 400)
                | Some h \<Rightarrow>
                    (case rq_body r of
                       None \<Rightarrow> reply s (Status 400)
                     | Some body \<Rightarrow>
                         unless_replied (find_inc_table env file key h s)
                           (\<lambda>s (td, warning). save_entry env key h body td warning s))))"

section \<open>read_inc\<close>

datatype inc_read = ById u64 | LastEntries u64 | FirstEntries u64 | ByKey string

definition read_number :: "string \<Rightarrow> u64 option" where
  "read_number raw = (if raw = [] then None else parse_uint raw)"

definition read_headers :: "http_request \<Rightarrow> inc_read option" where
  "read_headers r =
     (let read_type = rq_header r ''read_type''
      in if read_type = ''by_id'' then map_option ById (read_number (rq_header r ''id''))
         else if read_type = ''last_entries''
         then map_option LastEntries (read_number (rq_header r ''amount_to_read''))
         else if read_type = ''first_entries''
         then map_option FirstEntries (read_number (rq_header r ''amount_to_read''))
         else if read_type = ''by_key''
         then (let k = rq_header r ''entry_key'' in if k = [] then None else Some (ByKey k))
         else None)"

text \<open>The records of a block, skipped ones left out; each has the number of its place in the block.\<close>

fun inc_entries :: "u64 \<Rightarrow> nat \<Rightarrow> bytes \<Rightarrow> nat \<Rightarrow> nat \<Rightarrow> (codec_error + (u64 \<times> bytes) list) outcome" where
  "inc_entries e recordSize raw i 0 = Ret (Inr [])"
| "inc_entries e recordSize raw i (Suc n) =
     (case decodeIncEntry e (take recordSize (drop (i * recordSize) raw)) of
        Panic \<Rightarrow> Panic
      | Ret (Inl err) \<Rightarrow> Ret (Inl err)
      | Ret (Inr dec) \<Rightarrow>
          (case inc_entries e recordSize raw (Suc i) n of
             Panic \<Rightarrow> Panic
           | Ret (Inl err) \<Rightarrow> Ret (Inl err)
           | Ret (Inr es) \<Rightarrow>
               Ret (Inr (if body_skipBit dec then es else (word_of_nat i, body_data dec) # es))))"

definition entries_reply :: "u64 \<Rightarrow> worker_error + bytes \<Rightarrow> ist \<Rightarrow> inc_reply ist_call" where
  "entries_reply entrySize res s =
     (case res of
        Inl _ \<Rightarrow> reply s (Status 500)
      | Inr raw \<Rightarrow>
          (let recordSize = record_total entrySize
           in if recordSize \<le> 0 then reply s (Status 500)
              else if int (length raw) mod recordSize \<noteq> 0 then reply s (Status 500)
              else ilift s (inc_entries entrySize (nat recordSize) raw 0 (length raw div nat recordSize))
                     (\<lambda>s es. reply s (case es of Inl _ \<Rightarrow> Status 500 | Inr xs \<Rightarrow> Entries xs))))"

definition read_by_id :: "kv_env \<Rightarrow> inc_table_entry_data \<Rightarrow> u64 \<Rightarrow> ist \<Rightarrow> inc_reply ist_call" where
  "read_by_id env td read_id s =
     ibind (on_dir (readInc_ById (env_it env) (td_tableFileName td) read_id (td_entrySize td)) s)
       (\<lambda>s res. case res of
          Inl _ \<Rightarrow> reply s (Status 404)
        | Inr raw \<Rightarrow>
            if raw = [] then reply s (Status 404)
            else ilift s (decodeIncEntry (td_entrySize td) raw)
                   (\<lambda>s r. reply s (case r of Inl _ \<Rightarrow> Status 500 | Inr b \<Rightarrow> Entry (body_data b))))"

definition read_first :: "kv_env \<Rightarrow> inc_table_entry_data \<Rightarrow> u64 \<Rightarrow> ist \<Rightarrow> inc_reply ist_call" where
  "read_first env td amount s =
     ibind (on_dir (readInc_FirstEntries (env_it env) (td_tableFileName td) amount (td_entrySize td)) s)
       (\<lambda>s res. entries_reply (td_entrySize td) res s)"

definition read_last :: "kv_env \<Rightarrow> inc_table_entry_data \<Rightarrow> u64 \<Rightarrow> ist \<Rightarrow> inc_reply ist_call" where
  "read_last env td amount s =
     ibind (on_dir (readInc_LastEntries (env_it env) (td_tableFileName td) amount (td_entrySize td)) s)
       (\<lambda>s res. entries_reply (td_entrySize td) res s)"

definition read_by_key :: "kv_env \<Rightarrow> inc_table_entry_data \<Rightarrow> string \<Rightarrow> ist \<Rightarrow> inc_reply ist_call" where
  "read_by_key env td requestedKey s =
     (case ix_lookup (td_tableFileName td) requestedKey (ist_ix s) of
        (x, Inl _) \<Rightarrow> reply (s\<lparr>ist_ix := x\<rparr>) (Status 500)
      | (x, Inr (pos, ok)) \<Rightarrow>
          (if \<not> ok then reply (s\<lparr>ist_ix := x\<rparr>) (Status 404)
           else read_by_id env td pos (s\<lparr>ist_ix := x\<rparr>)))"

definition read_entry :: "kv_env \<Rightarrow> inc_read \<Rightarrow> inc_table_entry_data \<Rightarrow> ist \<Rightarrow> inc_reply ist_call" where
  "read_entry env q td s = (case q of
      ById i \<Rightarrow> read_by_id env td i s
    | LastEntries n \<Rightarrow> read_last env td n s
    | FirstEntries n \<Rightarrow> read_first env td n s
    | ByKey k \<Rightarrow> read_by_key env td k s)"

text \<open>The error of the read of the metadata is overwritten before it is looked at.\<close>

definition route_ReadIncremental :: "kv_env \<Rightarrow> http_request \<Rightarrow> ist \<Rightarrow> inc_reply ist_call" where
  "route_ReadIncremental env r s =
     (if rq_method r \<noteq> ''GET'' then reply s (Status 405)
      else let pathParts = parseArgs (rq_path r) ''read_inc''
           in if length pathParts < 2 then reply s (Status 400)
              else path_args pathParts s (\<lambda>file key s.
                case read_headers r of
                  None \<Rightarrow> reply s (Status 400)
                | Some q \<Rightarrow>
                    (case get_meta file key (ist_kv s) of
                       (k, Inl _) \<Rightarrow> reply (s\<lparr>ist_kv := k\<rparr>) (Status 400)
                     | (k, Inr fsData) \<Rightarrow>
                         ibind (on_dir (readDataFromFileAsync (env_it env) file (ge_StartPtr fsData)
                                  (ge_EndPtr fsData)) (s\<lparr>ist_kv := k\<rparr>))
                           (\<lambda>s res. ilift s (decode (case res of Inl _ \<Rightarrow> [] | Inr data \<Rightarrow> data))
                             (\<lambda>s obj. case bytesToStructBinary (dec_data obj) of
                                Inl _ \<Rightarrow> reply s (Status 500)
                              | Inr td \<Rightarrow> read_entry env q td s)))))"

section \<open>delete_inc\<close>

definition route_DeleteIncremental :: "kv_env \<Rightarrow> http_request \<Rightarrow> ist \<Rightarrow> inc_reply ist_call" where
  "route_DeleteIncremental env r s =
     (if rq_method r \<noteq> ''GET'' then reply s (Status 405)
      else let pathParts = parseArgs (rq_path r) ''delete_inc''
           in if length pathParts < 4 then reply s (Status 400)
              else path_args pathParts s (\<lambda>file key s.
                case get_meta file key (ist_kv s) of
                  (k, Inl _) \<Rightarrow> reply (s\<lparr>ist_kv := k\<rparr>) (Status 404)
                | (k, Inr fsData) \<Rightarrow>
                    unless_replied (load_inc_table env file fsData (s\<lparr>ist_kv := k\<rparr>))
                      (\<lambda>s incInfo.
                        ibind (on_dir (deleteIncTableFile (env_it env) (td_tableFileName incInfo)) s)
                          (\<lambda>s err. case err of
                             Some _ \<Rightarrow> reply s (Status 500)
                           | None \<Rightarrow>
                               (let x = fst (ix_dropTable (td_tableFileName incInfo) (ist_ix s));
                                    k1 = remove_meta file key (ist_kv s);
                                    k2 = kv_mark_free key file (ge_StartPtr fsData) (ge_EndPtr fsData) k1
                                in reply (s\<lparr>ist_ix := x, ist_kv := kv_notify (NotifyDeleteAndRemove key) k2\<rparr>)
                                     (Status 200))))))"

end
