(* ===== verification/Kv_Durability.thy ===== *)
theory Kv_Durability
  imports Kv_Fronts
begin

text \<open>
  The files of a table in step with the memory: the free list on disk is the one in memory, the log
  file, the buffer and the queue give the index. Every command of every front keeps it so, which is
  the contract \<open>durable_front\<close>.
\<close>

section \<open>Free lists on disk\<close>

definition restart_defrag :: "defrag \<Rightarrow> defrag" where
  "restart_defrag d = d\<lparr>freeRegistry := (\<lambda>_. None)\<rparr>"

text \<open>The list of a table is on disk as it is in memory.\<close>

definition list_path :: "string \<Rightarrow> string" where
  "list_path t = free_path (sanitizeName (trim_space t))"

definition free_synced :: "string \<Rightarrow> defrag \<Rightarrow> bool" where
  "free_synced t d \<longleftrightarrow> trim_space t \<noteq> [] \<and> \<not> openRefused d (list_path t) \<and> \<not> writeRefused d (list_path t)
     \<and> freeDisk d (list_path t) \<noteq> Some Garbage
     \<and> (\<forall>fl. freeRegistry d (trim_space t) = Some fl \<longrightarrow> fl_path fl = list_path t
         \<and> (if fl_loaded fl then (case freeDisk d (list_path t) of None \<Rightarrow> fl_blocks fl = []
              | Some f \<Rightarrow> f = free_file.Blocks (fl_blocks fl)) else fl_blocks fl = []))"

lemma synced_list:
  assumes "free_synced t d"
  shows "\<exists>fl d1 fl1. getTableFreeList d t = Inr (trim_space t, fl, d1) \<and> fl_load d1 fl = Inr fl1
    \<and> fl_path fl1 = list_path t \<and> fl_loaded fl1 \<and> fl_blocks fl1 = table_blocks d t
    \<and> (case freeDisk d (list_path t) of None \<Rightarrow> fl_blocks fl1 = [] | Some f \<Rightarrow> f = free_file.Blocks (fl_blocks fl1))
    \<and> freeDisk d1 = freeDisk d \<and> openRefused d1 = openRefused d \<and> writeRefused d1 = writeRefused d"
proof -
  have p: "free_path (sanitizeName (trim_space t)) = list_path t" by (simp add: list_path_def)
  show ?thesis
    using assms unfolding free_synced_def table_blocks_def
    by (cases "freeRegistry d (trim_space t)")
       (auto simp: getTableFreeList_def fl_load_def Let_def p split: option.splits free_file.splits)
qed

lemma synced_put_save:
  assumes "free_synced t d" "freeDisk d1 = freeDisk d" "openRefused d1 = openRefused d" "writeRefused d1 = writeRefused d"
    and "fl_path fl = list_path t" "fl_loaded fl" "fl_save (put_fl d1 (trim_space t) fl) fl = Inr d2"
  shows "free_synced t d2"
  using assms by (auto simp: free_synced_def fl_save_def put_fl_def split: if_splits)

lemma synced_save_ok:
  "free_synced t d \<Longrightarrow> writeRefused d1 = writeRefused d \<Longrightarrow> fl_path fl = list_path t \<Longrightarrow>
   \<exists>d2. fl_save (put_fl d1 u fl) fl = Inr d2"
  by (auto simp: free_synced_def fl_save_def put_fl_def)

lemma synced_put_loaded:
  assumes "free_synced t d" "freeDisk d1 = freeDisk d" "openRefused d1 = openRefused d" "writeRefused d1 = writeRefused d"
    and "fl_path fl = list_path t" "fl_loaded fl"
    and "case freeDisk d (list_path t) of None \<Rightarrow> fl_blocks fl = [] | Some f \<Rightarrow> f = free_file.Blocks (fl_blocks fl)"
  shows "free_synced t (put_fl d1 (trim_space t) fl)"
  using assms by (simp add: free_synced_def put_fl_def)

lemma synced_mark:
  assumes "free_synced t d"
  shows "free_synced t (fst (markAsFree d k t a b))"
proof -
  obtain fl d1 fl1 where g: "getTableFreeList d t = Inr (trim_space t, fl, d1)" "fl_load d1 fl = Inr fl1"
    "fl_path fl1 = list_path t" "fl_loaded fl1" "freeDisk d1 = freeDisk d" "openRefused d1 = openRefused d"
    "writeRefused d1 = writeRefused d"
    using synced_list[OF assms] by blast
  let ?fl = "fl1\<lparr>fl_blocks := AList.update k (new_block t a b) (fl_blocks fl1)\<rparr>"
  obtain d2 where s: "fl_save (put_fl d1 (trim_space t) ?fl) ?fl = Inr d2"
    using synced_save_ok[OF assms g(7), of ?fl "trim_space t"] g(3) by auto
  show ?thesis
    using synced_put_save[OF assms g(5-7) _ _ s] g s by (simp add: markAsFree_def Let_def)
qed

lemma synced_alloc:
  assumes "free_synced t d"
  shows "free_synced t (fst (pool_alloc it t d n))"
proof -
  obtain fl d1 fl1 where g: "getTableFreeList d t = Inr (trim_space t, fl, d1)" "fl_load d1 fl = Inr fl1"
    "fl_path fl1 = list_path t" "fl_loaded fl1" "freeDisk d1 = freeDisk d" "openRefused d1 = openRefused d"
    "writeRefused d1 = writeRefused d"
    and b: "case freeDisk d (list_path t) of None \<Rightarrow> fl_blocks fl1 = [] | Some f \<Rightarrow> f = free_file.Blocks (fl_blocks fl1)"
    using synced_list[OF assms] by blast
  show ?thesis
  proof (cases "scan_fit n t None (go_range it (fl_blocks fl1))")
    case None
    then show ?thesis
      using synced_put_loaded[OF assms g(5-7,3,4) b] g by (simp add: pool_alloc_def getBlock_def Let_def)
  next
    case (Some p)
    let ?d = "put_fl d1 (trim_space t) fl1" and ?fl = "fl1\<lparr>fl_blocks := AList.delete (fst p) (fl_blocks fl1)\<rparr>"
    have e: "freeDisk ?d = freeDisk d" "openRefused ?d = openRefused d" "writeRefused ?d = writeRefused d"
      using g by (simp_all add: put_fl_def)
    obtain d2 where s: "fl_save (put_fl ?d (trim_space t) ?fl) ?fl = Inr d2"
      using synced_save_ok[OF assms e(3), of ?fl "trim_space t"] g(3) by auto
    show ?thesis
      using synced_put_save[OF assms e _ _ s] g s Some
      by (simp add: pool_alloc_def getBlock_def Let_def split_beta)
  qed
qed

lemma synced_claim:
  assumes "free_synced t d"
  shows "free_synced t (pool_claim it t d a b)"
proof -
  obtain fl d1 fl1 where g: "getTableFreeList d t = Inr (trim_space t, fl, d1)" "fl_load d1 fl = Inr fl1"
    "fl_path fl1 = list_path t" "fl_loaded fl1" "freeDisk d1 = freeDisk d" "openRefused d1 = openRefused d"
    "writeRefused d1 = writeRefused d"
    and bl: "case freeDisk d (list_path t) of None \<Rightarrow> fl_blocks fl1 = [] | Some f \<Rightarrow> f = free_file.Blocks (fl_blocks fl1)"
    using synced_list[OF assms] by blast
  show ?thesis
  proof (cases "find_containing t a b (go_range it (fl_blocks fl1))")
    case None
    then show ?thesis
      using synced_put_loaded[OF assms g(5-7,3,4) bl] g by (simp add: pool_claim_def saveBlockCheck_def Let_def)
  next
    case (Some p)
    let ?d = "put_fl d1 (trim_space t) fl1" and ?fl = "fl1\<lparr>fl_blocks := split_block (fst p) (snd p) a b (fl_blocks fl1)\<rparr>"
    have e: "freeDisk ?d = freeDisk d" "openRefused ?d = openRefused d" "writeRefused ?d = writeRefused d"
      using g by (simp_all add: put_fl_def)
    obtain d2 where s: "fl_save (put_fl ?d (trim_space t) ?fl) ?fl = Inr d2"
      using synced_save_ok[OF assms e(3), of ?fl "trim_space t"] g(3) by auto
    show ?thesis
      using synced_put_save[OF assms e _ _ s] g s Some
      by (simp add: pool_claim_def saveBlockCheck_def Let_def split_beta)
  qed
qed

lemma synced_restart:
  assumes "free_synced t d"
  shows "table_blocks (restart_defrag d) t = table_blocks d t" "free_synced t (restart_defrag d)"
proof -
  show s: "free_synced t (restart_defrag d)" using assms by (simp add: free_synced_def restart_defrag_def)
  have "freeDisk (restart_defrag d) = freeDisk d" by (simp add: restart_defrag_def)
  then show "table_blocks (restart_defrag d) t = table_blocks d t"
    using synced_list[OF s] synced_list[OF assms] by (auto split: option.splits)
qed

section \<open>The log of a table\<close>

text \<open>The files and the index a call on table \<open>t\<close> works with, loaded if it has to be.\<close>

definition table_state :: "map_manager \<Rightarrow> string \<Rightarrow> (map_fs \<times> tableIndex) option" where
  "table_state mm t = (case getTableIndex mm t of (mm1, Inr idx) \<Rightarrow> Some (mm_fs mm1, idx) | _ \<Rightarrow> None)"

definition logged :: "string \<Rightarrow> map_fs \<times> tableIndex \<Rightarrow> bool" where
  "logged t r \<longleftrightarrow> (\<exists>base ws bs. log_inv [] base ws bs r) \<and> ti_safeName (snd r) = sanitizeTableName t
     \<and> pend_ok r \<and> \<not> mf_denied (fst r) (tableDir (sanitizeTableName t))"

definition kv_logged :: "string \<Rightarrow> map_manager \<Rightarrow> bool" where
  "kv_logged t mm \<longleftrightarrow> (\<exists>r. table_state mm t = Some r \<and> logged t r)"

lemma table_state_get:
  assumes "table_state mm t = Some r"
  obtains mm1 where "getTableIndex mm t = (mm1, Inr (snd r))" "mm_fs mm1 = fst r" "table_state mm1 t = Some r"
    "mm_registry mm1 t = Some (snd r)" "trim_space t \<noteq> []"
proof -
  obtain mm1 where g: "getTableIndex mm t = (mm1, Inr (snd r))" "mm_fs mm1 = fst r"
    using assms unfolding table_state_def by (cases "getTableIndex mm t") (auto split: sum.splits)
  note i = getTableIndex_index[OF g(1)]
  have reg: "mm_registry mm1 t = Some (snd r)" and tr: "trim_space t \<noteq> []" using i by blast+
  have nm: "normalizeTableName t = Inr t" using tr by (simp add: normalizeTableName_def)
  have st: "table_state mm1 t = Some r"
    unfolding table_state_def getTableIndex_def nm by (simp add: reg g(2))
  show thesis by (rule that[OF g st reg tr])
qed

lemma table_state_put: "trim_space t \<noteq> [] \<Longrightarrow> table_state (putIndex mm t r) t = Some r"
  by (auto simp: table_state_def putIndex_def getTableIndex_def normalizeTableName_def split: option.split)

lemma index_step_denied: "index_step s s' \<Longrightarrow> mf_denied (fst s') = mf_denied (fst s)"
proof -
  have f: "mf_denied (fst (flushWal fs ti)) = mf_denied fs" for fs ti by (simp add: flushWal_def)
  have r: "mf_denied (fst (walWriterReceive fs ti)) = mf_denied fs" for fs ti
    by (auto simp: walWriterReceive_def Let_def flushWal_def split: list.split)
  have e: "mf_denied (fst (enqueueWal fs ti op)) = mf_denied fs" for fs ti op
    using f r by (auto simp: enqueueWal_def split: prod.splits) (metis fst_conv)
  assume "index_step s s'"
  then show ?thesis
  proof cases
    case (save ti k f a b fs)
    then show ?thesis using e by (simp add: saveElement_def Let_def split_beta)
  next
    case (remove k fs ti)
    then show ?thesis using e by (simp add: removeElement_def)
  next
    case (receive fs ti)
    then show ?thesis using r by simp
  next
    case (tick fs ti)
    then show ?thesis by (simp add: walWriterTick_def flushWal_def)
  next
    case (snapshot fs ti it)
    then show ?thesis
      by (simp add: writeSnapshot_def snapshotFinish_def no_faults_def flushWal_def rotateWal_def Let_def)
  qed
qed

lemma logged_step:
  assumes "logged t r" "index_step r r'"
  shows "logged t r'"
proof -
  obtain base ws bs where i: "log_inv [] base ws bs r" using assms(1) by (auto simp: logged_def)
  have "pend_ok r'" using pend_ok_step[OF assms(2)] log_inv_open[OF i] assms(1) by (simp add: logged_def)
  then show ?thesis
    using log_inv_step[OF i assms(2)] index_step_safeName[OF assms(2)] index_step_denied[OF assms(2)] assms(1)
    by (simp add: logged_def)
qed

lemma kv_logged_step:
  assumes "kv_logged t mm" "\<And>r mm1. table_state mm t = Some r \<Longrightarrow> getTableIndex mm t = (mm1, Inr (snd r)) \<Longrightarrow>
      mm_fs mm1 = fst r \<Longrightarrow> \<exists>r'. mm' = putIndex mm1 t r' \<and> index_step r r'"
  shows "kv_logged t mm'"
proof -
  obtain r where r: "table_state mm t = Some r" "logged t r" using assms(1) by (auto simp: kv_logged_def)
  obtain mm1 where g: "getTableIndex mm t = (mm1, Inr (snd r))" "mm_fs mm1 = fst r" "trim_space t \<noteq> []"
    using table_state_get[OF r(1)] by blast
  obtain r' where "mm' = putIndex mm1 t r'" "index_step r r'" using assms(2)[OF r(1) g(1,2)] by blast
  then show ?thesis using table_state_put[OF g(3)] logged_step[OF r(2)] unfolding kv_logged_def by blast
qed

lemma kv_logged_save:
  assumes "kv_logged t mm" "\<And>ti. save_ok ti k t a b"
  shows "kv_logged t (fst (saveElementByKey mm t k a b))"
proof (rule kv_logged_step[OF assms(1)])
  fix r mm1 assume g: "getTableIndex mm t = (mm1, Inr (snd r))" "mm_fs mm1 = fst r"
  have "index_step r (fst (saveElement (fst r) (snd r) k t a b))"
    using index_step.save[OF assms(2), of "fst r" "snd r"] by simp
  then show "\<exists>r'. fst (saveElementByKey mm t k a b) = putIndex mm1 t r' \<and> index_step r r'"
    using g by (intro exI[of _ "fst (saveElement (fst r) (snd r) k t a b)"]) (simp add: saveElementByKey_def split_beta)
qed

lemma kv_logged_remove:
  assumes "kv_logged t mm" "remove_ok k"
  shows "kv_logged t (fst (removeElementByKey mm t k))"
proof (rule kv_logged_step[OF assms(1)])
  fix r mm1 assume g: "getTableIndex mm t = (mm1, Inr (snd r))" "mm_fs mm1 = fst r"
  have "index_step r (removeElement (fst r) (snd r) k)"
    using index_step.remove[OF assms(2), of "fst r" "snd r"] by simp
  then show "\<exists>r'. fst (removeElementByKey mm t k) = putIndex mm1 t r' \<and> index_step r r'"
    using g by (intro exI[of _ "removeElement (fst r) (snd r) k"]) (simp add: removeElementByKey_def)
qed

lemma kv_logged_get:
  assumes "kv_logged t mm"
  shows "kv_logged t (fst (getElementByKey mm t k))"
proof -
  obtain r where r: "table_state mm t = Some r" "logged t r" using assms by (auto simp: kv_logged_def)
  obtain mm1 where "getTableIndex mm t = (mm1, Inr (snd r))" "table_state mm1 t = Some r"
    using table_state_get[OF r(1)] by blast
  then show ?thesis using r(2) by (auto simp: getElementByKey_def kv_logged_def)
qed

section \<open>The store and its files\<close>

definition durable :: "string \<Rightarrow> kv \<Rightarrow> bool" where
  "durable t s \<longleftrightarrow> kv_logged t (kv_maps s) \<and> free_synced t (dd_defrag (kv_dir s))"

lemma durable_dir: "durable t s \<Longrightarrow> free_synced t (dd_defrag d) \<Longrightarrow> durable t (s\<lparr>kv_dir := d\<rparr>)"
  by (simp add: durable_def)

lemma durable_notify [simp]: "durable t (kv_notify n s) = durable t s"
  by (simp add: durable_def kv_notify_def)

lemma durable_get:
  assumes "durable t s" "get_meta t k s = (s', r)"
  shows "durable t s'" "kv_dir s' = kv_dir s"
  using assms kv_logged_get[of t "kv_maps s" k]
  by (auto simp: get_meta_def durable_def split: prod.splits)

lemma durable_mark: "durable t s \<Longrightarrow> durable t (kv_mark_free k t a b s)"
  using synced_mark by (simp add: durable_def kv_mark_free_def)

lemma durable_remove: "durable t s \<Longrightarrow> remove_ok k \<Longrightarrow> durable t (remove_meta t k s)"
  using kv_logged_remove by (simp add: durable_def remove_meta_def)

text \<open>Names and sizes that the log can carry: the line of the entry, and pointers of 64 bits.\<close>

definition loggable :: "string \<Rightarrow> kv \<Rightarrow> kv_cmd \<Rightarrow> bool" where
  "loggable t s c \<longleftrightarrow> (case c of
      Put k d \<Rightarrow> clean_name k \<and> clean_name t \<and> length k + length t + 45 < max_token
        \<and> int (length (kv_file s t)) + int (length (frame d)) < 2 ^ 63
    | Get k \<Rightarrow> True
    | Del k \<Rightarrow> remove_ok k)"

lemma length_show_nat: "n < 10 ^ m \<Longrightarrow> 0 < m \<Longrightarrow> length (show_nat n) \<le> m"
proof (induction n arbitrary: m rule: show_nat.induct)
  case (1 n)
  show ?case
  proof (cases "n < 10")
    case True
    then show ?thesis using 1(3) by (subst show_nat.simps) simp
  next
    case False
    then obtain m' where m: "m = Suc m'" "0 < m'" using 1(2,3) by (cases m; cases "m - 1") auto
    have "n div 10 < 10 ^ m'" using 1(2) m(1) by (simp add: div_less_iff_less_mult mult.commute)
    then have "length (show_nat (n div 10)) \<le> m'" using 1(1)[OF False] m(2) by simp
    then show ?thesis using False m(1) by (subst show_nat.simps) simp
  qed
qed

lemma length_show_int: "0 \<le> i \<Longrightarrow> i < 2 ^ 63 \<Longrightarrow> length (show_int i) \<le> 19"
proof -
  assume i: "0 \<le> i" "i < 2 ^ 63"
  then have "nat i < 10 ^ 19" by simp
  from length_show_nat[OF this] i(1) show ?thesis by (simp add: show_int_def)
qed

text \<open>The range a save of a key is bound to can be logged.\<close>

lemma wrote_save_ok:
  assumes inv: "kv_inv t s" and w: "wrote env t (frame d) (kv_dir s) d' a" and ok: "loggable t s (Put k d)"
  shows "save_ok ti k t a (a + int (length (frame d)))"
proof -
  obtain idx where sep: "defrag_pool.separated t (dd_defrag (kv_dir s)) (live_spans idx) (int (length (kv_file s t)))"
    using inv unfolding kv_inv_def by blast
  obtain p1 r where al: "pool_alloc (env_it env) t (dd_defrag (kv_dir s)) (int (length (frame d))) = (p1, r)"
    and a: "a = defrag_pool.place r (int (length (kv_file s t)))"
    using w unfolding wrote_def by blast
  have n: "0 < int (length (frame d))" by simp
  have b: "0 \<le> a" "a \<le> int (length (kv_file s t))"
    using defrag_pool.place_fresh(2,6)[OF sep n al] unfolding a by blast+
  have l: "clean_name k" "clean_name t" "length k + length t + 45 < max_token"
    "a + int (length (frame d)) < 2 ^ 63"
    using ok b(2) by (simp_all add: loggable_def)
  have "length (show_int a) \<le> 19" "length (show_int (a + int (length (frame d)))) \<le> 19"
    using l(4) b(1) n by (auto intro!: length_show_int)
  then show ?thesis
    using l b(1) n by (simp add: save_ok_def clean_entry_def isPointerRangeValid_def int64_def snapLine_def)
qed

lemma bind_key_maps: "kv_maps (fst (bind_key t k a b s)) = fst (saveElementByKey (kv_maps s) t k a b)"
  by (simp add: bind_key_def Let_def kv_mark_free_def split: prod.split sum.split option.split)

lemma wrote_synced:
  assumes "free_synced t (dd_defrag d)" "wrote env t data d d' a"
  shows "free_synced t (dd_defrag d')"
proof -
  obtain p1 r where "pool_alloc (env_it env) t (dd_defrag d) (int (length data)) = (p1, r)"
    "dd_defrag d' = pool_claim (env_it env) t p1 a (a + int (length data)) \<or> dd_defrag d' = p1"
    using assms(2) unfolding wrote_def by blast
  then show ?thesis
    using synced_alloc[OF assms(1), of "env_it env" "int (length data)"] synced_claim by (metis fst_conv)
qed

lemma durable_put:
  assumes inv: "kv_inv t s" and dur: "durable t s" and w: "wrote env t (frame d) (kv_dir s) d' a"
    and ok: "loggable t s (Put k d)" and b: "bind_key t k a (a + int (length (frame d))) (s\<lparr>kv_dir := d'\<rparr>) = (s', None)"
  shows "durable t s'"
proof -
  let ?s = "s\<lparr>kv_dir := d'\<rparr>" and ?b = "a + int (length (frame d))"
  obtain idx where idx: "kv_index s t = Some idx" "index_wf idx"
    "\<And>k e. loadEntry idx k = Some e \<Longrightarrow> e_file e = t"
    using inv unfolding kv_inv_def holds_frame_def by blast
  have sv: "save_ok ti k t a ?b" for ti by (rule wrote_save_ok[OF inv w ok])
  then have v: "isPointerRangeValid a ?b" by (simp add: save_ok_def clean_entry_def)
  have dir: "kv_dir s' = (case loadEntry idx k of None \<Rightarrow> d'
      | Some e \<Rightarrow> if e_file e = t \<and> e_start e = a \<and> e_end e = ?b then d'
                  else kv_dir (kv_mark_free k (e_file e) (e_start e) (e_end e) ?s))"
    using bind_key_spec[of ?s t idx a ?b k] idx(1,2) v b by (auto split: option.split)
  have m: "kv_logged t (kv_maps s')"
    using kv_logged_save[of t "kv_maps s" k a ?b, OF _ sv] dur bind_key_maps[of t k a ?b ?s] b by (simp add: durable_def)
  have "free_synced t (dd_defrag d')" using wrote_synced[OF _ w] dur by (simp add: durable_def)
  then have "free_synced t (dd_defrag (kv_dir s'))"
    unfolding dir using synced_mark idx(3) by (auto simp: kv_mark_free_def split: option.split)
  then show ?thesis using m by (simp add: durable_def)
qed

section \<open>What a command does to the state\<close>

definition put_effect :: "kv_env \<Rightarrow> string \<Rightarrow> string \<Rightarrow> bytes \<Rightarrow> kv \<Rightarrow> kv \<Rightarrow> bool" where
  "put_effect env t k d s s' \<longleftrightarrow> (\<exists>d' a s1 ns. wrote env t (frame d) (kv_dir s) d' a
     \<and> bind_key t k a (a + int (length (frame d))) (s\<lparr>kv_dir := d'\<rparr>) = (s1, None) \<and> s' = s1\<lparr>kv_outbox := ns\<rparr>)"

definition get_effect :: "string \<Rightarrow> string \<Rightarrow> kv \<Rightarrow> kv \<Rightarrow> bool" where
  "get_effect t k s s' \<longleftrightarrow> s' = s \<or> (\<exists>s1 r d'. get_meta t k s = (s1, r) \<and> s' = s1\<lparr>kv_dir := d'\<rparr>
     \<and> dd_defrag d' = dd_defrag (kv_dir s1) \<and> same_elsewhere (data_path t) (kv_dir s1) d')"

definition del_effect :: "string \<Rightarrow> string \<Rightarrow> kv \<Rightarrow> kv \<Rightarrow> bool" where
  "del_effect t k s s' \<longleftrightarrow> (\<exists>s1 r a b ns. get_meta t k s = (s1, r)
     \<and> (s' = s1 \<or> s' = (kv_mark_free k t a b (remove_meta t k s1))\<lparr>kv_outbox := ns\<rparr>))"

definition cmd_effect :: "kv_env \<Rightarrow> string \<Rightarrow> kv_cmd \<Rightarrow> kv \<Rightarrow> kv \<Rightarrow> bool" where
  "cmd_effect env t c s s' = (case c of Put k d \<Rightarrow> put_effect env t k d s s' | Get k \<Rightarrow> get_effect t k s s'
     | Del k \<Rightarrow> del_effect t k s s')"

lemma effect_durable:
  assumes "kv_inv t s" "durable t s" "loggable t s c"
    and "cmd_effect env t c s s'"
  shows "durable t s'"
proof -
  have o: "durable t (x\<lparr>kv_outbox := ns\<rparr>) = durable t x" for x ns by (simp add: durable_def)
  show ?thesis
  proof (cases c)
    case (Put k d)
    then show ?thesis using assms o durable_put[OF assms(1,2)] by (auto simp: cmd_effect_def put_effect_def)
  next
    case (Get k)
    then show ?thesis using assms durable_get[OF assms(2)] by (auto simp: cmd_effect_def get_effect_def durable_def)
  next
    case (Del k)
    then have "remove_ok k" using assms(3) by (simp add: loggable_def)
    then show ?thesis
      using Del assms(4) durable_get(1)[OF assms(2)] durable_remove durable_mark o by (auto simp: cmd_effect_def del_effect_def)
  qed
qed

lemma put_effect_bind:
  assumes "kv_inv t s" "kv_fits d" "wrote env t (frame d) (kv_dir s) d' a"
  obtains s1 where "bind_key t k a (a + int (length (frame d))) (s\<lparr>kv_dir := d'\<rparr>) = (s1, None)"
    "put_effect env t k d s (kv_notify n s1)" "put_effect env t k d s s1"
proof -
  obtain s1 where b: "bind_key t k a (a + int (length (frame d))) (s\<lparr>kv_dir := d'\<rparr>) = (s1, None)"
    using save_core[OF assms] by blast
  have "put_effect env t k d s (s1\<lparr>kv_outbox := ns\<rparr>)" for ns
    using b assms(3) by (auto simp: put_effect_def)
  from this[of "kv_outbox s1 @ [n]"] this[of "kv_outbox s1"] show thesis
    using that[OF b] by (simp add: kv_notify_def)
qed

lemma get_effect_meta: "get_meta t k s = (s1, r) \<Longrightarrow> get_effect t k s s1"
  unfolding get_effect_def
  by (intro disjI2 exI[of _ s1] exI[of _ r] exI[of _ "kv_dir s1"]) (simp add: same_elsewhere_def)

lemma get_effect_read:
  "get_meta t k s = (s1, r) \<Longrightarrow> dd_defrag d' = dd_defrag (kv_dir s1) \<Longrightarrow>
   same_elsewhere (data_path t) (kv_dir s1) d' \<Longrightarrow> get_effect t k s (s1\<lparr>kv_dir := d'\<rparr>)"
  unfolding get_effect_def by blast

lemma del_effect_mark: "get_meta t k s = (s1, r) \<Longrightarrow> del_effect t k s (kv_notify n (kv_mark_free k t a b (remove_meta t k s1)))"
  unfolding del_effect_def kv_notify_def by blast

lemma del_effect_plain:
  "get_meta t k s = (s1, r) \<Longrightarrow> del_effect t k s (kv_mark_free k t a b (remove_meta t k s1))"
proof -
  assume g: "get_meta t k s = (s1, r)"
  let ?s = "kv_mark_free k t a b (remove_meta t k s1)"
  have "?s = ?s\<lparr>kv_outbox := kv_outbox ?s\<rparr>" by simp
  then show ?thesis using g unfolding del_effect_def by blast
qed

lemma del_effect_meta: "get_meta t k s = (s1, r) \<Longrightarrow> del_effect t k s s1"
  unfolding del_effect_def by blast

lemma get_entry:
  assumes "kv_inv t s"
  obtains s1 idx where "kv_index s1 t = Some idx" "kv_inv t s1"
    "get_meta t k s = (s1, case loadEntry idx k of None \<Rightarrow> Inl KeyNotFound | Some e \<Rightarrow> Inr (entryToOutput k e))"
  using get_meta_inv[OF assms] by metis

lemma effect_lib:
  assumes inv: "kv_inv t s" and ok: "cmd_ok t c"
  shows "cmd_effect env t c s (fst (lib_exec env t c s))"
proof (cases c)
  case (Put k d)
  then have d: "kv_fits d" "k \<noteq> []" "t \<noteq> []" using ok by (auto simp: cmd_ok_def plain_def)
  obtain d' a where w: "with_dir (saveDataToFileAsync (env_it env) (frame d) t) s =
      (s\<lparr>kv_dir := d'\<rparr>, Reply (a, a + int (length (frame d)), None))" "wrote env t (frame d) (kv_dir s) d' a"
    using wrote_async[OF inv d(1)] by blast
  obtain s1 where "bind_key t k a (a + int (length (frame d))) (s\<lparr>kv_dir := d'\<rparr>) = (s1, None)"
    "put_effect env t k d s (kv_notify (NotifySubscribers k d) s1)"
    using put_effect_bind[OF inv d(1) w(2)] .
  then show ?thesis using Put w(1) d by (simp add: cmd_effect_def export_Save_def)
next
  case (Get k)
  obtain s1 idx where m: "kv_index s1 t = Some idx" "kv_inv t s1"
    "get_meta t k s = (s1, case loadEntry idx k of None \<Rightarrow> Inl KeyNotFound | Some e \<Rightarrow> Inr (entryToOutput k e))"
    using get_entry[OF inv] .
  show ?thesis
  proof (cases "loadEntry idx k")
    case None
    then show ?thesis
      using Get m get_effect_meta[OF m(3)]
      by (auto simp: cmd_effect_def export_Read_def get_effect_def Let_def split: option.split)
  next
    case (Some e)
    obtain d' d where r: "with_dir (readDataFromFileAsync (env_it env) t (e_start e) (e_end e)) s1 =
        (s1\<lparr>kv_dir := d'\<rparr>, Reply (Inr (frame d)))" "kv_fits d" "dd_defrag d' = dd_defrag (kv_dir s1)"
      using read_async_core[OF m(2,1) Some] by blast
    obtain rr where "decode (frame d) = Ret rr" using decode_frame_fits[OF r(2)] by blast
    then show ?thesis
      using Get m r Some get_effect_read[OF m(3) r(3) read_elsewhere[OF r(1)]]
      by (auto simp: cmd_effect_def export_Read_def entryToOutput_def get_effect_def split: option.split)
  qed
next
  case (Del k)
  obtain s1 idx where m: "kv_index s1 t = Some idx" "kv_inv t s1"
    "get_meta t k s = (s1, case loadEntry idx k of None \<Rightarrow> Inl KeyNotFound | Some e \<Rightarrow> Inr (entryToOutput k e))"
    using get_entry[OF inv] .
  show ?thesis
    using Del m del_effect_meta[OF m(3)] del_effect_mark[OF m(3)]
    by (auto simp: cmd_effect_def export_Free_def entryToOutput_def Let_def split: option.split)
qed

lemma effect_http:
  assumes inv: "kv_inv t s" and ok: "cmd_ok t c"
  shows "cmd_effect env t c s (fst (http_exec env t c s))"
proof -
  have p: "CHR ''/'' \<notin> set t" "CHR ''/'' \<notin> set (cmd_key c)" using ok by (auto simp: cmd_ok_def plain_def)
  show ?thesis
  proof (cases c)
    case (Put k d)
    note path = parseArgs_path[OF p, of "''save''"]
    have d: "kv_fits d" using ok Put by (simp add: cmd_ok_def)
    obtain d' a where w: "with_dir (saveDataToFileAsync (env_it env) (frame d) t) s =
        (s\<lparr>kv_dir := d'\<rparr>, Reply (a, a + int (length (frame d)), None))" "wrote env t (frame d) (kv_dir s) d' a"
      using wrote_async[OF inv d] by blast
    obtain s1 where "bind_key t k a (a + int (length (frame d))) (s\<lparr>kv_dir := d'\<rparr>) = (s1, None)"
      "put_effect env t k d s (kv_notify (NotifySubscribers k d) s1)"
      using put_effect_bind[OF inv d w(2)] .
    then show ?thesis using Put w(1) path by (simp add: cmd_effect_def route_AsyncSave_def Let_def)
  next
    case (Get k)
    note path = parseArgs_path[OF p, of "''read''"]
    obtain s1 idx where m: "kv_index s1 t = Some idx" "kv_inv t s1"
      "get_meta t k s = (s1, case loadEntry idx k of None \<Rightarrow> Inl KeyNotFound | Some e \<Rightarrow> Inr (entryToOutput k e))"
      using get_entry[OF inv] .
    show ?thesis
    proof (cases "loadEntry idx k")
      case None
      then show ?thesis
        using Get m path get_effect_meta[OF m(3)]
        by (auto simp: cmd_effect_def route_AsyncRead_def Let_def split: option.split)
    next
      case (Some e)
      obtain d' d where r: "with_dir (readDataFromFileAsync (env_it env) t (e_start e) (e_end e)) s1 =
          (s1\<lparr>kv_dir := d'\<rparr>, Reply (Inr (frame d)))" "kv_fits d" "dd_defrag d' = dd_defrag (kv_dir s1)"
        using read_async_core[OF m(2,1) Some] by blast
      obtain rr where "decode (frame d) = Ret rr" using decode_frame_fits[OF r(2)] by blast
      then show ?thesis
        using Get m r path Some get_effect_read[OF m(3) r(3) read_elsewhere[OF r(1)]]
        by (simp add: cmd_effect_def route_AsyncRead_def entryToOutput_def Let_def)
    qed
  next
    case (Del k)
    note path = parseArgs_path[OF p, of "''free''"]
    obtain s1 idx where m: "kv_index s1 t = Some idx" "kv_inv t s1"
      "get_meta t k s = (s1, case loadEntry idx k of None \<Rightarrow> Inl KeyNotFound | Some e \<Rightarrow> Inr (entryToOutput k e))"
      using get_entry[OF inv] .
    show ?thesis
      using Del m path del_effect_meta[OF m(3)] del_effect_mark[OF m(3)]
      by (cases "loadEntry idx k") (simp_all add: cmd_effect_def route_Free_def entryToOutput_def Let_def)
  qed
qed

lemma effect_peer:
  assumes inv: "kv_inv t s" and ok: "cmd_ok t c"
  shows "cmd_effect env t c s (fst (peer_exec env t c s))"
proof -
  have n: "t \<noteq> []" "cmd_key c \<noteq> []" using ok by (auto simp: cmd_ok_def plain_def)
  have a: "nm_Args (peer_request x t k d) = [t, k]" "nm_Content (peer_request x t k d) = d" for x k d
    by (simp_all add: peer_request_def)
  have args: "task_args (peer_request x t k d) s f = f t k s" if "k \<noteq> []" for x k d f
    using n that by (simp add: task_args_def go_index_def a)
  show ?thesis
  proof (cases c)
    case (Put k d)
    have d: "kv_fits d" using ok Put by (simp add: cmd_ok_def)
    obtain d' a where w: "dd_v1_save (env_it env) (frame d) t (kv_dir s) = (d', Inr (a, a + int (length (frame d))))"
      "wrote env t (frame d) (kv_dir s) d' a"
      using wrote_v1[OF inv d] by blast
    obtain s1 where "bind_key t k a (a + int (length (frame d))) (s\<lparr>kv_dir := d'\<rparr>) = (s1, None)"
      "put_effect env t k d s s1"
      using put_effect_bind[OF inv d w(2)] .
    then show ?thesis using Put w(1) n by (simp add: cmd_effect_def task_Save_def args a)
  next
    case (Get k)
    obtain s1 idx where m: "kv_index s1 t = Some idx" "kv_inv t s1"
      "get_meta t k s = (s1, case loadEntry idx k of None \<Rightarrow> Inl KeyNotFound | Some e \<Rightarrow> Inr (entryToOutput k e))"
      using get_entry[OF inv] .
    show ?thesis
    proof (cases "loadEntry idx k")
      case None
      then show ?thesis
        using Get m n get_effect_meta[OF m(3)] by (simp add: cmd_effect_def task_Read_def args)
    next
      case (Some e)
      obtain d' d where r: "with_dir (readDataFromFileAsync (env_it env) t (e_start e) (e_end e)) s1 =
          (s1\<lparr>kv_dir := d'\<rparr>, Reply (Inr (frame d)))" "kv_fits d" "dd_defrag d' = dd_defrag (kv_dir s1)"
        using read_async_core[OF m(2,1) Some] by blast
      obtain rr where "decode (frame d) = Ret rr" using decode_frame_fits[OF r(2)] by blast
      then show ?thesis
        using Get m r n Some get_effect_read[OF m(3) r(3) read_elsewhere[OF r(1)]]
        by (simp add: cmd_effect_def task_Read_def args entryToOutput_def)
    qed
  next
    case (Del k)
    obtain s1 idx where m: "kv_index s1 t = Some idx" "kv_inv t s1"
      "get_meta t k s = (s1, case loadEntry idx k of None \<Rightarrow> Inl KeyNotFound | Some e \<Rightarrow> Inr (entryToOutput k e))"
      using get_entry[OF inv] .
    show ?thesis
      using Del m n del_effect_meta[OF m(3)] del_effect_plain[OF m(3)]
      by (cases "loadEntry idx k") (simp_all add: cmd_effect_def task_Free_def args entryToOutput_def Let_def)
  qed
qed

section \<open>The contract of a durable front\<close>

text \<open>A front whose commands, those the log can carry, keep the files in step.\<close>

locale durable_front = table_front t allowed exec spec
  for t :: string and allowed :: "'c \<Rightarrow> bool" and exec :: "'c \<Rightarrow> kv \<Rightarrow> kv \<times> kv_reply"
    and spec :: "'c \<Rightarrow> (string \<rightharpoonup> bytes) \<Rightarrow> (string \<rightharpoonup> bytes) \<times> kv_reply" +
  fixes carried :: "kv \<Rightarrow> 'c \<Rightarrow> bool"
  assumes keeps: "kv_inv t s \<Longrightarrow> durable t s \<Longrightarrow> allowed c \<Longrightarrow> carried s c \<Longrightarrow> durable t (fst (exec c s))"
begin

lemma step_durable:
  assumes "kv_inv t s" "durable t s" "allowed c" "carried s c"
  shows "kv_inv t (fst (exec c s)) \<and> durable t (fst (exec c s))
    \<and> spec c (kv_abs s t) = (kv_abs (fst (exec c s)) t, snd (exec c s))"
  using step[OF assms(1,3)] keeps[OF assms] by blast

end

interpretation durable_lib: durable_front t "cmd_ok t" "lib_exec env t" "lib_spec env t" "loggable t"
  by unfold_locales (blast intro: effect_durable effect_lib)

interpretation durable_http: durable_front t "cmd_ok t" "http_exec env t" "map_exec (ask_peers env t)" "loggable t"
  by unfold_locales (blast intro: effect_durable effect_http)

interpretation durable_peer: durable_front t "cmd_ok t" "peer_exec env t" "map_exec (\<lambda>_. Missing)" "loggable t"
  by unfold_locales (blast intro: effect_durable effect_peer)

interpretation durable_fronts: durable_front t "\<lambda>c. cmd_ok t (snd c)" "any_exec env t" "any_spec env t"
  "\<lambda>s c. loggable t s (snd c)"
proof
  fix s :: kv and c :: "front \<times> kv_cmd"
  assume a: "kv_inv t s" "durable t s" "cmd_ok t (snd c)" "loggable t s (snd c)"
  obtain f c' where c: "c = (f, c')" by fastforce
  show "durable t (fst (any_exec env t c s))"
    using a durable_lib.keeps[of t s c' env] durable_http.keeps[of t s c' env] durable_peer.keeps[of t s c' env] c
    by (cases f) simp_all
qed

end
