(* ===== verification/Kv_Life.thy ===== *)
theory Kv_Life
  imports Kv_Durability
begin

text \<open>
  The key-value store across restarts of the process. A restart keeps the files and loses what is in
  memory: the indexes and the queues and buffers of their logs, the free lists, the workers and the
  announcements. Restarts are invisible once the log is written, which the log's writer always can
  do; a restart before that can let a key return another key's value.
\<close>

section \<open>A restart\<close>

definition restart_maps :: "map_manager \<Rightarrow> map_manager" where
  "restart_maps mm = \<lparr>mm_registry = Map.empty, mm_cache = None, mm_fs = mm_fs mm\<rparr>"

text \<open>
  The process ends and starts again: the files stay as they are, the indexes, queues and buffers, the
  free lists, the workers and the announcements not yet sent are gone.
\<close>

definition restart :: "kv \<Rightarrow> kv" where
  "restart s = \<lparr>kv_dir = (kv_dir s)\<lparr>dd_crashed := (\<lambda>_. False), dd_defrag := restart_defrag (dd_defrag (kv_dir s))\<rparr>,
     kv_maps = restart_maps (kv_maps s), kv_outbox = [], kv_freed = 0, kv_skipped = 0\<rparr>"

text \<open>All operations of the table's index are in its log file.\<close>

definition flushed :: "string \<Rightarrow> kv \<Rightarrow> bool" where
  "flushed t s \<longleftrightarrow> (case table_state (kv_maps s) t of None \<Rightarrow> False
     | Some (fs, ti) \<Rightarrow> ti_walChan ti = [] \<and> ti_walBuf ti = [])"

text \<open>Loading fills the shards and nothing else.\<close>

definition writer_part :: "tableIndex \<Rightarrow> string \<times> bool \<times> string \<times> walOp list" where
  "writer_part ti = (ti_safeName ti, ti_walOpen ti, ti_walBuf ti, ti_walChan ti)"

lemma writer_part_key [simp]: "writer_part (fst (storeKey ti k e)) = writer_part ti"
  "writer_part (fst (deleteKey ti k)) = writer_part ti"
  by (simp_all add: writer_part_def)

lemma writer_part_fold: "(\<And>l ti. writer_part (f l ti) = writer_part ti) \<Longrightarrow> writer_part (fold f ls ti) = writer_part ti"
  by (induction ls arbitrary: ti) simp_all

lemma read_lines_writer_part:
  assumes "\<And>l ti. writer_part (f l ti) = writer_part ti"
  shows "read_lines fs p f ti = Inr ti' \<Longrightarrow> writer_part ti' = writer_part ti"
  using writer_part_fold[of f, OF assms] by (auto simp: read_lines_def split: option.splits if_splits prod.splits)

lemma loadIndex_writer_part:
  assumes "loadIndex fs ti = Inr ti'"
  shows "writer_part ti' = writer_part ti"
proof -
  have s: "writer_part (loadSnapLine fl l ti) = writer_part ti" for fl l ti
    by (simp add: loadSnapLine_def split: option.split prod.split)
  have w: "writer_part (applyWalLine fl l ti) = writer_part ti" for fl l ti
    by (auto simp: applyWalLine_def Let_def split: list.split option.split char.split)
  have "loadSnapshot fs p fl ti = Inr ti' \<Longrightarrow> writer_part ti' = writer_part ti"
    "applyWalFile fs p fl ti = Inr ti' \<Longrightarrow> writer_part ti' = writer_part ti" for p fl ti ti'
    using read_lines_writer_part s w unfolding loadSnapshot_def applyWalFile_def by blast+
  then show ?thesis
    using assms by (auto simp: loadIndex_def importFromLegacy_def Let_def split: if_splits sum.splits)
qed

lemma wal_text_empty: "wal_text bs = [] \<Longrightarrow> bs = []"
  by (cases bs) (auto simp: wal_text_def print_lines_def)

text \<open>What the next process finds of a table whose log is written.\<close>

lemma reload_flushed:
  assumes lg: "logged t (fs, ti)" and fl: "ti_walChan ti = []" "ti_walBuf ti = []"
  shows "\<exists>ti'. newTableIndex fs t = Inr (fs, ti') \<and> index_wf ti' \<and> loadEntry ti' = loadEntry ti
    \<and> logged t (fs, ti') \<and> ti_walChan ti' = [] \<and> ti_walBuf ti' = []"
proof -
  obtain base ws bs where inv: "log_inv [] base ws bs (fs, ti)" and sf: "ti_safeName ti = sanitizeTableName t"
    and nd: "\<not> mf_denied fs (tableDir (sanitizeTableName t))"
    using lg by (auto simp: logged_def)
  have bs: "bs = []" using inv fl wal_text_empty[of bs] by (simp add: log_inv_def)
  obtain ti' where l: "loadIndex fs (emptyIndex t) = Inr ti'" "index_wf ti'"
    "loadEntry ti' = upd_all (map op_update ws) base" "walPath ti' = walPath ti"
    using loadIndex_log_inv[OF inv sf] by blast
  have w: "ti_safeName ti' = sanitizeTableName t" "ti_walOpen ti'" "ti_walBuf ti' = []" "ti_walChan ti' = []"
    using loadIndex_writer_part[OF l(1)] by (simp_all add: writer_part_def emptyIndex_def)
  have p: "snapPath ti' = snapPath ti" using w(1) sf by (simp add: snapPath_def)
  have e: "loadEntry ti' = loadEntry ti" using inv bs fl l(3) by (simp add: log_inv_def)
  have f: "mf_files fs (walPath ti) = Some (wal_text ws)" "\<not> mf_denied fs (walPath ti)"
    using inv by (simp_all add: log_inv_def)
  have same: "fs\<lparr>mf_files := (mf_files fs)(walPath ti \<mapsto> wal_text ws)\<rparr> = fs"
    using f(1) by (simp add: fun_upd_idem)
  have "newTableIndex fs t = Inr (fs, ti')"
    using nd l(1,4) f same by (simp add: newTableIndex_def Let_def setupWalWriter_def)
  moreover have "log_inv [] base ws [] (fs, ti')"
    using inv bs fl l w p e by (simp add: log_inv_def entries_clean_def)
  then have "logged t (fs, ti')"
    using w nd unfolding logged_def pend_ok_def by auto
  ultimately show ?thesis using l(2) e w by blast
qed

text \<open>The next process works on the files of this one, be the table loaded or not.\<close>

lemma restart_state:
  assumes st: "table_state mm t = Some (fs, ti)" and lg: "logged t (fs, ti)"
    and fl: "ti_walChan ti = []" "ti_walBuf ti = []"
  shows "\<exists>ti'. table_state (restart_maps mm) t = Some (fs, ti') \<and> index_wf ti' \<and> loadEntry ti' = loadEntry ti
    \<and> logged t (fs, ti') \<and> ti_walChan ti' = [] \<and> ti_walBuf ti' = []"
proof -
  have tr: "normalizeTableName t = Inr t"
    using table_state_get[OF st] by (auto simp: normalizeTableName_def)
  have r: "table_state (restart_maps mm) t = (case newTableIndex (mm_fs mm) t of Inl _ \<Rightarrow> None | Inr r \<Rightarrow> Some r)"
    by (auto simp: table_state_def getTableIndex_def tr restart_maps_def split: sum.split)
  show ?thesis
  proof (cases "mm_registry mm t")
    case (Some idx)
    then have "fs = mm_fs mm" "ti = idx" using st by (auto simp: table_state_def getTableIndex_def tr split: if_splits)
    then show ?thesis using reload_flushed[OF lg fl] r by auto
  next
    case None
    then have "newTableIndex (mm_fs mm) t = Inr (fs, ti)"
      using st by (auto simp: table_state_def getTableIndex_def tr split: sum.splits if_splits)
    moreover have "index_wf ti" using lg by (auto simp: logged_def log_inv_def)
    ultimately show ?thesis using r lg fl by auto
  qed
qed

lemma table_state_index: "table_state (kv_maps s) t = Some (fs, ti) \<Longrightarrow> kv_index s t = Some ti"
  by (auto simp: table_state_def mm_index_def split: prod.splits sum.splits)

text \<open>A store whose index and free list stand for the same ranges stands for the same map.\<close>

lemma kv_inv_same:
  assumes inv: "kv_inv t s" and i: "kv_index s t = Some idx" "kv_index s' t = Some idx'" "index_wf idx'"
    and l: "loadEntry idx' = loadEntry idx" and b: "table_blocks (dd_defrag (kv_dir s')) t = table_blocks (dd_defrag (kv_dir s)) t"
    and d: "dd_files (kv_dir s') (data_path t) = dd_files (kv_dir s) (data_path t)"
      "dd_exists (kv_dir s') (data_path t) = dd_exists (kv_dir s) (data_path t)" "\<not> dd_crashed (kv_dir s') (data_path t)"
  shows "kv_inv t s' \<and> kv_abs s' t = kv_abs s t"
proof -
  have st: "stored s' t = stored s t" using d(1) by (simp add: stored_def fun_eq_iff)
  have h: "holds_frame s' t e = holds_frame s t e" for e by (simp add: holds_frame_def st)
  have sp: "live_spans idx' = live_spans idx" using l by (simp add: live_spans_def fun_eq_iff)
  have f: "free_ok t (dd_defrag (kv_dir s')) = free_ok t (dd_defrag (kv_dir s))"
    "free_spans t (dd_defrag (kv_dir s')) = free_spans t (dd_defrag (kv_dir s))"
    using b by (simp_all add: free_ok_def free_spans_def)
  have "kv_inv t s'"
    using inv i d unfolding kv_inv_def defrag_pool.separated_def f by (auto simp: dd_ready_def h sp l)
  moreover have "kv_abs s' t = kv_abs s t"
    by (simp add: fun_eq_iff kv_abs_index[OF i(1)] kv_abs_index[OF i(2)] l st split: option.split)
  ultimately show ?thesis by blast
qed

lemma restart_keeps:
  assumes inv: "kv_inv t s" and dur: "durable t s" and fl: "flushed t s"
  shows "kv_inv t (restart s) \<and> kv_abs (restart s) t = kv_abs s t \<and> durable t (restart s) \<and> flushed t (restart s)"
proof -
  obtain fs ti where st: "table_state (kv_maps s) t = Some (fs, ti)" "logged t (fs, ti)" "ti_walChan ti = []" "ti_walBuf ti = []"
    using dur fl by (auto simp: durable_def kv_logged_def flushed_def)
  obtain ti' where r: "table_state (kv_maps (restart s)) t = Some (fs, ti')" "index_wf ti'" "loadEntry ti' = loadEntry ti"
    "logged t (fs, ti')" "ti_walChan ti' = []" "ti_walBuf ti' = []"
    using restart_state[OF st] by (auto simp: restart_def)
  have s: "free_synced t (dd_defrag (kv_dir s))" using dur by (simp add: durable_def)
  have "kv_inv t (restart s) \<and> kv_abs (restart s) t = kv_abs s t"
    by (rule kv_inv_same[OF inv table_state_index[OF st(1)] table_state_index[OF r(1)] r(2,3)])
       (simp_all add: restart_def synced_restart[OF s])
  then show ?thesis
    using r synced_restart[OF s] unfolding durable_def kv_logged_def flushed_def by (simp add: restart_def)
qed

section \<open>The life of a table\<close>

text \<open>
  Commands of clients, the steps of the table's log writer (which runs once the table is loaded), and
  restarts of the process.
\<close>

datatype life = Client front kv_cmd | Receives | Tick | Snapshot "entry gomap \<Rightarrow> entry gomap" | Restart

fun writer_exec :: "life \<Rightarrow> map_fs \<times> tableIndex \<Rightarrow> map_fs \<times> tableIndex" where
  "writer_exec Receives r = walWriterReceive (fst r) (snd r)"
| "writer_exec Tick r = walWriterTick (fst r) (snd r)"
| "writer_exec (Snapshot it) r = writeSnapshot it no_faults (fst r) (snd r)"
| "writer_exec e r = r"

definition kv_writer :: "life \<Rightarrow> string \<Rightarrow> kv \<Rightarrow> kv" where
  "kv_writer e t s = (case mm_registry (kv_maps s) t of
      None \<Rightarrow> s
    | Some ti \<Rightarrow> s\<lparr>kv_maps := putIndex (kv_maps s) t (writer_exec e (mm_fs (kv_maps s), ti))\<rparr>)"

fun life_exec :: "kv_env \<Rightarrow> string \<Rightarrow> life \<Rightarrow> kv \<Rightarrow> kv \<times> kv_reply option" where
  "life_exec env t (Client f c) s = (case any_exec env t (f, c) s of (s', r) \<Rightarrow> (s', Some r))"
| "life_exec env t Restart s = (restart s, None)"
| "life_exec env t e s = (kv_writer e t s, None)"

text \<open>The specification: a map that no restart and no writer changes.\<close>

fun life_spec :: "kv_env \<Rightarrow> string \<Rightarrow> life \<Rightarrow> (string \<rightharpoonup> bytes) \<Rightarrow> (string \<rightharpoonup> bytes) \<times> kv_reply option" where
  "life_spec env t (Client f c) m = (case any_spec env t (f, c) m of (m', r) \<Rightarrow> (m', Some r))"
| "life_spec env t e m = (m, None)"

text \<open>When an event is allowed: a restart, once the log is written.\<close>

fun life_ok :: "string \<Rightarrow> life \<Rightarrow> kv \<Rightarrow> bool" where
  "life_ok t (Client f c) s \<longleftrightarrow> cmd_ok t c \<and> loggable t s c"
| "life_ok t Restart s \<longleftrightarrow> flushed t s"
| "life_ok t e s \<longleftrightarrow> True"

fun lives_ok :: "kv_env \<Rightarrow> string \<Rightarrow> life list \<Rightarrow> kv \<Rightarrow> bool" where
  "lives_ok env t [] s \<longleftrightarrow> True"
| "lives_ok env t (e # es) s \<longleftrightarrow> life_ok t e s \<and> lives_ok env t es (fst (life_exec env t e s))"

lemma writer_exec_step: "e = Receives \<or> e = Tick \<or> (\<exists>it. e = Snapshot it) \<Longrightarrow> index_step r (writer_exec e r)"
  using index_step.receive[of "fst r" "snd r"] index_step.tick[of "fst r" "snd r"]
    index_step.snapshot[of "fst r" "snd r"] by auto

lemma writer_exec_load: "index_wf (snd (writer_exec e r)) = index_wf (snd r)" "loadEntry (snd (writer_exec e r)) = loadEntry (snd r)"
proof -
  have o: "index_wf (ti\<lparr>ti_walOpen := b\<rparr>) = index_wf ti" "loadEntry (ti\<lparr>ti_walOpen := b\<rparr>) = loadEntry ti" for ti b
    by (simp_all add: index_wf_def loadEntry_def fun_eq_iff)
  have "index_wf (snd (writer_exec e r)) = index_wf (snd r) \<and> loadEntry (snd (writer_exec e r)) = loadEntry (snd r)"
    by (cases e) (simp_all add: walWriterTick_def writeSnapshot_def snapshotFinish_def no_faults_def rotateWal_def
        Let_def split_beta o)
  then show "index_wf (snd (writer_exec e r)) = index_wf (snd r)" "loadEntry (snd (writer_exec e r)) = loadEntry (snd r)"
    by simp_all
qed

lemma table_state_loaded: "trim_space t \<noteq> [] \<Longrightarrow> mm_registry mm t = Some ti \<Longrightarrow> table_state mm t = Some (mm_fs mm, ti)"
  by (simp add: table_state_def getTableIndex_def normalizeTableName_def)

lemma writer_keeps:
  assumes inv: "kv_inv t s" and dur: "durable t s" and e: "e = Receives \<or> e = Tick \<or> (\<exists>it. e = Snapshot it)"
  shows "kv_inv t (kv_writer e t s) \<and> kv_abs (kv_writer e t s) t = kv_abs s t \<and> durable t (kv_writer e t s)"
proof (cases "mm_registry (kv_maps s) t")
  case None
  then show ?thesis using inv dur by (simp add: kv_writer_def)
next
  case (Some ti)
  let ?r = "(mm_fs (kv_maps s), ti)"
  obtain fs0 ti0 where l: "table_state (kv_maps s) t = Some (fs0, ti0)" "logged t (fs0, ti0)"
    using dur by (auto simp: durable_def kv_logged_def)
  obtain tr: "trim_space t \<noteq> []" using table_state_get[OF l(1)] by blast
  have st: "table_state (kv_maps s) t = Some ?r" by (rule table_state_loaded[OF tr Some])
  then have lg: "logged t ?r" using l by simp
  have s': "kv_writer e t s = s\<lparr>kv_maps := putIndex (kv_maps s) t (writer_exec e ?r)\<rparr>"
    using Some by (simp add: kv_writer_def)
  have st': "table_state (kv_maps (kv_writer e t s)) t = Some (fst (writer_exec e ?r), snd (writer_exec e ?r))"
    using table_state_put[OF tr, of "kv_maps s" "writer_exec e ?r"] by (simp add: s')
  have wf: "index_wf ti" using lg by (auto simp: logged_def log_inv_def)
  have "kv_inv t (kv_writer e t s) \<and> kv_abs (kv_writer e t s) t = kv_abs s t"
    using inv by (intro kv_inv_same[OF inv table_state_index[OF st] table_state_index[OF st']])
      (simp_all add: writer_exec_load wf s' kv_inv_def dd_ready_def)
  moreover have "durable t (kv_writer e t s)"
    using st' logged_step[OF lg writer_exec_step[OF e]] dur unfolding durable_def kv_logged_def by (simp add: s')
  ultimately show ?thesis by blast
qed

lemma life_step:
  assumes "kv_inv t s" "durable t s" "life_ok t e s"
  shows "kv_inv t (fst (life_exec env t e s)) \<and> durable t (fst (life_exec env t e s))
    \<and> life_spec env t e (kv_abs s t) = (kv_abs (fst (life_exec env t e s)) t, snd (life_exec env t e s))"
proof (cases e)
  case (Client f c)
  then show ?thesis
    using assms durable_fronts.step_durable[of t s "(f, c)" env] by (simp add: split_beta)
next
  case Restart
  then show ?thesis using restart_keeps[OF assms(1,2)] assms(3) by simp
qed (use assms writer_keeps[OF assms(1,2), of e] in simp_all)

lemma lives_refine:
  "kv_inv t s \<Longrightarrow> durable t s \<Longrightarrow> lives_ok env t es s \<Longrightarrow>
   kv_inv t (fst (run_cmds (life_exec env t) es s)) \<and> durable t (fst (run_cmds (life_exec env t) es s))
   \<and> run_cmds (life_spec env t) es (kv_abs s t)
     = (kv_abs (fst (run_cmds (life_exec env t) es s)) t, snd (run_cmds (life_exec env t) es s))"
proof (induction es arbitrary: s)
  case (Cons e es)
  obtain s1 r where x: "life_exec env t e s = (s1, r)" by fastforce
  have s1: "kv_inv t s1" "durable t s1" "life_spec env t e (kv_abs s t) = (kv_abs s1 t, r)"
    using life_step[of t s e env] Cons.prems x by simp_all
  then show ?case using Cons.IH[OF s1(1,2)] Cons.prems(3) x by (simp add: split_beta)
qed simp

section \<open>Where a save goes\<close>

lemma mark_blocks:
  "free_synced t d \<Longrightarrow>
   table_blocks (fst (markAsFree d k t a b)) t = AList.update k (new_block t a b) (table_blocks d t)"
  using synced_list[of t d] by (auto simp: markAsFree_blocks)

lemma go_range_Nil: "go_range it [] = []"
  using length_go_range[of it "[]"] by (metis length_0_conv list.size(3))

lemma alloc_empty:
  assumes "free_synced t d" "table_blocks d t = []"
  shows "\<exists>p. pool_alloc it t d n = (p, None) \<and> table_blocks p t = []"
proof -
  obtain fl d1 fl1 where g: "getTableFreeList d t = Inr (trim_space t, fl, d1)" "fl_load d1 fl = Inr fl1"
    "fl_loaded fl1" "fl_blocks fl1 = []"
    using synced_list[OF assms(1)] assms(2) by auto
  then show ?thesis using table_blocks_put[OF g(1,3), of d1] by (simp add: pool_alloc_def getBlock_def Let_def go_range_Nil)
qed

lemma claim_empty:
  assumes "free_synced t d" "table_blocks d t = []"
  shows "table_blocks (pool_claim it t d a b) t = []"
proof -
  obtain fl d1 fl1 where g: "getTableFreeList d t = Inr (trim_space t, fl, d1)" "fl_load d1 fl = Inr fl1"
    "fl_loaded fl1" "fl_blocks fl1 = []"
    using synced_list[OF assms(1)] assms(2) by auto
  then show ?thesis using table_blocks_put[OF g(1,3), of d1] by (simp add: pool_claim_def saveBlockCheck_def Let_def go_range_Nil)
qed

lemma alloc_single:
  assumes "free_synced t d" "table_blocks d t = [(k, new_block t a b)]" "b - a = n"
  shows "\<exists>p. pool_alloc it t d n = (p, Some (a, b)) \<and> table_blocks p t = []"
proof -
  obtain fl d1 fl1 where g: "getTableFreeList d t = Inr (trim_space t, fl, d1)" "fl_load d1 fl = Inr fl1"
    "fl_path fl1 = list_path t" "fl_loaded fl1" "fl_blocks fl1 = [(k, new_block t a b)]" "writeRefused d1 = writeRefused d"
    using synced_list[OF assms(1)] assms(2) by metis
  have r: "go_range it [(k, new_block t a b)] = [(k, new_block t a b)]"
    by (simp add: go_range_def)
  let ?d = "put_fl d1 (trim_space t) fl1" and ?fl = "fl1\<lparr>fl_blocks := []\<rparr>"
  obtain d2 where s: "fl_save (put_fl ?d (trim_space t) ?fl) ?fl = Inr d2"
    using synced_save_ok[OF assms(1), of ?d ?fl "trim_space t"] g by (auto simp: put_fl_def)
  from table_blocks_put_save[OF g(1) s] show ?thesis
    using g s assms(3) by (simp add: pool_alloc_def getBlock_def Let_def r)
qed

text \<open>The parts of a save, on a store in order.\<close>

lemma put_effect_parts:
  assumes inv: "kv_inv t s" and eff: "put_effect env t k d s s'" and idx: "kv_index s t = Some idx"
  obtains p1 r a and d' :: datadir where "pool_alloc (env_it env) t (dd_defrag (kv_dir s)) (int (length (frame d))) = (p1, r)"
    "a = defrag_pool.place r (int (length (kv_file s t)))" "0 \<le> a"
    "dd_defrag d' = pool_claim (env_it env) t p1 a (a + int (length (frame d))) \<or> dd_defrag d' = p1"
    "kv_file s' t = pwrite (kv_file s t) (nat a) (frame d)" "dd_ready (kv_dir s') (data_path t)"
    "dd_exists (kv_dir s') (data_path t)"
    "dd_defrag (kv_dir s') = (case loadEntry idx k of None \<Rightarrow> dd_defrag d'
       | Some e \<Rightarrow> if e_start e = a \<and> e_end e = a + int (length (frame d)) then dd_defrag d'
                   else fst (markAsFree (dd_defrag d') k t (e_start e) (e_end e)))"
    "kv_maps s' = fst (saveElementByKey (kv_maps s) t k a (a + int (length (frame d))))"
proof -
  obtain d' a s1 ns where w: "wrote env t (frame d) (kv_dir s) d' a"
    and b: "bind_key t k a (a + int (length (frame d))) (s\<lparr>kv_dir := d'\<rparr>) = (s1, None)"
    and s': "s' = s1\<lparr>kv_outbox := ns\<rparr>"
    using eff unfolding put_effect_def by blast
  have wf: "index_wf idx" and f: "\<And>k e. loadEntry idx k = Some e \<Longrightarrow> e_file e = t"
    and sep: "defrag_pool.separated t (dd_defrag (kv_dir s)) (live_spans idx) (int (length (kv_file s t)))"
    using inv idx unfolding kv_inv_def holds_frame_def by auto
  obtain p1 r where al: "pool_alloc (env_it env) t (dd_defrag (kv_dir s)) (int (length (frame d))) = (p1, r)"
    and a: "a = defrag_pool.place r (int (length (kv_file s t)))"
    and c: "dd_defrag d' = pool_claim (env_it env) t p1 a (a + int (length (frame d))) \<or> dd_defrag d' = p1"
    and x: "dd_ready d' (data_path t)" "dd_exists d' (data_path t)" "dd_content d' (data_path t) = pwrite (kv_file s t) (nat a) (frame d)"
    using w unfolding wrote_def by blast
  have n: "0 < int (length (frame d))" by simp
  have a0: "0 \<le> a" using defrag_pool.place_fresh(2)[OF sep n al] a by simp
  then have v: "isPointerRangeValid a (a + int (length (frame d)))" using n by (simp add: isPointerRangeValid_def)
  have dir: "kv_dir s1 = (case loadEntry idx k of None \<Rightarrow> d'
      | Some e \<Rightarrow> if e_file e = t \<and> e_start e = a \<and> e_end e = a + int (length (frame d)) then d'
                  else kv_dir (kv_mark_free k (e_file e) (e_start e) (e_end e) (s\<lparr>kv_dir := d'\<rparr>)))"
    using bind_key_spec[of "s\<lparr>kv_dir := d'\<rparr>" t idx a "a + int (length (frame d))" k] idx wf v b
    by (auto split: option.split)
  have files: "dd_files (kv_dir s1) = dd_files d'" "dd_exists (kv_dir s1) = dd_exists d'" "dd_crashed (kv_dir s1) = dd_crashed d'"
    unfolding dir by (simp_all add: kv_mark_free_def split: option.split)
  have m: "kv_maps s' = fst (saveElementByKey (kv_maps s) t k a (a + int (length (frame d))))"
    using bind_key_maps[of t k a "a + int (length (frame d))" "s\<lparr>kv_dir := d'\<rparr>"] b s' by simp
  show thesis
  proof (rule that[OF al a a0 c])
    show "dd_defrag (kv_dir s') = (case loadEntry idx k of None \<Rightarrow> dd_defrag d'
       | Some e \<Rightarrow> if e_start e = a \<and> e_end e = a + int (length (frame d)) then dd_defrag d'
                   else fst (markAsFree (dd_defrag d') k t (e_start e) (e_end e)))"
      using f[of k] unfolding s' by (auto simp: dir kv_mark_free_def split: option.split)
  qed (use x files s' m in \<open>auto simp: dd_ready_def\<close>)
qed

section \<open>A crash between two saves and their log\<close>

lemma save_queued:
  assumes st: "table_state mm t = Some (fs, ti)" and q: "length (ti_walChan ti) < walCapacity"
  shows "\<exists>ti'. table_state (fst (saveElementByKey mm t k a b)) t = Some (fs, ti')
    \<and> length (ti_walChan ti') \<le> Suc (length (ti_walChan ti))
    \<and> mm_fs (fst (saveElementByKey mm t k a b)) = fs"
proof -
  obtain mm1 where g: "getTableIndex mm t = (mm1, Inr ti)" "mm_fs mm1 = fs" "trim_space t \<noteq> []"
    using table_state_get[OF st] by (metis fst_conv snd_conv)
  have "\<exists>ti'. fst (saveElement fs ti k t a b) = (fs, ti') \<and> length (ti_walChan ti') \<le> Suc (length (ti_walChan ti))"
    using q by (cases "isPointerRangeValid a b") (auto simp: saveElement_def enqueueWal_def Let_def split_beta)
  then obtain ti' where e: "fst (saveElement fs ti k t a b) = (fs, ti')" "length (ti_walChan ti') \<le> Suc (length (ti_walChan ti))"
    by blast
  show ?thesis
    using g e table_state_put[OF g(3), of mm1 "(fs, ti')"]
    by (auto simp: saveElementByKey_def split_beta putIndex_def)
qed

text \<open>A restart reads what the files held when the two saves began.\<close>

lemma restart_after_saves:
  assumes st: "table_state mm t = Some (fs, ti)" and lg: "logged t (fs, ti)"
    and fl: "ti_walChan ti = []" "ti_walBuf ti = []"
    and m: "m1 = fst (saveElementByKey mm t k1 a1 b1)" "m2 = fst (saveElementByKey m1 t k2 a2 b2)"
  shows "\<exists>ti'. table_state (restart_maps m2) t = Some (fs, ti') \<and> index_wf ti' \<and> loadEntry ti' = loadEntry ti"
proof -
  obtain ti1 where s1: "table_state m1 t = Some (fs, ti1)" "length (ti_walChan ti1) \<le> 1"
    using save_queued[OF st, of k1 a1 b1] fl m(1) by (auto simp: walCapacity_def)
  then obtain ti2 where "table_state m2 t = Some (fs, ti2)" "mm_fs m2 = fs"
    using save_queued[OF s1(1), of k2 a2 b2] m(2) by (auto simp: walCapacity_def)
  moreover obtain ti' where "newTableIndex fs t = Inr (fs, ti')" "index_wf ti'" "loadEntry ti' = loadEntry ti"
    using reload_flushed[OF lg fl] by blast
  moreover have "normalizeTableName t = Inr t"
    using table_state_get[OF st] by (auto simp: normalizeTableName_def)
  ultimately show ?thesis
    by (auto simp: table_state_def getTableIndex_def restart_maps_def)
qed

text \<open>
  The two saves: the first goes to the end of the file and frees the old range of its key, the second
  goes to that range.
\<close>

lemma save_frees:
  assumes inv: "kv_inv t s" and sy: "free_synced t (dd_defrag (kv_dir s))"
    and nb: "table_blocks (dd_defrag (kv_dir s)) t = []" and idx: "kv_index s t = Some idx"
    and e: "loadEntry idx k = Some e" and eff: "put_effect env t k d s s'"
  shows "table_blocks (dd_defrag (kv_dir s')) t = [(k, new_block t (e_start e) (e_end e))]
    \<and> free_synced t (dd_defrag (kv_dir s'))
    \<and> kv_file s' t = pwrite (kv_file s t) (length (kv_file s t)) (frame d)
    \<and> (\<exists>a b. kv_maps s' = fst (saveElementByKey (kv_maps s) t k a b))"
proof -
  obtain p1 r a and d' :: datadir where p: "pool_alloc (env_it env) t (dd_defrag (kv_dir s)) (int (length (frame d))) = (p1, r)"
    "a = defrag_pool.place r (int (length (kv_file s t)))"
    and c: "dd_defrag d' = pool_claim (env_it env) t p1 a (a + int (length (frame d))) \<or> dd_defrag d' = p1"
    and f: "kv_file s' t = pwrite (kv_file s t) (nat a) (frame d)"
    and dd: "dd_defrag (kv_dir s') = (case loadEntry idx k of None \<Rightarrow> dd_defrag d'
       | Some e \<Rightarrow> if e_start e = a \<and> e_end e = a + int (length (frame d)) then dd_defrag d'
                   else fst (markAsFree (dd_defrag d') k t (e_start e) (e_end e)))"
    and m: "kv_maps s' = fst (saveElementByKey (kv_maps s) t k a (a + int (length (frame d))))"
    by (rule put_effect_parts[OF inv eff idx]) blast
  have r: "r = None" "table_blocks p1 t = []" using alloc_empty[OF sy nb] p(1) by (metis prod.inject)+
  then have a: "a = int (length (kv_file s t))" using p(2) by (simp add: defrag_pool.place_def)
  have s1: "free_synced t p1" using synced_alloc[OF sy, of "env_it env" "int (length (frame d))"] p(1) by simp
  have "free_synced t (dd_defrag d') \<and> table_blocks (dd_defrag d') t = []"
    using c synced_claim[OF s1] claim_empty[OF s1 r(2)] s1 r(2) by metis
  moreover have "e_start e \<noteq> a" using held[OF inv idx e] a by auto
  ultimately show ?thesis using dd e f a m mark_blocks[of t "dd_defrag d'"] synced_mark[of t "dd_defrag d'"] by auto
qed

lemma save_reuses:
  assumes inv: "kv_inv t s" and sy: "free_synced t (dd_defrag (kv_dir s))"
    and nb: "table_blocks (dd_defrag (kv_dir s)) t = [(k, new_block t a b)]" and idx: "kv_index s t = Some idx"
    and e: "loadEntry idx j = None" and n: "b - a = int (length (frame d))" and eff: "put_effect env t j d s s'"
  shows "table_blocks (dd_defrag (kv_dir s')) t = [] \<and> free_synced t (dd_defrag (kv_dir s'))
    \<and> kv_file s' t = pwrite (kv_file s t) (nat a) (frame d) \<and> dd_ready (kv_dir s') (data_path t)
    \<and> dd_exists (kv_dir s') (data_path t)
    \<and> (\<exists>a b. kv_maps s' = fst (saveElementByKey (kv_maps s) t j a b))"
proof -
  obtain p1 r a' and d' :: datadir where p: "pool_alloc (env_it env) t (dd_defrag (kv_dir s)) (int (length (frame d))) = (p1, r)"
    "a' = defrag_pool.place r (int (length (kv_file s t)))"
    and c: "dd_defrag d' = pool_claim (env_it env) t p1 a' (a' + int (length (frame d))) \<or> dd_defrag d' = p1"
    and f: "kv_file s' t = pwrite (kv_file s t) (nat a') (frame d)" "dd_ready (kv_dir s') (data_path t)"
      "dd_exists (kv_dir s') (data_path t)"
    and dd: "dd_defrag (kv_dir s') = (case loadEntry idx j of None \<Rightarrow> dd_defrag d'
       | Some e \<Rightarrow> if e_start e = a' \<and> e_end e = a' + int (length (frame d)) then dd_defrag d'
                   else fst (markAsFree (dd_defrag d') j t (e_start e) (e_end e)))"
    and m: "kv_maps s' = fst (saveElementByKey (kv_maps s) t j a' (a' + int (length (frame d))))"
    by (rule put_effect_parts[OF inv eff idx]) blast
  have r: "r = Some (a, b)" "table_blocks p1 t = []" using alloc_single[OF sy nb n] p(1) by (metis prod.inject)+
  then have a: "a' = a" using p(2) by (simp add: defrag_pool.place_def)
  have s1: "free_synced t p1" using synced_alloc[OF sy, of "env_it env" "int (length (frame d))"] p(1) by simp
  have "free_synced t (dd_defrag d') \<and> table_blocks (dd_defrag d') t = []"
    using c synced_claim[OF s1] claim_empty[OF s1 r(2)] s1 r(2) by metis
  then show ?thesis using dd e f a m by auto
qed

lemma effect_any: "kv_inv t s \<Longrightarrow> cmd_ok t c \<Longrightarrow> cmd_effect env t c s (fst (any_exec env t (f, c) s))"
  by (cases f) (simp_all add: effect_lib effect_http effect_peer)

lemma abs_entry:
  assumes "kv_inv t s" "kv_index s t = Some idx"
  shows "loadEntry idx k = None \<longleftrightarrow> kv_abs s t k = None"
  using held[OF assms] by (cases "loadEntry idx k") (auto simp: kv_abs_index[OF assms(2)])

text \<open>A store in order again, whose file has been overwritten at the range of \<open>k\<close>.\<close>

lemma overwritten:
  assumes inv: "kv_inv t s" and idx: "kv_index s t = Some idx" and e: "loadEntry idx k = Some e"
    and v: "kv_fits v" "e_end e - e_start e = int (length (frame v))"
    and s': "kv_index s' t = Some idx'" "index_wf idx'" "loadEntry idx' = loadEntry idx"
      "table_blocks (dd_defrag (kv_dir s')) t = []" "dd_ready (kv_dir s') (data_path t)" "dd_exists (kv_dir s') (data_path t)"
    and f: "kv_file s' t = pwrite (pwrite (kv_file s t) (length (kv_file s t)) w) (nat (e_start e)) (frame v)"
  shows "kv_inv t s' \<and> kv_abs s' t = (kv_abs s t)(k \<mapsto> v)"
proof -
  let ?f = "pwrite (kv_file s t) (length (kv_file s t)) w"
  have sep: "defrag_pool.separated t (dd_defrag (kv_dir s)) (live_spans idx) (int (length (kv_file s t)))"
    using inv idx unfolding kv_inv_def by auto
  have len1: "length (kv_file s t) \<le> length ?f" by (simp add: length_pwrite)
  have len2: "length ?f \<le> length (kv_file s' t)" unfolding f by (simp add: length_pwrite)
  note h = held[OF inv idx e]
  have new: "stored s' t e = frame v"
    unfolding stored_def f v(2) by (simp add: pread_pwrite_same)
  have old: "stored s' t x = stored s t x" if x: "loadEntry idx k' = Some x" "k' \<noteq> k" for k' x
  proof -
    have l: "live_spans idx k' = Some (e_start x, e_end x)" "live_spans idx k = Some (e_start e, e_end e)"
      using x e by (simp_all add: live_spans_def)
    then have ap: "apart (e_start e, e_end e) (e_start x, e_end x)"
      using sep x(2) unfolding defrag_pool.separated_def by metis
    have b: "0 \<le> e_start x" "e_start x < e_end x" "e_end x \<le> int (length (kv_file s t))"
      using held[OF inv idx x(1)] by blast+
    have "stored s' t x = pread ?f (nat (e_start x)) (nat (e_end x - e_start x))"
      using ap b h v(2) len1 unfolding stored_def f
      by (intro pread_pwrite_other) (auto simp: apart_def nat_le_iff)
    also have "\<dots> = stored s t x"
      using b unfolding stored_def by (intro pread_pwrite_other) (auto simp: nat_le_iff)
    finally show ?thesis .
  qed
  have hold: "holds_frame s' t x" if "loadEntry idx k' = Some x" for k' x
  proof (cases "k' = k")
    case True
    then show ?thesis using that e new v h by (auto simp: holds_frame_def)
  next
    case False
    have "holds_frame s t x" using inv idx that unfolding kv_inv_def by auto
    then show ?thesis using old[OF that False] by (simp add: holds_frame_def)
  qed
  have sp: "live_spans idx' = live_spans idx" using s'(3) by (simp add: live_spans_def fun_eq_iff)
  have fr: "free_ok t (dd_defrag (kv_dir s'))" "free_spans t (dd_defrag (kv_dir s')) = {}"
    using s'(4) by (simp_all add: free_ok_def free_spans_def)
  have lv: "0 \<le> fst p \<and> fst p < snd p \<and> snd p \<le> int (length (kv_file s' t))" if "live_spans idx k' = Some p" for k' p
    using defrag_pool.separated_live[OF sep that] len1 len2 by linarith
  have "defrag_pool.separated t (dd_defrag (kv_dir s')) (live_spans idx') (int (length (kv_file s' t)))"
    using sep lv unfolding defrag_pool.separated_def fr(2) sp by (simp add: fr(1))
  then have "kv_inv t s'" unfolding kv_inv_def using s' hold by auto
  moreover have "kv_abs s' t = (kv_abs s t)(k \<mapsto> v)"
  proof
    fix k'
    show "kv_abs s' t k' = ((kv_abs s t)(k \<mapsto> v)) k'"
      unfolding kv_abs_index[OF s'(1)] fun_upd_apply kv_abs_index[OF idx] s'(3)
      using new e old unframe_frame[OF v(1)] by (auto split: option.split)
  qed
  ultimately show ?thesis by blast
qed

lemma crash_state:
  assumes inv: "kv_inv t s" and dur: "durable t s" and fl: "flushed t s"
    and nb: "table_blocks (dd_defrag (kv_dir s)) t = []" and k: "kv_abs s t k = Some v" and j: "kv_abs s t j = None" "j \<noteq> k"
    and ok: "cmd_ok t (Put k v')" "cmd_ok t (Put j w)" "length w = length v"
    and s': "s1 = fst (any_exec env t (f, Put k v') s)" "s2 = fst (any_exec env t (g, Put j w) s1)"
  shows "kv_inv t (restart s2) \<and> kv_abs (restart s2) t = (kv_abs s t)(k \<mapsto> w)"
proof -
  obtain fs idx where st: "table_state (kv_maps s) t = Some (fs, idx)" "logged t (fs, idx)"
    "ti_walChan idx = []" "ti_walBuf idx = []"
    using dur fl by (auto simp: durable_def kv_logged_def flushed_def)
  have idx: "kv_index s t = Some idx" by (rule table_state_index[OF st(1)])
  obtain e where e: "loadEntry idx k = Some e" using abs_entry[OF inv idx, of k] k by fastforce
  have n: "e_end e - e_start e = int (length (frame w))"
  proof -
    have "holds_frame s t e" using inv idx e unfolding kv_inv_def by auto
    then obtain d where d: "kv_fits d" "stored s t e = frame d" "e_end e - e_start e = int (length (frame d))"
      unfolding holds_frame_def by blast
    then have "d = v" using k e unframe_frame[OF d(1)] by (simp add: kv_abs_index[OF idx])
    then show ?thesis using d(3) ok(3) by (simp add: length_frame)
  qed
  have sy: "free_synced t (dd_defrag (kv_dir s))" using dur by (simp add: durable_def)
  have e1: "put_effect env t k v' s s1" "put_effect env t j w s1 s2" if "kv_inv t s1"
    using effect_any[OF inv ok(1)] effect_any[OF that ok(2)] s' by (simp_all add: cmd_effect_def)
  have i1: "kv_inv t s1" "kv_abs s1 t = (kv_abs s t)(k \<mapsto> v')"
    using fronts.step[OF inv, of "(f, Put k v')" env] ok(1) s'(1) by (cases f; simp)+
  note a = save_frees[OF inv sy nb idx e e1(1)[OF i1(1)]]
  obtain idx1 where idx1: "kv_index s1 t = Some idx1" using kv_inv_index[OF i1(1)] by blast
  have j1: "loadEntry idx1 j = None" using abs_entry[OF i1(1) idx1] i1(2) j by simp
  have "free_synced t (dd_defrag (kv_dir s1))" "table_blocks (dd_defrag (kv_dir s1)) t = [(k, new_block t (e_start e) (e_end e))]"
    using a by blast+
  note b = save_reuses[OF i1(1) this idx1 j1 n e1(2)[OF i1(1)]]
  obtain ti' where r: "table_state (restart_maps (kv_maps s2)) t = Some (fs, ti')" "index_wf ti'" "loadEntry ti' = loadEntry idx"
    using restart_after_saves[OF st] a b by metis
  have rm: "kv_maps (restart s2) = restart_maps (kv_maps s2)" by (simp add: restart_def)
  have rd: "table_blocks (dd_defrag (kv_dir (restart s2))) t = []" "dd_ready (kv_dir (restart s2)) (data_path t)"
    "dd_exists (kv_dir (restart s2)) (data_path t)" "kv_file (restart s2) t = kv_file s2 t"
    using b synced_restart(1)[of t "dd_defrag (kv_dir s2)"] by (simp_all add: restart_def dd_ready_def)
  show ?thesis
    using overwritten[OF inv idx e _ n table_state_index[OF r(1)[folded rm]] r(2,3) rd(1-3), of "frame v'"] rd(4) a b ok(2)
    by (simp add: cmd_ok_def)
qed

section \<open>The log catches up\<close>

lemma lives_ok_append: "lives_ok env t (xs @ ys) s \<longleftrightarrow> lives_ok env t xs s
    \<and> lives_ok env t ys (fst (run_cmds (life_exec env t) xs s))"
  by (induction xs arbitrary: s) (simp_all add: split_beta)

lemma lives_ok_writer: "set es \<subseteq> {Receives, Tick} \<Longrightarrow> lives_ok env t es s"
  by (induction es arbitrary: s) auto

text \<open>As many receives as there are operations in the queue, and a tick.\<close>

definition drain :: "string \<Rightarrow> kv \<Rightarrow> life list" where
  "drain t s = replicate (case mm_registry (kv_maps s) t of None \<Rightarrow> 0 | Some ti \<Rightarrow> length (ti_walChan ti)) Receives @ [Tick]"

lemma run_receives:
  "mm_registry (kv_maps s) t = Some ti \<Longrightarrow>
   fst (run_cmds (life_exec env t) (replicate n Receives) s)
     = s\<lparr>kv_maps := putIndex (kv_maps s) t (receives n (mm_fs (kv_maps s), ti))\<rparr>"
proof (induction n arbitrary: s ti)
  case 0
  then show ?case by (simp add: putIndex_def fun_upd_idem)
next
  case (Suc n)
  let ?r = "walWriterReceive (mm_fs (kv_maps s)) ti"
  have "kv_writer Receives t s = s\<lparr>kv_maps := putIndex (kv_maps s) t ?r\<rparr>"
    using Suc.prems by (simp add: kv_writer_def)
  then show ?case
    using Suc.IH[of "s\<lparr>kv_maps := putIndex (kv_maps s) t ?r\<rparr>" "snd ?r"]
    by (simp add: split_beta putIndex_def)
qed

lemma loaded_flushed:
  assumes "table_state mm t = Some (fs, ti)" "mm_registry mm t = None"
  shows "ti_walChan ti = [] \<and> ti_walBuf ti = []"
proof -
  have "normalizeTableName t = Inr t"
    using table_state_get[OF assms(1)] by (auto simp: normalizeTableName_def)
  then have "newTableIndex (mm_fs mm) t = Inr (fs, ti)"
    using assms by (auto simp: table_state_def getTableIndex_def split: sum.splits if_splits)
  then have "loadIndex (mm_fs mm) (emptyIndex t) = Inr ti"
    by (auto simp: newTableIndex_def Let_def setupWalWriter_def split: if_splits sum.splits)
  from loadIndex_writer_part[OF this] show ?thesis by (simp add: writer_part_def emptyIndex_def)
qed

lemma drained:
  assumes "durable t s"
  shows "flushed t (fst (run_cmds (life_exec env t) (drain t s) s))"
proof -
  obtain fs ti where st: "table_state (kv_maps s) t = Some (fs, ti)" "logged t (fs, ti)"
    using assms by (auto simp: durable_def kv_logged_def)
  obtain tr: "trim_space t \<noteq> []" using table_state_get[OF st(1)] by blast
  show ?thesis
  proof (cases "mm_registry (kv_maps s) t")
    case None
    then show ?thesis
      using loaded_flushed[OF st(1) None] st(1) by (simp add: drain_def kv_writer_def flushed_def)
  next
    case (Some ti0)
    have r0: "fs = mm_fs (kv_maps s)" "ti0 = ti" using table_state_loaded[OF tr Some] st(1) by simp_all
    obtain base ws bs where "log_inv [] base ws bs (fs, ti)" using st(2) by (auto simp: logged_def)
    then have op: "ti_walOpen ti" "pend_ok (fs, ti)" using log_inv_open st(2) by (fastforce simp: logged_def)+
    let ?n = "length (ti_walChan ti)"
    obtain f1 i1 where r: "receives ?n (fs, ti) = (f1, i1)" by fastforce
    have i1: "ti_walChan i1 = []" "ti_walOpen i1" "pend_ok (f1, i1)"
      using receives_drain[of "(fs, ti)" ?n] op r by simp_all
    let ?s = "s\<lparr>kv_maps := putIndex (kv_maps s) t (f1, i1)\<rparr>"
    have run: "fst (run_cmds (life_exec env t) (replicate ?n Receives) s) = ?s"
      using run_receives[OF Some, of env ?n] r r0 by simp
    have "fst (run_cmds (life_exec env t) (drain t s) s) = kv_writer Tick t ?s"
      using run Some r0 by (simp add: drain_def run_cmds_append split_beta)
    also have "\<dots> = ?s\<lparr>kv_maps := putIndex (kv_maps ?s) t (walWriterTick f1 i1)\<rparr>"
      by (simp add: kv_writer_def putIndex_def)
    finally have fin: "kv_maps (fst (run_cmds (life_exec env t) (drain t s) s)) = putIndex (kv_maps ?s) t (walWriterTick f1 i1)"
      by simp
    have "ti_walChan (snd (walWriterTick f1 i1)) = [] \<and> ti_walBuf (snd (walWriterTick f1 i1)) = []"
      using i1 walBuf_flush[of i1] by (simp add: walWriterTick_def pend_ok_def split_beta)
    then show ?thesis
      unfolding flushed_def fin table_state_put[OF tr] by (simp add: split_beta)
  qed
qed

lemma drain_ok: "lives_ok env t (drain t s) s"
  by (rule lives_ok_writer) (auto simp: drain_def)

lemma life_spec_writer: "set es \<subseteq> {Receives, Tick, Restart} \<Longrightarrow> fst (run_cmds (life_spec env t) es m) = m"
  by (induction es) (auto simp: split_beta)

lemma drain_keeps:
  assumes "kv_inv t s" "durable t s"
  shows "kv_inv t (fst (run_cmds (life_exec env t) (drain t s) s)) \<and> durable t (fst (run_cmds (life_exec env t) (drain t s) s))
    \<and> kv_abs (fst (run_cmds (life_exec env t) (drain t s) s)) t = kv_abs s t"
proof -
  have "set (drain t s) \<subseteq> {Receives, Tick, Restart}" by (auto simp: drain_def)
  from life_spec_writer[OF this, of env t "kv_abs s t"] lives_refine[OF assms drain_ok[of env t s]]
  show ?thesis by simp
qed

lemma drain_dir: "set es \<subseteq> {Receives, Tick} \<Longrightarrow> kv_dir (fst (run_cmds (life_exec env t) es s)) = kv_dir s"
  by (induction es arbitrary: s) (auto simp: split_beta kv_writer_def split: option.split)

section \<open>Properties\<close>

text \<open>
  Restarts are invisible once the log is written. On a table in order whose files are in step with
  the memory, any sequence of commands of the three fronts, steps of the log writer, snapshots and
  restarts of the process gives the replies of the map the table stands for, and leaves the table in
  order, in step and standing for the map after the commands. A restart may happen when the queue and
  the buffer of the log are empty; keys and tables have names the log can carry.
\<close>

theorem kv_life_refines:
  assumes "kv_inv t s" "durable t s" "lives_ok env t es s"
  shows "\<exists>s' replies. run_cmds (life_exec env t) es s = (s', replies) \<and> kv_inv t s' \<and> durable t s'
    \<and> run_cmds (life_spec env t) es (kv_abs s t) = (kv_abs s' t, replies)"
  using lives_refine[OF assms] by (metis prod.collapse)

lemma fresh_durable:
  assumes "trim_space t \<noteq> []"
  shows "durable t fresh_kv"
proof -
  have st: "table_state (kv_maps fresh_kv) t
      = Some (empty_fs\<lparr>mf_files := (mf_files empty_fs)(walPath (emptyIndex t) \<mapsto> [])\<rparr>, emptyIndex t)"
    using assms newTableIndex_fresh[OF fresh_empty_fs, of t]
    by (simp add: table_state_def getTableIndex_def normalizeTableName_def fresh_kv_def)
  have "logged t (empty_fs\<lparr>mf_files := (mf_files empty_fs)(walPath (emptyIndex t) \<mapsto> [])\<rparr>, emptyIndex t)"
    using log_inv_fresh[OF fresh_empty_fs, of t] fresh_empty_fs[of t] unfolding logged_def pend_ok_def fresh_table_def
    by (auto simp: emptyIndex_def Let_def)
  moreover have "free_synced t (dd_defrag (kv_dir fresh_kv))"
    using assms by (simp add: free_synced_def fresh_kv_def demo_dir_def init_defrag_def)
  ultimately show ?thesis using st unfolding durable_def kv_logged_def by blast
qed

text \<open>A store with one key, all of it on disk.\<close>

definition demo_saved :: kv where
  "demo_saved = (let s = fst (lib_exec demo_env ''t'' (Put ''k'' [1]) fresh_kv)
     in fst (run_cmds (life_exec demo_env ''t'') (drain ''t'' s) s))"

lemma demo_loggable:
  "kv_file s ''t'' = [] \<Longrightarrow> loggable ''t'' s (Put ''k'' [1])"
  by (simp add: loggable_def clean_name_def nl_def bar_def max_token_def length_frame pointer_size_def)

lemma save_new:
  assumes inv: "kv_inv t s" and sy: "free_synced t (dd_defrag (kv_dir s))"
    and nb: "table_blocks (dd_defrag (kv_dir s)) t = []" and idx: "kv_index s t = Some idx"
    and e: "loadEntry idx k = None" and eff: "put_effect env t k d s s'"
  shows "table_blocks (dd_defrag (kv_dir s')) t = []"
proof -
  obtain p1 r a and d' :: datadir where p: "pool_alloc (env_it env) t (dd_defrag (kv_dir s)) (int (length (frame d))) = (p1, r)"
    and c: "dd_defrag d' = pool_claim (env_it env) t p1 a (a + int (length (frame d))) \<or> dd_defrag d' = p1"
    and dd: "dd_defrag (kv_dir s') = (case loadEntry idx k of None \<Rightarrow> dd_defrag d'
       | Some e \<Rightarrow> if e_start e = a \<and> e_end e = a + int (length (frame d)) then dd_defrag d'
                   else fst (markAsFree (dd_defrag d') k t (e_start e) (e_end e)))"
    by (rule put_effect_parts[OF inv eff idx]) blast
  have r: "table_blocks p1 t = []" using alloc_empty[OF sy nb] p by (metis prod.inject)
  have "free_synced t p1" using synced_alloc[OF sy, of "env_it env" "int (length (frame d))"] p by simp
  then show ?thesis using c dd e claim_empty[OF _ r] r by auto
qed

lemma demo_saved_facts:
  "kv_inv ''t'' demo_saved" "durable ''t'' demo_saved" "flushed ''t'' demo_saved"
  "kv_abs demo_saved ''t'' = [''k'' \<mapsto> [1]]" "table_blocks (dd_defrag (kv_dir demo_saved)) ''t'' = []"
proof -
  let ?s = "fst (lib_exec demo_env ''t'' (Put ''k'' [1]) fresh_kv)"
  have t: "trim_space ''t'' \<noteq> []" by code_simp
  note f = fresh_inv[OF t] and d = fresh_durable[OF t]
  have ok: "cmd_ok ''t'' (Put ''k'' [1])" by (simp add: cmd_ok_def plain_def kv_fits_def max_alloc_def)
  have e0: "kv_file fresh_kv ''t'' = []" by (simp add: fresh_kv_def demo_dir_def demo_file_def)
  have s: "kv_inv ''t'' ?s" "durable ''t'' ?s" "kv_abs ?s ''t'' = [''k'' \<mapsto> [1]]"
    using durable_lib.step_durable[OF f(1) d ok demo_loggable[OF e0], of demo_env] f(2) by auto
  have bl: "table_blocks (dd_defrag (kv_dir ?s)) ''t'' = []"
  proof (rule save_new[OF f(1)])
    show "free_synced ''t'' (dd_defrag (kv_dir fresh_kv))" using d by (simp add: durable_def)
    show "table_blocks (dd_defrag (kv_dir fresh_kv)) ''t'' = []"
      by (simp add: table_blocks_def fresh_kv_def demo_dir_def init_defrag_def getTableFreeList_def fl_load_def Let_def)
    show "kv_index fresh_kv ''t'' = Some (emptyIndex ''t'')" by (rule fresh_index[OF t])
    show "loadEntry (emptyIndex ''t'') ''k'' = None" by simp
    show "put_effect demo_env ''t'' ''k'' [1] fresh_kv ?s"
      using effect_lib[OF f(1) ok, of demo_env] by (simp add: cmd_effect_def)
  qed
  have eq: "demo_saved = fst (run_cmds (life_exec demo_env ''t'') (drain ''t'' ?s) ?s)"
    by (simp add: demo_saved_def Let_def)
  have dir: "kv_dir demo_saved = kv_dir ?s" unfolding eq by (rule drain_dir) (auto simp: drain_def)
  show "kv_inv ''t'' demo_saved" "durable ''t'' demo_saved" "kv_abs demo_saved ''t'' = [''k'' \<mapsto> [1]]"
    unfolding eq using drain_keeps[OF s(1,2), of demo_env] s(3) by simp_all
  show "flushed ''t'' demo_saved" unfolding eq by (rule drained[OF s(2)])
  show "table_blocks (dd_defrag (kv_dir demo_saved)) ''t'' = []" unfolding dir by (rule bl)
qed

lemma kv_life_refines_witness:
  "\<exists>s'. run_cmds (life_exec demo_env ''t'') [Restart, Client Http (Get ''k''), Client Peer (Del ''k''), Tick, Client Peer (Get ''k'')]
     demo_saved = (s', [None, Some (Value [1]), Some Freed, None, Some Missing])"
proof -
  let ?es = "[Restart, Client Http (Get ''k''), Client Peer (Del ''k''), Tick, Client Peer (Get ''k'')]"
  have ok: "lives_ok demo_env ''t'' ?es demo_saved"
    using demo_saved_facts(3)
    by (simp add: split_beta cmd_ok_def plain_def loggable_def remove_ok_def clean_name_def nl_def bar_def max_token_def)
  have "snd (run_cmds (life_spec demo_env ''t'') ?es [''k'' \<mapsto> [1]]) = [None, Some (Value [1]), Some Freed, None, Some Missing]"
    by simp
  then show ?thesis
    using kv_life_refines[OF demo_saved_facts(1,2) ok] demo_saved_facts(4) by (metis snd_conv)
qed

text \<open>
  C14: The log always catches up. From any such store, as many receives of the log's writer as there are
  operations in its queue and one tick of its ticker make a restart possible, after which the table
  stands for the same map.
\<close>

theorem drained_restart:
  assumes "kv_inv t s" "durable t s"
  shows "lives_ok env t (drain t s @ [Restart]) s
    \<and> kv_abs (fst (run_cmds (life_exec env t) (drain t s @ [Restart]) s)) t = kv_abs s t"
proof -
  let ?s = "fst (run_cmds (life_exec env t) (drain t s) s)"
  have s: "kv_inv t ?s" "durable t ?s" "kv_abs ?s t = kv_abs s t" "flushed t ?s"
    using drain_keeps[OF assms] drained[OF assms(2)] by blast+
  then have "kv_abs (restart ?s) t = kv_abs s t" using restart_keeps[OF s(1,2,4)] by simp
  then show ?thesis using s(4) drain_ok by (simp add: lives_ok_append run_cmds_append split_beta)
qed

lemma drained_restart_witness:
  "kv_abs (fst (run_cmds (life_exec demo_env ''t'') (drain ''t'' demo_saved @ [Restart]) demo_saved)) ''t'' ''k'' = Some [1]"
  using drained_restart[OF demo_saved_facts(1,2), of demo_env] demo_saved_facts(4) by simp

text \<open>
  C30: Before that, a restart can give a key the value of another one. A save frees the range its key had
  and stores the free list at once, while the log of the save waits in the queue: when the table has no
  free block, a new key saved next with a value of the old length goes to the freed range, and after a
  restart the first key is read with the second one's value, and the second key is gone.
\<close>

theorem crash_swaps_values:
  assumes "kv_inv t s" "durable t s" "flushed t s" "table_blocks (dd_defrag (kv_dir s)) t = []"
    and "kv_abs s t k = Some v" "kv_abs s t j = None" "j \<noteq> k" "length w = length v"
    and ok: "cmd_ok t (Put k v')" "cmd_ok t (Put j w)"
    and s': "s1 = fst (any_exec env t (f, Put k v') s)" "s2 = fst (any_exec env t (g, Put j w) s1)"
  shows "kv_inv t (restart s2) \<and> kv_abs (restart s2) t = (kv_abs s t)(k \<mapsto> w)
    \<and> snd (http_exec env t (Get k) (restart s2)) = Value w"
proof -
  have "kv_inv t (restart s2) \<and> kv_abs (restart s2) t = (kv_abs s t)(k \<mapsto> w)"
    by (rule crash_state[OF assms(1-7) ok assms(8) s'])
  moreover have "cmd_ok t (Get k)" using ok(1) by (simp add: cmd_ok_def)
  ultimately show ?thesis using http.step[of t "restart s2" "Get k" env] by simp
qed

lemma crash_swaps_values_witness:
  "snd (http_exec demo_env ''t'' (Get ''k'') (restart (fst (lib_exec demo_env ''t'' (Put ''j'' [7])
     (fst (lib_exec demo_env ''t'' (Put ''k'' [5, 5]) demo_saved)))))) = Value [7]"
proof -
  have ok: "cmd_ok ''t'' (Put ''k'' [5, 5])" "cmd_ok ''t'' (Put ''j'' [7])"
    by (simp_all add: cmd_ok_def plain_def kv_fits_def max_alloc_def)
  let ?s1 = "fst (any_exec demo_env ''t'' (Lib, Put ''k'' [5, 5]) demo_saved)"
  let ?s2 = "fst (any_exec demo_env ''t'' (Lib, Put ''j'' [7]) ?s1)"
  have "snd (http_exec demo_env ''t'' (Get ''k'') (restart ?s2)) = Value [7]"
    using crash_swaps_values[OF demo_saved_facts(1-3,5), of "''k''" "[1]" "''j''" "[7]", OF _ _ _ _ ok
        refl[of ?s1] refl[of ?s2]] demo_saved_facts(4)
    by (simp del: any_exec.simps http_exec.simps)
  then show ?thesis unfolding any_exec.simps .
qed

end
