(* ===== verification/Kv_Tables.thy ===== *)
theory Kv_Tables
  imports Kv_Life
begin

text \<open>
  Several tables in one store. Tables whose files and entries have different names do not disturb each
  other: what a command on one of them changes lies beside the other. So the fronts refine a map from
  tables to maps, over any set of tables kept apart.
\<close>

section \<open>Tables kept apart\<close>

text \<open>
  The names of two tables keep them apart when they differ once they are trimmed and made safe for a path:
  then their logs, snapshots and free lists are different files too.
\<close>

definition kept_apart :: "string \<Rightarrow> string \<Rightarrow> bool" where
  "kept_apart t u \<longleftrightarrow> sanitizeTableName t \<noteq> sanitizeTableName u"

lemma kept_apart_sym: "kept_apart t u \<Longrightarrow> kept_apart u t"
  by (simp add: kept_apart_def)

lemma starts_with_take: "starts_with p (take k s) \<Longrightarrow> starts_with p s"
proof (induction p s arbitrary: k rule: starts_with.induct)
  case (3 p ps c cs)
  then show ?case by (cases k) auto
qed auto

lemma match_len_take: "match_len ps s = None \<Longrightarrow> match_len ps (take k s) = None"
  using starts_with_take by (induction ps s rule: match_len.induct) (auto split: if_splits)

lemma trim_seqs_drop: "\<exists>k. trim_seqs f ps s = drop k s"
proof (induction f ps s rule: trim_seqs.induct)
  case (1 ps s)
  show ?case by (rule exI[of _ 0]) simp
next
  case (2 f ps s)
  then show ?case
    by (cases "match_len ps s") (auto intro: exI[of _ 0] simp: add.commute)
qed

lemma trim_right_take: "\<exists>k. trim_right s = take k s"
  using trim_seqs_drop[of "length s" "map rev utf8_spaces" "rev s"] by (auto simp: trim_right_def rev_drop)

lemma trim_seqs_stop: "match_len ps s = None \<or> s = [] \<Longrightarrow> [] \<notin> set ps \<Longrightarrow> trim_seqs (length s) ps s = s"
  by (cases s) auto

lemma trim_space_idem [simp]: "trim_space (trim_space s) = trim_space s"
proof -
  have u: "[] \<notin> set utf8_spaces" "[] \<notin> set (map rev utf8_spaces)" by (simp_all add: utf8_spaces_def)
  let ?l = "trim_left s" and ?r = "trim_space s"
  obtain k where k: "?r = take k ?l" using trim_right_take[of ?l] by (auto simp: trim_space_def)
  have "match_len utf8_spaces ?l = None \<or> ?l = []"
    unfolding trim_left_def by (rule trim_seqs_done[OF order_refl u(1)])
  then have "match_len utf8_spaces ?r = None \<or> ?r = []" unfolding k by (auto simp: match_len_take)
  from trim_seqs_stop[OF this u(1)] have l: "trim_left ?r = ?r" by (simp add: trim_left_def)
  have "match_len (map rev utf8_spaces) (rev ?r) = None \<or> rev ?r = []"
    using trim_seqs_done[OF order_refl u(2), of "rev ?l"] by (simp add: trim_space_def trim_right_def)
  from trim_seqs_stop[OF this u(2)] have "trim_right ?r = ?r" by (simp add: trim_right_def)
  then show ?thesis using l by (simp add: trim_space_def)
qed

lemma list_path_safe: "list_path t = free_path (sanitizeTableName t)"
  by (simp add: list_path_def sanitizeName_def sanitizeTableName_def)

lemma free_path_inj: "free_path a = free_path b \<longleftrightarrow> a = b"
  by (auto simp: free_path_def split: if_splits)

lemma kept_apart_names:
  "kept_apart t u \<longleftrightarrow> t \<noteq> u \<and> trim_space t \<noteq> trim_space u \<and> list_path t \<noteq> list_path u
     \<and> sanitizeTableName t \<noteq> sanitizeTableName u"
proof -
  have "sanitizeTableName t = sanitizeTableName u" if "trim_space t = trim_space u"
    using that by (simp add: sanitizeTableName_def)
  then show ?thesis by (auto simp: kept_apart_def list_path_safe free_path_inj)
qed

lemma data_path_inj: "data_path t = data_path u \<longleftrightarrow> t = u"
  by (simp add: data_path_def full_path_def)

lemma tableDir_inj: "tableDir a = tableDir b \<longleftrightarrow> a = b"
  by (auto simp: tableDir_def split: if_splits)

lemma index_paths_apart:
  assumes "ti_safeName ti \<noteq> ti_safeName tj"
  shows "walPath ti \<noteq> walPath tj"
  using assms tableDir_inj by (simp add: walPath_def)

lemma walPath_not_legacy: "walPath ti \<noteq> legacySnapPath" "walPath ti \<noteq> legacyWalPath"
proof -
  have r: "take 6 (rev (walPath ti)) = ''law.xe''" by (simp add: walPath_def)
  show "walPath ti \<noteq> legacySnapPath" "walPath ti \<noteq> legacyWalPath"
    using r by (auto simp: legacySnapPath_def legacyWalPath_def)
qed

section \<open>What lies beside a change\<close>

definition list_beside :: "string \<Rightarrow> defrag \<Rightarrow> defrag \<Rightarrow> bool" where
  "list_beside u d d' \<longleftrightarrow> freeRegistry d' (trim_space u) = freeRegistry d (trim_space u)
     \<and> freeDisk d' (list_path u) = freeDisk d (list_path u) \<and> openRefused d' = openRefused d
     \<and> writeRefused d' = writeRefused d"

definition index_files :: "string \<Rightarrow> string set" where
  "index_files u = {snapPath (emptyIndex u), walPath (emptyIndex u), legacySnapPath, legacyWalPath}"

definition maps_beside :: "string \<Rightarrow> map_manager \<Rightarrow> map_manager \<Rightarrow> bool" where
  "maps_beside u mm mm' \<longleftrightarrow> mm_registry mm' u = mm_registry mm u
     \<and> (\<forall>p \<in> index_files u. mf_files (mm_fs mm') p = mf_files (mm_fs mm) p)
     \<and> mf_denied (mm_fs mm') = mf_denied (mm_fs mm)"

definition kv_beside :: "string \<Rightarrow> kv \<Rightarrow> kv \<Rightarrow> bool" where
  "kv_beside u s s' \<longleftrightarrow> list_beside u (dd_defrag (kv_dir s)) (dd_defrag (kv_dir s'))
     \<and> maps_beside u (kv_maps s) (kv_maps s')
     \<and> dd_files (kv_dir s') (data_path u) = dd_files (kv_dir s) (data_path u)
     \<and> dd_exists (kv_dir s') (data_path u) = dd_exists (kv_dir s) (data_path u)
     \<and> dd_crashed (kv_dir s') (data_path u) = dd_crashed (kv_dir s) (data_path u)"

lemma list_beside_trans: "list_beside u a b \<Longrightarrow> list_beside u b c \<Longrightarrow> list_beside u a c"
  by (simp add: list_beside_def)

lemma maps_beside_trans: "maps_beside u a b \<Longrightarrow> maps_beside u b c \<Longrightarrow> maps_beside u a c"
  by (simp add: maps_beside_def)

lemma beside_refl [simp]: "list_beside u d d" "maps_beside u mm mm" "kv_beside u s s"
  by (simp_all add: list_beside_def maps_beside_def kv_beside_def)

text \<open>The entries of a table carry the paths of its own name.\<close>

definition list_named :: "string \<Rightarrow> defrag \<Rightarrow> bool" where
  "list_named t d \<longleftrightarrow> (\<forall>fl. freeRegistry d (trim_space t) = Some fl \<longrightarrow> fl_path fl = list_path t)"

definition index_named :: "string \<Rightarrow> map_manager \<Rightarrow> bool" where
  "index_named t mm \<longleftrightarrow> (\<forall>ti. mm_registry mm t = Some ti \<longrightarrow> ti_safeName ti = sanitizeTableName t)"

definition kv_named :: "string \<Rightarrow> kv \<Rightarrow> bool" where
  "kv_named t s \<longleftrightarrow> list_named t (dd_defrag (kv_dir s)) \<and> index_named t (kv_maps s)"

lemma beside_named: "kv_beside u s s' \<Longrightarrow> kv_named u s \<Longrightarrow> kv_named u s'"
  by (simp add: kv_beside_def list_beside_def maps_beside_def kv_named_def list_named_def index_named_def)

section \<open>What is beside a change is the same\<close>

lemma blocks_beside:
  assumes "list_beside u d d'" "list_named u d"
  shows "table_blocks d' u = table_blocks d u"
proof -
  have p: "free_path (sanitizeName (trim_space u)) = list_path u" by (simp add: list_path_def)
  show ?thesis
    using assms unfolding table_blocks_def
    by (cases "freeRegistry d (trim_space u)")
       (auto simp: list_beside_def list_named_def getTableFreeList_def fl_load_def Let_def p
         split: option.splits free_file.splits)
qed

lemma newTableIndex_files:
  assumes "\<forall>p \<in> index_files u. mf_files fs' p = mf_files fs p" "mf_denied fs' = mf_denied fs"
  shows "map_sum id snd (newTableIndex fs' u) = map_sum id snd (newTableIndex fs u)"
proof -
  have r: "read_lines fs' p f ti = read_lines fs p f ti" if "p \<in> index_files u" for p f ti
    using assms that by (simp add: read_lines_def split: option.split)
  have p: "snapPath (emptyIndex u) \<in> index_files u" "walPath (emptyIndex u) \<in> index_files u"
    "legacySnapPath \<in> index_files u" "legacyWalPath \<in> index_files u" by (simp_all add: index_files_def)
  have "loadIndex fs' (emptyIndex u) = loadIndex fs (emptyIndex u)"
    using assms(1) unfolding loadIndex_def fileExists_def importFromLegacy_def loadSnapshot_def applyWalFile_def Let_def
    by (simp add: r p split: sum.split option.split)
  then show ?thesis
    using assms(2) by (simp add: newTableIndex_def Let_def setupWalWriter_def split: sum.split)
qed

lemma mm_index_cases:
  "mm_index mm u = (if trim_space u = [] then None
     else case mm_registry mm u of Some ti \<Rightarrow> Some ti
       | None \<Rightarrow> (case map_sum id snd (newTableIndex (mm_fs mm) u) of Inl _ \<Rightarrow> None | Inr ti \<Rightarrow> Some ti))"
  by (auto simp: mm_index_def getTableIndex_def normalizeTableName_def split: option.split sum.split)

lemma index_beside: "maps_beside u mm mm' \<Longrightarrow> mm_index mm' u = mm_index mm u"
  using newTableIndex_files[of u "mm_fs mm'" "mm_fs mm"] unfolding mm_index_cases maps_beside_def
  by (simp split: option.split)

lemma beside_inv:
  assumes "kv_beside u s s'" "kv_named u s" "kv_inv u s"
  shows "kv_inv u s' \<and> kv_abs s' u = kv_abs s u"
proof -
  obtain idx where i: "kv_index s u = Some idx" "index_wf idx" using kv_inv_index[OF assms(3)] by blast
  have "kv_index s' u = Some idx"
    using index_beside[of u "kv_maps s" "kv_maps s'"] assms(1) i(1) by (simp add: kv_beside_def)
  moreover have "table_blocks (dd_defrag (kv_dir s')) u = table_blocks (dd_defrag (kv_dir s)) u"
    using blocks_beside assms(1,2) by (simp add: kv_beside_def kv_named_def)
  ultimately show ?thesis
    using kv_inv_same[OF assms(3) i(1) _ i(2) refl, of s'] assms(1,3) by (simp add: kv_beside_def kv_inv_def dd_ready_def)
qed

section \<open>Changes to the free list\<close>

lemma fl_load_path: "fl_load d fl = Inr fl1 \<Longrightarrow> fl_path fl1 = fl_path fl"
  by (auto simp: fl_load_def split: if_splits option.splits free_file.splits)

lemma list_got:
  assumes "getTableFreeList d t = Inr (t', fl, d1)" "list_named t d"
  shows "t' = trim_space t" "fl_path fl = list_path t" "list_named t d1" "kept_apart t u \<Longrightarrow> list_beside u d d1"
  using assms
  by (auto simp: getTableFreeList_def Let_def list_named_def list_path_def list_beside_def kept_apart_names
      split: if_splits option.splits)

lemma list_put:
  assumes "fl_path fl = list_path t"
  shows "list_named t (put_fl d (trim_space t) fl)" "kept_apart t u \<Longrightarrow> list_beside u d (put_fl d (trim_space t) fl)"
  using assms by (auto simp: list_named_def put_fl_def list_beside_def kept_apart_names)

lemma list_saved:
  assumes "fl_save d fl = Inr d'" "fl_path fl = list_path t" "list_named t d"
  shows "list_named t d'" "kept_apart t u \<Longrightarrow> list_beside u d d'"
  using assms by (auto simp: fl_save_def list_named_def list_beside_def kept_apart_names split: if_splits)

text \<open>An operation is one of these, put together.\<close>

definition list_change :: "string \<Rightarrow> defrag \<Rightarrow> defrag \<Rightarrow> bool" where
  "list_change t d d' \<longleftrightarrow> (list_named t d \<longrightarrow> list_named t d' \<and> (\<forall>u. kept_apart t u \<longrightarrow> list_beside u d d'))"

lemma list_change_refl [simp]: "list_change t d d"
  by (simp add: list_change_def)

lemma list_change_trans: "list_change t a b \<Longrightarrow> list_change t b c \<Longrightarrow> list_change t a c"
  unfolding list_change_def using list_beside_trans by blast

lemma list_change_got: "getTableFreeList d t = Inr (t', fl, d1) \<Longrightarrow> list_change t d d1"
  unfolding list_change_def using list_got(3,4) by auto

lemma list_change_put: "fl_path fl = list_path t \<Longrightarrow> list_change t d (put_fl d (trim_space t) fl)"
  unfolding list_change_def using list_put by blast

lemma list_change_save: "fl_save d fl = Inr d' \<Longrightarrow> fl_path fl = list_path t \<Longrightarrow> list_change t d d'"
  unfolding list_change_def using list_saved by blast

lemma list_change_put_save:
  "fl_path fl = list_path t \<Longrightarrow> list_change t d d1 \<Longrightarrow>
   list_change t d (case fl_save (put_fl d1 (trim_space t) fl) fl of Inl _ \<Rightarrow> put_fl d1 (trim_space t) fl | Inr d2 \<Rightarrow> d2)"
  using list_change_trans[OF _ list_change_put] list_change_trans[OF _ list_change_save] by (simp split: sum.split) blast

lemma list_change_mark: "list_named t d \<Longrightarrow> list_change t d (fst (markAsFree d k t a b))"
proof (cases "getTableFreeList d t")
  case (Inr x)
  assume n: "list_named t d"
  obtain t' fl d1 where x: "x = (t', fl, d1)" by (cases x)
  note g = Inr[unfolded x]
  note p = list_got(1,2)[OF g n] and c = list_change_got[OF g]
  show ?thesis
  proof (cases "fl_load d1 fl")
    case (Inl e)
    then show ?thesis using g c by (simp add: markAsFree_def)
  next
    case (Inr fl1)
    let ?fl = "fl1\<lparr>fl_blocks := AList.update k (new_block t a b) (fl_blocks fl1)\<rparr>"
    have "fl_path ?fl = list_path t" using fl_load_path[OF Inr] p(2) by simp
    from list_change_put_save[OF this c] show ?thesis
      using g Inr p(1) by (simp add: markAsFree_def Let_def split: sum.splits)
  qed
qed (simp add: markAsFree_def)

lemma list_change_alloc: "list_named t d \<Longrightarrow> list_change t d (fst (pool_alloc it t d n))"
proof (cases "getTableFreeList d t")
  case (Inr x)
  assume n: "list_named t d"
  obtain t' fl d1 where x: "x = (t', fl, d1)" by (cases x)
  note g = Inr[unfolded x]
  note p = list_got(1,2)[OF g n] and c = list_change_got[OF g]
  show ?thesis
  proof (cases "fl_load d1 fl")
    case (Inl e)
    then show ?thesis using g c by (simp add: pool_alloc_def getBlock_def)
  next
    case (Inr fl1)
    have p1: "fl_path fl1 = list_path t" using fl_load_path[OF Inr] p(2) by simp
    have c1: "list_change t d (put_fl d1 (trim_space t) fl1)"
      using list_change_trans[OF c list_change_put[OF p1]] .
    show ?thesis
    proof (cases "scan_fit n t None (go_range it (fl_blocks fl1))")
      case None
      then show ?thesis using g Inr p(1) c1 by (simp add: pool_alloc_def getBlock_def Let_def)
    next
      case (Some q)
      let ?fl = "fl1\<lparr>fl_blocks := AList.delete (fst q) (fl_blocks fl1)\<rparr>"
      have "fl_path ?fl = list_path t" using p1 by simp
      from list_change_put_save[OF this c1] show ?thesis
        using g Inr p(1) Some by (simp add: pool_alloc_def getBlock_def Let_def split_beta split: sum.splits)
    qed
  qed
qed (simp add: pool_alloc_def getBlock_def)

lemma list_change_claim: "list_named t d \<Longrightarrow> list_change t d (pool_claim it t d a b)"
proof (cases "getTableFreeList d t")
  case (Inr x)
  assume n: "list_named t d"
  obtain t' fl d1 where x: "x = (t', fl, d1)" by (cases x)
  note g = Inr[unfolded x]
  note p = list_got(1,2)[OF g n] and c = list_change_got[OF g]
  show ?thesis
  proof (cases "fl_load d1 fl")
    case (Inl e)
    then show ?thesis using g c by (simp add: pool_claim_def saveBlockCheck_def)
  next
    case (Inr fl1)
    have p1: "fl_path fl1 = list_path t" using fl_load_path[OF Inr] p(2) by simp
    have c1: "list_change t d (put_fl d1 (trim_space t) fl1)"
      using list_change_trans[OF c list_change_put[OF p1]] .
    show ?thesis
    proof (cases "find_containing t a b (go_range it (fl_blocks fl1))")
      case None
      then show ?thesis using g Inr p(1) c1 by (simp add: pool_claim_def saveBlockCheck_def Let_def)
    next
      case (Some q)
      let ?fl = "fl1\<lparr>fl_blocks := split_block (fst q) (snd q) a b (fl_blocks fl1)\<rparr>"
      have "fl_path ?fl = list_path t" using p1 by simp
      from list_change_put_save[OF this c1] show ?thesis
        using g Inr p(1) Some by (simp add: pool_claim_def saveBlockCheck_def Let_def split_beta split: sum.splits)
    qed
  qed
qed (simp add: pool_claim_def saveBlockCheck_def)
section \<open>Changes to the index\<close>

text \<open>What a call writes through the writer of an index: the log of that index and nothing else.\<close>

definition log_only :: "map_fs \<Rightarrow> tableIndex \<Rightarrow> map_fs \<times> tableIndex \<Rightarrow> bool" where
  "log_only fs ti r \<longleftrightarrow> ti_safeName (snd r) = ti_safeName ti \<and> mf_denied (fst r) = mf_denied fs
     \<and> (\<forall>q. q \<noteq> walPath ti \<longrightarrow> mf_files (fst r) q = mf_files fs q)"

lemma log_only_trans: "log_only fs ti r \<Longrightarrow> log_only (fst r) (snd r) r' \<Longrightarrow> log_only fs ti r'"
  by (simp add: log_only_def walPath_def)

lemma log_only_flush: "log_only fs ti (flushWal fs ti)"
  by (simp add: log_only_def flushWal_def)

lemma log_only_receive: "log_only fs ti (walWriterReceive fs ti)"
  by (simp add: log_only_def walWriterReceive_def flushWal_def writeWalLine_def walPath_def Let_def split: list.split)

lemma log_only_enqueue: "log_only fs ti (enqueueWal fs ti op)"
proof (cases "length (ti_walChan ti) < walCapacity")
  case True
  then show ?thesis by (simp add: log_only_def enqueueWal_def)
next
  case False
  let ?r = "walWriterReceive (fst (flushWal fs ti)) (snd (flushWal fs ti))"
  have "log_only fs ti ?r" by (rule log_only_trans[OF log_only_flush log_only_receive])
  then show ?thesis using False by (simp add: log_only_def enqueueWal_def split_beta)
qed

lemma log_only_saves:
  "log_only fs ti (fst (saveElement fs ti k f a b))" "log_only fs ti (removeElement fs ti k)"
  using log_only_enqueue[of fs "fst (storeKey ti k \<lparr>e_file = f, e_start = a, e_end = b\<rparr>)"]
    log_only_enqueue[of fs "fst (deleteKey ti k)"]
  by (simp_all add: log_only_def saveElement_def removeElement_def split_beta Let_def)

definition maps_change :: "string \<Rightarrow> map_manager \<Rightarrow> map_manager \<Rightarrow> bool" where
  "maps_change t mm mm' \<longleftrightarrow> (index_named t mm \<longrightarrow> index_named t mm' \<and> (\<forall>u. kept_apart t u \<longrightarrow> maps_beside u mm mm'))"

lemma maps_change_trans: "maps_change t a b \<Longrightarrow> maps_change t b c \<Longrightarrow> maps_change t a c"
  unfolding maps_change_def using maps_beside_trans by blast

lemma log_not_beside:
  assumes "kept_apart t u" "ti_safeName ti = sanitizeTableName t"
  shows "walPath ti \<notin> index_files u"
  using assms index_paths_apart[of ti "emptyIndex u"] walPath_not_legacy[of ti]
  by (simp add: index_files_def kept_apart_names)

lemma maps_change_put:
  assumes "log_only (mm_fs mm) ti r" "ti_safeName ti = sanitizeTableName t"
  shows "maps_change t mm (putIndex mm t r)"
proof -
  have "mf_files (fst r) p = mf_files (mm_fs mm) p" if "kept_apart t u" "p \<in> index_files u" for u p
    using log_not_beside[OF that(1) assms(2)] that(2) assms(1) unfolding log_only_def by metis
  then show ?thesis
    using assms by (auto simp: maps_change_def maps_beside_def index_named_def putIndex_def log_only_def kept_apart_names)
qed

lemma newTableIndex_log:
  assumes "newTableIndex fs t = Inr (fs', ti)"
  shows "log_only fs ti (fs', ti)" "ti_safeName ti = sanitizeTableName t"
proof -
  obtain l where l: "loadIndex fs (emptyIndex t) = Inr l" "setupWalWriter fs l = Inr (fs', ti)"
    using assms by (auto simp: newTableIndex_def Let_def split: if_splits sum.splits)
  have "ti = l" using l(2) by (simp add: setupWalWriter_def split: if_splits)
  then show "log_only fs ti (fs', ti)" "ti_safeName ti = sanitizeTableName t"
    using l(2) loadIndex_writer_part[OF l(1)]
    by (auto simp: log_only_def setupWalWriter_def writer_part_def split: if_splits)
qed

lemma getTableIndex_changes:
  "mm_registry (fst (getTableIndex mm t)) = mm_registry mm \<and> mm_fs (fst (getTableIndex mm t)) = mm_fs mm
   \<or> (\<exists>fs' ti. newTableIndex (mm_fs mm) t = Inr (fs', ti)
        \<and> mm_registry (fst (getTableIndex mm t)) = (mm_registry mm)(t \<mapsto> ti) \<and> mm_fs (fst (getTableIndex mm t)) = fs')"
proof (cases "trim_space t = []")
  case True
  then show ?thesis by (simp add: getTableIndex_def normalizeTableName_def)
next
  case False
  show ?thesis
  proof (cases "mm_registry mm t")
    case None
    then show ?thesis
      using False by (cases "newTableIndex (mm_fs mm) t") (auto simp: getTableIndex_def normalizeTableName_def)
  next
    case (Some ti)
    then show ?thesis using False by (simp add: getTableIndex_def normalizeTableName_def)
  qed
qed

lemma maps_change_same:
  "mm_registry mm1 = mm_registry mm2 \<Longrightarrow> mm_fs mm1 = mm_fs mm2 \<Longrightarrow> maps_change t mm mm1 = maps_change t mm mm2"
  by (simp add: maps_change_def maps_beside_def index_named_def)

lemma maps_change_refl: "maps_change t mm mm"
  by (simp add: maps_change_def)

lemma maps_change_get:
  assumes "getTableIndex mm t = (mm1, r)"
  shows "maps_change t mm mm1" "index_named t mm \<Longrightarrow> r = Inr ti \<Longrightarrow> ti_safeName ti = sanitizeTableName t"
proof -
  have "fst (getTableIndex mm t) = mm1" using assms by simp
  from getTableIndex_changes[of mm t, unfolded this] show c: "maps_change t mm mm1"
  proof
    assume "mm_registry mm1 = mm_registry mm \<and> mm_fs mm1 = mm_fs mm"
    then show ?thesis using maps_change_same[of mm1 mm t mm] maps_change_refl by blast
  next
    assume "\<exists>fs' ti. newTableIndex (mm_fs mm) t = Inr (fs', ti)
      \<and> mm_registry mm1 = (mm_registry mm)(t \<mapsto> ti) \<and> mm_fs mm1 = fs'"
    then obtain fs' ti where n: "newTableIndex (mm_fs mm) t = Inr (fs', ti)"
      and m: "mm_registry mm1 = (mm_registry mm)(t \<mapsto> ti)" "mm_fs mm1 = fs'" by blast
    have "maps_change t mm (putIndex mm t (fs', ti))"
      using newTableIndex_log[OF n] by (rule maps_change_put)
    then show ?thesis using maps_change_same[of mm1 "putIndex mm t (fs', ti)" t mm] m by (simp add: putIndex_def)
  qed
  assume n: "index_named t mm" and r: "r = Inr ti"
  have "mm_registry mm1 t = Some ti" using getTableIndex_index assms r by blast
  then show "ti_safeName ti = sanitizeTableName t" using c n by (simp add: maps_change_def index_named_def)
qed

lemma maps_change_ops:
  assumes "index_named t mm"
  shows "maps_change t mm (fst (saveElementByKey mm t k a b))" "maps_change t mm (fst (removeElementByKey mm t k))"
    "maps_change t mm (fst (getElementByKey mm t k))"
proof -
  obtain mm1 r where g: "getTableIndex mm t = (mm1, r)" by (cases "getTableIndex mm t")
  note c = maps_change_get(1)[OF g] and n = maps_change_get(2)[OF g assms]
  show "maps_change t mm (fst (getElementByKey mm t k))"
    using g c by (simp add: getElementByKey_def split: sum.split)
  show "maps_change t mm (fst (removeElementByKey mm t k))"
    using g c maps_change_trans[OF c maps_change_put[OF log_only_saves(2) n]]
    by (simp add: removeElementByKey_def split: sum.split)
  show "maps_change t mm (fst (saveElementByKey mm t k a b))"
    using g c maps_change_trans[OF c maps_change_put[OF log_only_saves(1) n]]
    by (simp add: saveElementByKey_def split_beta split: sum.split)
qed
section \<open>What a command leaves beside it\<close>

lemma list_change_named: "list_change t d d' \<Longrightarrow> list_named t d \<Longrightarrow> list_named t d'"
  by (simp add: list_change_def)

lemma wrote_list:
  assumes "wrote env t data d d' a" "list_named t (dd_defrag d)"
  shows "list_change t (dd_defrag d) (dd_defrag d')"
proof -
  obtain p1 r where w: "pool_alloc (env_it env) t (dd_defrag d) (int (length data)) = (p1, r)"
    "dd_defrag d' = pool_claim (env_it env) t p1 a (a + int (length data)) \<or> dd_defrag d' = p1"
    using assms(1) unfolding wrote_def by blast
  have c: "list_change t (dd_defrag d) p1"
    using list_change_alloc[OF assms(2), of "env_it env" "int (length data)"] w(1) by simp
  show ?thesis
    using w(2) c list_change_trans[OF c list_change_claim[OF list_change_named[OF c assms(2)]]] by auto
qed

lemma bind_valid:
  assumes "bind_key t k a b s = (s', None)"
  shows "isPointerRangeValid a b"
proof (rule ccontr)
  assume v: "\<not> isPointerRangeValid a b"
  have "\<exists>e. snd (saveElementByKey (kv_maps s) t k a b) = Inl e"
    using v by (auto simp: saveElementByKey_def saveElement_def split: prod.split sum.split)
  then show False using assms by (cases "saveElementByKey (kv_maps s) t k a b") (auto simp: bind_key_def)
qed

lemma bind_list:
  assumes idx: "kv_index s t = Some idx" "index_wf idx" "\<And>k e. loadEntry idx k = Some e \<Longrightarrow> e_file e = t"
    and b: "bind_key t k a b s = (s', None)" and n: "list_named t (dd_defrag (kv_dir s))"
  shows "list_change t (dd_defrag (kv_dir s)) (dd_defrag (kv_dir s'))"
proof -
  have "kv_dir s' = (case loadEntry idx k of None \<Rightarrow> kv_dir s
      | Some e \<Rightarrow> if e_file e = t \<and> e_start e = a \<and> e_end e = b then kv_dir s
                  else kv_dir (kv_mark_free k (e_file e) (e_start e) (e_end e) s))"
    using bind_key_spec[OF idx(1,2) bind_valid[OF b], of k] b by (auto split: option.split)
  then show ?thesis
    using list_change_mark[OF n] idx(3) by (auto simp: kv_mark_free_def split: option.splits if_splits)
qed

definition kv_change :: "string \<Rightarrow> kv \<Rightarrow> kv \<Rightarrow> bool" where
  "kv_change t s s' \<longleftrightarrow> list_change t (dd_defrag (kv_dir s)) (dd_defrag (kv_dir s'))
     \<and> maps_change t (kv_maps s) (kv_maps s') \<and> same_elsewhere (data_path t) (kv_dir s) (kv_dir s')"

lemma kv_change_beside:
  assumes "kv_change t s s'" "kv_named t s"
  shows "kv_named t s'" "kept_apart t u \<Longrightarrow> kv_beside u s s'"
  using assms data_path_inj[of u t]
  by (auto simp: kv_change_def kv_named_def list_change_def maps_change_def kv_beside_def same_elsewhere_def kept_apart_names)

lemma put_change:
  assumes inv: "kv_inv t s" and n: "kv_named t s" and e: "put_effect env t k d s s'"
  shows "kv_change t s s'"
proof -
  obtain d' a s1 ns where w: "wrote env t (frame d) (kv_dir s) d' a"
    and b: "bind_key t k a (a + int (length (frame d))) (s\<lparr>kv_dir := d'\<rparr>) = (s1, None)" and s': "s' = s1\<lparr>kv_outbox := ns\<rparr>"
    using e unfolding put_effect_def by blast
  obtain idx where idx: "kv_index s t = Some idx" "index_wf idx" "\<And>k e. loadEntry idx k = Some e \<Longrightarrow> e_file e = t"
    using inv unfolding kv_inv_def holds_frame_def by blast
  have ln: "list_named t (dd_defrag (kv_dir s))" "index_named t (kv_maps s)" using n by (simp_all add: kv_named_def)
  note c = wrote_list[OF w ln(1)]
  have "list_change t (dd_defrag d') (dd_defrag (kv_dir s1))"
    using bind_list[of "s\<lparr>kv_dir := d'\<rparr>" t idx, OF _ idx(2) idx(3) b] idx(1) list_change_named[OF c ln(1)] by simp
  moreover have "same_elsewhere (data_path t) (kv_dir s) d'" using w by (simp add: wrote_def same_elsewhere_def)
  moreover have "same_elsewhere (data_path t) d' (kv_dir s1)"
    using bind_key_elsewhere[of "data_path t" "s\<lparr>kv_dir := d'\<rparr>" t k a "a + int (length (frame d))"] by (simp add: b)
  moreover have "maps_change t (kv_maps s) (kv_maps s1)"
    using maps_change_ops(1)[OF ln(2), of k a] bind_key_maps[of t k a "a + int (length (frame d))" "s\<lparr>kv_dir := d'\<rparr>"]
    by (simp add: b)
  ultimately show ?thesis
    using list_change_trans[OF c] same_elsewhere_trans[of "data_path t" "kv_dir s" d'] unfolding kv_change_def s' by simp
qed

lemma get_change:
  assumes "kv_named t s" "get_meta t k s = (s1, r)"
  shows "kv_change t s s1"
  using maps_change_ops(3)[of t "kv_maps s" k] assms
  by (auto simp: kv_change_def kv_named_def get_meta_def same_elsewhere_def split: prod.splits)

lemma del_change:
  assumes "kv_named t s" "get_meta t k s = (s1, r)"
  shows "kv_change t s (kv_mark_free k t a b (remove_meta t k s1))"
proof -
  note c = get_change[OF assms]
  have n: "list_named t (dd_defrag (kv_dir s1))" "index_named t (kv_maps s1)"
    using kv_change_beside(1)[OF c assms(1)] by (simp_all add: kv_named_def)
  show ?thesis
    using c list_change_trans[OF _ list_change_mark[OF n(1)]] maps_change_trans[OF _ maps_change_ops(2)[OF n(2)]]
      same_elsewhere_trans[OF _ free_elsewhere]
    by (auto simp: kv_change_def kv_mark_free_def remove_meta_def)
qed

lemma effect_change:
  assumes "kv_inv t s" "kv_named t s" "cmd_effect env t c s s'"
  shows "kv_change t s s'"
proof (cases c)
  case (Put k d)
  then show ?thesis using put_change[OF assms(1,2)] assms(3) by (simp add: cmd_effect_def)
next
  case (Get k)
  have refl: "kv_change t s s" by (simp add: kv_change_def maps_change_refl same_elsewhere_def)
  have "kv_change t s (s1\<lparr>kv_dir := d'\<rparr>)" if "get_meta t k s = (s1, r)" "dd_defrag d' = dd_defrag (kv_dir s1)"
    "same_elsewhere (data_path t) (kv_dir s1) d'" for s1 r d'
    using get_change[OF assms(2) that(1)] that(2,3) same_elsewhere_trans by (auto simp: kv_change_def)
  then show ?thesis using Get assms(3) refl unfolding cmd_effect_def get_effect_def by auto
next
  case (Del k)
  have o: "kv_change t s (x\<lparr>kv_outbox := ns\<rparr>) = kv_change t s x" for x ns by (simp add: kv_change_def)
  then show ?thesis
    using Del assms(3) get_change[OF assms(2)] del_change[OF assms(2)] unfolding cmd_effect_def del_effect_def by auto
qed

section \<open>A store of several tables\<close>

text \<open>A command goes to a table through one of the fronts.\<close>

fun table_exec :: "kv_env \<Rightarrow> string \<times> front \<times> kv_cmd \<Rightarrow> kv \<Rightarrow> kv \<times> kv_reply" where
  "table_exec env (t, c) s = any_exec env t c s"

text \<open>The specification: a map for every table, and a command changes the one of its table.\<close>

fun table_spec :: "kv_env \<Rightarrow> string \<times> front \<times> kv_cmd \<Rightarrow> (string \<Rightarrow> string \<rightharpoonup> bytes)
    \<Rightarrow> (string \<Rightarrow> string \<rightharpoonup> bytes) \<times> kv_reply" where
  "table_spec env (t, c) m = (case any_spec env t c (m t) of (mt, r) \<Rightarrow> (m(t := mt), r))"

definition tables_inv :: "string set \<Rightarrow> kv \<Rightarrow> bool" where
  "tables_inv T s \<longleftrightarrow> (\<forall>t \<in> T. kv_inv t s \<and> kv_named t s)"

definition tables_abs :: "string set \<Rightarrow> kv \<Rightarrow> string \<Rightarrow> string \<rightharpoonup> bytes" where
  "tables_abs T s t = (if t \<in> T then kv_abs s t else Map.empty)"

lemma table_step:
  assumes T: "\<And>t u. t \<in> T \<Longrightarrow> u \<in> T \<Longrightarrow> t \<noteq> u \<Longrightarrow> kept_apart t u" and inv: "tables_inv T s"
    and ok: "t \<in> T" "cmd_ok t c"
  shows "tables_inv T (fst (any_exec env t (f, c) s))"
    "table_spec env (t, f, c) (tables_abs T s)
       = (tables_abs T (fst (any_exec env t (f, c) s)), snd (any_exec env t (f, c) s))"
proof -
  let ?s = "fst (any_exec env t (f, c) s)"
  have i: "kv_inv t s" "kv_named t s" using inv ok(1) by (auto simp: tables_inv_def)
  note ch = effect_change[OF i effect_any[OF i(1) ok(2), of env f]]
  have st: "kv_inv t ?s" "any_spec env t (f, c) (kv_abs s t) = (kv_abs ?s t, snd (any_exec env t (f, c) s))"
    using fronts.step[OF i(1), of "(f, c)" env] ok(2) by auto
  have other: "kv_inv u ?s \<and> kv_named u ?s \<and> kv_abs ?s u = kv_abs s u" if "u \<in> T" "u \<noteq> t" for u
  proof -
    have b: "kv_beside u s ?s" using kv_change_beside(2)[OF ch i(2)] T[OF ok(1) that(1)] that(2) by blast
    have "kv_inv u s" "kv_named u s" using inv that(1) by (auto simp: tables_inv_def)
    then show ?thesis using beside_inv[OF b] beside_named[OF b] by blast
  qed
  show "tables_inv T ?s"
    unfolding tables_inv_def using other st(1) kv_change_beside(1)[OF ch i(2)] by metis
  have "(tables_abs T s)(t := kv_abs ?s t) = tables_abs T ?s"
    using other ok(1) by (auto simp: tables_abs_def fun_eq_iff)
  then show "table_spec env (t, f, c) (tables_abs T s) = (tables_abs T ?s, snd (any_exec env t (f, c) s))"
    using st(2) ok(1) by (simp add: tables_abs_def)
qed

lemma tables_refine:
  assumes "\<And>t u. t \<in> T \<Longrightarrow> u \<in> T \<Longrightarrow> t \<noteq> u \<Longrightarrow> kept_apart t u" "tables_inv T s"
    and "\<And>t f c. (t, f, c) \<in> set cs \<Longrightarrow> t \<in> T \<and> cmd_ok t c"
  shows "tables_inv T (fst (run_cmds (table_exec env) cs s))
    \<and> run_cmds (table_spec env) cs (tables_abs T s)
      = (tables_abs T (fst (run_cmds (table_exec env) cs s)), snd (run_cmds (table_exec env) cs s))"
  using assms(2,3)
proof (induction cs arbitrary: s)
  case (Cons x cs)
  obtain t f c where x: "x = (t, f, c)" by (cases x)
  have ok: "t \<in> T" "cmd_ok t c" using Cons(3)[of t f c] x by auto
  let ?r = "any_exec env t (f, c) s"
  note st = table_step[OF assms(1) Cons(2) ok, of env f]
  have "tables_inv T (fst (run_cmds (table_exec env) cs (fst ?r)))
    \<and> run_cmds (table_spec env) cs (tables_abs T (fst ?r))
      = (tables_abs T (fst (run_cmds (table_exec env) cs (fst ?r))), snd (run_cmds (table_exec env) cs (fst ?r)))"
    using Cons(1)[OF st(1)] Cons(3) by auto
  then show ?case
    using st(2) unfolding x
    by (cases ?r; cases "run_cmds (table_exec env) cs (fst ?r)") (simp del: table_spec.simps)
qed simp
text \<open>C2: Commands on several tables whose names keep them apart, through any fronts in any order,
  answer as one map for each table, and every other table of the set is left as it was.\<close>

theorem kv_tables_refine:
  assumes "\<forall>t \<in> T. \<forall>u \<in> T. t \<noteq> u \<longrightarrow> kept_apart t u" "tables_inv T s"
    and "\<forall>(t, f, c) \<in> set cs. t \<in> T \<and> cmd_ok t c"
  shows "\<exists>s' replies. run_cmds (table_exec env) cs s = (s', replies) \<and> tables_inv T s'
    \<and> run_cmds (table_spec env) cs (tables_abs T s) = (tables_abs T s', replies)"
  using tables_refine[of T s cs env] assms by (cases "run_cmds (table_exec env) cs s") fastforce

lemma fresh_tables: "(\<And>t. t \<in> T \<Longrightarrow> trim_space t \<noteq> []) \<Longrightarrow> tables_inv T fresh_kv"
  using fresh_inv
  by (auto simp: tables_inv_def kv_named_def list_named_def index_named_def fresh_kv_def demo_dir_def init_defrag_def)

lemma fresh_tables_abs: "(\<And>t. t \<in> T \<Longrightarrow> trim_space t \<noteq> []) \<Longrightarrow> tables_abs T fresh_kv = (\<lambda>_. Map.empty)"
  using fresh_inv by (auto simp: tables_abs_def fun_eq_iff)

definition demo_tables :: "(string \<times> front \<times> kv_cmd) list" where
  "demo_tables = [(''t'', Lib, Put ''k'' [1]), (''u'', Http, Put ''k'' [2]), (''t'', Peer, Get ''k''),
     (''u'', Peer, Del ''k''), (''t'', Http, Get ''k''), (''u'', Peer, Get ''k'')]"

lemma kv_tables_refine_witness:
  "snd (run_cmds (table_exec demo_env) demo_tables fresh_kv) = [Stored, Stored, Value [1], Freed, Value [1], Missing]"
proof -
  let ?T = "{''t'', ''u''}"
  have tr: "\<And>t. t \<in> ?T \<Longrightarrow> trim_space t \<noteq> []" by (auto; code_simp)
  have "kept_apart ''t'' ''u''" by code_simp
  then have k: "\<forall>t \<in> ?T. \<forall>u \<in> ?T. t \<noteq> u \<longrightarrow> kept_apart t u" using kept_apart_sym by auto
  have c: "\<forall>(t, f, c) \<in> set demo_tables. t \<in> ?T \<and> cmd_ok t c"
    by (simp add: demo_tables_def cmd_ok_def plain_def kv_fits_def max_alloc_def)
  have "snd (run_cmds (table_spec demo_env) demo_tables (\<lambda>_. Map.empty)) = [Stored, Stored, Value [1], Freed, Value [1], Missing]"
    by (simp add: demo_tables_def)
  moreover have "tables_abs ?T fresh_kv = (\<lambda>_. Map.empty)" by (rule fresh_tables_abs[OF tr])
  ultimately show ?thesis
    using kv_tables_refine[OF k fresh_tables[of ?T, OF tr] c, of demo_env] by auto
qed
section \<open>Tables that are not kept apart\<close>

text \<open>
  Two tables whose names are made safe to one name have one log. What the next process loads for the
  one is what was logged for the other.
\<close>

lemma alias_loads:
  assumes t: "mm_registry (kv_maps s) t = Some ti" and dur: "kv_logged t (kv_maps s)" and fl: "flushed t s"
    and u: "sanitizeTableName u = sanitizeTableName t" "trim_space u \<noteq> []"
  shows "\<exists>ti'. table_state (kv_maps (restart s)) u = Some (mm_fs (kv_maps s), ti') \<and> index_wf ti'
    \<and> loadEntry ti' = loadEntry ti \<and> logged u (mm_fs (kv_maps s), ti')"
proof -
  let ?r = "(mm_fs (kv_maps s), ti)"
  obtain r where r: "table_state (kv_maps s) t = Some r" "logged t r" using dur by (auto simp: kv_logged_def)
  have "trim_space t \<noteq> []" using table_state_get[OF r(1)] by blast
  from table_state_loaded[OF this t] have r': "r = ?r" using r(1) by simp
  have "logged u ?r" using r(2) u(1) unfolding r' logged_def by simp
  moreover have "ti_walChan ti = []" "ti_walBuf ti = []" using fl r(1) unfolding r' flushed_def by simp_all
  ultimately obtain ti' where "newTableIndex (mm_fs (kv_maps s)) u = Inr (mm_fs (kv_maps s), ti')" "index_wf ti'"
    "loadEntry ti' = loadEntry ti" "logged u (mm_fs (kv_maps s), ti')"
    using reload_flushed by metis
  then show ?thesis
    using u(2) by (simp add: table_state_def getTableIndex_def normalizeTableName_def restart_def restart_maps_def)
qed

lemma alias_durable:
  assumes "durable t s" "kv_logged u (kv_maps (restart s))" "sanitizeTableName u = sanitizeTableName t" "trim_space u \<noteq> []"
  shows "durable u (restart s)"
  using assms by (simp add: durable_def free_synced_def list_path_safe restart_def restart_defrag_def)

lemma drain_registered:
  assumes "set es \<subseteq> {Receives, Tick}" "mm_registry (kv_maps s) u = Some idx" "durable u s"
  shows "\<exists>idx'. mm_registry (kv_maps (fst (run_cmds (life_exec env u) es s))) u = Some idx'
    \<and> loadEntry idx' = loadEntry idx \<and> durable u (fst (run_cmds (life_exec env u) es s))"
  using assms
proof (induction es arbitrary: s idx)
  case (Cons e es)
  have e: "e = Receives \<or> e = Tick \<or> (\<exists>it. e = Snapshot it)" using Cons.prems(1) by auto
  let ?r = "(mm_fs (kv_maps s), idx)" and ?s = "kv_writer e u s"
  obtain r where r: "table_state (kv_maps s) u = Some r" "logged u r"
    using Cons.prems(3) by (auto simp: durable_def kv_logged_def)
  have tr: "trim_space u \<noteq> []" using table_state_get[OF r(1)] by blast
  have lg: "logged u ?r" using r table_state_loaded[OF tr Cons.prems(2)] by simp
  have s': "?s = s\<lparr>kv_maps := putIndex (kv_maps s) u (writer_exec e ?r)\<rparr>"
    using Cons.prems(2) by (simp add: kv_writer_def)
  have "durable u ?s"
    using table_state_put[OF tr, of "kv_maps s" "writer_exec e ?r"] logged_step[OF lg writer_exec_step[OF e]] Cons.prems(3)
    unfolding durable_def kv_logged_def by (simp add: s')
  moreover have "mm_registry (kv_maps ?s) u = Some (snd (writer_exec e ?r))" by (simp add: s' putIndex_def)
  moreover have "set es \<subseteq> {Receives, Tick}" using Cons.prems(1) by simp
  ultimately obtain idx' where "mm_registry (kv_maps (fst (run_cmds (life_exec env u) es ?s))) u = Some idx'"
    "loadEntry idx' = loadEntry (snd (writer_exec e ?r))" "durable u (fst (run_cmds (life_exec env u) es ?s))"
    using Cons.IH by metis
  moreover have "fst (run_cmds (life_exec env u) (e # es) s) = fst (run_cmds (life_exec env u) es ?s)"
    using Cons.prems(1) by (auto simp: split_beta)
  ultimately show ?case using writer_exec_load(2)[of e ?r] by simp
qed simp

text \<open>A key is freed in a table where it is found.\<close>

lemma free_logged:
  assumes "durable u s" "kv_index s u = Some idx" "index_wf idx" "loadEntry idx k = Some e" "remove_ok k"
  obtains s1 idx1 where "lib_exec env u (Del k) s = (s1, Freed)" "mm_registry (kv_maps s1) u = Some idx1"
    "loadEntry idx1 = (loadEntry idx)(k := None)" "durable u s1"
proof -
  obtain mm1 where g: "getTableIndex (kv_maps s) u = (mm1, Inr idx)" using mm_index_get[OF assms(2)] .
  note gi = getTableIndex_index[OF g]
  let ?m = "s\<lparr>kv_maps := mm1\<rparr>"
  have m: "get_meta u k s = (?m, Inr (entryToOutput k e))"
    using g assms(4) by (simp add: get_meta_def getElementByKey_def getElement_def)
  let ?s = "kv_notify (NotifyDeleteAndRemove k) (kv_mark_free k u (e_start e) (e_end e) (remove_meta u k ?m))"
  have ex: "lib_exec env u (Del k) s = (?s, Freed)"
    using m by (simp add: export_Free_def entryToOutput_def Let_def)
  have d: "durable u ?s"
    using durable_mark[OF durable_remove[OF durable_get(1)[OF assms(1) m] assms(5)]] by simp
  obtain idx1 where i: "kv_index (remove_meta u k ?m) u = Some idx1" "loadEntry idx1 = (loadEntry idx)(k := None)"
    using remove_meta_spec[of ?m u idx k] gi assms(3) by auto
  have "\<exists>x. mm_registry (kv_maps (remove_meta u k ?m)) u = Some x"
    by (simp add: remove_meta_def removeElementByKey_def putIndex_def split: prod.split sum.split)
       (metis Inl_Inr_False fst_conv gi g getTableIndex_index mm_index_get option.inject snd_conv)
  then obtain x where x: "mm_registry (kv_maps (remove_meta u k ?m)) u = Some x" by blast
  have "x = idx1" using i(1) x unfolding mm_index_cases by (simp split: if_splits)
  with x have "mm_registry (kv_maps ?s) u = Some idx1" by (simp add: kv_notify_def kv_mark_free_def)
  from that[OF ex this i(2) d] show thesis .
qed

text \<open>C31: A table loses a key that a client frees in a table with another name. When the names of
  two tables are made safe to one name, the next process finds the keys of the one in the other;
  a key it frees there is gone from the first table after one more restart, though no command on the
  first table has touched it.\<close>

theorem shared_name_loses_key:
  assumes "kv_inv t s" "durable t s" "flushed t s" "mm_registry (kv_maps s) t \<noteq> None" "kv_abs s t k = Some v"
    and "sanitizeTableName u = sanitizeTableName t" "trim_space u \<noteq> []" "remove_ok k"
    and run: "lib_exec env u (Del k) (restart s) = (s1, r)" "s2 = fst (run_cmds (life_exec env u) (drain u s1) s1)"
  shows "kv_abs (restart s) t k = Some v \<and> r = Freed \<and> kv_abs (restart s2) t k = None"
proof -
  obtain ti where ti: "mm_registry (kv_maps s) t = Some ti" using assms(4) by blast
  have lg: "kv_logged t (kv_maps s)" using assms(2) by (simp add: durable_def)
  obtain ti' where l: "table_state (kv_maps (restart s)) u = Some (mm_fs (kv_maps s), ti')" "index_wf ti'"
    "loadEntry ti' = loadEntry ti" "logged u (mm_fs (kv_maps s), ti')"
    using alias_loads[OF ti lg assms(3,6,7)] by blast
  have du: "durable u (restart s)"
    using alias_durable[OF assms(2) _ assms(6,7)] l(1,4) unfolding kv_logged_def by blast
  have tt: "trim_space t \<noteq> []" using assms(2) by (simp add: durable_def free_synced_def)
  have it: "kv_index s t = Some ti" using table_state_index[OF table_state_loaded[OF tt ti]] .
  obtain e where e: "loadEntry ti k = Some e" using abs_entry[OF assms(1) it, of k] assms(5) by fastforce
  obtain idx1 where f: "r = Freed" "mm_registry (kv_maps s1) u = Some idx1" "loadEntry idx1 = (loadEntry ti)(k := None)"
    "durable u s1"
    using free_logged[OF du table_state_index[OF l(1)] l(2) _ assms(8), of e env] e l(3) run(1) by (metis prod.inject)
  have dr: "set (drain u s1) \<subseteq> {Receives, Tick}" by (auto simp: drain_def)
  obtain idx2 where d: "mm_registry (kv_maps s2) u = Some idx2" "loadEntry idx2 = loadEntry idx1" "durable u s2"
    using drain_registered[OF dr f(2,4), of env] run(2) by blast
  have fl2: "flushed u s2" using drained[OF f(4), of env] run(2) by simp
  have lg2: "kv_logged u (kv_maps s2)" using d(3) by (simp add: durable_def)
  obtain ti2 where "table_state (kv_maps (restart s2)) t = Some (mm_fs (kv_maps s2), ti2)" "loadEntry ti2 = loadEntry idx2"
    using alias_loads[OF d(1) lg2 fl2 assms(6)[symmetric] tt] by blast
  then have "kv_abs (restart s2) t k = None"
    using kv_abs_index[OF table_state_index, of "restart s2" t] d(2) f(3) by simp
  moreover have "kv_abs (restart s) t k = Some v" using restart_keeps[OF assms(1-3)] assms(5) by simp
  ultimately show ?thesis using f(1) by blast
qed
lemma put_registered:
  assumes "put_effect env t k d s s'" "kv_index s t = Some idx"
  shows "mm_registry (kv_maps s') t \<noteq> None"
proof -
  obtain d' a s1 ns where b: "bind_key t k a (a + int (length (frame d))) (s\<lparr>kv_dir := d'\<rparr>) = (s1, None)"
    and s': "s' = s1\<lparr>kv_outbox := ns\<rparr>"
    using assms(1) unfolding put_effect_def by blast
  obtain mm1 where g: "getTableIndex (kv_maps s) t = (mm1, Inr idx)" using mm_index_get[OF assms(2)] .
  have "kv_maps s1 = fst (saveElementByKey (kv_maps s) t k a (a + int (length (frame d))))"
    using bind_key_maps[of t k a "a + int (length (frame d))" "s\<lparr>kv_dir := d'\<rparr>"] by (simp add: b)
  then show ?thesis using g s' by (simp add: saveElementByKey_def putIndex_def split_beta)
qed

lemma demo_saved_registered: "mm_registry (kv_maps demo_saved) ''t'' \<noteq> None"
proof -
  let ?s = "fst (lib_exec demo_env ''t'' (Put ''k'' [1]) fresh_kv)"
  have t: "trim_space ''t'' \<noteq> []" by code_simp
  have ok: "cmd_ok ''t'' (Put ''k'' [1])" by (simp add: cmd_ok_def plain_def kv_fits_def max_alloc_def)
  have "kv_file fresh_kv ''t'' = []" by (simp add: fresh_kv_def demo_dir_def demo_file_def)
  then have d: "durable ''t'' ?s"
    using durable_lib.step_durable[OF fresh_inv(1)[OF t] fresh_durable[OF t] ok demo_loggable, of demo_env] by blast
  have "put_effect demo_env ''t'' ''k'' [1] fresh_kv ?s"
    using effect_lib[OF fresh_inv(1)[OF t] ok, of demo_env] by (simp add: cmd_effect_def)
  from put_registered[OF this fresh_index[OF t]] obtain idx where i: "mm_registry (kv_maps ?s) ''t'' = Some idx" by blast
  have "set (drain ''t'' ?s) \<subseteq> {Receives, Tick}" by (auto simp: drain_def)
  from drain_registered[OF this i d, of demo_env] show ?thesis unfolding demo_saved_def Let_def by blast
qed

lemma shared_name_loses_key_witness:
  "let u = '' t''; (s1, r) = lib_exec demo_env u (Del ''k'') (restart demo_saved);
       s2 = fst (run_cmds (life_exec demo_env u) (drain u s1) s1)
   in kv_abs (restart demo_saved) ''t'' ''k'' = Some [1] \<and> r = Freed \<and> kv_abs (restart s2) ''t'' ''k'' = None"
proof -
  have u: "sanitizeTableName '' t'' = sanitizeTableName ''t''" "trim_space '' t'' \<noteq> []" by code_simp+
  have k: "remove_ok ''k''" by (simp add: remove_ok_def clean_name_def nl_def bar_def max_token_def)
  have v: "kv_abs demo_saved ''t'' ''k'' = Some [1]" using demo_saved_facts(4) by simp
  obtain s1 r where "lib_exec demo_env '' t'' (Del ''k'') (restart demo_saved) = (s1, r)" by fastforce
  from shared_name_loses_key[OF demo_saved_facts(1-3) demo_saved_registered v u k this refl] this
  show ?thesis by (simp add: Let_def split_beta del: lib_exec.simps)
qed

end
