(* ===== verification/Subscriptions.thy ===== *)
theory Subscriptions
  imports Go_Strings
begin

text \<open>
  The subscription server (\<open>servers/subscriptions/subServer.go\<close>). Connections are numbers; what is
  written to them is collected in \<open>sb_sent\<close>, and \<open>sb_broken\<close> says which connections fail a write (a
  closed one does). The two maps \<open>activeSubs\<close> and \<open>connToKeys\<close> are association lists whose values are
  the sets as lists; \<open>it\<close> is the order in which \<open>range\<close> visits a set. A handler's section under the
  global lock is one function, the writes after it are a list of sends. The UUIDs are arguments; a
  request body is what decoding it gives. Deadlines of reads and writes are left out.
\<close>

section \<open>State\<close>

type_synonym conn = nat

datatype sub_event =
    Updated string bytes | IncTableUpdate string string nat bytes | Deleted string
  | Unsubscribed string | Subscribed "string list" | InvalidAuthKey

record pending =
  pd_Keys :: "string list"
  pd_ExpiresAt :: nat

record subs =
  sb_activeSubs :: "(string \<times> conn list) list"
  sb_connToKeys :: "(conn \<times> string list) list"
  sb_pending :: "(string \<times> pending) list"
  sb_connLocks :: "conn list"
  sb_connDone :: "conn list"
  sb_ping :: "conn \<Rightarrow> bool"
  sb_broken :: "conn \<Rightarrow> bool"
  sb_sent :: "(conn \<times> sub_event) list"
  sb_now :: nat

record sub_stats =
  st_ActiveClients :: nat
  st_KeysWithSubscribers :: nat
  st_ActiveSubscriptions :: nat
  st_PendingAuthKeys :: nat

definition keyset :: "('k \<times> 'v list) list \<Rightarrow> 'k \<Rightarrow> 'v list" where
  "keyset m k = (case map_of m k of None \<Rightarrow> [] | Some s \<Rightarrow> s)"

definition statsSnapshot :: "subs \<Rightarrow> sub_stats" where
  "statsSnapshot st =
     \<lparr>st_ActiveClients = length (sb_connToKeys st), st_KeysWithSubscribers = length (sb_activeSubs st),
      st_ActiveSubscriptions = fold (\<lambda>(c, ks) n. n + length ks) (sb_connToKeys st) 0,
      st_PendingAuthKeys = length (sb_pending st)\<rparr>"

section \<open>Writing and cleaning up\<close>

definition writeJSON :: "conn \<Rightarrow> sub_event \<Rightarrow> subs \<Rightarrow> subs \<times> bool" where
  "writeJSON c v st = (if sb_broken st c then (st, False) else (st\<lparr>sb_sent := sb_sent st @ [(c, v)]\<rparr>, True))"

text \<open>The delete of one member of a set in a map, with the set dropped when it gets empty.\<close>

definition unlink :: "'k \<Rightarrow> 'v \<Rightarrow> ('k \<times> 'v list) list \<Rightarrow> ('k \<times> 'v list) list" where
  "unlink k v m = (case map_of m k of
      None \<Rightarrow> m
    | Some s \<Rightarrow> (let s' = removeAll v s in if s' = [] then AList.delete k m else AList.update k s' m))"

definition cleanupConn :: "conn \<Rightarrow> subs \<Rightarrow> subs" where
  "cleanupConn c st =
     (let st1 = (if c \<in> set (sb_connDone st)
                 then st\<lparr>sb_ping := (sb_ping st)(c := False), sb_connDone := removeAll c (sb_connDone st)\<rparr> else st);
          st2 = (case map_of (sb_connToKeys st1) c of
                   None \<Rightarrow> st1
                 | Some ks \<Rightarrow> st1\<lparr>sb_activeSubs := fold (\<lambda>k m. unlink k c m) ks (sb_activeSubs st1),
                                 sb_connToKeys := AList.delete c (sb_connToKeys st1)\<rparr>)
      in st2\<lparr>sb_connLocks := removeAll c (sb_connLocks st2), sb_broken := (sb_broken st2)(c := True)\<rparr>)"

text \<open>The loops over a snapshot: a failed write cleans the connection up.\<close>

fun send_all :: "sub_event \<Rightarrow> conn list \<Rightarrow> subs \<Rightarrow> subs \<times> nat" where
  "send_all v [] st = (st, 0)"
| "send_all v (c # cs) st =
     (case writeJSON c v st of
        (st, True) \<Rightarrow> (case send_all v cs st of (st, n) \<Rightarrow> (st, n + 1))
      | (st, False) \<Rightarrow> send_all v cs (cleanupConn c st))"

section \<open>Handlers\<close>

definition enable :: "string \<Rightarrow> string list \<Rightarrow> subs \<Rightarrow> subs" where
  "enable authKey keys st =
     st\<lparr>sb_pending := AList.update authKey \<lparr>pd_Keys = keys, pd_ExpiresAt = sb_now st + 60\<rparr> (sb_pending st)\<rparr>"

definition handleEnableSubscription :: "string \<Rightarrow> string list option \<Rightarrow> subs \<Rightarrow> subs \<times> (nat + string)" where
  "handleEnableSubscription uuid body st = (case body of
      None \<Rightarrow> (st, Inl 400)
    | Some keys \<Rightarrow> if length keys = 0 then (st, Inl 400) else (enable uuid keys st, Inr uuid))"

definition enableSubscriptionInternal :: "string \<Rightarrow> string list \<Rightarrow> subs \<Rightarrow> subs \<times> string option" where
  "enableSubscriptionInternal uuid keys st =
     (if length keys = 0 then (st, None) else (enable uuid keys st, Some uuid))"

text \<open>The goroutine that wakes up after the time to live.\<close>

definition ttl_expire :: "string \<Rightarrow> subs \<Rightarrow> subs" where
  "ttl_expire k st = (case map_of (sb_pending st) k of
      None \<Rightarrow> st
    | Some p \<Rightarrow> if pd_ExpiresAt p < sb_now st then st\<lparr>sb_pending := AList.delete k (sb_pending st)\<rparr> else st)"

text \<open>
  The section of the handlers that end the subscriptions of a key: the connections in the order the
  range visits them, and the maps without the key.
\<close>

definition drop_key :: "(conn list \<Rightarrow> conn list) \<Rightarrow> string \<Rightarrow> subs \<Rightarrow> subs \<times> conn list" where
  "drop_key it key st =
     (let conns = go_range it (keyset (sb_activeSubs st) key)
      in (st\<lparr>sb_connToKeys := fold (\<lambda>c m. unlink c key m) conns (sb_connToKeys st),
            sb_activeSubs := AList.delete key (sb_activeSubs st)\<rparr>, conns))"

definition disableSubscriptionInternal :: "(conn list \<Rightarrow> conn list) \<Rightarrow> string \<Rightarrow> subs \<Rightarrow> subs \<times> nat option" where
  "disableSubscriptionInternal it key st =
     (if key = [] then (st, None)
      else (case drop_key it key st of (st, conns) \<Rightarrow>
             (case send_all (Unsubscribed key) conns st of (st, n) \<Rightarrow> (st, Some n))))"

definition handleDisableSubscription :: "(conn list \<Rightarrow> conn list) \<Rightarrow> string \<Rightarrow> subs \<Rightarrow> subs \<times> nat" where
  "handleDisableSubscription it key st =
     (if key = [] then (st, 400)
      else (case drop_key it key st of (st, conns) \<Rightarrow> (fst (send_all (Unsubscribed key) conns st), 200)))"

text \<open>\<open>HandleWS\<close>: the registration of a connection, one message of its reader, and its end.\<close>

definition ws_connect :: "conn \<Rightarrow> subs \<Rightarrow> subs" where
  "ws_connect c st =
     st\<lparr>sb_connLocks := List.insert c (sb_connLocks st), sb_connDone := List.insert c (sb_connDone st),
        sb_ping := (sb_ping st)(c := True)\<rparr>"

definition link :: "conn \<Rightarrow> string \<Rightarrow> subs \<Rightarrow> subs" where
  "link c key st =
     (let st1 = (if map_of (sb_activeSubs st) key = None
                 then st\<lparr>sb_activeSubs := AList.update key [] (sb_activeSubs st)\<rparr> else st)
      in if key \<in> set (keyset (sb_connToKeys st1) c) then st1
         else st1\<lparr>sb_activeSubs := AList.update key (List.insert c (keyset (sb_activeSubs st1) key)) (sb_activeSubs st1),
                  sb_connToKeys := AList.update c (List.insert key (keyset (sb_connToKeys st1) c)) (sb_connToKeys st1)\<rparr>)"

definition ws_message :: "conn \<Rightarrow> string option \<Rightarrow> subs \<Rightarrow> subs" where
  "ws_message c msg st = (case msg of
      None \<Rightarrow> st
    | Some authKey \<Rightarrow>
        if authKey = [] then st
        else (case map_of (sb_pending st) authKey of
                None \<Rightarrow> fst (writeJSON c InvalidAuthKey st)
              | Some pend \<Rightarrow>
                  (let st1 = (if map_of (sb_connToKeys st) c = None
                              then st\<lparr>sb_connToKeys := AList.update c [] (sb_connToKeys st)\<rparr> else st);
                       st2 = fold (link c) (pd_Keys pend) st1;
                       st3 = st2\<lparr>sb_pending := AList.delete authKey (sb_pending st2)\<rparr>
                   in fst (writeJSON c (Subscribed (pd_Keys pend)) st3))))"

definition ws_disconnect :: "conn \<Rightarrow> subs \<Rightarrow> subs" where
  "ws_disconnect c st = cleanupConn c st"

definition writePing :: "conn \<Rightarrow> subs \<Rightarrow> bool" where
  [simp]: "writePing c st \<longleftrightarrow> \<not> sb_broken st c"

definition ping_tick :: "conn \<Rightarrow> subs \<Rightarrow> subs" where
  "ping_tick c st = (if sb_ping st c \<and> \<not> writePing c st then st\<lparr>sb_ping := (sb_ping st)(c := False)\<rparr> else st)"

section \<open>Notifications\<close>

definition snapshotSubscribers :: "(conn list \<Rightarrow> conn list) \<Rightarrow> string \<Rightarrow> subs \<Rightarrow> conn list" where
  "snapshotSubscribers it key st = go_range it (keyset (sb_activeSubs st) key)"

definition notifySubscribersWithPayload :: "(conn list \<Rightarrow> conn list) \<Rightarrow> string \<Rightarrow> sub_event \<Rightarrow> subs \<Rightarrow> subs" where
  "notifySubscribersWithPayload it key payload st = fst (send_all payload (snapshotSubscribers it key st) st)"

definition notifySubscribers :: "(conn list \<Rightarrow> conn list) \<Rightarrow> string \<Rightarrow> bytes \<Rightarrow> subs \<Rightarrow> subs" where
  "notifySubscribers it key data = notifySubscribersWithPayload it key (Updated key data)"

definition notifyIncTableSubscribers :: "(conn list \<Rightarrow> conn list) \<Rightarrow> string \<Rightarrow> string \<Rightarrow> nat \<Rightarrow> bytes \<Rightarrow> subs \<Rightarrow> subs" where
  "notifyIncTableSubscribers it key changeType entryID entryData =
     notifySubscribersWithPayload it key (IncTableUpdate key changeType entryID entryData)"

definition notifyDeleteAndRemove :: "(conn list \<Rightarrow> conn list) \<Rightarrow> string \<Rightarrow> subs \<Rightarrow> subs" where
  "notifyDeleteAndRemove it key st =
     (case drop_key it key st of (st, conns) \<Rightarrow> fst (send_all (Deleted key) conns st))"
section \<open>Maps from keys to sets\<close>

definition sets_wf :: "('k \<times> 'v list) list \<Rightarrow> bool" where
  "sets_wf m \<longleftrightarrow> keys_distinct m \<and> (\<forall>k. distinct (keyset m k))"

definition no_empty :: "('k \<times> 'v list) list \<Rightarrow> bool" where
  "no_empty m \<longleftrightarrow> (\<forall>k \<in> dom (map_of m). keyset m k \<noteq> [])"

lemma keyset_Nil [simp]: "keyset [] k = []"
  by (simp add: keyset_def)

lemma keyset_update [simp]: "keyset (AList.update k s m) = (keyset m)(k := s)"
  by (simp add: keyset_def fun_eq_iff)

lemma keyset_delete [simp]: "keyset (AList.delete k m) = (keyset m)(k := [])"
  by (simp add: keyset_def fun_eq_iff)

lemma keyset_unlink [simp]: "keyset (unlink k v m) = (keyset m)(k := removeAll v (keyset m k))"
  by (auto simp: unlink_def keyset_def Let_def fun_eq_iff split: option.split)

lemma sets_wf_Nil [simp]: "sets_wf []" "no_empty []"
  by (simp_all add: sets_wf_def no_empty_def)

lemma sets_wf_update: "sets_wf m \<Longrightarrow> distinct s \<Longrightarrow> sets_wf (AList.update k s m)"
  by (auto simp: sets_wf_def)

lemma sets_wf_delete: "sets_wf m \<Longrightarrow> sets_wf (AList.delete k m)"
  by (auto simp: sets_wf_def)

lemma sets_wf_unlink: "sets_wf m \<Longrightarrow> sets_wf (unlink k v m)"
proof -
  assume m: "sets_wf m"
  have "keys_distinct (unlink k v m)"
    using m by (auto simp: sets_wf_def unlink_def Let_def split: option.split)
  then show ?thesis using m by (simp add: sets_wf_def distinct_removeAll)
qed

lemma no_empty_update: "no_empty m \<Longrightarrow> s \<noteq> [] \<Longrightarrow> no_empty (AList.update k s m)"
  by (auto simp: no_empty_def)

lemma no_empty_delete: "no_empty m \<Longrightarrow> no_empty (AList.delete k m)"
  by (auto simp: no_empty_def)

lemma no_empty_unlink: "no_empty m \<Longrightarrow> no_empty (unlink k v m)"
  unfolding unlink_def by (cases "map_of m k") (auto simp: Let_def intro: no_empty_update no_empty_delete)

lemma fold_unlink_keys:
  "keyset (fold (\<lambda>k m. unlink k v m) ks m) k = (if k \<in> set ks then removeAll v (keyset m k) else keyset m k)"
  by (induction ks arbitrary: m) auto

lemma fold_unlink_ok:
  "sets_wf m \<Longrightarrow> sets_wf (fold (\<lambda>k m. unlink k (f k) m) ks m)"
  "no_empty m \<Longrightarrow> no_empty (fold (\<lambda>k m. unlink k (f k) m) ks m)"
  by (induction ks arbitrary: m) (auto intro: sets_wf_unlink no_empty_unlink)

section \<open>The subscriptions as a relation\<close>

definition subs_rel :: "subs \<Rightarrow> (conn \<times> string) set" where
  "subs_rel st = {(c, k). k \<in> set (keyset (sb_connToKeys st) c)}"

definition inverse_maps :: "subs \<Rightarrow> bool" where
  "inverse_maps st \<longleftrightarrow> sets_wf (sb_activeSubs st) \<and> sets_wf (sb_connToKeys st)
     \<and> (\<forall>c k. c \<in> set (keyset (sb_activeSubs st) k) \<longleftrightarrow> k \<in> set (keyset (sb_connToKeys st) c))"

text \<open>
  The two maps are inverse to each other and hold no empty set, and a pending subscription has keys.
\<close>

definition sub_inv :: "subs \<Rightarrow> bool" where
  "sub_inv st \<longleftrightarrow> inverse_maps st \<and> no_empty (sb_activeSubs st) \<and> no_empty (sb_connToKeys st)
     \<and> (\<forall>a p. map_of (sb_pending st) a = Some p \<longrightarrow> pd_Keys p \<noteq> [])"

lemma inverse_mapsD:
  "inverse_maps st \<Longrightarrow> c \<in> set (keyset (sb_activeSubs st) k) \<longleftrightarrow> (c, k) \<in> subs_rel st"
  by (simp add: inverse_maps_def subs_rel_def)

lemma sub_inv_same:
  "sb_activeSubs st' = sb_activeSubs st \<Longrightarrow> sb_connToKeys st' = sb_connToKeys st \<Longrightarrow>
   sb_pending st' = sb_pending st \<Longrightarrow> sub_inv st' = sub_inv st \<and> subs_rel st' = subs_rel st"
  by (simp add: sub_inv_def inverse_maps_def subs_rel_def)

lemma cleanup_maps:
  assumes "sub_inv st"
  shows "keyset (sb_connToKeys (cleanupConn c st)) = (keyset (sb_connToKeys st))(c := [])"
    and "keyset (sb_activeSubs (cleanupConn c st)) = (\<lambda>k. removeAll c (keyset (sb_activeSubs st) k))"
proof -
  show "keyset (sb_connToKeys (cleanupConn c st)) = (keyset (sb_connToKeys st))(c := [])"
    by (auto simp: cleanupConn_def Let_def keyset_def fun_eq_iff split: option.split)
  have inv: "x \<in> set (keyset (sb_activeSubs st) k) \<longleftrightarrow> k \<in> set (keyset (sb_connToKeys st) x)" for x k
    using assms by (simp add: sub_inv_def inverse_maps_def)
  show "keyset (sb_activeSubs (cleanupConn c st)) = (\<lambda>k. removeAll c (keyset (sb_activeSubs st) k))"
  proof
    fix k
    show "keyset (sb_activeSubs (cleanupConn c st)) k = removeAll c (keyset (sb_activeSubs st) k)"
    proof (cases "map_of (sb_connToKeys st) c")
      case None
      then have "keyset (sb_connToKeys st) c = []" by (simp add: keyset_def)
      then have "c \<notin> set (keyset (sb_activeSubs st) k)" using inv by simp
      then show ?thesis using None by (simp add: cleanupConn_def Let_def)
    next
      case (Some ks)
      then have "keyset (sb_connToKeys st) c = ks" by (simp add: keyset_def)
      then have "c \<in> set (keyset (sb_activeSubs st) k) \<longleftrightarrow> k \<in> set ks" using inv by simp
      then show ?thesis using Some by (simp add: cleanupConn_def Let_def fold_unlink_keys)
    qed
  qed
qed

lemma cleanup_inv:
  assumes inv: "sub_inv st"
  shows "sub_inv (cleanupConn c st)" "subs_rel (cleanupConn c st) = {(x, k) \<in> subs_rel st. x \<noteq> c}"
    "sb_broken (cleanupConn c st) = (sb_broken st)(c := True)" "sb_sent (cleanupConn c st) = sb_sent st"
    "sb_pending (cleanupConn c st) = sb_pending st"
proof -
  have w: "sets_wf (sb_activeSubs st)" "sets_wf (sb_connToKeys st)" "no_empty (sb_activeSubs st)" "no_empty (sb_connToKeys st)"
    using inv by (simp_all add: sub_inv_def inverse_maps_def)
  show p: "sb_pending (cleanupConn c st) = sb_pending st" "sb_sent (cleanupConn c st) = sb_sent st"
      "sb_broken (cleanupConn c st) = (sb_broken st)(c := True)"
    by (simp_all add: cleanupConn_def Let_def split: option.split)
  have a: "sets_wf (sb_activeSubs (cleanupConn c st)) \<and> no_empty (sb_activeSubs (cleanupConn c st))"
    using w fold_unlink_ok[of "sb_activeSubs st" "\<lambda>_. c"] by (simp add: cleanupConn_def Let_def split: option.split)
  have b: "sets_wf (sb_connToKeys (cleanupConn c st)) \<and> no_empty (sb_connToKeys (cleanupConn c st))"
    using w by (auto simp: cleanupConn_def Let_def intro: sets_wf_delete no_empty_delete split: option.split)
  show "subs_rel (cleanupConn c st) = {(x, k) \<in> subs_rel st. x \<noteq> c}"
    by (auto simp: subs_rel_def cleanup_maps(1)[OF inv] split: if_splits)
  show "sub_inv (cleanupConn c st)"
    using a b inv by (auto simp: sub_inv_def inverse_maps_def cleanup_maps[OF inv] p)
qed

lemma send_all_spec:
  assumes "sub_inv st" "distinct cs"
  shows "sub_inv (fst (send_all v cs st))"
    and "subs_rel (fst (send_all v cs st)) = {(x, k) \<in> subs_rel st. \<not> (x \<in> set cs \<and> sb_broken st x)}"
    and "sb_sent (fst (send_all v cs st)) = sb_sent st @ map (\<lambda>c. (c, v)) (filter (\<lambda>c. \<not> sb_broken st c) cs)"
    and "snd (send_all v cs st) = length (filter (\<lambda>c. \<not> sb_broken st c) cs)"
    and "sb_broken (fst (send_all v cs st)) = sb_broken st"
    and "sb_pending (fst (send_all v cs st)) = sb_pending st"
proof -
  have "sub_inv (fst (send_all v cs st))
    \<and> subs_rel (fst (send_all v cs st)) = {(x, k) \<in> subs_rel st. \<not> (x \<in> set cs \<and> sb_broken st x)}
    \<and> sb_sent (fst (send_all v cs st)) = sb_sent st @ map (\<lambda>c. (c, v)) (filter (\<lambda>c. \<not> sb_broken st c) cs)
    \<and> snd (send_all v cs st) = length (filter (\<lambda>c. \<not> sb_broken st c) cs)
    \<and> sb_broken (fst (send_all v cs st)) = sb_broken st \<and> sb_pending (fst (send_all v cs st)) = sb_pending st"
    using assms
  proof (induction cs arbitrary: st)
    case (Cons c cs)
    show ?case
    proof (cases "sb_broken st c")
      case True
      let ?st = "cleanupConn c st"
      note cl = cleanup_inv[OF Cons.prems(1), of c]
      have br: "sb_broken ?st = sb_broken st" using True cl(3) by (simp add: fun_upd_idem)
      have e: "send_all v (c # cs) st = send_all v cs ?st" using True by (simp add: writeJSON_def)
      have d: "distinct cs" "c \<notin> set cs" using Cons.prems(2) by simp_all
      from Cons.IH[OF cl(1) d(1)] show ?thesis
        unfolding e br cl(2,4,5) using True by auto
    next
      case False
      let ?st = "st\<lparr>sb_sent := sb_sent st @ [(c, v)]\<rparr>"
      have s: "sub_inv ?st" "subs_rel ?st = subs_rel st" using sub_inv_same[of ?st st] Cons.prems(1) by simp_all
      have e: "send_all v (c # cs) st = (fst (send_all v cs ?st), snd (send_all v cs ?st) + 1)"
        using False by (simp add: writeJSON_def split_beta)
      have d: "distinct cs" using Cons.prems(2) by simp
      from Cons.IH[OF s(1) d] show ?thesis
        unfolding e s(2) using False by auto
    qed
  qed auto
  then show "sub_inv (fst (send_all v cs st))"
    and "subs_rel (fst (send_all v cs st)) = {(x, k) \<in> subs_rel st. \<not> (x \<in> set cs \<and> sb_broken st x)}"
    and "sb_sent (fst (send_all v cs st)) = sb_sent st @ map (\<lambda>c. (c, v)) (filter (\<lambda>c. \<not> sb_broken st c) cs)"
    and "snd (send_all v cs st) = length (filter (\<lambda>c. \<not> sb_broken st c) cs)"
    and "sb_broken (fst (send_all v cs st)) = sb_broken st"
    and "sb_pending (fst (send_all v cs st)) = sb_pending st" by blast+
qed
lemma drop_key_spec:
  assumes inv: "sub_inv st" and d: "drop_key it key st = (st', conns)"
  shows "sub_inv st'" "subs_rel st' = {(x, k) \<in> subs_rel st. k \<noteq> key}"
    "distinct conns" "set conns = {c. (c, key) \<in> subs_rel st}"
    "sb_broken st' = sb_broken st" "sb_sent st' = sb_sent st" "sb_pending st' = sb_pending st"
proof -
  have w: "sets_wf (sb_activeSubs st)" "sets_wf (sb_connToKeys st)" "no_empty (sb_activeSubs st)" "no_empty (sb_connToKeys st)"
    and im: "inverse_maps st" using inv by (simp_all add: sub_inv_def inverse_maps_def)
  have c: "conns = go_range it (keyset (sb_activeSubs st) key)"
    and s: "sb_activeSubs st' = AList.delete key (sb_activeSubs st)"
      "sb_connToKeys st' = fold (\<lambda>c m. unlink c key m) conns (sb_connToKeys st)"
      "sb_broken st' = sb_broken st" "sb_sent st' = sb_sent st" "sb_pending st' = sb_pending st"
    using d by (auto simp: drop_key_def Let_def)
  show "sb_broken st' = sb_broken st" "sb_sent st' = sb_sent st" "sb_pending st' = sb_pending st" by (rule s)+
  have "mset conns = mset (keyset (sb_activeSubs st) key)" using c by simp
  moreover have "distinct (keyset (sb_activeSubs st) key)" using w(1) by (simp add: sets_wf_def)
  ultimately show "distinct conns" by (metis mset_eq_imp_distinct_iff)
  show set: "set conns = {c. (c, key) \<in> subs_rel st}"
    using c inverse_mapsD[OF im] by auto
  have K: "keyset (sb_connToKeys st') x = (if (x, key) \<in> subs_rel st then removeAll key (keyset (sb_connToKeys st) x)
      else keyset (sb_connToKeys st) x)" for x
    unfolding s(2) fold_unlink_keys set by simp
  show rel: "subs_rel st' = {(x, k) \<in> subs_rel st. k \<noteq> key}"
    by (auto simp: subs_rel_def K split: if_splits)
  have "c \<in> set (keyset (sb_activeSubs st') k) \<longleftrightarrow> k \<in> set (keyset (sb_connToKeys st') c)" for c k
    using rel inverse_mapsD[OF im, of c k] unfolding s(1) by (auto simp: subs_rel_def)
  moreover have "sets_wf (sb_activeSubs st') \<and> no_empty (sb_activeSubs st')"
    unfolding s(1) using w by (auto intro: sets_wf_delete no_empty_delete)
  moreover have "sets_wf (sb_connToKeys st') \<and> no_empty (sb_connToKeys st')"
    unfolding s(2) using w fold_unlink_ok[of "sb_connToKeys st" "\<lambda>_. key"] by blast
  ultimately show "sub_inv st'"
    using inv s(5) by (simp add: sub_inv_def inverse_maps_def)
qed

section \<open>Joining\<close>

lemma link_spec:
  assumes im: "inverse_maps st" and c: "c \<in> dom (map_of (sb_connToKeys st))"
  shows "inverse_maps (link c key st)" "subs_rel (link c key st) = insert (c, key) (subs_rel st)"
    "dom (map_of (sb_activeSubs (link c key st))) = insert key (dom (map_of (sb_activeSubs st)))"
    "dom (map_of (sb_connToKeys (link c key st))) = dom (map_of (sb_connToKeys st))"
    "sb_pending (link c key st) = sb_pending st" "sb_sent (link c key st) = sb_sent st"
    "sb_broken (link c key st) = sb_broken st"
proof -
  let ?A = "keyset (sb_activeSubs st)" and ?K = "keyset (sb_connToKeys st)" and ?st = "link c key st"
  have w: "sets_wf (sb_activeSubs st)" "sets_wf (sb_connToKeys st)"
    and inv: "\<And>c k. c \<in> set (?A k) \<longleftrightarrow> k \<in> set (?K c)" using im by (simp_all add: inverse_maps_def)
  have none: "map_of (sb_activeSubs st) key = None \<Longrightarrow> ?A key = []" by (simp add: keyset_def)
  define s1 where "s1 = (if map_of (sb_activeSubs st) key = None
      then st\<lparr>sb_activeSubs := AList.update key [] (sb_activeSubs st)\<rparr> else st)"
  have s1: "keyset (sb_activeSubs s1) = ?A" "sb_connToKeys s1 = sb_connToKeys st"
    using none by (simp_all add: s1_def fun_upd_idem)
  have l: "link c key st = (if key \<in> set (?K c) then s1
      else s1\<lparr>sb_activeSubs := AList.update key (List.insert c (?A key)) (sb_activeSubs s1),
              sb_connToKeys := AList.update c (List.insert key (?K c)) (sb_connToKeys s1)\<rparr>)"
    unfolding link_def Let_def s1_def[symmetric] s1 ..
  have A: "keyset (sb_activeSubs ?st) = (if key \<in> set (?K c) then ?A else ?A(key := List.insert c (?A key)))"
    and K: "keyset (sb_connToKeys ?st) = (if key \<in> set (?K c) then ?K else ?K(c := List.insert key (?K c)))"
    unfolding l by (simp_all add: s1)
  have d: "distinct (?A k)" "distinct (?K x)" for k x using w by (simp_all add: sets_wf_def)
  have kd: "keys_distinct (sb_activeSubs ?st)" "keys_distinct (sb_connToKeys ?st)"
    using w by (auto simp: link_def Let_def sets_wf_def)
  have "x \<in> set (keyset (sb_activeSubs ?st) k) \<longleftrightarrow> k \<in> set (keyset (sb_connToKeys ?st) x)" for x k
    unfolding A K using inv by auto
  moreover have "sets_wf (sb_activeSubs ?st)" "sets_wf (sb_connToKeys ?st)"
    using kd d unfolding sets_wf_def A K by auto
  ultimately show "inverse_maps ?st" by (simp add: inverse_maps_def)
  show "subs_rel ?st = insert (c, key) (subs_rel st)"
    unfolding subs_rel_def K by (auto split: if_splits)
  have "key \<in> set (?K c) \<Longrightarrow> map_of (sb_activeSubs st) key \<noteq> None"
    using inv[of c key] none by (metis list.set(1) empty_iff)
  then show "dom (map_of (sb_activeSubs ?st)) = insert key (dom (map_of (sb_activeSubs st)))"
    by (auto simp: link_def Let_def)
  show "dom (map_of (sb_connToKeys ?st)) = dom (map_of (sb_connToKeys st))"
    using c by (auto simp: link_def Let_def)
  show "sb_pending ?st = sb_pending st" "sb_sent ?st = sb_sent st" "sb_broken ?st = sb_broken st"
    by (simp_all add: link_def Let_def)
qed

lemma fold_link_spec:
  assumes "inverse_maps st" "c \<in> dom (map_of (sb_connToKeys st))"
  shows "inverse_maps (fold (link c) ks st) \<and> subs_rel (fold (link c) ks st) = subs_rel st \<union> {c} \<times> set ks
    \<and> dom (map_of (sb_activeSubs (fold (link c) ks st))) = dom (map_of (sb_activeSubs st)) \<union> set ks
    \<and> dom (map_of (sb_connToKeys (fold (link c) ks st))) = dom (map_of (sb_connToKeys st))
    \<and> sb_pending (fold (link c) ks st) = sb_pending st \<and> sb_sent (fold (link c) ks st) = sb_sent st
    \<and> sb_broken (fold (link c) ks st) = sb_broken st"
  using assms
proof (induction ks arbitrary: st)
  case (Cons k ks)
  note l = link_spec[OF Cons.prems, of k]
  show ?case
    using Cons.IH[OF l(1), unfolded l(2-7)] Cons.prems(2) by (auto simp: l)
qed simp

lemma no_empty_rel:
  assumes "inverse_maps st"
  shows "no_empty (sb_activeSubs st) \<longleftrightarrow> (\<forall>k \<in> dom (map_of (sb_activeSubs st)). \<exists>c. (c, k) \<in> subs_rel st)"
    and "no_empty (sb_connToKeys st) \<longleftrightarrow> (\<forall>c \<in> dom (map_of (sb_connToKeys st)). \<exists>k. (c, k) \<in> subs_rel st)"
proof -
  have "keyset (sb_activeSubs st) k \<noteq> [] \<longleftrightarrow> (\<exists>c. (c, k) \<in> subs_rel st)" for k
    using inverse_mapsD[OF assms, of _ k] by (metis empty_iff list.set(1) list.set_sel(1))
  then show "no_empty (sb_activeSubs st) \<longleftrightarrow> (\<forall>k \<in> dom (map_of (sb_activeSubs st)). \<exists>c. (c, k) \<in> subs_rel st)"
    by (simp add: no_empty_def)
  have "keyset (sb_connToKeys st) c \<noteq> [] \<longleftrightarrow> (\<exists>k. (c, k) \<in> subs_rel st)" for c
    unfolding subs_rel_def by (simp add: ex_in_conv)
  then show "no_empty (sb_connToKeys st) \<longleftrightarrow> (\<forall>c \<in> dom (map_of (sb_connToKeys st)). \<exists>k. (c, k) \<in> subs_rel st)"
    by (simp add: no_empty_def)
qed

lemma message_joins:
  assumes inv: "sub_inv st" and a: "authKey \<noteq> []" "map_of (sb_pending st) authKey = Some p"
  shows "sub_inv (ws_message c (Some authKey) st)"
    "subs_rel (ws_message c (Some authKey) st) = subs_rel st \<union> {c} \<times> set (pd_Keys p)"
    "sb_sent (ws_message c (Some authKey) st) = sb_sent st @ (if sb_broken st c then [] else [(c, Subscribed (pd_Keys p))])"
    "map_of (sb_pending (ws_message c (Some authKey) st)) = (map_of (sb_pending st))(authKey := None)"
    "sb_broken (ws_message c (Some authKey) st) = sb_broken st"
proof -
  let ?st1 = "if map_of (sb_connToKeys st) c = None then st\<lparr>sb_connToKeys := AList.update c [] (sb_connToKeys st)\<rparr> else st"
  let ?st2 = "fold (link c) (pd_Keys p) ?st1" and ?m = "ws_message c (Some authKey) st"
  have w: "inverse_maps st" "no_empty (sb_activeSubs st)" "no_empty (sb_connToKeys st)" "pd_Keys p \<noteq> []"
    using inv a(2) by (auto simp: sub_inv_def)
  have K: "keyset (sb_connToKeys ?st1) = keyset (sb_connToKeys st)"
    by (auto simp: keyset_def fun_eq_iff)
  have "sets_wf (sb_connToKeys ?st1)" using w(1) by (auto simp: inverse_maps_def intro: sets_wf_update)
  then have im1: "inverse_maps ?st1" using w(1) K by (auto simp: inverse_maps_def)
  have rel1: "subs_rel ?st1 = subs_rel st" unfolding subs_rel_def K ..
  have dom1: "dom (map_of (sb_connToKeys ?st1)) = insert c (dom (map_of (sb_connToKeys st)))"
    "sb_activeSubs ?st1 = sb_activeSubs st" "sb_pending ?st1 = sb_pending st" "sb_sent ?st1 = sb_sent st"
    "sb_broken ?st1 = sb_broken st" by auto
  have c1: "c \<in> dom (map_of (sb_connToKeys ?st1))" unfolding dom1 by simp
  note f = fold_link_spec[OF im1 c1, of "pd_Keys p", unfolded rel1 dom1]
  have m: "sb_activeSubs ?m = sb_activeSubs ?st2" "sb_connToKeys ?m = sb_connToKeys ?st2"
    "sb_pending ?m = AList.delete authKey (sb_pending ?st2)" "sb_broken ?m = sb_broken ?st2"
    "sb_sent ?m = sb_sent ?st2 @ (if sb_broken ?st2 c then [] else [(c, Subscribed (pd_Keys p))])"
    using a by (simp_all add: ws_message_def Let_def writeJSON_def)
  show "sb_broken ?m = sb_broken st" "map_of (sb_pending ?m) = (map_of (sb_pending st))(authKey := None)"
    "sb_sent ?m = sb_sent st @ (if sb_broken st c then [] else [(c, Subscribed (pd_Keys p))])"
    unfolding m using f by simp_all
  show rel: "subs_rel ?m = subs_rel st \<union> {c} \<times> set (pd_Keys p)"
    using f unfolding subs_rel_def m by blast
  have im: "inverse_maps ?m" using f unfolding inverse_maps_def m by blast
  have "dom (map_of (sb_activeSubs ?m)) = dom (map_of (sb_activeSubs st)) \<union> set (pd_Keys p)"
    "dom (map_of (sb_connToKeys ?m)) = insert c (dom (map_of (sb_connToKeys st)))" unfolding m using f by simp_all
  moreover have "\<exists>k. k \<in> set (pd_Keys p)" using w(4) by (simp add: ex_in_conv)
  ultimately have "no_empty (sb_activeSubs ?m) \<and> no_empty (sb_connToKeys ?m)"
    using w(2,3) unfolding no_empty_rel[OF im] no_empty_rel[OF w(1)] rel by blast
  then show "sub_inv ?m"
    using im inv f unfolding sub_inv_def m by (auto split: if_splits)
qed
section \<open>Steps in any interleaving\<close>

text \<open>
  The critical sections and the single writes of all handlers and goroutines, in any order: this covers
  every interleaving of the code, since the writes of a handler happen after it releases the lock.
\<close>

inductive sub_step :: "subs \<Rightarrow> subs \<Rightarrow> bool" where
  enabled: "keys \<noteq> [] \<Longrightarrow> sub_step st (enable a keys st)"
| expired: "sub_step st (ttl_expire a st)"
| time: "sub_step st (st\<lparr>sb_now := sb_now st + n\<rparr>)"
| section_key: "sub_step st (fst (drop_key it key st))"
| written: "writeJSON c v st = (st', True) \<Longrightarrow> sub_step st st'"
| write_failed: "writeJSON c v st = (st', False) \<Longrightarrow> sub_step st (cleanupConn c st')"
| connected: "sub_step st (ws_connect c st)"
| message: "sub_step st (ws_message c msg st)"
| disconnected: "sub_step st (ws_disconnect c st)"
| breaks: "sub_step st (st\<lparr>sb_broken := (sb_broken st)(c := True)\<rparr>)"
| pinged: "sub_step st (ping_tick c st)"

inductive sub_reach :: "subs \<Rightarrow> bool" where
  init: "sub_reach \<lparr>sb_activeSubs = [], sb_connToKeys = [], sb_pending = [], sb_connLocks = [], sb_connDone = [],
     sb_ping = (\<lambda>_. False), sb_broken = (\<lambda>_. False), sb_sent = [], sb_now = 0\<rparr>"
| next_state: "sub_reach st \<Longrightarrow> sub_step st st' \<Longrightarrow> sub_reach st'"

lemma sub_step_inv: "sub_step st st' \<Longrightarrow> sub_inv st \<Longrightarrow> sub_inv st'"
proof (induction rule: sub_step.induct)
  case (enabled keys st a)
  then show ?case by (auto simp: sub_inv_def inverse_maps_def enable_def)
next
  case (expired st a)
  then show ?case
    by (auto simp: sub_inv_def inverse_maps_def ttl_expire_def split: option.split if_splits)
next
  case (time st n)
  then show ?case using sub_inv_same[of "st\<lparr>sb_now := sb_now st + n\<rparr>" st] by simp
next
  case (section_key st it key)
  then show ?case using drop_key_spec(1)[OF section_key] by (metis prod.collapse)
next
  case (written c v st st')
  then show ?case using sub_inv_same[of st' st] by (auto simp: writeJSON_def split: if_splits)
next
  case (write_failed c v st st')
  then have "st' = st" by (auto simp: writeJSON_def split: if_splits)
  then show ?case using write_failed cleanup_inv(1) by simp
next
  case (connected st c)
  then show ?case using sub_inv_same[of "ws_connect c st" st] by (simp add: ws_connect_def)
next
  case (message st c msg)
  show ?case
  proof (cases "\<exists>a p. msg = Some a \<and> a \<noteq> [] \<and> map_of (sb_pending st) a = Some p")
    case True
    then show ?thesis using message_joins(1)[OF message] by blast
  next
    case False
    then have "ws_message c msg st = st \<or> ws_message c msg st = fst (writeJSON c InvalidAuthKey st)"
      by (auto simp: ws_message_def split: option.splits)
    then show ?thesis
      using message sub_inv_same[of "fst (writeJSON c InvalidAuthKey st)" st]
      by (auto simp: writeJSON_def split: if_splits)
  qed
next
  case (disconnected st c)
  then show ?case using cleanup_inv(1) by (simp add: ws_disconnect_def)
next
  case (breaks st c)
  then show ?case using sub_inv_same[of "st\<lparr>sb_broken := (sb_broken st)(c := True)\<rparr>" st] by simp
next
  case (pinged st c)
  then show ?case using sub_inv_same[of "ping_tick c st" st] by (simp add: ping_tick_def)
qed

lemma sub_reach_inv: "sub_reach st \<Longrightarrow> sub_inv st"
proof (induction rule: sub_reach.induct)
  case init
  then show ?case by (simp add: sub_inv_def inverse_maps_def)
qed (rule sub_step_inv)

lemma fold_lengths: "fold (\<lambda>(c, ks) n. n + length ks) m n = n + sum_list (map (\<lambda>p. length (snd p)) m)"
  by (induction m arbitrary: n) auto

lemma sum_lengths:
  assumes "sets_wf m"
  shows "sum_list (map (\<lambda>p. length (snd p)) m) = card {(c, k). k \<in> set (keyset m c)}"
proof -
  have "sum_list (map (\<lambda>p. length (snd p)) m) = card {(c, k). k \<in> set (keyset m c)} \<and> finite {(c, k). k \<in> set (keyset m c)}"
    using assms
  proof (induction m)
    case (Cons p m)
    obtain c ks where p: "p = (c, ks)" by fastforce
    have kd: "keys_distinct m" "c \<notin> fst ` set m" using Cons.prems p by (auto simp: sets_wf_def keys_distinct_def)
    have "map_of m c = None" using kd(2) by (simp only: map_of_eq_None_iff not_False_eq_True)
    then have none: "keyset m c = []" by (simp add: keyset_def)
    have cons: "keyset (p # m) x = (if x = c then ks else keyset m x)" for x by (simp add: keyset_def p)
    have d: "distinct (keyset (p # m) x)" for x using Cons.prems by (simp add: sets_wf_def)
    have "distinct (keyset m x)" for x using d[of x] none p by (cases "x = c") (simp_all add: keyset_def)
    then have IH: "sum_list (map (\<lambda>p. length (snd p)) m) = card {(c, k). k \<in> set (keyset m c)}"
        "finite {(c, k). k \<in> set (keyset m c)}"
      using Cons.IH kd by (simp_all add: sets_wf_def)
    have dk: "distinct ks" using d[of c] p by (simp add: keyset_def)
    have "{(x, k). k \<in> set (keyset (p # m) x)} = {c} \<times> set ks \<union> {(c, k). k \<in> set (keyset m c)}"
      using none cons by (auto split: if_splits)
    moreover have "{c} \<times> set ks \<inter> {(c, k). k \<in> set (keyset m c)} = {}" using none by auto
    ultimately show ?case
      using IH dk p by (simp add: card_Un_disjoint distinct_card)
  qed simp
  then show ?thesis by blast
qed

section \<open>Properties\<close>

text \<open>
  C9: In every state the subscription server reaches, in any interleaving of its handlers, writes,
  expiries and disconnections, the map from keys to connections and the map from connections to keys are
  inverse to each other and hold no empty set, and the statistics count each subscription once.
\<close>

theorem subscription_maps_inverse:
  assumes "sub_reach st"
  shows "(\<forall>c k. c \<in> set (keyset (sb_activeSubs st) k) \<longleftrightarrow> k \<in> set (keyset (sb_connToKeys st) c))
    \<and> (\<forall>k s. map_of (sb_activeSubs st) k = Some s \<longrightarrow> s \<noteq> [] \<and> distinct s)
    \<and> (\<forall>c s. map_of (sb_connToKeys st) c = Some s \<longrightarrow> s \<noteq> [] \<and> distinct s)
    \<and> st_ActiveSubscriptions (statsSnapshot st) = card (subs_rel st)"
proof -
  have inv: "sub_inv st" by (rule sub_reach_inv[OF assms])
  have ks: "map_of m k = Some s \<Longrightarrow> keyset m k = s" for m :: "('k \<times> 'v list) list" and k s
    by (simp add: keyset_def)
  have "st_ActiveSubscriptions (statsSnapshot st) = card (subs_rel st)"
    using inv sum_lengths[of "sb_connToKeys st"] fold_lengths[of "sb_connToKeys st" 0]
    by (simp add: statsSnapshot_def subs_rel_def sub_inv_def inverse_maps_def)
  then show ?thesis
    using inv unfolding sub_inv_def inverse_maps_def sets_wf_def no_empty_def by (metis domI keyset_def option.simps(5))
qed

definition demo_subs :: subs where
  "demo_subs = ws_message 7 (Some ''auth'') (ws_connect 7 (enable ''auth'' [''a'', ''b'', ''a'']
     \<lparr>sb_activeSubs = [], sb_connToKeys = [], sb_pending = [], sb_connLocks = [], sb_connDone = [],
      sb_ping = (\<lambda>_. False), sb_broken = (\<lambda>_. False), sb_sent = [], sb_now = 0\<rparr>))"

lemma demo_subs_reach: "sub_reach demo_subs"
  unfolding demo_subs_def
  by (rule sub_reach.next_state[OF _ sub_step.message], rule sub_reach.next_state[OF _ sub_step.connected],
      rule sub_reach.next_state[OF _ sub_step.enabled], rule sub_reach.init) simp

lemma subscription_maps_inverse_witness:
  "st_ActiveSubscriptions (statsSnapshot demo_subs) = card (subs_rel demo_subs)
   \<and> st_ActiveSubscriptions (statsSnapshot demo_subs) = 2"
proof -
  have "st_ActiveSubscriptions (statsSnapshot demo_subs) = 2" by code_simp
  with subscription_maps_inverse[OF demo_subs_reach] show ?thesis by blast
qed

section \<open>Notifications and their receivers\<close>

lemma snapshot_spec:
  assumes "sub_inv st"
  shows "distinct (snapshotSubscribers it key st)" "set (snapshotSubscribers it key st) = {c. (c, key) \<in> subs_rel st}"
proof -
  have im: "inverse_maps st" using assms by (simp add: sub_inv_def)
  have "mset (snapshotSubscribers it key st) = mset (keyset (sb_activeSubs st) key)" by (simp add: snapshotSubscribers_def)
  moreover have "distinct (keyset (sb_activeSubs st) key)" using im by (simp add: inverse_maps_def sets_wf_def)
  ultimately show "distinct (snapshotSubscribers it key st)" by (metis mset_eq_imp_distinct_iff)
  show "set (snapshotSubscribers it key st) = {c. (c, key) \<in> subs_rel st}"
    using inverse_mapsD[OF im] by (auto simp: snapshotSubscribers_def)
qed

text \<open>The connections a message about a key reaches.\<close>

definition reached :: "subs \<Rightarrow> string \<Rightarrow> conn set" where
  "reached st key = {c. (c, key) \<in> subs_rel st \<and> \<not> sb_broken st c}"

lemma payload_spec:
  assumes "sub_inv st"
  shows "sub_inv (notifySubscribersWithPayload it key v st)"
    and "\<exists>conns. distinct conns \<and> set conns = reached st key
      \<and> sb_sent (notifySubscribersWithPayload it key v st) = sb_sent st @ map (\<lambda>c. (c, v)) conns"
    and "subs_rel (notifySubscribersWithPayload it key v st) =
        {(c, k) \<in> subs_rel st. \<not> ((c, key) \<in> subs_rel st \<and> sb_broken st c)}"
    and "sb_broken (notifySubscribersWithPayload it key v st) = sb_broken st"
proof -
  note sn = snapshot_spec[OF assms, of it key]
  note sa = send_all_spec[OF assms sn(1), of v]
  show "sub_inv (notifySubscribersWithPayload it key v st)"
    "sb_broken (notifySubscribersWithPayload it key v st) = sb_broken st"
    using sa(1,5) by (simp_all add: notifySubscribersWithPayload_def)
  show "\<exists>conns. distinct conns \<and> set conns = reached st key
      \<and> sb_sent (notifySubscribersWithPayload it key v st) = sb_sent st @ map (\<lambda>c. (c, v)) conns"
    using sa(3) sn by (intro exI[of _ "filter (\<lambda>c. \<not> sb_broken st c) (snapshotSubscribers it key st)"])
      (auto simp: notifySubscribersWithPayload_def reached_def)
  show "subs_rel (notifySubscribersWithPayload it key v st) =
        {(c, k) \<in> subs_rel st. \<not> ((c, key) \<in> subs_rel st \<and> sb_broken st c)}"
    using sa(2) sn(2) by (auto simp: notifySubscribersWithPayload_def)
qed

lemma delete_spec:
  assumes "sub_inv st"
  shows "sub_inv (notifyDeleteAndRemove it key st)"
    and "\<exists>conns. distinct conns \<and> set conns = reached st key
      \<and> sb_sent (notifyDeleteAndRemove it key st) = sb_sent st @ map (\<lambda>c. (c, Deleted key)) conns"
proof -
  obtain st1 cs where d: "drop_key it key st = (st1, cs)" by fastforce
  note dk = drop_key_spec[OF assms d]
  note sa = send_all_spec[OF dk(1,3), of "Deleted key"]
  show "sub_inv (notifyDeleteAndRemove it key st)" using sa(1) d by (simp add: notifyDeleteAndRemove_def)
  show "\<exists>conns. distinct conns \<and> set conns = reached st key
      \<and> sb_sent (notifyDeleteAndRemove it key st) = sb_sent st @ map (\<lambda>c. (c, Deleted key)) conns"
    using sa(3) d dk(3-6) by (intro exI[of _ "filter (\<lambda>c. \<not> sb_broken st c) cs"])
      (auto simp: notifyDeleteAndRemove_def reached_def)
qed

text \<open>
  C26: A change of a key is sent exactly once to each connection subscribed to it whose socket works, to
  nobody else, and the subscribers whose socket fails lose all their subscriptions; nothing else changes.
\<close>

theorem notify_reaches_subscribers:
  assumes "sub_inv st"
  shows "\<exists>conns. distinct conns \<and> set conns = {c. (c, key) \<in> subs_rel st \<and> \<not> sb_broken st c}
    \<and> sb_sent (notifySubscribers it key data st) = sb_sent st @ map (\<lambda>c. (c, Updated key data)) conns
    \<and> subs_rel (notifySubscribers it key data st) =
        {(c, k) \<in> subs_rel st. \<not> ((c, key) \<in> subs_rel st \<and> sb_broken st c)}"
  using payload_spec(2)[OF assms, of key it "Updated key data"] payload_spec(3)[OF assms, of it key "Updated key data"] by (simp add: notifySubscribers_def reached_def)

lemma singleton_list: "distinct xs \<Longrightarrow> set xs = {x} \<Longrightarrow> xs = [x]"
  by (metis distinct_card card_1_singleton_iff One_nat_def length_0_conv length_Suc_conv list.set(1,2) singleton_insert_inj_eq
      insert_not_empty)

lemma notify_reaches_subscribers_witness:
  "sb_sent (notifySubscribers (\<lambda>xs. xs) ''a'' [1] demo_subs) = sb_sent demo_subs @ [(7, Updated ''a'' [1])]"
proof -
  have m: "sb_connToKeys demo_subs = [(7, [''b'', ''a''])]" and b: "\<not> sb_broken demo_subs 7" by code_simp+
  have "{c. (c, ''a'') \<in> subs_rel demo_subs \<and> \<not> sb_broken demo_subs c} = {7}"
    using b unfolding subs_rel_def m keyset_def by (auto split: if_splits)
  then show ?thesis
    using notify_reaches_subscribers[OF sub_reach_inv[OF demo_subs_reach], of "''a''" "\<lambda>xs. xs" "[1]"]
    by (auto dest!: singleton_list)
qed
text \<open>
  C27: An auth key works once: the connection that presents a pending key gets exactly its keys and a
  confirmation, and any connection that presents it afterwards gets an error and no subscription.
\<close>

theorem auth_key_single_use:
  assumes "sub_inv st" "authKey \<noteq> []" "map_of (sb_pending st) authKey = Some p"
  shows "subs_rel (ws_message c (Some authKey) st) = subs_rel st \<union> {c} \<times> set (pd_Keys p)
    \<and> ws_message c' (Some authKey) (ws_message c (Some authKey) st)
        = fst (writeJSON c' InvalidAuthKey (ws_message c (Some authKey) st))
    \<and> subs_rel (ws_message c' (Some authKey) (ws_message c (Some authKey) st))
        = subs_rel (ws_message c (Some authKey) st)"
proof -
  note j = message_joins[OF assms, of c]
  have "ws_message c' (Some authKey) (ws_message c (Some authKey) st)
      = fst (writeJSON c' InvalidAuthKey (ws_message c (Some authKey) st))"
    using j(4) assms(2) by (simp add: ws_message_def[of c'])
  then show ?thesis using j(2) by (simp add: writeJSON_def subs_rel_def)
qed

lemma auth_key_single_use_witness:
  "\<exists>st. sub_reach st \<and> subs_rel (ws_message 3 (Some ''k2'') st) = subs_rel st \<union> {3} \<times> {''x''}
    \<and> sb_sent (ws_message 4 (Some ''k2'') (ws_message 3 (Some ''k2'') st))
      = sb_sent (ws_message 3 (Some ''k2'') st) @ [(4, InvalidAuthKey)]"
proof -
  let ?st = "enable ''k2'' [''x''] demo_subs"
  have r: "sub_reach ?st" by (rule sub_reach.next_state[OF demo_subs_reach sub_step.enabled]) simp
  have p: "map_of (sb_pending ?st) ''k2'' = Some \<lparr>pd_Keys = [''x''], pd_ExpiresAt = sb_now demo_subs + 60\<rparr>"
    by (simp add: enable_def)
  have b: "\<not> sb_broken (ws_message 3 (Some ''k2'') ?st) 4" by code_simp
  show ?thesis
    using auth_key_single_use[OF sub_reach_inv[OF r] _ p, of 3 4] r b
    by (intro exI[of _ ?st]) (simp add: writeJSON_def)
qed

text \<open>
  C28: Deleting a key ends its subscriptions and only them: every subscriber with a working socket is
  told once that the key is deleted, no connection stays subscribed to it, subscriptions to other keys
  stay unless the connection's write failed. Disabling a key is the same with its own message, and
  reports how many were told.
\<close>

theorem delete_ends_subscriptions:
  assumes "sub_inv st"
  shows "\<exists>conns. distinct conns \<and> set conns = {c. (c, key) \<in> subs_rel st \<and> \<not> sb_broken st c}
    \<and> sb_sent (notifyDeleteAndRemove it key st) = sb_sent st @ map (\<lambda>c. (c, Deleted key)) conns
    \<and> subs_rel (notifyDeleteAndRemove it key st) =
        {(c, k) \<in> subs_rel st. k \<noteq> key \<and> \<not> ((c, key) \<in> subs_rel st \<and> sb_broken st c)}
    \<and> (if key = [] then disableSubscriptionInternal it key st = (st, None)
       else snd (disableSubscriptionInternal it key st) = Some (length conns)
         \<and> sb_sent (fst (disableSubscriptionInternal it key st)) = sb_sent st @ map (\<lambda>c. (c, Unsubscribed key)) conns
         \<and> subs_rel (fst (disableSubscriptionInternal it key st)) = subs_rel (notifyDeleteAndRemove it key st))"
proof -
  obtain st1 cs where d: "drop_key it key st = (st1, cs)" by fastforce
  note dk = drop_key_spec[OF assms d]
  note sa = send_all_spec[OF dk(1,3)]
  let ?cs = "filter (\<lambda>c. \<not> sb_broken st c) cs"
  have "distinct ?cs" "set ?cs = {c. (c, key) \<in> subs_rel st \<and> \<not> sb_broken st c}" using dk(3,4) by auto
  moreover have "subs_rel (fst (send_all v cs st1)) =
      {(c, k) \<in> subs_rel st. k \<noteq> key \<and> \<not> ((c, key) \<in> subs_rel st \<and> sb_broken st c)}" for v
    unfolding sa(2) dk(2,4,5) by auto
  ultimately show ?thesis
    using sa(3)[of "Deleted key"] sa(3,4)[of "Unsubscribed key"] dk(5,6) d
    by (intro exI[of _ ?cs]) (simp add: notifyDeleteAndRemove_def disableSubscriptionInternal_def split_beta)
qed

lemma delete_ends_subscriptions_witness:
  "subs_rel (notifyDeleteAndRemove (\<lambda>xs. xs) ''a'' demo_subs) \<inter> UNIV \<times> {''a''} = {}"
  using delete_ends_subscriptions[OF sub_reach_inv[OF demo_subs_reach], of "''a''" "\<lambda>xs. xs"] by auto

text \<open>
  A connection that ends leaves nothing behind: no subscription, no write lock, no stop channel, and
  its ping goroutine is told to stop; the subscriptions of the others stay.
\<close>

theorem disconnect_leaves_nothing:
  assumes "sub_inv st" "distinct (sb_connDone st)"
  shows "subs_rel (ws_disconnect c st) = {(x, k) \<in> subs_rel st. x \<noteq> c}
    \<and> map_of (sb_connToKeys (ws_disconnect c st)) c = None
    \<and> {k. c \<in> set (keyset (sb_activeSubs (ws_disconnect c st)) k)} = {}
    \<and> c \<notin> set (sb_connLocks (ws_disconnect c st)) \<and> c \<notin> set (sb_connDone (ws_disconnect c st))
    \<and> (c \<in> set (sb_connDone st) \<longrightarrow> \<not> sb_ping (ws_disconnect c st) c)"
proof -
  have "map_of (sb_connToKeys (cleanupConn c st)) c = None"
    "c \<notin> set (sb_connLocks (cleanupConn c st))" "c \<notin> set (sb_connDone (cleanupConn c st))"
    "c \<in> set (sb_connDone st) \<longrightarrow> \<not> sb_ping (cleanupConn c st) c"
    by (auto simp: cleanupConn_def Let_def split: option.split)
  then show ?thesis
    using cleanup_inv(2)[OF assms(1), of c] cleanup_maps(2)[OF assms(1), of c] by (simp add: ws_disconnect_def)
qed

lemma disconnect_leaves_nothing_witness:
  "subs_rel (ws_disconnect 7 demo_subs) = {} \<and> \<not> sb_ping (ws_disconnect 7 demo_subs) 7"
proof -
  have m: "sb_connToKeys demo_subs = [(7, [''b'', ''a''])]" and d: "sb_connDone demo_subs = [7]" by code_simp+
  have "subs_rel demo_subs \<subseteq> {7} \<times> UNIV" unfolding subs_rel_def m keyset_def by (auto split: if_splits)
  then show ?thesis
    using disconnect_leaves_nothing[OF sub_reach_inv[OF demo_subs_reach], of 7] d by auto
qed

end
