(* ===== verification/Network_Manager.thy ===== *)
theory Network_Manager
  imports Kv_Fronts
begin

text \<open>
  The peer-to-peer network manager (\<open>servers/network-manager\<close>): the table of peers with its heartbeat,
  requests to all peers with the channels their answers come back on, and the dispatcher that runs a
  peer's task on the local store. Connections are numbers, what is written to them is collected in
  \<open>nt_out\<close>, \<open>nt_broken\<close> says which fail and \<open>nt_closed\<close> which this side has closed. A message on the wire is
  what unmarshalling it gives (\<open>on_wire\<close>). A request is two functions, up to the wait and after it, so that
  other steps can run in between; a response channel is its number in a store of buffers of capacity one.
  The operations here get the mutex of the manager when they lock it; \<open>Startup\<close> says what happens when a
  goroutine never gives it back.
\<close>

section \<open>State\<close>

record peer =
  pr_Conn :: nat
  pr_Address :: string
  pr_LastActive :: nat

datatype wire = WMsg nm_message | WText string

record net =
  nt_peers :: "(string \<times> peer) list"
  nt_port :: nat
  nt_ServerIP :: string
  nt_responseChannels :: "(string \<times> nat) list"
  nt_buffers :: "nat \<Rightarrow> nm_message option"
  nt_next :: nat
  nt_broken :: "nat \<Rightarrow> bool"
  nt_closed :: "nat \<Rightarrow> bool"
  nt_out :: "(nat \<times> wire) list"
  nt_now :: nat

record nm_stats =
  ns_ServerIP :: string
  ns_Port :: nat
  ns_ConnectedPeers :: nat
  ns_PeerAddresses :: "string list"
  ns_PendingResponses :: nat

type_synonym peer_order = "(string \<times> peer) list \<Rightarrow> (string \<times> peer) list"

definition startNetworkManager :: "string \<Rightarrow> nat \<Rightarrow> net" where
  "startNetworkManager localIP port =
     \<lparr>nt_peers = [], nt_port = port, nt_ServerIP = localIP, nt_responseChannels = [],
      nt_buffers = (\<lambda>_. None), nt_next = 0, nt_broken = (\<lambda>_. False), nt_closed = (\<lambda>_. False), nt_out = [], nt_now = 0\<rparr>"

text \<open>A message after \<open>json.Marshal\<close> and \<open>json.Unmarshal\<close>; the content is base64 and comes back as it is.\<close>

definition on_wire :: "nm_message \<Rightarrow> nm_message" where
  "on_wire m = m\<lparr>nm_Task := json_string (nm_Task m), nm_Args := map json_string (nm_Args m),
     nm_ReqSendBy := json_string (nm_ReqSendBy m), nm_ReqResBy := json_string (nm_ReqResBy m)\<rparr>"

lemma on_wire_simps [simp]:
  "nm_Task (on_wire m) = json_string (nm_Task m)" "nm_Args (on_wire m) = map json_string (nm_Args m)"
  "nm_ReqSendBy (on_wire m) = json_string (nm_ReqSendBy m)" "nm_Finished (on_wire m) = nm_Finished m"
  "nm_Content (on_wire m) = nm_Content m"
  by (simp_all add: on_wire_def)

lemma on_wire_id:
  "utf8_ok (nm_Task m) \<Longrightarrow> \<forall>a \<in> set (nm_Args m). utf8_ok a \<Longrightarrow> utf8_ok (nm_ReqSendBy m) \<Longrightarrow> utf8_ok (nm_ReqResBy m) \<Longrightarrow>
   on_wire m = m"
  by (simp add: on_wire_def json_string_ok map_idI)

text \<open>\<open>conn.WriteMessage\<close> and \<open>conn.Close\<close>.\<close>

definition nm_write :: "nat \<Rightarrow> wire \<Rightarrow> net \<Rightarrow> net \<times> bool" where
  "nm_write c m st = (if nt_broken st c then (st, False) else (st\<lparr>nt_out := nt_out st @ [(c, m)]\<rparr>, True))"

definition nm_close :: "nat \<Rightarrow> net \<Rightarrow> net" where
  "nm_close c st = st\<lparr>nt_broken := (nt_broken st)(c := True), nt_closed := (nt_closed st)(c := True)\<rparr>"

definition drop_peer :: "string \<Rightarrow> nat \<Rightarrow> net \<Rightarrow> net" where
  "drop_peer peerAddr c st = (nm_close c st)\<lparr>nt_peers := AList.delete peerAddr (nt_peers st)\<rparr>"

definition add_peer :: "string \<Rightarrow> nat \<Rightarrow> net \<Rightarrow> net" where
  "add_peer peerAddr c st =
     st\<lparr>nt_peers := AList.update peerAddr \<lparr>pr_Conn = c, pr_Address = peerAddr, pr_LastActive = nt_now st\<rparr> (nt_peers st)\<rparr>"

section \<open>Connections\<close>

text \<open>
  \<open>peerIP\<close> is the host part of the remote address. The peer is told its address before the mutex is taken.
\<close>

definition greeting :: "string \<Rightarrow> wire" where
  "greeting peerIP = WMsg (on_wire (nm_empty\<lparr>nm_Task := ''set_ip'', nm_Args := [peerIP], nm_ReqSendBy := peerIP\<rparr>))"

definition greet_peer :: "string \<Rightarrow> nat \<Rightarrow> net \<Rightarrow> net" where
  "greet_peer peerIP c st = fst (nm_write c (greeting peerIP) st)"

definition handleConnection :: "string \<Rightarrow> string \<Rightarrow> nat \<Rightarrow> net \<Rightarrow> net" where
  "handleConnection peerAddr peerIP c st = add_peer peerAddr c (greet_peer peerIP c st)"

definition connectToPeer :: "string \<Rightarrow> nat option \<Rightarrow> net \<Rightarrow> net" where
  "connectToPeer peerAddr dialled st = (case dialled of None \<Rightarrow> st | Some c \<Rightarrow> add_peer peerAddr c st)"

text \<open>The order in which the peers are visited is that of \<open>range\<close>.\<close>

fun broadcast_loop :: "string \<Rightarrow> wire \<Rightarrow> (string \<times> peer) list \<Rightarrow> net \<Rightarrow> net" where
  "broadcast_loop sender m [] st = st"
| "broadcast_loop sender m ((peerAddr, peer) # ps) st =
     (if peerAddr \<noteq> sender then
        (case nm_write (pr_Conn peer) m st of
           (st, True) \<Rightarrow> broadcast_loop sender m ps st
         | (st, False) \<Rightarrow> broadcast_loop sender m ps (drop_peer peerAddr (pr_Conn peer) st))
      else broadcast_loop sender m ps st)"

definition broadcastMessage :: "peer_order \<Rightarrow> string \<Rightarrow> wire \<Rightarrow> net \<Rightarrow> net" where
  "broadcastMessage it sender m st = broadcast_loop sender m (go_range it (nt_peers st)) st"

definition sendToPeer :: "string \<Rightarrow> wire \<Rightarrow> net \<Rightarrow> net" where
  "sendToPeer peerAddr m st = (case map_of (nt_peers st) peerAddr of
      None \<Rightarrow> st
    | Some peer \<Rightarrow> (case nm_write (pr_Conn peer) m st of
          (st, True) \<Rightarrow> st
        | (st, False) \<Rightarrow> drop_peer peerAddr (pr_Conn peer) st))"

fun heartbeat_loop :: "(string \<times> peer) list \<Rightarrow> net \<Rightarrow> net" where
  "heartbeat_loop [] st = st"
| "heartbeat_loop ((peerAddr, peer) # ps) st =
     (if 11 < nt_now st - pr_LastActive peer then heartbeat_loop ps (drop_peer peerAddr (pr_Conn peer) st)
      else (case nm_write (pr_Conn peer) (WText ''heartbeat'') st of
              (st, True) \<Rightarrow> heartbeat_loop ps st
            | (st, False) \<Rightarrow> heartbeat_loop ps (drop_peer peerAddr (pr_Conn peer) st)))"

definition heartbeatChecker :: "peer_order \<Rightarrow> net \<Rightarrow> net" where
  "heartbeatChecker it st = heartbeat_loop (go_range it (nt_peers st)) st"

definition listPeers :: "peer_order \<Rightarrow> net \<Rightarrow> string list" where
  "listPeers it st = map fst (go_range it (nt_peers st))"

text \<open>\<open>sort.Strings\<close> is an argument.\<close>

definition nm_snapshot :: "(string list \<Rightarrow> string list) \<Rightarrow> net option \<Rightarrow> nm_stats" where
  "nm_snapshot sort_strings nm = (case nm of
      None \<Rightarrow> \<lparr>ns_ServerIP = [], ns_Port = 0, ns_ConnectedPeers = 0, ns_PeerAddresses = [], ns_PendingResponses = 0\<rparr>
    | Some st \<Rightarrow>
        (let peers = sort_strings (map fst (nt_peers st))
         in \<lparr>ns_ServerIP = nt_ServerIP st, ns_Port = nt_port st, ns_ConnectedPeers = length peers,
             ns_PeerAddresses = peers, ns_PendingResponses = length (nt_responseChannels st)\<rparr>))"

section \<open>Requests to the peers\<close>

definition req_key :: "nm_message \<Rightarrow> string" where
  "req_key m = nm_ReqSendBy m @ ''_'' @ nm_Task m"

datatype send_result = Answered nm_message | Waits string nat

fun write_peers :: "wire \<Rightarrow> (string \<times> peer) list \<Rightarrow> net \<Rightarrow> net" where
  "write_peers m [] st = st"
| "write_peers m ((a, peer) # ps) st = write_peers m ps (fst (nm_write (pr_Conn peer) m st))"

definition sendTaskReq_start :: "peer_order \<Rightarrow> nm_message \<Rightarrow> net \<Rightarrow> net \<times> send_result" where
  "sendTaskReq_start it req st =
     (let c = nt_next st; st = st\<lparr>nt_next := c + 1\<rparr>
      in if nt_peers st = [] then (st, Answered nm_empty)
         else let st = (if nt_ServerIP st = []
                        then broadcastMessage it [] (WMsg (on_wire (nm_empty\<lparr>nm_Task := ''get_my_ip''\<rparr>))) st else st)
              in if nt_ServerIP st = [] then (st, Answered nm_empty)
                 else let req = req\<lparr>nm_ReqSendBy := nt_ServerIP st\<rparr>; reqKey = req_key req;
                          st = st\<lparr>nt_responseChannels := AList.update reqKey c (nt_responseChannels st)\<rparr>
                      in (write_peers (WMsg (on_wire req)) (go_range it (nt_peers st)) st, Waits reqKey c))"

text \<open>The two cases of the wait: an answer in the channel, or the time-out.\<close>

definition sendTaskReq_receive :: "nat \<Rightarrow> net \<Rightarrow> net \<times> nm_message option" where
  "sendTaskReq_receive c st = (st\<lparr>nt_buffers := (nt_buffers st)(c := None)\<rparr>, nt_buffers st c)"

definition sendTaskReq_timeout :: "string \<Rightarrow> net \<Rightarrow> net \<times> nm_message" where
  "sendTaskReq_timeout reqKey st =
     (st\<lparr>nt_responseChannels := AList.delete reqKey (nt_responseChannels st)\<rparr>, nm_empty)"

definition handleResponse :: "nm_message \<Rightarrow> net \<Rightarrow> net" where
  "handleResponse response st =
     (case map_of (nt_responseChannels st) (req_key response) of
        None \<Rightarrow> st
      | Some c \<Rightarrow> (if nt_buffers st c = None
                   then st\<lparr>nt_buffers := (nt_buffers st)(c \<mapsto> response)\<rparr> else st))"

section \<open>Requests from a peer\<close>

definition run_task :: "kv_env \<Rightarrow> nm_message \<Rightarrow> kv \<Rightarrow> nm_message kv_call option" where
  "run_task env req s =
     (if nm_Task req = ''read'' then Some (task_Read env req s)
      else if nm_Task req = ''save'' then Some (task_Save env req s)
      else if nm_Task req = ''free'' then Some (task_Free req s)
      else None)"

definition handleMsg :: "kv_env \<Rightarrow> wire \<Rightarrow> nat \<Rightarrow> net \<Rightarrow> kv \<Rightarrow> kv \<times> net call" where
  "handleMsg env message conn st s = (case message of
      WText _ \<Rightarrow> (s, Reply st)
    | WMsg req \<Rightarrow>
        if nm_Finished req then (s, Reply st)
        else (case run_task env req s of
                None \<Rightarrow> (s, Reply st)
              | Some c \<Rightarrow> kv_bind c (\<lambda>s res.
                  (let res = res\<lparr>nm_ReqSendBy := nm_ReqSendBy req, nm_ReqResBy := nt_ServerIP st, nm_Finished := True\<rparr>
                   in (s, Reply (fst (nm_write conn (WMsg (on_wire res)) st)))))))"

text \<open>
  One message of the loop of \<open>listenForMessages\<close>: with the mutex held, the peer of the connection is looked
  up and its \<open>LastActive\<close> assigned. When the peer is not there this dereferences nil; the deferred function,
  which runs before the panic can leave the goroutine, locks the mutex the goroutine still holds, so it
  waits for ever (\<open>Stuck\<close>) and the process does not end. A request or an answer is handled in a goroutine
  of its own: a panic there ends the process (\<open>Crashes\<close>), and one that blocks does not stop the loop.
  \<open>listen_end\<close> is the deferred function of a reader that ends.
\<close>

datatype listened = Continues net | Stuck | Crashes

definition listen_message :: "kv_env \<Rightarrow> string \<Rightarrow> nat \<Rightarrow> wire \<Rightarrow> net \<Rightarrow> kv \<Rightarrow> kv \<times> listened" where
  "listen_message env peerAddr conn message st s = (case map_of (nt_peers st) peerAddr of
      None \<Rightarrow> (s, Stuck)
    | Some peer \<Rightarrow>
        (let st = st\<lparr>nt_peers := AList.update peerAddr (peer\<lparr>pr_LastActive := nt_now st\<rparr>) (nt_peers st)\<rparr>
         in case message of
              WText _ \<Rightarrow> (s, Continues st)
            | WMsg response \<Rightarrow>
                if nm_Finished response then (s, Continues (handleResponse response st))
                else (case handleMsg env message conn st s of
                        (s, Reply st) \<Rightarrow> (s, Continues st)
                      | (s, Blocks) \<Rightarrow> (s, Continues st)
                      | (s, Panics) \<Rightarrow> (s, Crashes))))"

definition listen_end :: "string \<Rightarrow> nat \<Rightarrow> net \<Rightarrow> net" where
  "listen_end peerAddr conn st = nm_close conn (st\<lparr>nt_peers := AList.delete peerAddr (nt_peers st)\<rparr>)"
section \<open>Writing to the peers\<close>

lemma write_peers_spec:
  "nt_out (write_peers m ps st) = nt_out st @ map (\<lambda>(a, p). (pr_Conn p, m)) (filter (\<lambda>(a, p). \<not> nt_broken st (pr_Conn p)) ps)
   \<and> nt_broken (write_peers m ps st) = nt_broken st \<and> nt_peers (write_peers m ps st) = nt_peers st
   \<and> nt_responseChannels (write_peers m ps st) = nt_responseChannels st
   \<and> nt_buffers (write_peers m ps st) = nt_buffers st \<and> nt_next (write_peers m ps st) = nt_next st
   \<and> nt_ServerIP (write_peers m ps st) = nt_ServerIP st"
proof (induction m ps st rule: write_peers.induct)
  case (2 m a peer ps st)
  then show ?case by (simp add: nm_write_def)
qed simp

lemma start_spec:
  assumes "nt_peers st \<noteq> []" "nt_ServerIP st \<noteq> []"
    and "sendTaskReq_start it req st = (st', r)"
  shows "r = Waits (req_key (req\<lparr>nm_ReqSendBy := nt_ServerIP st\<rparr>)) (nt_next st)"
    "nt_responseChannels st' = AList.update (req_key (req\<lparr>nm_ReqSendBy := nt_ServerIP st\<rparr>)) (nt_next st) (nt_responseChannels st)"
    "nt_buffers st' = nt_buffers st" "nt_peers st' = nt_peers st" "nt_next st' = nt_next st + 1"
    "nt_ServerIP st' = nt_ServerIP st"
    "nt_out st' = nt_out st @ map (\<lambda>(a, p). (pr_Conn p, WMsg (on_wire (req\<lparr>nm_ReqSendBy := nt_ServerIP st\<rparr>))))
        (filter (\<lambda>(a, p). \<not> nt_broken st (pr_Conn p)) (go_range it (nt_peers st)))"
proof -
  let ?r = "req\<lparr>nm_ReqSendBy := nt_ServerIP st\<rparr>"
  let ?s = "st\<lparr>nt_next := nt_next st + 1, nt_responseChannels := AList.update (req_key ?r) (nt_next st) (nt_responseChannels st)\<rparr>"
  have e: "st' = write_peers (WMsg (on_wire ?r)) (go_range it (nt_peers st)) ?s \<and> r = Waits (req_key ?r) (nt_next st)"
    using assms by (simp add: sendTaskReq_start_def Let_def)
  note w = write_peers_spec[of "WMsg (on_wire ?r)" "go_range it (nt_peers st)" ?s]
  show "r = Waits (req_key ?r) (nt_next st)"
    "nt_responseChannels st' = AList.update (req_key ?r) (nt_next st) (nt_responseChannels st)"
    "nt_buffers st' = nt_buffers st" "nt_peers st' = nt_peers st" "nt_next st' = nt_next st + 1"
    "nt_ServerIP st' = nt_ServerIP st"
    "nt_out st' = nt_out st @ map (\<lambda>(a, p). (pr_Conn p, WMsg (on_wire ?r)))
        (filter (\<lambda>(a, p). \<not> nt_broken st (pr_Conn p)) (go_range it (nt_peers st)))"
    using e w by simp_all
qed

lemma handle_spec:
  assumes "\<not> nm_Finished req" "run_task env req s = Some (s', Reply res)" "\<not> nt_broken st c"
  shows "handleMsg env (WMsg req) c st s = (s', Reply (st\<lparr>nt_out := nt_out st @ [(c, WMsg (on_wire (res
      \<lparr>nm_ReqSendBy := nm_ReqSendBy req, nm_ReqResBy := nt_ServerIP st, nm_Finished := True\<rparr>)))]\<rparr>))"
  using assms by (simp add: handleMsg_def nm_write_def Let_def)

section \<open>Two servers\<close>

text \<open>
  The exchange of a request between this server and one peer: the request goes out, the peer runs it and
  writes its answer, the answer comes back; without an answer the request times out. The peer's
  connection to this server is \<open>c\<close>.
\<close>

definition ask_server :: "peer_order \<Rightarrow> net \<Rightarrow> kv_env \<Rightarrow> net \<Rightarrow> nat \<Rightarrow> kv \<Rightarrow> nm_message \<Rightarrow> nm_message" where
  "ask_server it stA envB stB c sB req =
     (case sendTaskReq_start it req stA of
        (stA, Answered m) \<Rightarrow> m
      | (stA, Waits reqKey ch) \<Rightarrow>
          (case handleMsg envB (snd (last (nt_out stA))) c stB sB of
             (_, Reply stB') \<Rightarrow>
               (case snd (last (nt_out stB')) of
                  WText _ \<Rightarrow> snd (sendTaskReq_timeout reqKey stA)
                | WMsg response \<Rightarrow>
                    (case sendTaskReq_receive ch (handleResponse response stA) of
                       (_, Some m) \<Rightarrow> m
                     | (stA, None) \<Rightarrow> snd (sendTaskReq_timeout reqKey stA)))
           | _ \<Rightarrow> snd (sendTaskReq_timeout reqKey stA)))"

lemma ask_server_read:
  assumes inv: "kv_inv t sB" and tk: "t \<noteq> []" "k \<noteq> []"
    and A: "nt_peers stA = [(a, p)]" "\<not> nt_broken stA (pr_Conn p)" "nt_ServerIP stA \<noteq> []"
      "nt_buffers stA (nt_next stA) = None" and B: "\<not> nt_broken stB c"
    and u: "utf8_ok t" "utf8_ok k" "utf8_ok (nt_ServerIP stA)"
    and keys: "\<And>m. nm_Task m = [] \<Longrightarrow> nm_ReqSendBy m = nt_ServerIP stA \<Longrightarrow> map_of (nt_responseChannels stA) (req_key m) = None"
  shows "\<exists>m. ask_server it stA envB stB c sB (read_request envA t k) = m
    \<and> (case kv_abs sB t k of None \<Rightarrow> \<not> nm_Finished m | Some d \<Rightarrow> nm_Finished m \<and> nm_Content m = d)"
proof -
  let ?req = "(read_request envA t k)\<lparr>nm_ReqSendBy := nt_ServerIP stA\<rparr>" and ?ip = "nt_ServerIP stA"
  have rdk: "utf8_ok ''read''" by code_simp
  note rds = json_string_ok[OF rdk]
  obtain st1 r where st: "sendTaskReq_start it (read_request envA t k) stA = (st1, r)" by fastforce
  have ne: "nt_peers stA \<noteq> []" using A by simp
  note s = start_spec[OF ne A(3) st]
  have rg: "go_range it [(a, p)] = [(a, p)]"
    using mset_go_range[of it "[(a, p)]"] by (metis mset_single_iff_right mset.simps add_mset_eq_single)
  have args: "nm_Args ?req = [t, k]" "nm_Task ?req = ''read''" "\<not> nm_Finished ?req" "nm_ReqSendBy ?req = ?ip"
    "nm_ReqResBy ?req = []"
    by (simp_all add: read_request_def nm_empty_def)
  have wr: "on_wire ?req = ?req" using args u rdk by (intro on_wire_id) simp_all
  have out: "last (nt_out st1) = (pr_Conn p, WMsg ?req)" using s(7) A rg wr by simp
  obtain s' where rd: "task_Read envB ?req sB = (s', Reply (case kv_abs sB t k of
      Some d \<Rightarrow> ?req\<lparr>nm_Content := d, nm_Finished := True\<rparr> | None \<Rightarrow> nm_empty))"
    using read_peer[OF inv tk(2,1) args(1)] by blast
  have run: "run_task envB ?req sB = Some (s', Reply (case kv_abs sB t k of
      Some d \<Rightarrow> ?req\<lparr>nm_Content := d, nm_Finished := True\<rparr> | None \<Rightarrow> nm_empty))"
    using rd args(2) by (simp add: run_task_def)
  note h = handle_spec[OF args(3) run B]
  show ?thesis
  proof (cases "kv_abs sB t k")
    case None
    let ?m = "on_wire (nm_empty\<lparr>nm_ReqSendBy := ?ip, nm_ReqResBy := nt_ServerIP stB, nm_Finished := True\<rparr>)"
    have e: "nm_Task ?m = []" "nm_ReqSendBy ?m = ?ip" "\<not> nm_Finished nm_empty"
      using u(3) by (simp_all add: nm_empty_def json_string_ok)
    have "req_key ?m \<noteq> req_key ?req" using args(2,4) e(1,2) by (simp add: req_key_def)
    then have n: "handleResponse ?m st1 = st1"
      using keys[OF e(1,2)] s(2) by (simp add: handleResponse_def)
    have b: "nt_buffers st1 (nt_next stA) = None" using s(3) A(4) by simp
    show ?thesis
      using st s(1) out h n b None e(3) args(4)
      by (simp add: ask_server_def sendTaskReq_receive_def sendTaskReq_timeout_def)
  next
    case (Some d)
    let ?m = "on_wire (?req\<lparr>nm_Content := d, nm_Finished := True, nm_ReqSendBy := ?ip, nm_ReqResBy := nt_ServerIP stB, nm_Finished := True\<rparr>)"
    have k: "req_key ?m = req_key ?req" using args(2) u(3) rds by (simp add: req_key_def json_string_ok)
    have "map_of (nt_responseChannels st1) (req_key ?m) = Some (nt_next stA)" unfolding k s(2) by simp
    then have n: "handleResponse ?m st1 = st1\<lparr>nt_buffers := (nt_buffers st1)(nt_next stA \<mapsto> ?m)\<rparr>"
      using s(3) A(4) by (simp add: handleResponse_def)
    show ?thesis
      using st s(1) out h n Some args(4) by (simp add: ask_server_def sendTaskReq_receive_def)
  qed
qed
section \<open>Heartbeats\<close>

definition conns_distinct :: "(string \<times> peer) list \<Rightarrow> bool" where
  "conns_distinct ps \<longleftrightarrow> distinct (map (\<lambda>(a, p). pr_Conn p) ps) \<and> distinct (map fst ps)"

definition peer_alive :: "net \<Rightarrow> peer \<Rightarrow> bool" where
  "peer_alive st p \<longleftrightarrow> nt_now st - pr_LastActive p \<le> 11 \<and> \<not> nt_broken st (pr_Conn p)"

lemma drop_peer_simps [simp]:
  "nt_peers (drop_peer a c st) = AList.delete a (nt_peers st)" "nt_now (drop_peer a c st) = nt_now st"
  "nt_broken (drop_peer a c st) = (nt_broken st)(c := True)" "nt_out (drop_peer a c st) = nt_out st"
  by (simp_all add: drop_peer_def nm_close_def)

lemma heartbeat_loop_spec:
  assumes "conns_distinct ps"
  shows "map_of (nt_peers (heartbeat_loop ps st)) =
      (\<lambda>a. if \<exists>p. (a, p) \<in> set ps \<and> \<not> peer_alive st p then None else map_of (nt_peers st) a)
    \<and> nt_out (heartbeat_loop ps st) = nt_out st @ map (\<lambda>(a, p). (pr_Conn p, WText ''heartbeat''))
        (filter (\<lambda>(a, p). peer_alive st p) ps)
    \<and> (\<forall>c. nt_broken (heartbeat_loop ps st) c \<longleftrightarrow>
        nt_broken st c \<or> (\<exists>(a, p) \<in> set ps. pr_Conn p = c \<and> \<not> peer_alive st p))"
  using assms
proof (induction ps arbitrary: st)
  case (Cons ap ps)
  obtain a p where ap: "ap = (a, p)" by fastforce
  have d: "conns_distinct ps" "\<And>b q. (b, q) \<in> set ps \<Longrightarrow> pr_Conn q \<noteq> pr_Conn p \<and> b \<noteq> a"
    using Cons.prems ap by (force simp: conns_distinct_def)+
  show ?case
  proof (cases "peer_alive st p")
    case True
    let ?st = "st\<lparr>nt_out := nt_out st @ [(pr_Conn p, WText ''heartbeat'')]\<rparr>"
    have e: "heartbeat_loop (ap # ps) st = heartbeat_loop ps ?st"
      using True ap by (simp add: peer_alive_def nm_write_def)
    have al: "peer_alive ?st q = peer_alive st q" for q by (simp add: peer_alive_def)
    show ?thesis
      unfolding e using Cons.IH[OF d(1), of ?st] True ap d(2) unfolding al by (auto simp: fun_eq_iff)
  next
    case False
    let ?st = "drop_peer a (pr_Conn p) st"
    have e: "heartbeat_loop (ap # ps) st = heartbeat_loop ps ?st"
      using False ap by (simp add: peer_alive_def nm_write_def)
    have al: "peer_alive ?st q = peer_alive st q" if "(b, q) \<in> set ps" for b q
      using d(2)[OF that] by (simp add: peer_alive_def)
    have f: "filter (\<lambda>(a, q). peer_alive ?st q) ps = filter (\<lambda>(a, q). peer_alive st q) ps"
      using al by (intro filter_cong) auto
    have x: "(\<exists>q. (b, q) \<in> set ps \<and> \<not> peer_alive ?st q) \<longleftrightarrow> (\<exists>q. (b, q) \<in> set ps \<and> \<not> peer_alive st q)" for b
      using al by blast
    have y: "(\<exists>(b, q) \<in> set ps. pr_Conn q = c \<and> \<not> peer_alive ?st q) \<longleftrightarrow>
        (\<exists>(b, q) \<in> set ps. pr_Conn q = c \<and> \<not> peer_alive st q)" for c
      using al by fast
    show ?thesis
      unfolding e using Cons.IH[OF d(1), of ?st] False ap unfolding f x y by (auto simp: fun_eq_iff)
  qed
qed simp

section \<open>Properties\<close>

text \<open>
  C7: Two servers compose: a library read on a server connected to a peer returns the value this server
  stores under the key, otherwise the value the peer stores, otherwise that it is missing. The request
  travels through the manager's channels, the peer's dispatcher and the peer's store, as JSON: table, key
  and the address of the server are valid UTF-8, since the peer is asked for other names otherwise. The
  requester is not also waiting for an answer to a request without task.
\<close>

theorem remote_read_composes:
  assumes "kv_inv t sA" "kv_inv t sB" "plain t" "plain k"
    and "utf8_ok t" "utf8_ok k" "utf8_ok (nt_ServerIP stA)"
    and "nt_peers stA = [(a, p)]" "\<not> nt_broken stA (pr_Conn p)" "nt_ServerIP stA \<noteq> []"
      "nt_buffers stA (nt_next stA) = None" "\<not> nt_broken stB c"
    and "\<And>m. nm_Task m = [] \<Longrightarrow> nm_ReqSendBy m = nt_ServerIP stA \<Longrightarrow> map_of (nt_responseChannels stA) (req_key m) = None"
    and "env_remote envA = Some (ask_server it stA envB stB c sB)"
  shows "snd (lib_exec envA t (Get k) sA) = (case kv_abs sA t k of Some d \<Rightarrow> Value d
     | None \<Rightarrow> (case kv_abs sB t k of Some d \<Rightarrow> Value d | None \<Rightarrow> Missing))"
proof -
  have tk: "t \<noteq> []" "k \<noteq> []" using assms(3,4) by (simp_all add: plain_def)
  obtain m where m: "ask_server it stA envB stB c sB (read_request envA t k) = m"
    "case kv_abs sB t k of None \<Rightarrow> \<not> nm_Finished m | Some d \<Rightarrow> nm_Finished m \<and> nm_Content m = d"
    using ask_server_read[OF assms(2) tk assms(8-12) assms(5-7) assms(13)] by blast
  have "cmd_ok t (Get k)" using assms(3,4) by (simp add: cmd_ok_def)
  from lib.step[OF assms(1) this, of envA] m assms(14) show ?thesis
    by (auto simp: ask_peers_def Let_def split: option.splits)
qed

definition demo_net :: net where
  "demo_net = add_peer ''peer'' 1 (startNetworkManager ''me'' 5844)"

lemma remote_read_composes_witness:
  "\<exists>sB. run_cmds (any_exec demo_env ''t'') [(Lib, Put ''k'' [8])] fresh_kv = (sB, [Stored])
    \<and> snd (lib_exec (demo_env\<lparr>env_remote := Some (ask_server (\<lambda>xs. xs) demo_net demo_env demo_net 1 sB)\<rparr>)
        ''t'' (Get ''k'') fresh_kv) = Value [8]"
proof -
  have inv: "kv_inv ''t'' fresh_kv" "kv_abs fresh_kv ''t'' = Map.empty" by (rule fresh_inv, code_simp)+
  have "kv_fits [8]" by (simp add: kv_fits_def max_alloc_def)
  then obtain sB where B: "export_Save demo_env ''k'' ''t'' [8] fresh_kv = (sB, Reply None)" "kv_inv ''t'' sB"
      "kv_abs sB ''t'' = [''k'' \<mapsto> [8]]"
    using save_lib[OF inv(1), of "''k''" "[8]" demo_env] inv(2) by auto
  have net: "nt_peers demo_net = [(''peer'', \<lparr>pr_Conn = 1, pr_Address = ''peer'', pr_LastActive = 0\<rparr>)]"
    "nt_ServerIP demo_net = ''me''" "\<not> nt_broken demo_net x" "nt_buffers demo_net x = None"
    "nt_responseChannels demo_net = []" for x
    by (simp_all add: demo_net_def add_peer_def startNetworkManager_def)
  have u: "utf8_ok ''t''" "utf8_ok ''k''" "utf8_ok (nt_ServerIP demo_net)" by code_simp+
  show ?thesis
    using remote_read_composes[OF inv(1) B(2), of "''k''" demo_net "''peer''" _ demo_net 1
        "demo_env\<lparr>env_remote := Some (ask_server (\<lambda>xs. xs) demo_net demo_env demo_net 1 sB)\<rparr>" "\<lambda>xs. xs" demo_env,
        OF _ _ u net(1)] net B inv(2)
    by (intro exI[of _ sB]) (simp add: plain_def)
qed

text \<open>
  C29: Answers are matched by the requester and the task alone: while two requests with the same task wait,
  the answer to the first is given to the second, the first never gets one, and when the first times
  out the second's channel is gone and its own answer is dropped.
\<close>

theorem concurrent_requests_cross:
  assumes "nt_peers st \<noteq> []" "nt_ServerIP st \<noteq> []" "\<And>c. nt_buffers st c = None"
    and "nm_Task r1 = nm_Task r2"
    and "sendTaskReq_start it r1 st = (st1, w1)" "sendTaskReq_start it r2 st1 = (st2, w2)"
    and "nm_ReqSendBy a1 = nt_ServerIP st" "nm_Task a1 = nm_Task r1"
  shows "\<exists>k c1 c2. w1 = Waits k c1 \<and> w2 = Waits k c2
    \<and> snd (sendTaskReq_receive c2 (handleResponse a1 st2)) = Some a1
    \<and> snd (sendTaskReq_receive c1 (handleResponse a1 st2)) = None
    \<and> handleResponse a1 (fst (sendTaskReq_timeout k st2)) = fst (sendTaskReq_timeout k st2)"
proof -
  note s1 = start_spec[OF assms(1,2,5)]
  have ne: "nt_peers st1 \<noteq> []" "nt_ServerIP st1 \<noteq> []" using s1 assms(1,2) by simp_all
  note s2 = start_spec[OF ne assms(6)]
  have k: "req_key (r1\<lparr>nm_ReqSendBy := nt_ServerIP st\<rparr>) = req_key a1"
    "req_key (r2\<lparr>nm_ReqSendBy := nt_ServerIP st1\<rparr>) = req_key a1"
    using assms(4,7,8) s1(6) by (simp_all add: req_key_def)
  have m: "map_of (nt_responseChannels st2) (req_key a1) = Some (nt_next st + 1)" "nt_buffers st2 = nt_buffers st"
    using s2(2,3) s1(3,5) k by simp_all
  show ?thesis
    using s1(1) s2(1) s1(5) k m assms(3)
    by (intro exI[of _ "req_key a1"] exI[of _ "nt_next st"] exI[of _ "nt_next st + 1"])
      (simp add: sendTaskReq_receive_def handleResponse_def sendTaskReq_timeout_def)
qed

lemma concurrent_requests_cross_witness:
  "\<exists>st1 st2 c1 c2. sendTaskReq_start (\<lambda>xs. xs) (read_request demo_env ''t'' ''k1'') demo_net = (st1, Waits ''me_read'' c1)
    \<and> sendTaskReq_start (\<lambda>xs. xs) (read_request demo_env ''t'' ''k2'') st1 = (st2, Waits ''me_read'' c2)
    \<and> snd (sendTaskReq_receive c2 (handleResponse (read_request demo_env ''t'' ''k1'') st2))
      = Some (read_request demo_env ''t'' ''k1'')"
proof -
  obtain st1 w1 where 1: "sendTaskReq_start (\<lambda>xs. xs) (read_request demo_env ''t'' ''k1'') demo_net = (st1, w1)" by fastforce
  obtain st2 w2 where 2: "sendTaskReq_start (\<lambda>xs. xs) (read_request demo_env ''t'' ''k2'') st1 = (st2, w2)" by fastforce
  have net: "nt_peers demo_net \<noteq> []" "nt_ServerIP demo_net = ''me''" "nt_buffers demo_net x = None" for x
    by (simp_all add: demo_net_def add_peer_def startNetworkManager_def)
  have rq: "nm_Task (read_request demo_env t k) = ''read''" "nm_ReqSendBy (read_request demo_env t k) = ''me''" for t k
    by (simp_all add: read_request_def demo_env_def)
  have "w1 = Waits ''me_read'' (nt_next demo_net)"
    using start_spec(1)[OF net(1) _ 1] net(2) rq by (simp add: req_key_def)
  then show ?thesis
    using concurrent_requests_cross[OF net(1) _ net(3) _ 1 2, of "read_request demo_env ''t'' ''k1''"] net(2) rq 1 2 by auto
qed

text \<open>
  C25: The heartbeat keeps exactly the peers heard from within the last eleven seconds whose connection
  works, sends each of them one heartbeat and closes the connections of the others.
\<close>

theorem heartbeat_keeps_active_peers:
  assumes "conns_distinct (nt_peers st)"
  shows "\<exists>ps. mset ps = mset (nt_peers st)
    \<and> map_of (nt_peers (heartbeatChecker it st)) =
        (\<lambda>a. case map_of (nt_peers st) a of None \<Rightarrow> None | Some p \<Rightarrow> if peer_alive st p then Some p else None)
    \<and> nt_out (heartbeatChecker it st) = nt_out st @ map (\<lambda>(a, p). (pr_Conn p, WText ''heartbeat''))
        (filter (\<lambda>(a, p). peer_alive st p) ps)
    \<and> {c. nt_broken (heartbeatChecker it st) c}
        = {c. nt_broken st c} \<union> {pr_Conn p | a p. map_of (nt_peers st) a = Some p \<and> \<not> peer_alive st p}"
proof -
  let ?ps = "go_range it (nt_peers st)"
  have m: "mset ?ps = mset (nt_peers st)" by simp
  have "mset (map f ?ps) = mset (map f (nt_peers st))" for f :: "string \<times> peer \<Rightarrow> 'z"
    using m by (simp only: mset_map)
  then have d: "conns_distinct ?ps"
    using assms unfolding conns_distinct_def by (metis mset_eq_imp_distinct_iff)
  have mem: "(a, p) \<in> set ?ps \<longleftrightarrow> map_of (nt_peers st) a = Some p" for a p
    using assms by (simp add: conns_distinct_def)
  have x: "(\<lambda>a. if \<exists>p. (a, p) \<in> set ?ps \<and> \<not> peer_alive st p then None else map_of (nt_peers st) a) =
     (\<lambda>a. case map_of (nt_peers st) a of None \<Rightarrow> None | Some p \<Rightarrow> if peer_alive st p then Some p else None)"
    unfolding mem by (auto simp: fun_eq_iff split: option.split)
  have y: "{c. nt_broken st c \<or> (\<exists>(a, p) \<in> set ?ps. pr_Conn p = c \<and> \<not> peer_alive st p)} =
      {c. nt_broken st c} \<union> {pr_Conn p | a p. map_of (nt_peers st) a = Some p \<and> \<not> peer_alive st p}"
    using mem by fastforce
  show ?thesis
    using heartbeat_loop_spec[OF d, of st] m unfolding x heartbeatChecker_def[symmetric]
    by (intro exI[of _ ?ps]) (simp add: y[symmetric])
qed

lemma heartbeat_keeps_active_peers_witness:
  "map_of (nt_peers (heartbeatChecker (\<lambda>xs. xs) (demo_net\<lparr>nt_now := 12\<rparr>))) ''peer'' = None"
  using heartbeat_keeps_active_peers[of "demo_net\<lparr>nt_now := 12\<rparr>" "\<lambda>xs. xs"]
  by (auto simp: demo_net_def add_peer_def startNetworkManager_def conns_distinct_def peer_alive_def)

lemma silent_peer_gone:
  assumes "conns_distinct (nt_peers st)" "map_of (nt_peers st) a = Some p" "11 < nt_now st - pr_LastActive p"
  shows "map_of (nt_peers (heartbeatChecker it st)) a = None"
proof -
  have "conns_distinct (go_range it (nt_peers st))"
  proof -
    have "mset (map f (go_range it (nt_peers st))) = mset (map f (nt_peers st))" for f :: "string \<times> peer \<Rightarrow> 'z"
      by (simp only: mset_map mset_go_range)
    then show ?thesis using assms(1) unfolding conns_distinct_def by (metis mset_eq_imp_distinct_iff)
  qed
  from heartbeat_loop_spec[OF this, of st]
  have h: "map_of (nt_peers (heartbeatChecker it st)) =
      (\<lambda>a. if \<exists>p. (a, p) \<in> set (go_range it (nt_peers st)) \<and> \<not> peer_alive st p then None else map_of (nt_peers st) a)"
    unfolding heartbeatChecker_def by blast
  have "(a, p) \<in> set (go_range it (nt_peers st))" using assms(2) by (simp add: map_of_SomeD)
  moreover have "\<not> peer_alive st p" using assms(3) by (simp add: peer_alive_def)
  ultimately show ?thesis unfolding h by auto
qed

end
