(* ===== verification/Pointer_Manager.thy ===== *)
theory Pointer_Manager
  imports Go_Strings
begin

text \<open>
  The pointer resolver (\<open>data/fileSystem/v1/pointerManager.go\<close>): JSON values with pointers
  \<open>"$ptr_name": ["key", "table"]\<close>, resolved recursively with a set of visited targets and a cache. The
  database is the interface of the source: \<open>get table key\<close> is the value stored, if any. \<open>it\<close> is the
  order in which \<open>range\<close> visits an object's fields; an object is an association list. The recursion
  through the database need not end for an infinite database, so it has fuel: one unit per target that
  is followed, and running out is \<open>None\<close>.
\<close>

section \<open>JSON values and pointers\<close>

datatype json = JNull | JBool bool | JNum int | JStr string | JArr "json list" | JObj "(string \<times> json) list"

type_synonym database = "string \<Rightarrow> string \<Rightarrow> json option"
type_synonym field_order = "(string \<times> json) list \<Rightarrow> (string \<times> json) list"

datatype ptr_error =
    PointerLoop string | GetFailed | ExpectedObject | BadPrefix string | NotPair string | NoTarget string string
  | PutFailed

record ptr_state =
  ps_visited :: "string list"
  ps_cache :: "(string \<times> json) list"

fun isPointer :: "json \<Rightarrow> (string \<times> string) option" where
  "isPointer (JArr [JStr k, JStr t]) = Some (k, t)"
| "isPointer _ = None"

definition ptr_prefix :: string where
  "ptr_prefix = ''$ptr_''"

definition stripPrefix :: "string \<Rightarrow> string" where
  "stripPrefix k = (if starts_with ptr_prefix k then trim_prefix k ptr_prefix else k)"

definition loopID :: "string \<Rightarrow> string \<Rightarrow> string" where
  "loopID table key = table @ ''/'' @ key"

section \<open>ResolveAll\<close>

lemma size_go_range: "size_list f (go_range it xs) = size_list f xs"
proof -
  have "mset (map f (go_range it xs)) = mset (map f xs)" by (simp only: mset_map mset_go_range)
  then have "sum_list (map f (go_range it xs)) = sum_list (map f xs)" by (metis sum_mset_sum_list)
  then show ?thesis by (simp add: size_list_conv_sum_list)
qed

function resolveAll :: "field_order \<Rightarrow> database \<Rightarrow> nat \<Rightarrow> json \<Rightarrow> ptr_state \<Rightarrow> (ptr_state \<times> (ptr_error + json)) option"
  and resolve_fields :: "field_order \<Rightarrow> database \<Rightarrow> nat \<Rightarrow> (string \<times> json) list \<Rightarrow> (string \<times> json) list \<Rightarrow> ptr_state
    \<Rightarrow> (ptr_state \<times> (ptr_error + json)) option"
  and resolve_items :: "field_order \<Rightarrow> database \<Rightarrow> nat \<Rightarrow> json list \<Rightarrow> json list \<Rightarrow> ptr_state
    \<Rightarrow> (ptr_state \<times> (ptr_error + json)) option" where
  "resolveAll it get n (JObj kvs) st = resolve_fields it get n (go_range it kvs) [] st"
| "resolveAll it get n (JArr xs) st = resolve_items it get n xs [] st"
| "resolveAll it get n JNull st = Some (st, Inr JNull)"
| "resolveAll it get n (JBool b) st = Some (st, Inr (JBool b))"
| "resolveAll it get n (JNum i) st = Some (st, Inr (JNum i))"
| "resolveAll it get n (JStr s) st = Some (st, Inr (JStr s))"
| "resolve_fields it get n [] out st = Some (st, Inr (JObj out))"
| "resolve_fields it get n ((k, v) # kvs) out st =
     (case isPointer v of
        Some (key, table) \<Rightarrow>
          (let lid = loopID table key
           in if lid \<in> set (ps_visited st) then Some (st, Inl (PointerLoop lid))
              else let st = st\<lparr>ps_visited := lid # ps_visited st\<rparr>
                   in case map_of (ps_cache st) lid of
                        Some cached \<Rightarrow> resolve_fields it get n kvs (AList.update (stripPrefix k) cached out) st
                      | None \<Rightarrow>
                          (case get table key of
                             None \<Rightarrow> resolve_fields it get n kvs (AList.update (stripPrefix k) JNull out) st
                           | Some raw \<Rightarrow>
                               (case n of
                                  0 \<Rightarrow> None
                                | Suc m \<Rightarrow>
                                    (case resolveAll it get m raw st of
                                       None \<Rightarrow> None
                                     | Some (st, Inl e) \<Rightarrow> Some (st, Inl e)
                                     | Some (st, Inr resolved) \<Rightarrow>
                                         resolve_fields it get n kvs (AList.update (stripPrefix k) resolved out)
                                           (st\<lparr>ps_cache := AList.update lid resolved (ps_cache st)\<rparr>)))))
      | None \<Rightarrow>
          (case resolveAll it get n v st of
             None \<Rightarrow> None
           | Some (st, Inl e) \<Rightarrow> Some (st, Inl e)
           | Some (st, Inr r) \<Rightarrow> resolve_fields it get n kvs (AList.update k r out) st))"
| "resolve_items it get n [] out st = Some (st, Inr (JArr out))"
| "resolve_items it get n (v # xs) out st =
     (case resolveAll it get n v st of
        None \<Rightarrow> None
      | Some (st, Inl e) \<Rightarrow> Some (st, Inl e)
      | Some (st, Inr r) \<Rightarrow> resolve_items it get n xs (out @ [r]) st)"
  by pat_completeness auto
termination
  by (relation "measures [\<lambda>x. case x of Inl (it, get, n, v, st) \<Rightarrow> n | Inr (Inl (it, get, n, kvs, out, st)) \<Rightarrow> n
        | Inr (Inr (it, get, n, xs, out, st)) \<Rightarrow> n,
      \<lambda>x. case x of Inl (it, get, n, v, st) \<Rightarrow> size v
        | Inr (Inl (it, get, n, kvs, out, st)) \<Rightarrow> size_list (size_prod (\<lambda>_. 0) size) kvs
        | Inr (Inr (it, get, n, xs, out, st)) \<Rightarrow> size_list size xs]")
    (auto simp: size_go_range)

section \<open>The public functions\<close>

definition empty_ptr_state :: ptr_state where
  "empty_ptr_state = \<lparr>ps_visited = [], ps_cache = []\<rparr>"

definition readPtrAll :: "field_order \<Rightarrow> database \<Rightarrow> nat \<Rightarrow> string \<Rightarrow> string \<Rightarrow> (ptr_error + json) option" where
  "readPtrAll it get n table key =
     (case get table key of
        None \<Rightarrow> Some (Inl GetFailed)
      | Some (JObj kvs) \<Rightarrow> map_option snd (resolveAll it get n (JObj kvs) empty_ptr_state)
      | Some _ \<Rightarrow> Some (Inl ExpectedObject))"

text \<open>
  \<open>rawChild == nil\<close> also holds for a JSON null. The cache is kept from field to field, the visited set
  is not.
\<close>

fun some_fields :: "field_order \<Rightarrow> database \<Rightarrow> nat \<Rightarrow> string list \<Rightarrow> (string \<times> json) list \<Rightarrow> (string \<times> json) list
    \<Rightarrow> (string \<times> json) list \<Rightarrow> (ptr_error + json) option" where
  "some_fields it get n wanted [] out cache = Some (Inr (JObj out))"
| "some_fields it get n wanted ((k, v) # kvs) out cache =
     (case (if k \<in> set wanted then isPointer v else None) of
        None \<Rightarrow> some_fields it get n wanted kvs (AList.update k v out) cache
      | Some (key, table) \<Rightarrow>
          (case get table key of
             None \<Rightarrow> some_fields it get n wanted kvs (AList.update (stripPrefix k) JNull out) cache
           | Some rawChild \<Rightarrow>
               if rawChild = JNull then some_fields it get n wanted kvs (AList.update (stripPrefix k) JNull out) cache
               else (case resolveAll it get n rawChild \<lparr>ps_visited = [], ps_cache = cache\<rparr> of
                       None \<Rightarrow> None
                     | Some (st, Inl e) \<Rightarrow> Some (Inl e)
                     | Some (st, Inr r) \<Rightarrow>
                         some_fields it get n wanted kvs (AList.update (stripPrefix k) r out) (ps_cache st))))"

definition readPtrSome :: "field_order \<Rightarrow> database \<Rightarrow> nat \<Rightarrow> string \<Rightarrow> string \<Rightarrow> string list \<Rightarrow> (ptr_error + json) option" where
  "readPtrSome it get n table key wanted =
     (case get table key of
        None \<Rightarrow> Some (Inl GetFailed)
      | Some (JObj kvs) \<Rightarrow> some_fields it get n wanted (go_range it kvs) [] []
      | Some _ \<Rightarrow> Some (Inl ExpectedObject))"

text \<open>
  \<open>CreatePtrObj\<close> checks the fields in the order of \<open>range\<close>; its test for a duplicate field cannot fire,
  the fields being the keys of a map. \<open>put_fails\<close> says whether the database refuses the write.
\<close>

fun check_targets :: "database \<Rightarrow> (string \<times> string list) list \<Rightarrow> ptr_error option" where
  "check_targets get [] = None"
| "check_targets get ((field, target) # ps) =
     (if \<not> starts_with ptr_prefix field then Some (BadPrefix field)
      else case target of
          [key, table] \<Rightarrow> (case get table key of None \<Rightarrow> Some (NoTarget table key) | Some _ \<Rightarrow> check_targets get ps)
        | _ \<Rightarrow> Some (NotPair field))"

definition createPtrObj :: "((string \<times> string list) list \<Rightarrow> (string \<times> string list) list) \<Rightarrow> bool \<Rightarrow> string \<Rightarrow> string
    \<Rightarrow> (string \<times> string list) list \<Rightarrow> database \<Rightarrow> database \<times> ptr_error option" where
  "createPtrObj it put_fails table key ptrJson get =
     (case check_targets get (go_range it ptrJson) of
        Some e \<Rightarrow> (get, Some e)
      | None \<Rightarrow>
          (let data = JObj (map (\<lambda>(k, v). (k, JArr [JStr (v ! 0), JStr (v ! 1)])) ptrJson)
           in if put_fails then (get, Some PutFailed)
              else ((\<lambda>t k. if t = table \<and> k = key then Some data else get t k), None)))"
section \<open>Termination\<close>

definition targets :: "database \<Rightarrow> string set" where
  "targets get = {loopID t k | t k. get t k \<noteq> None}"

definition open_targets :: "database \<Rightarrow> ptr_state \<Rightarrow> string set" where
  "open_targets get st = targets get - set (ps_visited st)"

definition returns :: "nat \<Rightarrow> database \<Rightarrow> ptr_state \<Rightarrow> (ptr_state \<times> (ptr_error + json)) option \<Rightarrow> bool" where
  "returns n get st r \<longleftrightarrow> (finite (targets get) \<longrightarrow> card (open_targets get st) \<le> n \<longrightarrow>
     (\<exists>st' x. r = Some (st', x) \<and> set (ps_visited st) \<subseteq> set (ps_visited st')))"

lemma returnsI:
  "(finite (targets get) \<Longrightarrow> card (open_targets get st) \<le> n \<Longrightarrow>
     \<exists>st' x. r = Some (st', x) \<and> set (ps_visited st) \<subseteq> set (ps_visited st')) \<Longrightarrow> returns n get st r"
  by (simp add: returns_def)

lemma returnsD:
  "returns n get st r \<Longrightarrow> finite (targets get) \<Longrightarrow> card (open_targets get st) \<le> n \<Longrightarrow>
   \<exists>st' x. r = Some (st', x) \<and> set (ps_visited st) \<subseteq> set (ps_visited st')"
  by (simp add: returns_def)

lemma open_mono:
  "finite (targets get) \<Longrightarrow> set (ps_visited st) \<subseteq> set (ps_visited st') \<Longrightarrow>
   card (open_targets get st) \<le> n \<Longrightarrow> card (open_targets get st') \<le> n"
proof -
  assume f: "finite (targets get)" and v: "set (ps_visited st) \<subseteq> set (ps_visited st')" and n: "card (open_targets get st) \<le> n"
  have "open_targets get st' \<subseteq> open_targets get st" using v by (auto simp: open_targets_def)
  moreover have "finite (open_targets get st)" using f by (simp add: open_targets_def)
  ultimately have "card (open_targets get st') \<le> card (open_targets get st)" by (intro card_mono)
  then show ?thesis using n by simp
qed

lemma open_visit:
  assumes "finite (targets get)" "card (open_targets get st) \<le> n" "get t k \<noteq> None" "loopID t k \<notin> set (ps_visited st)"
  shows "\<exists>m. n = Suc m \<and> card (open_targets get (st\<lparr>ps_visited := loopID t k # ps_visited st\<rparr>)) \<le> m"
proof -
  have m: "loopID t k \<in> open_targets get st" using assms(3,4) by (auto simp: open_targets_def targets_def)
  have f: "finite (open_targets get st)" using assms(1) by (simp add: open_targets_def)
  have "open_targets get (st\<lparr>ps_visited := loopID t k # ps_visited st\<rparr>) = open_targets get st - {loopID t k}"
    by (auto simp: open_targets_def)
  then have "card (open_targets get (st\<lparr>ps_visited := loopID t k # ps_visited st\<rparr>)) = card (open_targets get st) - 1"
    using m f by (simp add: card_Diff_singleton)
  moreover have "0 < card (open_targets get st)" using m f by (auto simp: card_gt_0_iff)
  ultimately show ?thesis using assms(2) by (cases n) auto
qed

lemma resolve_returns:
  "returns n get st (resolveAll it get n v st)"
  "returns n get st (resolve_fields it get n kvs out st)"
  "returns n get st (resolve_items it get n xs out2 st)"
proof (induction it get n v st and it get n kvs out st and it get n xs out2 st
    rule: resolveAll_resolve_fields_resolve_items.induct)
  case (8 it get n k v kvs out st)
  show ?case
  proof (rule returnsI)
    assume fin: "finite (targets get)" and c: "card (open_targets get st) \<le> n"
    show "\<exists>st' x. resolve_fields it get n ((k, v) # kvs) out st = Some (st', x) \<and> set (ps_visited st) \<subseteq> set (ps_visited st')"
    proof (cases "isPointer v")
      case None
      obtain st1 r where r: "resolveAll it get n v st = Some (st1, r)" "set (ps_visited st) \<subseteq> set (ps_visited st1)"
        using returnsD[OF "8.IH"(1)[OF None] fin c] by blast
      show ?thesis
      proof (cases r)
        case (Inl e)
        then show ?thesis using None r by simp
      next
        case (Inr j)
        have "\<exists>st' x. resolve_fields it get n kvs (AList.update k j out) st1 = Some (st', x)
            \<and> set (ps_visited st1) \<subseteq> set (ps_visited st')"
          using returnsD[OF "8.IH"(2)[OF None r(1) refl Inr] fin open_mono[OF fin r(2) c]] .
        then show ?thesis using None r Inr by auto
      qed
    next
      case (Some p)
      obtain key table where p: "(key, table) = p" by (cases p) auto
      let ?lid = "loopID table key" and ?st1 = "st\<lparr>ps_visited := loopID table key # ps_visited st\<rparr>"
      note ip = Some[folded p]
      have sub: "set (ps_visited st) \<subseteq> set (ps_visited ?st1)" by auto
      note c1 = open_mono[OF fin sub c]
      show ?thesis
      proof (cases "?lid \<in> set (ps_visited st)")
        case True
        then show ?thesis using ip by simp
      next
        case new: False
        show ?thesis
        proof (cases "map_of (ps_cache ?st1) ?lid")
          case (Some j)
          then show ?thesis
            using returnsD[OF "8.IH"(6)[OF ip refl refl new refl Some] fin c1] ip new by auto
        next
          case nc: None
          show ?thesis
          proof (cases "get table key")
            case None
            then show ?thesis
              using returnsD[OF "8.IH"(3)[OF ip refl refl new refl nc None] fin c1] ip new nc by auto
          next
            case (Some raw)
            then have "get table key \<noteq> None" by simp
            from open_visit[OF fin c this new] obtain m where m: "n = Suc m" "card (open_targets get ?st1) \<le> m" by blast
            obtain st2 x where r: "resolveAll it get m raw ?st1 = Some (st2, x)" "set (ps_visited ?st1) \<subseteq> set (ps_visited st2)"
              using returnsD[OF "8.IH"(4)[OF ip refl refl new refl nc Some m(1)] fin m(2)] by blast
            show ?thesis
            proof (cases x)
              case (Inl e)
              then show ?thesis using ip new nc Some m r by auto
            next
              case (Inr j)
              let ?st3 = "st2\<lparr>ps_cache := AList.update ?lid j (ps_cache st2)\<rparr>"
              have sub3: "set (ps_visited st) \<subseteq> set (ps_visited ?st3)" using sub r(2) by auto
              show ?thesis
                using returnsD[OF "8.IH"(5)[OF ip refl refl new refl nc Some m(1) r(1) refl Inr] fin open_mono[OF fin sub3 c]]
                  ip new nc Some m r Inr by auto
            qed
          qed
        qed
      qed
    qed
  qed
next
  case (10 it get n v xs out st)
  show ?case
  proof (rule returnsI)
    assume fin: "finite (targets get)" and c: "card (open_targets get st) \<le> n"
    obtain st1 r where r: "resolveAll it get n v st = Some (st1, r)" "set (ps_visited st) \<subseteq> set (ps_visited st1)"
      using returnsD[OF "10.IH"(1) fin c] by blast
    show "\<exists>st' x. resolve_items it get n (v # xs) out st = Some (st', x) \<and> set (ps_visited st) \<subseteq> set (ps_visited st')"
    proof (cases r)
      case (Inl e)
      then show ?thesis using r by simp
    next
      case (Inr j)
      show ?thesis
        using returnsD[OF "10.IH"(2)[OF r(1) refl Inr] fin open_mono[OF fin r(2) c]] r Inr by auto
    qed
  qed
qed (auto simp: returns_def)

section \<open>The reference expansion\<close>

text \<open>
  What the pointers stand for: each is replaced by the expansion of its target, without a visited set, a
  cache or errors. It has no value where the pointers go round; otherwise it comes with the targets that
  were followed, in the order they were met.
\<close>

definition follow :: "string list \<Rightarrow> (string list \<times> json) option \<Rightarrow> (string list \<times> json) option" where
  "follow ts e = (case e of None \<Rightarrow> None | Some (us, j) \<Rightarrow> Some (ts @ us, j))"

function expand :: "field_order \<Rightarrow> database \<Rightarrow> nat \<Rightarrow> json \<Rightarrow> (string list \<times> json) option"
  and expand_fields :: "field_order \<Rightarrow> database \<Rightarrow> nat \<Rightarrow> (string \<times> json) list \<Rightarrow> (string \<times> json) list
    \<Rightarrow> (string list \<times> json) option"
  and expand_items :: "field_order \<Rightarrow> database \<Rightarrow> nat \<Rightarrow> json list \<Rightarrow> json list \<Rightarrow> (string list \<times> json) option" where
  "expand it get n (JObj kvs) = expand_fields it get n (go_range it kvs) []"
| "expand it get n (JArr xs) = expand_items it get n xs []"
| "expand it get n JNull = Some ([], JNull)"
| "expand it get n (JBool b) = Some ([], JBool b)"
| "expand it get n (JNum i) = Some ([], JNum i)"
| "expand it get n (JStr s) = Some ([], JStr s)"
| "expand_fields it get n [] out = Some ([], JObj out)"
| "expand_fields it get n ((k, v) # kvs) out =
     (case isPointer v of
        Some (key, table) \<Rightarrow>
          (case get table key of
             None \<Rightarrow> follow [loopID table key] (expand_fields it get n kvs (AList.update (stripPrefix k) JNull out))
           | Some raw \<Rightarrow>
               (case n of
                  0 \<Rightarrow> None
                | Suc m \<Rightarrow> (case expand it get m raw of
                    None \<Rightarrow> None
                  | Some (ts, r) \<Rightarrow>
                      follow (loopID table key # ts) (expand_fields it get n kvs (AList.update (stripPrefix k) r out)))))
      | None \<Rightarrow> (case expand it get n v of
            None \<Rightarrow> None
          | Some (ts, r) \<Rightarrow> follow ts (expand_fields it get n kvs (AList.update k r out))))"
| "expand_items it get n [] out = Some ([], JArr out)"
| "expand_items it get n (v # xs) out =
     (case expand it get n v of None \<Rightarrow> None | Some (ts, r) \<Rightarrow> follow ts (expand_items it get n xs (out @ [r])))"
  by pat_completeness auto
termination
  by (relation "measures [\<lambda>x. case x of Inl (it, get, n, v) \<Rightarrow> n | Inr (Inl (it, get, n, kvs, out)) \<Rightarrow> n
        | Inr (Inr (it, get, n, xs, out)) \<Rightarrow> n,
      \<lambda>x. case x of Inl (it, get, n, v) \<Rightarrow> size v
        | Inr (Inl (it, get, n, kvs, out)) \<Rightarrow> size_list (size_prod (\<lambda>_. 0) size) kvs
        | Inr (Inr (it, get, n, xs, out)) \<Rightarrow> size_list size xs]")
    (auto simp: size_go_range)











section \<open>Properties\<close>

lemma open_start: "open_targets get \<lparr>ps_visited = [], ps_cache = c\<rparr> = targets get"
  by (simp add: open_targets_def)

lemma some_fields_returns:
  assumes "finite (targets get)" "card (targets get) \<le> n"
  shows "\<exists>r. some_fields it get n wanted kvs out cache = Some r"
proof (induction kvs arbitrary: out cache)
  case (Cons kv kvs)
  obtain k v where kv: "kv = (k, v)" by fastforce
  have r: "\<exists>st x. resolveAll it get n j \<lparr>ps_visited = [], ps_cache = cache\<rparr> = Some (st, x)" for j
    using returnsD[OF resolve_returns(1) assms(1)] assms(2) by (metis open_start)
  show ?case
  proof (cases "if k \<in> set wanted then isPointer v else None")
    case None
    then show ?thesis using Cons.IH unfolding kv by simp
  next
    case (Some p)
    obtain key table where p: "p = (key, table)" by fastforce
    show ?thesis
    proof (cases "get table key = None \<or> get table key = Some JNull")
      case True
      then show ?thesis using Cons.IH Some p unfolding kv by auto
    next
      case False
      then obtain j where j: "get table key = Some j" "j \<noteq> JNull" by auto
      obtain st x where "resolveAll it get n j \<lparr>ps_visited = [], ps_cache = cache\<rparr> = Some (st, x)" using r by blast
      then show ?thesis using Cons.IH Some p j unfolding kv by (cases x) auto
    qed
  qed
qed simp

text \<open>
  C22: Reading a pointer object terminates: over a database with finitely many entries, with one unit of
  fuel for each of them, \<open>ReadPtrAll\<close> and \<open>ReadPtrSome\<close> return, whatever the pointers, cycles included.
\<close>

theorem pointer_reads_terminate:
  assumes "finite (targets get)" "card (targets get) \<le> n"
  shows "(\<exists>r. readPtrAll it get n table key = Some r) \<and> (\<exists>r. readPtrSome it get n table key wanted = Some r)"
proof -
  have "\<exists>st x. resolveAll it get n j empty_ptr_state = Some (st, x)" for j
    using returnsD[OF resolve_returns(1) assms(1), of empty_ptr_state n] assms(2)
    by (metis open_start empty_ptr_state_def)
  then have "\<exists>r. map_option snd (resolveAll it get n j empty_ptr_state) = Some r" for j
    by (metis option.simps(9))
  then show ?thesis
    using some_fields_returns[OF assms] by (auto simp: readPtrAll_def readPtrSome_def simp del: resolveAll.simps split: option.split json.split)
qed

definition demo_db :: database where
  "demo_db t k = (if t = ''t'' \<and> k = ''a'' then Some (JObj [(''$ptr_b'', JArr [JStr ''b'', JStr ''t'']), (''n'', JNum 1)])
     else if t = ''t'' \<and> k = ''b'' then Some (JObj [(''$ptr_a'', JArr [JStr ''a'', JStr ''t''])]) else None)"

lemma demo_targets: "finite (targets demo_db)" "card (targets demo_db) \<le> 2"
proof -
  have sub: "targets demo_db \<subseteq> {''t/a'', ''t/b''}"
    unfolding targets_def demo_db_def by (auto simp: loopID_def split: if_split_asm)
  have "card {''t/a'', ''t/b''} = 2" by simp
  then show "finite (targets demo_db)" "card (targets demo_db) \<le> 2"
    using sub finite_subset[OF sub] card_mono[OF _ sub] by simp_all
qed

lemma pointer_reads_terminate_witness:
  "\<exists>r. readPtrAll (\<lambda>xs. xs) demo_db 2 ''t'' ''a'' = Some r"
  using pointer_reads_terminate[of demo_db 2 "\<lambda>xs. xs" "''t''" "''a''"] demo_targets by blast





lemma two_elements: "length xs = Suc (Suc 0) \<Longrightarrow> \<exists>x y. xs = [x, y]"
  by (auto simp: length_Suc_conv)

text \<open>
  A target that two fields share is reported as a pointer loop, although nothing is cyclic and the
  expansion has a value: targets are not forgotten when the resolver leaves them.
\<close>

theorem shared_target_reported_as_loop:
  assumes "get t r = Some (JObj [(''$ptr_a'', JArr [JStr k, JStr t]), (''$ptr_b'', JArr [JStr k, JStr t])])"
    and "get t k = Some (JStr v)"
  shows "readPtrAll it get (Suc n) t r = Some (Inl (PointerLoop (loopID t k)))
    \<and> (\<exists>j. expand it get (Suc n) (JObj [(''$ptr_a'', JArr [JStr k, JStr t]), (''$ptr_b'', JArr [JStr k, JStr t])]) = Some ([loopID t k, loopID t k], j))"
proof -
  let ?kvs = "[(''$ptr_a'', JArr [JStr k, JStr t]), (''$ptr_b'', JArr [JStr k, JStr t])]"
  obtain f1 f2 where f: "go_range it ?kvs = [(f1, JArr [JStr k, JStr t]), (f2, JArr [JStr k, JStr t])]"
  proof -
    have "length (go_range it ?kvs) = Suc (Suc 0)" by simp
    then obtain x y where xy: "go_range it ?kvs = [x, y]" using two_elements by metis
    have mem: "p \<in> set ?kvs \<Longrightarrow> snd p = JArr [JStr k, JStr t]" for p by auto
    have "p \<in> set [x, y] \<Longrightarrow> snd p = JArr [JStr k, JStr t]" for p
      using mem[of p] unfolding xy[symmetric] set_go_range .
    then have "snd x = JArr [JStr k, JStr t]" "snd y = JArr [JStr k, JStr t]" by simp_all
    then show thesis using that[of "fst x" "fst y"] xy by (metis prod.collapse)
  qed
  show ?thesis
    using assms by (simp add: readPtrAll_def f empty_ptr_state_def Let_def follow_def)
qed

definition shared_db :: database where
  "shared_db t k = (if t = ''t'' \<and> k = ''r'' then Some (JObj [(''$ptr_a'', JArr [JStr ''k'', JStr ''t'']),
       (''$ptr_b'', JArr [JStr ''k'', JStr ''t''])])
     else if t = ''t'' \<and> k = ''k'' then Some (JStr ''v'') else None)"

lemma shared_target_reported_as_loop_witness:
  "readPtrAll (\<lambda>xs. xs) shared_db 1 ''t'' ''r'' = Some (Inl (PointerLoop ''t/k''))"
  using shared_target_reported_as_loop[of shared_db "''t''" "''r''" "''k''" "''v''" "\<lambda>xs. xs" 0]
  by (simp add: shared_db_def loopID_def)

lemma check_targets_None:
  "check_targets get ps = None \<Longrightarrow> (f, v) \<in> set ps \<Longrightarrow>
   \<exists>key table. v = [key, table] \<and> get table key \<noteq> None \<and> starts_with ptr_prefix f"
proof (induction get ps rule: check_targets.induct)
  case (2 get field target ps)
  then show ?case
    by (auto split: if_splits list.splits option.splits)
qed simp

text \<open>
  A pointer object is written only if every field is prefixed and points to an existing entry; what is
  stored reads back as pointers to them.
\<close>

lemma createPtrObj_valid:
  assumes "createPtrObj it put_fails table key ptrJson get = (get', None)"
  shows "\<forall>(f, v) \<in> set ptrJson. starts_with ptr_prefix f \<and> (\<exists>k t. v = [k, t] \<and> get t k \<noteq> None)"
    and "\<exists>kvs. get' table key = Some (JObj kvs) \<and>
      (\<forall>(f, v) \<in> set kvs. \<exists>k t. isPointer v = Some (k, t) \<and> get t k \<noteq> None)"
proof -
  have ch: "check_targets get (go_range it ptrJson) = None" "\<not> put_fails"
    using assms by (auto simp: createPtrObj_def Let_def split: option.splits if_splits)
  show v: "\<forall>(f, v) \<in> set ptrJson. starts_with ptr_prefix f \<and> (\<exists>k t. v = [k, t] \<and> get t k \<noteq> None)"
    using check_targets_None[OF ch(1)] by fastforce
  have "get' table key = Some (JObj (map (\<lambda>(k, v). (k, JArr [JStr (v ! 0), JStr (v ! 1)])) ptrJson))"
    using assms ch by (auto simp: createPtrObj_def Let_def)
  then show "\<exists>kvs. get' table key = Some (JObj kvs) \<and>
      (\<forall>(f, v) \<in> set kvs. \<exists>k t. isPointer v = Some (k, t) \<and> get t k \<noteq> None)"
    using v by fastforce
qed

end
