(* ===== verification/Sql_Api.thy ===== *)
theory Sql_Api
  imports Pointer_Manager Kv_Store
begin

text \<open>
  The SQL endpoint (\<open>routes/sql.go\<close>, \<open>data/sql/exec_query.go\<close>, \<open>data/sql/handlers/create_table.go\<close>,
  \<open>types/sql.go\<close>): its one query, \<open>create_table\<close>, writes the definition of a table as a JSON file. A file
  is modelled by the value whose marshalled text was written into it, as a whole or up to a number of
  bytes. What the disk refuses is part of the state: making the directory, opening a file, or writing to
  it once it is open, and so empty. Parsing the request is an argument.
\<close>

section \<open>Requests and files\<close>

record colums =
  co_Name :: string
  co_Type :: string
  co_IsPrimaryKey :: bool
  co_Default :: string
  co_MaxByteSize :: int

text \<open>\<open>Data\<close> is any JSON value, \<open>JNull\<close> when it is absent.\<close>

record sql_req =
  sq_Query :: string
  sq_TableName :: string
  sq_Data :: json
  sq_Columns :: "colums list"

datatype sql_text = Whole sql_req | Part nat sql_req

record sql_disk =
  sd_files :: "string \<Rightarrow> sql_text option"
  sd_mkdirRefused :: bool
  sd_openRefused :: "string \<Rightarrow> bool"
  sd_writeStops :: "string \<Rightarrow> nat option"

datatype sql_error = InvalidTableName | ColumnsEmpty | CreateDirectoryFailed | WriteDefinitionFailed

definition sql_table_map :: string where
  "sql_table_map = ''./db/sql_map''"

definition sql_file :: "string \<Rightarrow> string" where
  "sql_file tableName = sql_table_map @ ''/'' @ tableName @ ''.json''"

section \<open>The query\<close>

text \<open>
  \<open>os.WriteFile\<close>: a file that can be opened is truncated before it is written, so a write that stops leaves
  what it got to and nothing of the old text.
\<close>

definition writeFile :: "string \<Rightarrow> sql_req \<Rightarrow> sql_disk \<Rightarrow> sql_disk \<times> bool" where
  "writeFile path data d =
     (if sd_openRefused d path then (d, False)
      else case sd_writeStops d path of
        None \<Rightarrow> (d\<lparr>sd_files := (sd_files d)(path \<mapsto> Whole data)\<rparr>, True)
      | Some n \<Rightarrow> (d\<lparr>sd_files := (sd_files d)(path \<mapsto> Part n data)\<rparr>, False))"

definition createTable :: "sql_req \<Rightarrow> sql_disk \<Rightarrow> sql_disk \<times> sql_error option" where
  "createTable query d =
     (let tableName = sq_TableName query;
          columns = sq_Columns query;
          query = query\<lparr>sq_Query := []\<rparr>
      in if length tableName < 1 then (d, Some InvalidTableName)
         else if length columns < 1 then (d, Some ColumnsEmpty)
         else if sd_mkdirRefused d then (d, Some CreateDirectoryFailed)
         else let filePath = sql_file tableName
              in case writeFile filePath query d of
                   (d, True) \<Rightarrow> (d, None)
                 | (d, False) \<Rightarrow> (d, Some WriteDefinitionFailed))"

record save_res =
  sr_Status :: int
  sr_Error :: "sql_error option"

definition execute_Sql :: "sql_req \<Rightarrow> sql_disk \<Rightarrow> sql_disk \<times> save_res" where
  "execute_Sql query d =
     (if sq_Query query = ''create_table''
      then (case createTable query d of (d, err) \<Rightarrow> (d, \<lparr>sr_Status = 0, sr_Error = err\<rparr>))
      else (d, \<lparr>sr_Status = 1, sr_Error = None\<rparr>))"

text \<open>
  The answer: a status, and in the body the text of an error, if any, followed by \<open>save\<close>. A request that
  does not parse returns with nothing written, which is status 200.
\<close>

record sql_answer =
  sa_status :: nat
  sa_error :: "sql_error option"
  sa_text :: string

definition sQL_api :: "(bytes \<Rightarrow> sql_req option) \<Rightarrow> http_request \<Rightarrow> sql_disk \<Rightarrow> sql_disk \<times> sql_answer" where
  "sQL_api unmarshal r d =
     (if rq_method r \<noteq> ''POST'' then (d, \<lparr>sa_status = 405, sa_error = None, sa_text = []\<rparr>)
      else case rq_body r of
        None \<Rightarrow> (d, \<lparr>sa_status = 400, sa_error = None, sa_text = ''Invalid body''\<rparr>)
      | Some body \<Rightarrow>
          (case unmarshal body of
             None \<Rightarrow> (d, \<lparr>sa_status = 200, sa_error = None, sa_text = []\<rparr>)
           | Some req \<Rightarrow>
               (case execute_Sql req d of
                  (d, res) \<Rightarrow> (d, \<lparr>sa_status = 200, sa_error = sr_Error res, sa_text = ''save''\<rparr>))))"

section \<open>What it stores\<close>

lemma sql_file_inj: "sql_file a = sql_file b \<longleftrightarrow> a = b"
  by (simp add: sql_file_def)

text \<open>When a query gets to the file of its table, what it leaves there, and when it creates the table.\<close>

definition opens :: "sql_req \<Rightarrow> sql_disk \<Rightarrow> bool" where
  "opens q d \<longleftrightarrow> sq_Query q = ''create_table'' \<and> sq_TableName q \<noteq> [] \<and> sq_Columns q \<noteq> []
     \<and> \<not> sd_mkdirRefused d \<and> \<not> sd_openRefused d (sql_file (sq_TableName q))"

definition left_in_file :: "sql_req \<Rightarrow> sql_disk \<Rightarrow> sql_text" where
  "left_in_file q d = (case sd_writeStops d (sql_file (sq_TableName q)) of
      None \<Rightarrow> Whole (q\<lparr>sq_Query := []\<rparr>) | Some n \<Rightarrow> Part n (q\<lparr>sq_Query := []\<rparr>))"

definition creates :: "sql_req \<Rightarrow> sql_disk \<Rightarrow> bool" where
  "creates q d \<longleftrightarrow> opens q d \<and> sd_writeStops d (sql_file (sq_TableName q)) = None"

lemma createTable_cases:
  "sq_Query q = ''create_table'' \<Longrightarrow> sd_files (fst (createTable q d)) =
    (if opens q d then (sd_files d)(sql_file (sq_TableName q) \<mapsto> left_in_file q d) else sd_files d)
   \<and> (snd (createTable q d) = None \<longleftrightarrow> creates q d)"
  by (auto simp: createTable_def writeFile_def creates_def opens_def left_in_file_def Let_def split: option.split)

text \<open>
  C33: A POST to the SQL endpoint whose body parses writes the definition of the table, without the query,
  to the table's own file and touches no other, exactly when it is a \<open>create_table\<close> with a name, at least
  one column and a disk on which the file can be opened; nothing changes otherwise. The file then holds
  the whole definition, and no error is reported, exactly when the write does not stop; when it does,
  the old definition is lost and the file holds the part that was written. The status is 200 and the
  text ends with \<open>save\<close> in every case: a query of another kind is not distinguished from one that stored a table.
  Names hold no slash, so that their paths are spelled in one way.
\<close>

theorem sql_api_stores:
  assumes "rq_method r = ''POST''" and "rq_body r = Some body" and "unmarshal body = Some q"
    and "CHR ''/'' \<notin> set (sq_TableName q)" and "CHR ''/'' \<notin> set t" and "sQL_api unmarshal r d = (d', a)"
  shows "sd_files d' (sql_file t) =
      (if opens q d \<and> t = sq_TableName q then Some (left_in_file q d) else sd_files d (sql_file t))
    \<and> (sa_error a = None \<longleftrightarrow> creates q d \<or> sq_Query q \<noteq> ''create_table'')
    \<and> (left_in_file q d = Whole (q\<lparr>sq_Query := []\<rparr>) \<longleftrightarrow> sd_writeStops d (sql_file (sq_TableName q)) = None)
    \<and> sa_status a = 200 \<and> sa_text a = ''save''"
proof -
  obtain d1 res where e: "execute_Sql q d = (d1, res)" by fastforce
  have a: "d' = d1" "sa_error a = sr_Error res" "sa_status a = 200" "sa_text a = ''save''"
    using assms e by (auto simp: sQL_api_def)
  have w: "left_in_file q d = Whole (q\<lparr>sq_Query := []\<rparr>) \<longleftrightarrow> sd_writeStops d (sql_file (sq_TableName q)) = None"
    by (simp add: left_in_file_def split: option.split)
  show ?thesis
  proof (cases "sq_Query q = ''create_table''")
    case True
    then have "d1 = fst (createTable q d)" "sr_Error res = snd (createTable q d)"
      using e by (auto simp: execute_Sql_def split: prod.splits)
    then show ?thesis using a w True createTable_cases[OF True, of d] by (auto simp: sql_file_inj)
  next
    case False
    then have "\<not> opens q d" "\<not> creates q d" by (simp_all add: creates_def opens_def)
    then show ?thesis using a w False e by (auto simp: execute_Sql_def)
  qed
qed

definition demo_sql :: sql_req where
  "demo_sql = \<lparr>sq_Query = ''create_table'', sq_TableName = ''t'', sq_Data = JNull,
     sq_Columns = [\<lparr>co_Name = ''id'', co_Type = ''int'', co_IsPrimaryKey = True, co_Default = [], co_MaxByteSize = 8\<rparr>]\<rparr>"

definition empty_disk :: sql_disk where
  "empty_disk = \<lparr>sd_files = (\<lambda>_. None), sd_mkdirRefused = False, sd_openRefused = (\<lambda>_. False),
     sd_writeStops = (\<lambda>_. None)\<rparr>"

definition sql_post :: http_request where
  "sql_post = \<lparr>rq_method = ''POST'', rq_path = ''/sql'', rq_header = (\<lambda>_. []), rq_query = (\<lambda>_. []), rq_body = Some []\<rparr>"

text \<open>A table that is created, and created again on a disk that is full after ten bytes.\<close>

lemma sql_api_stores_witness:
  "let d1 = fst (sQL_api (\<lambda>_. Some demo_sql) sql_post empty_disk);
       (d2, a2) = sQL_api (\<lambda>_. Some demo_sql) sql_post (d1\<lparr>sd_writeStops := (\<lambda>_. Some 10)\<rparr>)
   in sd_files d1 (sql_file ''t'') = Some (Whole (demo_sql\<lparr>sq_Query := []\<rparr>)) \<and> sd_files d1 (sql_file ''u'') = None
     \<and> sd_files d2 (sql_file ''t'') = Some (Part 10 (demo_sql\<lparr>sq_Query := []\<rparr>)) \<and> sa_error a2 \<noteq> None"
proof -
  have t: "sq_TableName demo_sql = ''t''" by (simp add: demo_sql_def)
  have c: "opens demo_sql empty_disk" "left_in_file demo_sql empty_disk = Whole (demo_sql\<lparr>sq_Query := []\<rparr>)"
    by (simp_all add: opens_def left_in_file_def demo_sql_def empty_disk_def)
  have r: "rq_method sql_post = ''POST''" "rq_body sql_post = Some []" by (simp_all add: sql_post_def)
  have n: "CHR ''/'' \<notin> set (sq_TableName demo_sql)" using t by simp
  obtain d1 a1 where s: "sQL_api (\<lambda>_. Some demo_sql) sql_post empty_disk = (d1, a1)" by fastforce
  obtain d2 a2 where s2: "sQL_api (\<lambda>_. Some demo_sql) sql_post (d1\<lparr>sd_writeStops := (\<lambda>_. Some 10)\<rparr>) = (d2, a2)" by fastforce
  note st = sql_api_stores[OF r refl n _ s] and st2 = sql_api_stores[OF r refl n _ s2]
  have "d1 = fst (createTable demo_sql empty_disk)"
    using s r by (auto simp: sQL_api_def execute_Sql_def demo_sql_def split: prod.splits)
  then have "sd_mkdirRefused d1 = False" "sd_openRefused d1 = (\<lambda>_. False)"
    by (simp_all add: createTable_def writeFile_def demo_sql_def empty_disk_def Let_def)
  then have c2: "opens demo_sql (d1\<lparr>sd_writeStops := (\<lambda>_. Some 10)\<rparr>)" "\<not> creates demo_sql (d1\<lparr>sd_writeStops := (\<lambda>_. Some 10)\<rparr>)"
      "left_in_file demo_sql (d1\<lparr>sd_writeStops := (\<lambda>_. Some 10)\<rparr>) = Part 10 (demo_sql\<lparr>sq_Query := []\<rparr>)"
    by (simp_all add: opens_def creates_def left_in_file_def demo_sql_def)
  have q: "sq_Query demo_sql = ''create_table''" by (simp add: demo_sql_def)
  have "sd_files d1 (sql_file ''t'') = Some (Whole (demo_sql\<lparr>sq_Query := []\<rparr>))" using st[of "''t''"] c t by simp
  moreover have "sd_files d1 (sql_file ''u'') = None" using st[of "''u''"] c t by (simp add: empty_disk_def)
  moreover have "sd_files d2 (sql_file ''t'') = Some (Part 10 (demo_sql\<lparr>sq_Query := []\<rparr>))" "sa_error a2 \<noteq> None"
    using st2[of "''t''"] c2 t q by simp_all
  ultimately show ?thesis using s s2 by simp
qed

end
