(* ===== verification/Metrics.thy ===== *)
theory Metrics
  imports Tsu_Prelude "HOL-Library.Signed_Division"
begin

text \<open>
  The request metrics of the HTTP server (\<open>servers/public-api/v1/metrics/metrics.go\<close>): atomic counters of
  64 bits that wrap around, and the snapshot the health page shows. Durations and times are numbers of
  nanoseconds; the clock is an argument. An \<open>atomic.Int64\<close> is its bit pattern, read by \<open>i64\<close>.
\<close>

section \<open>Counters\<close>

record metrics =
  mx_startTime :: int
  mx_totalDuration :: u64
  mx_requestCount :: u64
  mx_lastRequest :: u64

record metrics_snapshot =
  ms_StartedAt :: int
  ms_TotalRequests :: u64
  ms_TotalDuration :: int
  ms_AverageResponse :: int
  ms_LastRequestAt :: "int option"

definition init_metrics :: "int \<Rightarrow> metrics" where
  "init_metrics now = \<lparr>mx_startTime = now, mx_totalDuration = 0, mx_requestCount = 0, mx_lastRequest = 0\<rparr>"

definition recordRequest :: "int \<Rightarrow> int \<Rightarrow> metrics \<Rightarrow> metrics" where
  "recordRequest duration now m =
     (let duration = (if duration < 0 then 0 else duration)
      in m\<lparr>mx_totalDuration := mx_totalDuration m + word_of_int duration,
           mx_requestCount := mx_requestCount m + 1,
           mx_lastRequest := word_of_int now\<rparr>)"

text \<open>The zero time stands for no request yet; integer division truncates.\<close>

definition snapshotStats :: "metrics \<Rightarrow> metrics_snapshot" where
  "snapshotStats m =
     (let totalNs = i64 (mx_totalDuration m);
          count = mx_requestCount m;
          lastNs = i64 (mx_lastRequest m);
          divisor = (if 2 ^ 63 - 1 < uint count then 2 ^ 63 - 1 else i64 count)
      in \<lparr>ms_StartedAt = mx_startTime m, ms_TotalRequests = count, ms_TotalDuration = totalNs,
          ms_AverageResponse = (if 0 < count then totalNs sdiv divisor else 0),
          ms_LastRequestAt = (if 0 < lastNs then Some lastNs else None)\<rparr>)"

section \<open>What they count\<close>

text \<open>A run of the server: the durations of its requests and the times they ended.\<close>

definition record_all :: "(int \<times> int) list \<Rightarrow> metrics \<Rightarrow> metrics" where
  "record_all rs m = fold (\<lambda>(d, now). recordRequest d now) rs m"

definition taken :: "(int \<times> int) list \<Rightarrow> int list" where
  "taken rs = map (\<lambda>(d, now). max 0 d) rs"

lemma record_all_counters:
  "mx_totalDuration (record_all rs m) = mx_totalDuration m + word_of_int (sum_list (taken rs))
   \<and> mx_requestCount (record_all rs m) = mx_requestCount m + word_of_nat (length rs)
   \<and> mx_startTime (record_all rs m) = mx_startTime m
   \<and> (rs \<noteq> [] \<longrightarrow> mx_lastRequest (record_all rs m) = word_of_int (snd (last rs)))"
proof (induction rs arbitrary: m)
  case Nil
  then show ?case by (simp add: record_all_def taken_def)
next
  case (Cons r rs)
  obtain d n where r: "r = (d, n)" by fastforce
  have e: "record_all (r # rs) m = record_all rs (recordRequest d n m)" by (simp add: record_all_def r)
  have d: "(if d < 0 then 0 else d) = max 0 d" by simp
  show ?case
  proof (cases "rs = []")
    case True
    then show ?thesis by (simp add: record_all_def taken_def recordRequest_def r d Let_def)
  next
    case False
    then show ?thesis
      unfolding e using Cons[of "recordRequest d n m"]
      by (simp add: taken_def recordRequest_def r d Let_def)
  qed
qed

lemma sum_list_between:
  assumes "\<And>x. x \<in> set xs \<Longrightarrow> a \<le> x \<and> x \<le> (b :: int)"
  shows "int (length xs) * a \<le> sum_list xs \<and> sum_list xs \<le> int (length xs) * b"
  using assms
proof (induction xs)
  case (Cons x xs)
  then have "a \<le> x" "x \<le> b" "int (length xs) * a \<le> sum_list xs" "sum_list xs \<le> int (length xs) * b" by auto
  then show ?case by (simp add: distrib_right)
qed simp

lemma average_between:
  assumes "xs \<noteq> []" "\<And>x. x \<in> set xs \<Longrightarrow> a \<le> x \<and> x \<le> (b :: int)"
  shows "a \<le> sum_list xs div int (length xs) \<and> sum_list xs div int (length xs) \<le> b"
proof -
  have n: "0 < int (length xs)" using assms(1) by simp
  note s = sum_list_between[of xs a b, OF assms(2)]
  have "a = (int (length xs) * a) div int (length xs)" using n by simp
  moreover have "b = (int (length xs) * b) div int (length xs)" using n by simp
  ultimately show ?thesis using s zdiv_mono1[OF _ n] by metis
qed

lemma i64_of_int: "0 \<le> x \<Longrightarrow> x < 2 ^ 63 \<Longrightarrow> i64 (word_of_int x) = x"
  unfolding i64_def by (simp add: signed_of_int signed_take_bit_int_eq_self sint_sbintrunc')

lemma sdiv_nonneg: "0 \<le> a \<Longrightarrow> 0 < b \<Longrightarrow> a sdiv b = (a div b :: int)"
  by (cases "a = 0") (simp_all add: signed_divide_int_def)

text \<open>
  C34: While fewer than \<open>2^63\<close> nanoseconds have been spent in requests, the snapshot is exact: it counts the
  requests, sums their durations (a negative one, from a clock that was set back, as zero), shows the time
  the last one ended, and the average lies between any bounds all the durations keep; before the first
  request it is zero. The sums are kept in 64 bits without a check.
\<close>

theorem metrics_snapshot_exact:
  assumes "sum_list (taken rs) < 2 ^ 63" and "length rs < 2 ^ 63" and "rs \<noteq> []"
    and "\<And>d. d \<in> set (taken rs) \<Longrightarrow> lo \<le> d \<and> d \<le> hi" and "0 < snd (last rs)" and "snd (last rs) < 2 ^ 63"
  shows "let snap = snapshotStats (record_all rs (init_metrics t0))
    in unat (ms_TotalRequests snap) = length rs \<and> ms_TotalDuration snap = sum_list (taken rs)
      \<and> ms_AverageResponse snap = sum_list (taken rs) div int (length rs)
      \<and> lo \<le> ms_AverageResponse snap \<and> ms_AverageResponse snap \<le> hi
      \<and> ms_LastRequestAt snap = Some (snd (last rs))
      \<and> ms_AverageResponse (snapshotStats (init_metrics t0)) = 0"
proof -
  let ?n = "length rs" and ?t = "sum_list (taken rs)" and ?m = "record_all rs (init_metrics t0)"
  have c: "mx_totalDuration ?m = word_of_int ?t" "mx_requestCount ?m = word_of_nat ?n"
    "mx_lastRequest ?m = word_of_int (snd (last rs))"
    using record_all_counters[of rs "init_metrics t0"] assms(3) by (simp_all add: init_metrics_def)
  have t0: "0 \<le> ?t" by (rule sum_list_nonneg) (auto simp: taken_def)
  have un: "unat (word_of_nat ?n :: u64) = ?n" using assms(2) by (intro unat_u64) simp
  have ui: "uint (word_of_nat ?n :: u64) = int ?n" using un by (metis uint_nat)
  have pos: "(0 :: u64) < word_of_nat ?n" using un assms(3) by (simp add: word_less_nat_alt)
  have dn: "i64 (word_of_nat ?n) = int ?n" using un assms(2) by (subst i64_small) simp_all
  have small: "int ?n < 2 ^ 63" using assms(2) by (metis of_nat_less_iff of_nat_numeral of_nat_power)
  have avg: "ms_AverageResponse (snapshotStats ?m) = ?t div int ?n"
    using pos small assms(3) t0 i64_of_int[OF t0 assms(1)] dn ui
    by (simp add: snapshotStats_def Let_def c sdiv_nonneg)
  have len: "length (taken rs) = ?n" by (simp add: taken_def)
  have "taken rs \<noteq> []" using assms(3) by (simp add: taken_def)
  from average_between[OF this assms(4)] have "lo \<le> ?t div int ?n \<and> ?t div int ?n \<le> hi" unfolding len .
  moreover have "unat (ms_TotalRequests (snapshotStats ?m)) = ?n" using un by (simp add: snapshotStats_def Let_def c)
  moreover have "ms_TotalDuration (snapshotStats ?m) = ?t"
    using i64_of_int[OF t0 assms(1)] by (simp add: snapshotStats_def Let_def c)
  moreover have "ms_LastRequestAt (snapshotStats ?m) = Some (snd (last rs))"
  proof -
    have "i64 (word_of_int (snd (last rs))) = snd (last rs)" by (rule i64_of_int) (use assms(5,6) in simp_all)
    then show ?thesis using assms(5) by (simp add: snapshotStats_def Let_def c del: of_int_eq_iff)
  qed
  moreover have "ms_AverageResponse (snapshotStats (init_metrics t0)) = 0"
    by (simp add: snapshotStats_def init_metrics_def Let_def)
  ultimately show ?thesis using avg by (simp add: Let_def)
qed

lemma metrics_snapshot_exact_witness:
  "ms_AverageResponse (snapshotStats (record_all [(5, 100), (- 3, 200), (8, 300)] (init_metrics 7))) = 4"
proof -
  have t: "taken [(5, 100), (- 3, 200), (8, 300)] = [5, 0, 8]" by (simp add: taken_def)
  have r: "0 \<le> d \<and> d \<le> 8" if "d \<in> set (taken [(5, 100), (- 3, 200), (8, 300)])" for d
    using that unfolding t by auto
  show ?thesis
    using metrics_snapshot_exact[of "[(5, 100), (- 3, 200), (8, 300)]" 0 8 7, OF _ _ _ r] by (simp add: t Let_def)
qed

end
