(* ===== verification/Public_Api.thy ===== *)
theory Public_Api
  imports Inc_Tables Kv_Tables Subscriptions Network_Manager Sql_Api Metrics
begin

text \<open>
  The HTTP server (\<open>servers/public-api/v1/Api.go\<close>, \<open>routes/health.go\<close>): the table of routes, the wrapper
  that counts requests, and the health page, over one state that holds every component the handlers
  reach. Handlers announce changes in goroutines of their own; the announcements raised and not yet run
  are the outboxes of the store, and \<open>deliver\<close> runs any one of them against the subscription server, so
  that their order is free. A handler runs in one step.
\<close>

section \<open>The server\<close>

record server =
  sv_ist :: ist
  sv_subs :: subs
  sv_net :: "net option"
  sv_metrics :: metrics
  sv_sql :: sql_disk

text \<open>What a request brings from outside: its duration, the clock, a fresh UUID and random bytes.\<close>

record arrival =
  ar_duration :: int
  ar_now :: int
  ar_uuid :: string
  ar_random :: "bytes option"

text \<open>The environment of the handlers: the orders of maps, and the JSON decoders of three bodies.\<close>

record api_env =
  ae_kv :: kv_env
  ae_range :: "conn list \<Rightarrow> conn list"
  ae_sort :: "string list \<Rightarrow> string list"
  ae_keys :: "bytes \<Rightarrow> string list option"
  ae_key :: "bytes \<Rightarrow> string"
  ae_sql :: "bytes \<Rightarrow> sql_req option"

record health =
  he_Uptime :: int
  he_API :: metrics_snapshot
  he_Subscriptions :: sub_stats
  he_Network :: "nm_stats option"

datatype api_reply =
    Http http_response | Inc inc_reply | Keys "nat + string list" | AuthKey "nat + string" | Disabled nat
  | Sql sql_answer | Healthy "nat + health" | Redirect | NotFoundPage

type_synonym api_handler = "http_request \<Rightarrow> server \<Rightarrow> server \<times> api_reply call"

abbreviation sv_kv :: "server \<Rightarrow> kv" where
  "sv_kv sv \<equiv> ist_kv (sv_ist sv)"

definition set_kv :: "kv \<Rightarrow> server \<Rightarrow> server" where
  "set_kv k sv = sv\<lparr>sv_ist := (sv_ist sv)\<lparr>ist_kv := k\<rparr>\<rparr>"

definition on_kv :: "('a \<Rightarrow> api_reply) \<Rightarrow> (kv \<Rightarrow> 'a kv_call) \<Rightarrow> server \<Rightarrow> server \<times> api_reply call" where
  "on_kv f c sv = (case c (sv_kv sv) of (k, r) \<Rightarrow> (set_kv k sv, map_call f r))"

definition on_ist :: "('a \<Rightarrow> api_reply) \<Rightarrow> (ist \<Rightarrow> 'a ist_call) \<Rightarrow> server \<Rightarrow> server \<times> api_reply call" where
  "on_ist f c sv = (case c (sv_ist sv) of (i, r) \<Rightarrow> (sv\<lparr>sv_ist := i\<rparr>, map_call f r))"

definition on_subs :: "('a \<Rightarrow> api_reply) \<Rightarrow> (subs \<Rightarrow> subs \<times> 'a) \<Rightarrow> server \<Rightarrow> server \<times> api_reply call" where
  "on_subs f c sv = (case c (sv_subs sv) of (s, r) \<Rightarrow> (sv\<lparr>sv_subs := s\<rparr>, Reply (f r)))"

definition on_sql :: "('a \<Rightarrow> api_reply) \<Rightarrow> (sql_disk \<Rightarrow> sql_disk \<times> 'a) \<Rightarrow> server \<Rightarrow> server \<times> api_reply call" where
  "on_sql f c sv = (case c (sv_sql sv) of (d, r) \<Rightarrow> (sv\<lparr>sv_sql := d\<rparr>, Reply (f r)))"

section \<open>The health page\<close>

definition health_page :: "(string list \<Rightarrow> string list) \<Rightarrow> int \<Rightarrow> http_request \<Rightarrow> server \<Rightarrow> nat + health" where
  "health_page sort_strings now r sv =
     (if rq_method r \<noteq> ''GET'' then Inl 405
      else let snap = snapshotStats (sv_metrics sv);
               subStats = statsSnapshot (sv_subs sv);
               networkStats = (case sv_net sv of None \<Rightarrow> None | Some nm \<Rightarrow> Some (nm_snapshot sort_strings (Some nm)))
           in Inr \<lparr>he_Uptime = now - ms_StartedAt snap, he_API = snap, he_Subscriptions = subStats,
                   he_Network = networkStats\<rparr>)"

section \<open>Routing\<close>

text \<open>\<open>withClient\<close>: the deferred count runs when the handler returns and when it panics.\<close>

definition withClient :: "arrival \<Rightarrow> api_handler \<Rightarrow> api_handler" where
  "withClient a fn r sv = (case fn r sv of
      (sv', Blocks) \<Rightarrow> (sv', Blocks)
    | (sv', res) \<Rightarrow> (sv'\<lparr>sv_metrics := recordRequest (ar_duration a) (ar_now a) (sv_metrics sv')\<rparr>, res))"

definition exact_routes :: "api_env \<Rightarrow> arrival \<Rightarrow> (string \<times> api_handler) list" where
  "exact_routes env a =
     [(''/subscriptions/enable'',
         \<lambda>r. on_subs AuthKey (\<lambda>s. handleEnableSubscription (ar_uuid a)
               (case rq_body r of None \<Rightarrow> None | Some b \<Rightarrow> ae_keys env b) s)),
      (''/subscriptions/disable'',
         \<lambda>r. on_subs Disabled (handleDisableSubscription (ae_range env)
               (case rq_body r of None \<Rightarrow> [] | Some b \<Rightarrow> ae_key env b))),
      (''/sql'', \<lambda>r. on_sql Sql (sQL_api (ae_sql env) r)),
      (''/health'', \<lambda>r sv. (sv, Reply (Healthy (health_page (ae_sort env) (ar_now a) r sv))))]"

definition subtree_routes :: "api_env \<Rightarrow> arrival \<Rightarrow> (string \<times> api_handler) list" where
  "subtree_routes env a =
     [(''/save/'', \<lambda>r. on_kv Http (route_AsyncSave (ae_kv env) r)),
      (''/read/'', \<lambda>r. on_kv Http (route_AsyncRead (ae_kv env) r)),
      (''/free/'', \<lambda>r. on_kv Http (route_Free r)),
      (''/save_encrypted/'', \<lambda>r. on_kv Http (route_SaveEncrypted (ae_kv env) (ar_random a) r)),
      (''/read_encrypted/'', \<lambda>r. on_kv Http (route_ReadEncrypted (ae_kv env) r)),
      (''/save_inc/'', \<lambda>r. on_ist Inc (route_SaveIncremental (ae_kv env) r)),
      (''/read_inc/'', \<lambda>r. on_ist Inc (route_ReadIncremental (ae_kv env) r)),
      (''/delete_inc/'', \<lambda>r. on_ist Inc (route_DeleteIncremental (ae_kv env) r)),
      (''/key_by_regex/'', \<lambda>r. on_kv Keys (route_GetKeysByRegex (ae_kv env) r))]"

text \<open>
  \<open>ServeMux\<close>: a path that is not clean (an empty, \<open>.\<close> or \<open>..\<close> segment, apart from a final slash) is
  redirected to its clean form, an exact pattern wins, a pattern with a final slash matches what it is a
  prefix of, and its path without the slash is redirected. No pattern here is a prefix of another.
\<close>

definition clean_path :: "string \<Rightarrow> bool" where
  "clean_path p = (case split_char (CHR ''/'') p of
      [] # w # ws \<Rightarrow> list_all (\<lambda>v. v \<noteq> ''.'' \<and> v \<noteq> ''..'') (w # ws) \<and> list_all (\<lambda>v. v \<noteq> []) (butlast (w # ws))
    | _ \<Rightarrow> False)"

definition serveHTTP :: "api_env \<Rightarrow> arrival \<Rightarrow> api_handler" where
  "serveHTTP env a r sv =
     (let p = rq_path r
      in if \<not> clean_path p then (sv, Reply Redirect)
         else case map_of (exact_routes env a) p of
           Some h \<Rightarrow> withClient a h r sv
         | None \<Rightarrow> (case find (\<lambda>(pre, h). starts_with pre p) (subtree_routes env a) of
             Some (pre, h) \<Rightarrow> withClient a h r sv
           | None \<Rightarrow> (sv, Reply (if list_ex (\<lambda>(pre, h). pre = p @ ''/'') (subtree_routes env a) then Redirect
                                else NotFoundPage))))"

section \<open>Announcements\<close>

definition announce :: "(conn list \<Rightarrow> conn list) \<Rightarrow> notice \<Rightarrow> subs \<Rightarrow> subs" where
  "announce it n = (case n of
      NotifySubscribers key data \<Rightarrow> notifySubscribers it key data
    | NotifyDeleteAndRemove key \<Rightarrow> notifyDeleteAndRemove it key)"

text \<open>The goroutine of the \<open>i\<close>-th pending announcement runs; the second is that of the incremental tables.\<close>

definition drop_nth :: "nat \<Rightarrow> 'a list \<Rightarrow> 'a list" where
  "drop_nth i xs = take i xs @ drop (Suc i) xs"

definition deliver :: "api_env \<Rightarrow> nat \<Rightarrow> server \<Rightarrow> server" where
  "deliver env i sv =
     (let k = sv_kv sv
      in if i < length (kv_outbox k)
         then (set_kv (k\<lparr>kv_outbox := drop_nth i (kv_outbox k)\<rparr>) sv)
                \<lparr>sv_subs := announce (ae_range env) (kv_outbox k ! i) (sv_subs sv)\<rparr>
         else sv)"

definition deliver_inc :: "api_env \<Rightarrow> nat \<Rightarrow> server \<Rightarrow> server" where
  "deliver_inc env i sv =
     (let s = sv_ist sv
      in if i < length (ist_out s)
         then (case ist_out s ! i of (key, changeType, entryID, body) \<Rightarrow>
                 sv\<lparr>sv_ist := s\<lparr>ist_out := drop_nth i (ist_out s)\<rparr>,
                    sv_subs := notifyIncTableSubscribers (ae_range env) key changeType (unat entryID) body (sv_subs sv)\<rparr>)
         else sv)"
section \<open>Outboxes\<close>

lemma with_dir_outbox: "with_dir f s = (s', r) \<Longrightarrow> kv_outbox s' = kv_outbox s"
  by (auto simp: with_dir_def split: prod.splits)

lemma bind_key_outbox: "bind_key t k a b s = (s', e) \<Longrightarrow> kv_outbox s' = kv_outbox s"
  by (auto simp: bind_key_def kv_mark_free_def Let_def split: prod.splits sum.splits option.splits if_splits)

lemma get_meta_outbox: "get_meta t k s = (s', e) \<Longrightarrow> kv_outbox s' = kv_outbox s"
  by (auto simp: get_meta_def split: prod.splits)

lemma kv_bind_returns: "kv_bind c f = (s', Reply x) \<Longrightarrow> \<exists>s1 y. c = (s1, Reply y) \<and> f s1 y = (s', Reply x)"
  by (auto simp: kv_bind_def split: prod.splits call.splits)

lemma kv_lift_returns: "kv_lift s m f = (s', Reply x) \<Longrightarrow> \<exists>y. f s y = (s', Reply x)"
  by (auto simp: kv_lift_def split: outcome.splits)

lemma save_outbox:
  assumes "parseArgs (rq_path r) ''save'' = [[], ''save'', t, k]" "rq_body r = Some d"
    and "route_AsyncSave env r s = (s', Reply h)" "hr_status h = 200"
  shows "kv_outbox s' = kv_outbox s @ [NotifySubscribers k d]"
  using assms
  by (auto simp: route_AsyncSave_def Let_def http_error_def kv_notify_def split: if_splits prod.splits option.splits
      dest!: kv_bind_returns with_dir_outbox bind_key_outbox)

lemma read_outbox:
  assumes "parseArgs (rq_path r) ''read'' = [[], ''read'', t, k]" "route_AsyncRead env r s = (s', Reply h)"
  shows "kv_outbox s' = kv_outbox s"
  using assms
  by (auto simp: route_AsyncRead_def Let_def split: if_splits prod.splits option.splits sum.splits
      dest!: kv_bind_returns kv_lift_returns with_dir_outbox get_meta_outbox)

lemma free_outbox:
  assumes "parseArgs (rq_path r) ''free'' = [[], ''free'', t, k]" "route_Free r s = (s', Reply h)"
  shows "kv_outbox s' = kv_outbox s @ (if hr_status h = 200 then [NotifyDeleteAndRemove k] else [])"
  using assms
  by (auto simp: route_Free_def Let_def http_error_def http_ok_def kv_notify_def kv_mark_free_def remove_meta_def
      split: if_splits prod.splits sum.splits dest!: get_meta_outbox)

section \<open>Requests on a table\<close>

definition cmd_request :: "string \<Rightarrow> kv_cmd \<Rightarrow> http_request" where
  "cmd_request t c = (case c of
      Put k d \<Rightarrow> http_post (''/'' @ ''save'' @ ''/'' @ t @ ''/'' @ k) d
    | Get k \<Rightarrow> http_get (''/'' @ ''read'' @ ''/'' @ t @ ''/'' @ k)
    | Del k \<Rightarrow> http_get (''/'' @ ''free'' @ ''/'' @ t @ ''/'' @ k))"

definition cmd_route :: "kv_env \<Rightarrow> kv_cmd \<Rightarrow> http_request \<Rightarrow> kv \<Rightarrow> http_response kv_call" where
  "cmd_route env c = (case c of Put _ _ \<Rightarrow> route_AsyncSave env | Get _ \<Rightarrow> route_AsyncRead env | Del _ \<Rightarrow> route_Free)"

definition cmd_answer :: "kv_cmd \<Rightarrow> http_response \<Rightarrow> kv_reply" where
  "cmd_answer c h = of_status (case c of Put _ _ \<Rightarrow> Stored | Get _ \<Rightarrow> Value (hr_body h) | Del _ \<Rightarrow> Freed) h"

text \<open>What a successful command announces.\<close>

definition raised :: "kv_cmd \<Rightarrow> http_response \<Rightarrow> notice list" where
  "raised c h = (if hr_status h \<noteq> 200 then [] else case c of
      Put k d \<Rightarrow> [NotifySubscribers k d] | Get _ \<Rightarrow> [] | Del k \<Rightarrow> [NotifyDeleteAndRemove k])"

lemma cmd_route_served:
  assumes "kv_inv t s" "cmd_ok t c"
  shows "\<exists>s' h. cmd_route env c (cmd_request t c) s = (s', Reply h) \<and> http_exec env t c s = (s', cmd_answer c h)
    \<and> kv_outbox s' = kv_outbox s @ raised c h"
proof -
  have p: "CHR ''/'' \<notin> set t" "CHR ''/'' \<notin> set (cmd_key c)" using assms(2) by (auto simp: cmd_ok_def plain_def)
  have "\<exists>s' h. cmd_route env c (cmd_request t c) s = (s', Reply h)"
  proof (cases c)
    case (Put k d)
    then show ?thesis
      using save_http[OF assms(1) p(1), of k d env] p(2) assms(2)
      by (auto simp: cmd_route_def cmd_request_def cmd_ok_def simp del: append.simps)
  next
    case (Get k)
    then show ?thesis
      using read_http[OF assms(1) p(1), of k env] p(2)
      by (auto simp: cmd_route_def cmd_request_def simp del: append.simps)
  next
    case (Del k)
    then show ?thesis
      using free_http[OF assms(1) p(1), of k] p(2)
      by (auto simp: cmd_route_def cmd_request_def simp del: append.simps)
  qed
  then obtain s' h where r: "cmd_route env c (cmd_request t c) s = (s', Reply h)" by blast
  then have e: "http_exec env t c s = (s', cmd_answer c h)"
    by (cases c) (simp_all add: cmd_route_def cmd_request_def cmd_answer_def and_reply_def del: append.simps)
  have ob: "kv_outbox s' = kv_outbox s @ raised c h"
  proof (cases c)
    case (Put k d)
    obtain s1 where "route_AsyncSave env (cmd_request t c) s = (s1, Reply (http_ok (bytes_of_string ''save'')))"
      using save_http[OF assms(1) p(1), of k d env] p(2) assms(2) Put
      by (auto simp: cmd_request_def cmd_ok_def simp del: append.simps)
    then have h: "hr_status h = 200" using r Put by (auto simp: cmd_route_def)
    then show ?thesis
      using save_outbox[OF _ _ r[unfolded cmd_route_def cmd_request_def Put kv_cmd.case] h, of t k d] Put p
        parseArgs_path[of t k "''save''"]
      by (simp add: raised_def del: append.simps)
  next
    case (Get k)
    then show ?thesis
      using read_outbox[OF _ r[unfolded cmd_route_def cmd_request_def Get kv_cmd.case]] p parseArgs_path[of t k "''read''"]
      by (simp add: raised_def del: append.simps)
  next
    case (Del k)
    then show ?thesis
      using free_outbox[OF _ r[unfolded cmd_route_def cmd_request_def Del kv_cmd.case]] p parseArgs_path[of t k "''free''"]
      by (simp add: raised_def del: append.simps)
  qed
  show ?thesis using r e ob by auto
qed
text \<open>Table and key names that a clean path can hold.\<close>

definition segment :: "string \<Rightarrow> bool" where
  "segment w \<longleftrightarrow> plain w \<and> w \<noteq> ''.'' \<and> w \<noteq> ''..''"

definition api_ok :: "string \<Rightarrow> kv_cmd \<Rightarrow> bool" where
  "api_ok t c \<longleftrightarrow> segment t \<and> segment (cmd_key c) \<and> cmd_fits c"

lemma api_ok_cmd: "api_ok t c \<Longrightarrow> cmd_ok t c"
  by (simp add: api_ok_def cmd_ok_def segment_def)

lemma split_path:
  "CHR ''/'' \<notin> set ep \<Longrightarrow> CHR ''/'' \<notin> set t \<Longrightarrow> CHR ''/'' \<notin> set k \<Longrightarrow>
   split_char (CHR ''/'') (''/'' @ ep @ ''/'' @ t @ ''/'' @ k) = [[], ep, t, k]"
  by (simp add: split_char_append split_char_clean)

lemma clean_table_path:
  assumes "segment ep" "segment t" "segment k"
  shows "clean_path (''/'' @ ep @ ''/'' @ t @ ''/'' @ k)"
proof -
  have "split_char (CHR ''/'') (''/'' @ ep @ ''/'' @ t @ ''/'' @ k) = [[], ep, t, k]"
    by (rule split_path) (use assms in \<open>simp_all add: segment_def plain_def\<close>)
  then show ?thesis using assms by (simp add: clean_path_def segment_def plain_def)
qed

lemma segment_routes [simp]: "segment ''save''" "segment ''read''" "segment ''free''"
  by (simp_all add: segment_def plain_def)

lemma serve_table_path:
  assumes "segment t" "segment k"
  shows "rq_path r = ''/'' @ ''save'' @ ''/'' @ t @ ''/'' @ k \<Longrightarrow>
      serveHTTP env a r sv = withClient a (\<lambda>r. on_kv Http (route_AsyncSave (ae_kv env) r)) r sv"
    and "rq_path r = ''/'' @ ''read'' @ ''/'' @ t @ ''/'' @ k \<Longrightarrow>
      serveHTTP env a r sv = withClient a (\<lambda>r. on_kv Http (route_AsyncRead (ae_kv env) r)) r sv"
    and "rq_path r = ''/'' @ ''free'' @ ''/'' @ t @ ''/'' @ k \<Longrightarrow>
      serveHTTP env a r sv = withClient a (\<lambda>r. on_kv Http (route_Free r)) r sv"
proof -
  assume p: "rq_path r = ''/'' @ ''save'' @ ''/'' @ t @ ''/'' @ k"
  have "clean_path (rq_path r)" unfolding p by (rule clean_table_path[OF segment_routes(1) assms])
  then show "serveHTTP env a r sv = withClient a (\<lambda>r. on_kv Http (route_AsyncSave (ae_kv env) r)) r sv"
    by (simp add: serveHTTP_def p exact_routes_def subtree_routes_def)
next
  assume p: "rq_path r = ''/'' @ ''read'' @ ''/'' @ t @ ''/'' @ k"
  have "clean_path (rq_path r)" unfolding p by (rule clean_table_path[OF segment_routes(2) assms])
  then show "serveHTTP env a r sv = withClient a (\<lambda>r. on_kv Http (route_AsyncRead (ae_kv env) r)) r sv"
    by (simp add: serveHTTP_def p exact_routes_def subtree_routes_def)
next
  assume p: "rq_path r = ''/'' @ ''free'' @ ''/'' @ t @ ''/'' @ k"
  have "clean_path (rq_path r)" unfolding p by (rule clean_table_path[OF segment_routes(3) assms])
  then show "serveHTTP env a r sv = withClient a (\<lambda>r. on_kv Http (route_Free r)) r sv"
    by (simp add: serveHTTP_def p exact_routes_def subtree_routes_def)
qed

lemma withClient_on_kv:
  "c r (sv_kv sv) = (k, Reply x) \<Longrightarrow> withClient a (\<lambda>r. on_kv f (c r)) r sv =
    ((set_kv k sv)\<lparr>sv_metrics := recordRequest (ar_duration a) (ar_now a) (sv_metrics sv)\<rparr>, Reply (f x))"
  by (simp add: withClient_def on_kv_def set_kv_def)

lemma api_serves:
  assumes "kv_inv t (sv_kv sv)" "api_ok t c"
  shows "\<exists>k h. serveHTTP env a (cmd_request t c) sv =
      ((set_kv k sv)\<lparr>sv_metrics := recordRequest (ar_duration a) (ar_now a) (sv_metrics sv)\<rparr>, Reply (Http h))
    \<and> http_exec (ae_kv env) t c (sv_kv sv) = (k, cmd_answer c h) \<and> kv_outbox k = kv_outbox (sv_kv sv) @ raised c h"
proof -
  obtain k h where r: "cmd_route (ae_kv env) c (cmd_request t c) (sv_kv sv) = (k, Reply h)"
    "http_exec (ae_kv env) t c (sv_kv sv) = (k, cmd_answer c h)" "kv_outbox k = kv_outbox (sv_kv sv) @ raised c h"
    using cmd_route_served[OF assms(1) api_ok_cmd[OF assms(2)], of "ae_kv env"] by blast
  have seg: "segment t" "segment (cmd_key c)" using assms(2) by (simp_all add: api_ok_def)
  have "serveHTTP env a (cmd_request t c) sv = withClient a (\<lambda>r. on_kv Http (cmd_route (ae_kv env) c r)) (cmd_request t c) sv"
    using serve_table_path[OF seg] by (cases c) (simp_all add: cmd_request_def cmd_route_def del: append.simps)
  then show ?thesis using withClient_on_kv[of "cmd_route (ae_kv env) c" "cmd_request t c" sv k h a Http, OF r(1)] r by auto
qed
section \<open>Runs of the server\<close>

text \<open>
  What happens at the clients of the subscription server between two requests, and what they are sent
  by it: none of these messages announces a change.
\<close>

inductive client_step :: "subs \<Rightarrow> subs \<Rightarrow> bool" where
  enabled: "keys \<noteq> [] \<Longrightarrow> client_step st (enable uuid keys st)"
| expired: "client_step st (ttl_expire uuid st)"
| time: "client_step st (st\<lparr>sb_now := sb_now st + n\<rparr>)"
| connected: "client_step st (ws_connect c st)"
| message: "client_step st (ws_message c msg st)"
| disconnected: "client_step st (ws_disconnect c st)"
| breaks: "client_step st (st\<lparr>sb_broken := (sb_broken st)(c := True)\<rparr>)"
| pinged: "client_step st (ping_tick c st)"

fun tells_change :: "conn \<times> sub_event \<Rightarrow> bool" where
  "tells_change (c, Updated k d) = True"
| "tells_change (c, Deleted k) = True"
| "tells_change _ = False"

text \<open>The messages with data, and those that a key was freed, a connection was sent.\<close>

definition news :: "conn \<Rightarrow> subs \<Rightarrow> (conn \<times> sub_event) list" where
  "news c st = filter (\<lambda>m. fst m = c \<and> tells_change m) (sb_sent st)"

lemma client_sub_step: "client_step st st' \<Longrightarrow> sub_step st st'"
  by (induction rule: client_step.induct) (auto intro: sub_step.intros)

lemma link_sent [simp]: "sb_sent (link c k st) = sb_sent st"
  by (simp add: link_def Let_def)

lemma fold_link_sent [simp]: "sb_sent (fold (link c) ks st) = sb_sent st"
  by (induction ks arbitrary: st) simp_all

lemma cleanup_sent [simp]: "sb_sent (cleanupConn c st) = sb_sent st"
  by (simp add: cleanupConn_def Let_def split: option.split)

lemma client_sends_no_news: "client_step st st' \<Longrightarrow> news c st' = news c st"
  by (induction rule: client_step.induct)
     (auto simp: news_def enable_def ttl_expire_def ws_connect_def ws_message_def ws_disconnect_def ping_tick_def
        writeJSON_def Let_def split: option.split)

text \<open>The key of an announcement and the message its receivers get.\<close>

fun notice_key :: "notice \<Rightarrow> string" where
  "notice_key (NotifySubscribers key data) = key"
| "notice_key (NotifyDeleteAndRemove key) = key"

fun notice_event :: "notice \<Rightarrow> sub_event" where
  "notice_event (NotifySubscribers key data) = Updated key data"
| "notice_event (NotifyDeleteAndRemove key) = Deleted key"

text \<open>
  What happens: a request with its answer, an announcement with the connections that are subscribed to its
  key and open when its goroutine runs, or a step of the clients.
\<close>

datatype api_event = Request string kv_cmd http_response | Announced notice "conn set" | Client

text \<open>Requests on some tables, announcements in any order, and clients, in any interleaving.\<close>

inductive api_step :: "api_env \<Rightarrow> string set \<Rightarrow> server \<Rightarrow> api_event \<Rightarrow> server \<Rightarrow> bool" for env T where
  request: "t \<in> T \<Longrightarrow> api_ok t c \<Longrightarrow> serveHTTP env a (cmd_request t c) sv = (sv', Reply (Http h)) \<Longrightarrow>
    api_step env T sv (Request t c h) sv'"
| announced: "i < length (kv_outbox (sv_kv sv)) \<Longrightarrow>
    n = kv_outbox (sv_kv sv) ! i \<Longrightarrow>
    api_step env T sv (Announced n (reached (sv_subs sv) (notice_key n))) (deliver env i sv)"
| client: "client_step (sv_subs sv) st \<Longrightarrow> api_step env T sv Client (sv\<lparr>sv_subs := st\<rparr>)"

inductive api_run :: "api_env \<Rightarrow> string set \<Rightarrow> server \<Rightarrow> api_event list \<Rightarrow> server \<Rightarrow> bool" for env T where
  none: "api_run env T sv [] sv"
| more: "api_step env T sv e sv1 \<Longrightarrow> api_run env T sv1 es sv' \<Longrightarrow> api_run env T sv (e # es) sv'"

inductive_cases api_run_ConsE: "api_run env T sv (e # es) sv'"
inductive_simps api_run_Nil [simp]: "api_run env T sv [] sv'"

fun commands :: "api_event list \<Rightarrow> (string \<times> front \<times> kv_cmd) list" where
  "commands [] = []"
| "commands (Request t c h # es) = (t, front.Http, c) # commands es"
| "commands (_ # es) = commands es"

fun answers :: "api_event list \<Rightarrow> kv_reply list" where
  "answers [] = []"
| "answers (Request t c h # es) = cmd_answer c h # answers es"
| "answers (_ # es) = answers es"

fun changes :: "api_event list \<Rightarrow> notice list" where
  "changes [] = []"
| "changes (Request t c h # es) = raised c h @ changes es"
| "changes (_ # es) = changes es"

fun announcements :: "api_event list \<Rightarrow> notice list" where
  "announcements [] = []"
| "announcements (Announced n cs # es) = n # announcements es"
| "announcements (_ # es) = announcements es"

text \<open>What the announcements of a run are to tell a connection.\<close>

fun told :: "conn \<Rightarrow> api_event list \<Rightarrow> (conn \<times> sub_event) list" where
  "told c [] = []"
| "told c (Announced n cs # es) = (if c \<in> cs then (c, notice_event n) # told c es else told c es)"
| "told c (_ # es) = told c es"

lemma mset_drop_nth: "i < length xs \<Longrightarrow> add_mset (xs ! i) (mset (drop_nth i xs)) = mset xs"
proof -
  assume i: "i < length xs"
  then have "mset xs = mset (take i xs @ xs ! i # drop (Suc i) xs)" by (simp add: id_take_nth_drop[symmetric])
  then show ?thesis by (simp add: drop_nth_def)
qed

lemma set_kv_simps [simp]:
  "sv_kv (set_kv k sv) = k" "sv_subs (set_kv k sv) = sv_subs sv" "sv_metrics (set_kv k sv) = sv_metrics sv"
  by (simp_all add: set_kv_def)

text \<open>An announcement and its receivers.\<close>

lemma announce_spec:
  assumes "sub_inv st"
  shows "sub_inv (announce it n st)"
    and "\<exists>conns. distinct conns \<and> set conns = reached st (notice_key n)
      \<and> sb_sent (announce it n st) = sb_sent st @ map (\<lambda>c. (c, notice_event n)) conns"
  using payload_spec(1,2)[OF assms] delete_spec[OF assms]
  by (auto simp: announce_def notifySubscribers_def split: notice.split)

lemma filter_receiver:
  "distinct conns \<Longrightarrow> filter (\<lambda>m. fst m = c \<and> P (snd m)) (map (\<lambda>x. (x, v)) conns) = (if c \<in> set conns \<and> P v then [(c, v)] else [])"
  by (induction conns) auto

lemma announce_news:
  assumes "sub_inv st"
  shows "news c (announce it n st) = news c st @ told c [Announced n (reached st (notice_key n))]"
proof -
  obtain conns where a: "distinct conns" "set conns = reached st (notice_key n)"
    "sb_sent (announce it n st) = sb_sent st @ map (\<lambda>c. (c, notice_event n)) conns"
    using announce_spec(2)[OF assms, of n it] by blast
  have t: "tells_change (x, notice_event n)" for x by (cases n) simp_all
  have e: "filter (\<lambda>m. fst m = c \<and> tells_change m) (map (\<lambda>x. (x, notice_event n)) conns)
      = filter (\<lambda>m. fst m = c \<and> True) (map (\<lambda>x. (x, notice_event n)) conns)"
    by (rule filter_cong) (auto simp: t)
  show ?thesis
    using filter_receiver[OF a(1), of c "\<lambda>_. True" "notice_event n"] a(2)
    unfolding news_def a(3) filter_append e by simp
qed

section \<open>The server refines a map with exact announcements\<close>

text \<open>The relation between the states before and after a run, in terms of its events.\<close>

definition run_sound :: "api_env \<Rightarrow> string set \<Rightarrow> server \<Rightarrow> api_event list \<Rightarrow> server \<Rightarrow> bool" where
  "run_sound env T sv es sv' \<longleftrightarrow> tables_inv T (sv_kv sv') \<and> sub_inv (sv_subs sv')
    \<and> run_cmds (table_spec (ae_kv env)) (commands es) (tables_abs T (sv_kv sv)) = (tables_abs T (sv_kv sv'), answers es)
    \<and> mset (kv_outbox (sv_kv sv')) + mset (announcements es) = mset (kv_outbox (sv_kv sv)) + mset (changes es)
    \<and> mx_requestCount (sv_metrics sv') = mx_requestCount (sv_metrics sv) + word_of_nat (length (commands es))
    \<and> (\<forall>c. news c (sv_subs sv') = news c (sv_subs sv) @ told c es)"

lemma tables_outbox [simp]:
  "tables_inv T (s\<lparr>kv_outbox := ns\<rparr>) = tables_inv T s" "tables_abs T (s\<lparr>kv_outbox := ns\<rparr>) = tables_abs T s"
  by (simp_all add: tables_inv_def kv_named_def tables_abs_def fun_eq_iff)

definition all_apart :: "string set \<Rightarrow> bool" where
  "all_apart T \<longleftrightarrow> (\<forall>t \<in> T. \<forall>u \<in> T. t \<noteq> u \<longrightarrow> kept_apart t u)"

lemma api_step_sound:
  assumes "api_step env T sv e sv'" "tables_inv T (sv_kv sv)" "sub_inv (sv_subs sv)" and apart: "all_apart T"
  shows "run_sound env T sv [e] sv'"
  using assms(1-3)
proof (cases rule: api_step.cases)
  case (request t c a h)
  have i: "kv_inv t (sv_kv sv)" using assms(2) request(2) by (simp add: tables_inv_def)
  obtain k h' where s: "serveHTTP env a (cmd_request t c) sv =
      ((set_kv k sv)\<lparr>sv_metrics := recordRequest (ar_duration a) (ar_now a) (sv_metrics sv)\<rparr>, Reply (Http h'))"
    "http_exec (ae_kv env) t c (sv_kv sv) = (k, cmd_answer c h')" "kv_outbox k = kv_outbox (sv_kv sv) @ raised c h'"
    using api_serves[OF i request(3), of env a] by blast
  have e: "h' = h" "sv' = (set_kv k sv)\<lparr>sv_metrics := recordRequest (ar_duration a) (ar_now a) (sv_metrics sv)\<rparr>"
    using s(1) request(4) by auto
  then have f: "sv_kv sv' = k" "sv_subs sv' = sv_subs sv"
    "mx_requestCount (sv_metrics sv') = mx_requestCount (sv_metrics sv) + 1"
    by (simp_all add: recordRequest_def Let_def set_kv_def)
  note st = table_step[OF _ assms(2) request(2) api_ok_cmd[OF request(3)], of "ae_kv env" front.Http, unfolded any_exec.simps s(2) fst_conv snd_conv]
  have "tables_inv T k" "table_spec (ae_kv env) (t, front.Http, c) (tables_abs T (sv_kv sv)) = (tables_abs T k, cmd_answer c h')"
    using st apart unfolding all_apart_def by blast+
  then show ?thesis using s(3) assms(3) unfolding run_sound_def f request(1) e(1) by (simp del: table_spec.simps)
next
  case (announced i)
  let ?n = "kv_outbox (sv_kv sv) ! i"
  have d: "sv_subs sv' = announce (ae_range env) ?n (sv_subs sv)" "sv_metrics sv' = sv_metrics sv"
    "sv_kv sv' = (sv_kv sv)\<lparr>kv_outbox := drop_nth i (kv_outbox (sv_kv sv))\<rparr>"
    using announced by (simp_all add: deliver_def Let_def set_kv_def)
  have sub: "sub_inv (sv_subs sv')" unfolding d(1) by (rule announce_spec(1)[OF assms(3)])
  have sent: "news c (sv_subs sv') = news c (sv_subs sv) @ told c [e]" for c
    using announce_news[OF assms(3)] announced(1,4) by (simp add: d(1))
  have "mset (kv_outbox (sv_kv sv')) + {#?n#} = mset (kv_outbox (sv_kv sv))"
    using mset_drop_nth[OF announced(3)] by (simp add: d(3))
  then have o: "mset (kv_outbox (sv_kv sv')) + mset (announcements [e]) = mset (kv_outbox (sv_kv sv)) + mset (changes [e])"
    using announced(1,4) by simp
  have k: "tables_inv T (sv_kv sv')" "tables_abs T (sv_kv sv') = tables_abs T (sv_kv sv)" using assms(2) by (simp_all add: d(3))
  have e: "commands [e] = []" "answers [e] = []" using announced(1) by simp_all
  show ?thesis unfolding run_sound_def e using sub k(1) sent o by (simp add: k(2) d(2))
next
  case (client st)
  have "sub_inv st" by (rule sub_step_inv[OF client_sub_step[OF client(3)] assms(3)])
  moreover have "news c st = news c (sv_subs sv)" for c by (rule client_sends_no_news[OF client(3)])
  ultimately show ?thesis using client(1,2) assms(2) unfolding run_sound_def by simp
qed
lemma events_Cons:
  "commands (e # es) = commands [e] @ commands es" "answers (e # es) = answers [e] @ answers es"
  "changes (e # es) = changes [e] @ changes es" "announcements (e # es) = announcements [e] @ announcements es"
  "told c (e # es) = told c [e] @ told c es"
  by (cases e; simp)+

lemma run_sound_Cons:
  assumes a: "run_sound env T sv [e] sv1" and b: "run_sound env T sv1 es sv'"
  shows "run_sound env T sv (e # es) sv'"
proof -
  have m: "mset (kv_outbox (sv_kv sv1)) + mset (announcements [e]) = mset (kv_outbox (sv_kv sv)) + mset (changes [e])"
    "mset (kv_outbox (sv_kv sv')) + mset (announcements es) = mset (kv_outbox (sv_kv sv1)) + mset (changes es)"
    using a b by (simp_all add: run_sound_def)
  have "mset (kv_outbox (sv_kv sv')) + mset (announcements (e # es))
      = mset (announcements [e]) + (mset (kv_outbox (sv_kv sv1)) + mset (changes es))"
    unfolding events_Cons(4)[of e es] mset_append using m(2) by (simp add: ac_simps)
  also have "\<dots> = mset (kv_outbox (sv_kv sv)) + mset (changes (e # es))"
    unfolding events_Cons(3)[of e es] mset_append using m(1) by (metis add.assoc add.commute)
  finally have o: "mset (kv_outbox (sv_kv sv')) + mset (announcements (e # es))
      = mset (kv_outbox (sv_kv sv)) + mset (changes (e # es))" .
  have c: "run_cmds (table_spec (ae_kv env)) (commands (e # es)) (tables_abs T (sv_kv sv))
      = (tables_abs T (sv_kv sv'), answers (e # es))"
    using a b unfolding events_Cons(1,2)[of e es] run_cmds_append by (simp add: run_sound_def)
  have n: "mx_requestCount (sv_metrics sv') = mx_requestCount (sv_metrics sv) + word_of_nat (length (commands (e # es)))"
    using a b unfolding events_Cons(1)[of e es] by (simp add: run_sound_def ac_simps)
  have s: "news x (sv_subs sv') = news x (sv_subs sv) @ told x (e # es)" for x
    using a b unfolding events_Cons(5)[of x e es] by (simp add: run_sound_def)
  show ?thesis using b c o n s by (simp add: run_sound_def)
qed

lemma api_run_sound:
  "api_run env T sv es sv' \<Longrightarrow> all_apart T \<Longrightarrow> tables_inv T (sv_kv sv) \<Longrightarrow> sub_inv (sv_subs sv) \<Longrightarrow> run_sound env T sv es sv'"
proof (induction rule: api_run.induct)
  case (none sv)
  then show ?case by (simp add: run_sound_def)
next
  case (more sv e sv1 es sv')
  have s: "run_sound env T sv [e] sv1" by (rule api_step_sound[OF more.hyps(1) more.prems(2,3,1)])
  then have "tables_inv T (sv_kv sv1)" "sub_inv (sv_subs sv1)" by (simp_all add: run_sound_def)
  then show ?case by (rule run_sound_Cons[OF s more.IH[OF more.prems(1)]])
qed

text \<open>
  C1: The server as a whole. In any interleaving of requests on tables whose names keep them apart,
  of the goroutines that announce their changes in whatever order, and of what the clients of the
  subscription server do: the answers are those of one map for each table, asking the peers for absent keys;
  every successful save and free raises exactly one announcement, which is pending or has run, and nothing
  else does; the messages with data, and those that a key was freed, that a connection is sent are exactly
  those of the announcements that ran while it was subscribed to their key and open, once each and in the
  order they ran; and every request is counted once.
\<close>

theorem api_run_refines:
  assumes "all_apart T" and "tables_inv T (sv_kv sv)" and "sub_inv (sv_subs sv)" and "api_run env T sv es sv'"
  shows "run_cmds (table_spec (ae_kv env)) (commands es) (tables_abs T (sv_kv sv)) = (tables_abs T (sv_kv sv'), answers es)
    \<and> mset (kv_outbox (sv_kv sv')) + mset (announcements es) = mset (kv_outbox (sv_kv sv)) + mset (changes es)
    \<and> (\<forall>c. news c (sv_subs sv') = news c (sv_subs sv) @ told c es)
    \<and> mx_requestCount (sv_metrics sv') = mx_requestCount (sv_metrics sv) + word_of_nat (length (commands es))
    \<and> tables_inv T (sv_kv sv') \<and> sub_inv (sv_subs sv')"
  using api_run_sound[OF assms(4,1-3)] unfolding run_sound_def by blast

text \<open>An update that is announced while a subscriber is connected is the next message it gets.\<close>

lemma announced_update:
  assumes "sub_inv st" "c \<in> reached st k"
  shows "filter (\<lambda>m. fst m = c) (sb_sent (announce it (NotifySubscribers k d) st))
      = filter (\<lambda>m. fst m = c) (sb_sent st) @ [(c, Updated k d)]"
    and "c \<in> reached (announce it (NotifySubscribers k d) st) k"
proof -
  show "filter (\<lambda>m. fst m = c) (sb_sent (announce it (NotifySubscribers k d) st))
      = filter (\<lambda>m. fst m = c) (sb_sent st) @ [(c, Updated k d)]"
  proof -
    obtain conns where "distinct conns" "set conns = reached st k"
      "sb_sent (announce it (NotifySubscribers k d) st) = sb_sent st @ map (\<lambda>c. (c, Updated k d)) conns"
      using announce_spec(2)[OF assms(1), of "NotifySubscribers k d" it] by auto
    then show ?thesis using filter_receiver[of conns c "\<lambda>_. True" "Updated k d"] assms(2) by simp
  qed
  show "c \<in> reached (announce it (NotifySubscribers k d) st) k"
    using payload_spec(3,4)[OF assms(1)] assms(2) by (auto simp: announce_def notifySubscribers_def reached_def)
qed

lemma announced_step:
  assumes "kv_outbox (sv_kv sv) = ns" "i < length ns" "ns ! i = n" "reached (sv_subs sv) (notice_key n) = cs"
  shows "api_step env T sv (Announced n cs) (deliver env i sv)"
proof -
  have "i < length (kv_outbox (sv_kv sv))" "n = kv_outbox (sv_kv sv) ! i" using assms(1-3) by simp_all
  from api_step.announced[OF this] show ?thesis unfolding assms(4) .
qed

lemma put_step:
  assumes "kv_inv t (sv_kv sv)" "api_ok t (Put k d)" "t \<in> T"
  shows "\<exists>sv' h. api_step env T sv (Request t (Put k d) h) sv' \<and> kv_inv t (sv_kv sv') \<and> sv_subs sv' = sv_subs sv
    \<and> kv_outbox (sv_kv sv') = kv_outbox (sv_kv sv) @ [NotifySubscribers k d] \<and> kv_abs (sv_kv sv') t k = Some d"
proof -
  define a where "a = \<lparr>ar_duration = 0, ar_now = 0, ar_uuid = [], ar_random = None\<rparr>"
  obtain s h where s: "serveHTTP env a (cmd_request t (Put k d)) sv =
      ((set_kv s sv)\<lparr>sv_metrics := recordRequest (ar_duration a) (ar_now a) (sv_metrics sv)\<rparr>, Reply (Http h))"
    "http_exec (ae_kv env) t (Put k d) (sv_kv sv) = (s, cmd_answer (Put k d) h)"
    "kv_outbox s = kv_outbox (sv_kv sv) @ raised (Put k d) h"
    using api_serves[OF assms(1,2)] by blast
  note st = http.step[OF assms(1) api_ok_cmd[OF assms(2)], of "ae_kv env", unfolded s(2) fst_conv snd_conv]
  let ?sv = "(set_kv s sv)\<lparr>sv_metrics := recordRequest (ar_duration a) (ar_now a) (sv_metrics sv)\<rparr>"
  have "hr_status h = 200" using st by (auto simp: cmd_answer_def of_status_def split: if_splits)
  then have o: "kv_outbox s = kv_outbox (sv_kv sv) @ [NotifySubscribers k d]" using s(3) by (simp add: raised_def)
  have "(kv_abs (sv_kv sv) t)(k \<mapsto> d) = kv_abs s t" using st by simp
  then have v: "kv_abs s t k = Some d" by (metis fun_upd_same)
  have f: "sv_kv ?sv = s" "sv_subs ?sv = sv_subs sv" by (simp_all add: set_kv_def)
  show ?thesis
    using api_step.request[OF assms(3,2) s(1)] conjunct1[OF st] o v f by (intro exI[of _ ?sv] exI[of _ h]) (simp only: simp_thms)
qed

text \<open>
  C32: The announcements of two saves of one key can run in the opposite order: after both requests have
  been answered and nothing is pending, the store holds the new value while the last message a subscriber
  got carries the old one.
\<close>

theorem api_updates_reorder:
  assumes "kv_inv t (sv_kv sv)" and "sub_inv (sv_subs sv)" and "kv_outbox (sv_kv sv) = []"
    and "api_ok t (Put k old)" and "api_ok t (Put k new)" and "(c, k) \<in> subs_rel (sv_subs sv)" and "\<not> sb_broken (sv_subs sv) c"
  shows "\<exists>es sv'. api_run env {t} sv es sv' \<and> commands es = [(t, front.Http, Put k old), (t, front.Http, Put k new)] \<and> kv_abs (sv_kv sv') t k = Some new
    \<and> kv_outbox (sv_kv sv') = []
    \<and> filter (\<lambda>m. fst m = c) (sb_sent (sv_subs sv'))
        = filter (\<lambda>m. fst m = c) (sb_sent (sv_subs sv)) @ [(c, Updated k new), (c, Updated k old)]"
proof -
  obtain s1 h1 where s1: "api_step env {t} sv (Request t (Put k old) h1) s1" "kv_inv t (sv_kv s1)"
    "sv_subs s1 = sv_subs sv" "kv_outbox (sv_kv s1) = [NotifySubscribers k old]"
    using put_step[OF assms(1,4) singletonI, where env = env] unfolding assms(3) append_Nil by blast
  obtain s2 h2 where s2: "api_step env {t} s1 (Request t (Put k new) h2) s2" "sv_subs s2 = sv_subs sv"
    "kv_outbox (sv_kv s2) = [NotifySubscribers k old, NotifySubscribers k new]" "kv_abs (sv_kv s2) t k = Some new"
    using put_step[OF s1(2) assms(5) singletonI, where env = env] unfolding s1(3,4) append.simps by blast
  define s3 where "s3 = deliver env 1 s2"
  define s4 where "s4 = deliver env 0 s3"
  have e3: "api_step env {t} s2 (Announced (NotifySubscribers k new) (reached (sv_subs s2) k)) s3"
    unfolding s3_def by (rule announced_step[OF s2(3)]) simp_all
  have o3: "kv_outbox (sv_kv s3) = [NotifySubscribers k old]" "kv_abs (sv_kv s3) t = kv_abs (sv_kv s2) t"
    "sv_subs s3 = announce (ae_range env) (NotifySubscribers k new) (sv_subs sv)"
    using s2(2,3) by (simp_all add: s3_def deliver_def set_kv_def drop_nth_def Let_def)
  have e4: "api_step env {t} s3 (Announced (NotifySubscribers k old) (reached (sv_subs s3) k)) s4"
    unfolding s4_def by (rule announced_step[OF o3(1)]) simp_all
  have o4: "kv_outbox (sv_kv s4) = []" "kv_abs (sv_kv s4) t = kv_abs (sv_kv s3) t"
    "sv_subs s4 = announce (ae_range env) (NotifySubscribers k old) (sv_subs s3)"
    using o3(1) by (simp_all add: s4_def deliver_def set_kv_def drop_nth_def Let_def)
  have r: "c \<in> reached (sv_subs sv) k" using assms(6,7) by (simp add: reached_def)
  note a = announced_update[OF assms(2) r, of "ae_range env" new]
  have i: "sub_inv (sv_subs s3)" unfolding o3(3) by (rule announce_spec(1)[OF assms(2)])
  have "filter (\<lambda>m. fst m = c) (sb_sent (sv_subs s4))
      = filter (\<lambda>m. fst m = c) (sb_sent (sv_subs sv)) @ [(c, Updated k new), (c, Updated k old)]"
    using announced_update(1)[OF i, of c k "ae_range env" old] a by (simp add: o4(3) o3(3))
  moreover have "api_run env {t} sv [Request t (Put k old) h1, Request t (Put k new) h2,
      Announced (NotifySubscribers k new) (reached (sv_subs s2) k),
      Announced (NotifySubscribers k old) (reached (sv_subs s3) k)] s4"
    using s1(1) s2(1) e3 e4 by (blast intro: api_run.intros)
  ultimately show ?thesis using o4(1,2) o3(2) s2(4) by fastforce
qed

section \<open>A concrete server\<close>

definition demo_api :: api_env where
  "demo_api = \<lparr>ae_kv = demo_env, ae_range = (\<lambda>xs. xs), ae_sort = (\<lambda>xs. xs), ae_keys = (\<lambda>_. None), ae_key = (\<lambda>_. []),
     ae_sql = (\<lambda>_. None)\<rparr>"

definition demo_server :: server where
  "demo_server = \<lparr>sv_ist = \<lparr>ist_kv = fresh_kv, ist_ix = ix_start, ist_out = []\<rparr>, sv_subs = demo_subs, sv_net = None,
     sv_metrics = init_metrics 0, sv_sql = empty_disk\<rparr>"
lemma demo_server_ok:
  "kv_inv ''t'' (sv_kv demo_server)" "kv_abs (sv_kv demo_server) ''t'' = Map.empty" "sub_inv (sv_subs demo_server)"
  "kv_outbox (sv_kv demo_server) = []" "(7, ''a'') \<in> subs_rel (sv_subs demo_server)" "\<not> sb_broken (sv_subs demo_server) 7"
proof -
  have k: "sv_kv demo_server = fresh_kv" "sv_subs demo_server = demo_subs" by (simp_all add: demo_server_def)
  have "trim_space ''t'' \<noteq> []" by code_simp
  from fresh_inv[OF this] show "kv_inv ''t'' (sv_kv demo_server)" "kv_abs (sv_kv demo_server) ''t'' = Map.empty"
    unfolding k .
  show "sub_inv (sv_subs demo_server)" unfolding k by (rule sub_reach_inv[OF demo_subs_reach])
  show "kv_outbox (sv_kv demo_server) = []" unfolding k by (simp add: fresh_kv_def)
  have m: "sb_connToKeys demo_subs = [(7, [''b'', ''a''])]" by code_simp
  show "(7, ''a'') \<in> subs_rel (sv_subs demo_server)" unfolding k subs_rel_def m keyset_def by simp
  show "\<not> sb_broken (sv_subs demo_server) 7" unfolding k by code_simp
qed

lemma demo_put_ok: "api_ok ''t'' (Put ''a'' [x])" "api_ok ''u'' (Put ''a'' [x])"
  by (simp_all add: api_ok_def segment_def plain_def kv_fits_def max_alloc_def)

lemma demo_tables_apart: "all_apart {''t'', ''u''}"
proof -
  have "kept_apart ''t'' ''u''" by code_simp
  then show ?thesis using kept_apart_sym by (auto simp: all_apart_def)
qed

lemma demo_tables_ok:
  "tables_inv {''t'', ''u''} (sv_kv demo_server)" "tables_abs {''t'', ''u''} (sv_kv demo_server) = (\<lambda>_. Map.empty)"
proof -
  have tr: "trim_space t \<noteq> []" if "t \<in> {''t'', ''u''}" for t using that by (auto; code_simp)
  have k: "sv_kv demo_server = fresh_kv" by (simp add: demo_server_def)
  show "tables_inv {''t'', ''u''} (sv_kv demo_server)" unfolding k by (rule fresh_tables[OF tr])
  show "tables_abs {''t'', ''u''} (sv_kv demo_server) = (\<lambda>_. Map.empty)" unfolding k by (rule fresh_tables_abs[OF tr])
qed

text \<open>
  One key saved in two tables, and the announcement of the first save: connection 7, which is subscribed
  to the key, is told, connection 8 is not.
\<close>

lemma api_run_refines_witness:
  "\<exists>es sv'. api_run demo_api {''t'', ''u''} demo_server es sv'
    \<and> commands es = [(''t'', front.Http, Put ''a'' [1]), (''u'', front.Http, Put ''a'' [2])] \<and> answers es = [Stored, Stored]
    \<and> kv_abs (sv_kv sv') ''t'' ''a'' = Some [1] \<and> kv_abs (sv_kv sv') ''u'' ''a'' = Some [2]
    \<and> kv_outbox (sv_kv sv') = [NotifySubscribers ''a'' [2]]
    \<and> news 7 (sv_subs sv') = [(7, Updated ''a'' [1])] \<and> news 8 (sv_subs sv') = []"
proof -
  let ?T = "{''t'', ''u''}"
  have inv: "kv_inv ''t'' (sv_kv demo_server)" using demo_tables_ok(1) by (simp add: tables_inv_def)
  obtain s1 h1 where s1: "api_step demo_api ?T demo_server (Request ''t'' (Put ''a'' [1]) h1) s1"
    "sv_subs s1 = sv_subs demo_server" "kv_outbox (sv_kv s1) = [NotifySubscribers ''a'' [1]]"
    using put_step[OF inv demo_put_ok(1), of ?T demo_api] unfolding demo_server_ok(4) append_Nil by blast
  have "tables_inv ?T (sv_kv s1)"
    using api_step_sound[OF s1(1) demo_tables_ok(1) demo_server_ok(3) demo_tables_apart] by (simp add: run_sound_def)
  then have inv1: "kv_inv ''u'' (sv_kv s1)" by (simp add: tables_inv_def)
  obtain s2 h2 where s2: "api_step demo_api ?T s1 (Request ''u'' (Put ''a'' [2]) h2) s2"
    "sv_subs s2 = sv_subs s1" "kv_outbox (sv_kv s2) = [NotifySubscribers ''a'' [1], NotifySubscribers ''a'' [2]]"
    using put_step[OF inv1 demo_put_ok(2), of ?T demo_api] unfolding s1(3) append.simps by blast
  let ?s3 = "deliver demo_api 0 s2"
  let ?R = "reached demo_subs ''a''"
  let ?es = "[Request ''t'' (Put ''a'' [1]) h1, Request ''u'' (Put ''a'' [2]) h2, Announced (NotifySubscribers ''a'' [1]) ?R]"
  have sub: "sv_subs demo_server = demo_subs" "sv_subs s2 = demo_subs" using s1(2) s2(2) by (simp_all add: demo_server_def)
  have "api_step demo_api ?T s2 (Announced (NotifySubscribers ''a'' [1]) ?R) ?s3"
    by (rule announced_step[OF s2(3)]) (simp_all add: sub(2))
  then have r: "api_run demo_api ?T demo_server ?es ?s3" using s1(1) s2(1) by (blast intro: api_run.intros)
  have o: "kv_outbox (sv_kv ?s3) = [NotifySubscribers ''a'' [2]]" using s2(3) by (simp add: deliver_def drop_nth_def Let_def)
  have "news 7 demo_subs = []" "news 8 demo_subs = []" "sb_connToKeys demo_subs = [(7, [''b'', ''a''])]" "\<not> sb_broken demo_subs 7"
    by code_simp+
  then have n: "news 7 demo_subs = []" "news 8 demo_subs = []" "7 \<in> ?R" "8 \<notin> ?R"
    by (simp_all add: reached_def subs_rel_def keyset_def)
  have "news c (sv_subs ?s3) = news c demo_subs @ told c ?es" for c
    using api_run_refines[OF demo_tables_apart demo_tables_ok(1) demo_server_ok(3) r] sub(1) by simp
  then have w: "news 7 (sv_subs ?s3) = [(7, Updated ''a'' [1])]" "news 8 (sv_subs ?s3) = []" using n by simp_all
  have "run_cmds (table_spec (ae_kv demo_api)) (commands ?es) (\<lambda>_. Map.empty) = (tables_abs ?T (sv_kv ?s3), answers ?es)"
    using api_run_refines[OF demo_tables_apart demo_tables_ok(1) demo_server_ok(3) r] demo_tables_ok(2) by argo
  then have a: "tables_abs ?T (sv_kv ?s3) = (\<lambda>_. Map.empty)(''t'' := [''a'' \<mapsto> [1]], ''u'' := [''a'' \<mapsto> [2]])"
    "answers ?es = [Stored, Stored]"
    by (auto simp: fun_upd_twist)
  have "tables_abs ?T (sv_kv ?s3) ''t'' ''a'' = Some [1]" "tables_abs ?T (sv_kv ?s3) ''u'' ''a'' = Some [2]"
    unfolding a(1) by simp_all
  then show ?thesis using r o a(2) w by (intro exI[of _ ?es] exI[of _ ?s3]) (simp add: tables_abs_def)
qed

lemma api_updates_reorder_witness:
  "\<exists>es sv'. api_run demo_api {''t''} demo_server es sv' \<and> kv_abs (sv_kv sv') ''t'' ''a'' = Some [2]
    \<and> (\<exists>before. filter (\<lambda>m. fst m = 7) (sb_sent (sv_subs sv')) = before @ [(7, Updated ''a'' [2]), (7, Updated ''a'' [1])])"
  using api_updates_reorder[OF demo_server_ok(1,3,4) demo_put_ok(1) demo_put_ok(1) demo_server_ok(5,6), where env = demo_api] by blast

end
