(* ===== verification/Store_Life.thy ===== *)
theory Store_Life
  imports Kv_Tables
begin

text \<open>
  The life of a store with several tables: commands of clients on any of them, the writers of their
  logs, snapshots, and restarts of the process, which all tables go through together.
\<close>

section \<open>Files in step beside a change\<close>

lemma paths_by_safeName:
  "ti_safeName ti = sanitizeTableName u \<Longrightarrow> walPath ti = walPath (emptyIndex u) \<and> snapPath ti = snapPath (emptyIndex u)"
  by (simp add: walPath_def snapPath_def)

lemma logged_files:
  assumes "logged u (fs, ti)" "\<forall>p \<in> index_files u. mf_files fs' p = mf_files fs p" "mf_denied fs' = mf_denied fs"
  shows "logged u (fs', ti)"
proof -
  have sf: "ti_safeName ti = sanitizeTableName u" using assms(1) by (simp add: logged_def)
  have "mf_files fs' (walPath ti) = mf_files fs (walPath ti)" "mf_files fs' (snapPath ti) = mf_files fs (snapPath ti)"
    using assms(2) paths_by_safeName[OF sf] by (simp_all add: index_files_def)
  then have "log_inv [] base ws bs (fs', ti) = log_inv [] base ws bs (fs, ti)" for base ws bs
    using assms(3) by (simp add: log_inv_def snapshot_of_def)
  then show ?thesis using assms(1,3) by (simp add: logged_def pend_ok_def)
qed

lemma newTableIndex_writes:
  assumes "newTableIndex fs u = Inr (fs', ti)"
  shows "fs' = fs\<lparr>mf_files := (mf_files fs)(walPath ti \<mapsto> (case mf_files fs (walPath ti) of None \<Rightarrow> [] | Some c \<Rightarrow> c))\<rparr>"
  using assms by (auto simp: newTableIndex_def Let_def setupWalWriter_def split: if_splits sum.splits)

lemma state_beside:
  assumes b: "maps_beside u mm mm'" and st: "table_state mm u = Some (fs, ti)" "logged u (fs, ti)"
  shows "\<exists>fs'. table_state mm' u = Some (fs', ti) \<and> logged u (fs', ti)"
proof -
  have tr: "normalizeTableName u = Inr u" "trim_space u \<noteq> []"
    using table_state_get[OF st(1)] by (auto simp: normalizeTableName_def)
  have e: "mm_registry mm' u = mm_registry mm u" "mf_denied (mm_fs mm') = mf_denied (mm_fs mm)"
    and f: "\<forall>p \<in> index_files u. mf_files (mm_fs mm') p = mf_files (mm_fs mm) p"
    using b by (simp_all add: maps_beside_def)
  show ?thesis
  proof (cases "mm_registry mm u")
    case (Some idx)
    then have "fs = mm_fs mm" "idx = ti" using table_state_loaded[OF tr(2) Some] st(1) by simp_all
    then show ?thesis using table_state_loaded[OF tr(2), of mm' ti] Some e logged_files[OF _ f e(2), of ti] st(2) by simp
  next
    case None
    then have n: "newTableIndex (mm_fs mm) u = Inr (fs, ti)"
      using st(1) by (auto simp: table_state_def getTableIndex_def tr split: sum.splits if_splits)
    then obtain fs' where n': "newTableIndex (mm_fs mm') u = Inr (fs', ti)"
      using newTableIndex_files[OF f e(2)] by (cases "newTableIndex (mm_fs mm') u") auto
    have "table_state mm' u = Some (fs', ti)"
      using None e(1) n' by (simp add: table_state_def getTableIndex_def tr)
    moreover have "walPath ti \<in> index_files u"
      using paths_by_safeName[OF newTableIndex_log(2)[OF n]] by (simp add: index_files_def)
    then have "\<forall>p \<in> index_files u. mf_files fs' p = mf_files fs p"
      using f unfolding newTableIndex_writes[OF n] newTableIndex_writes[OF n'] by simp
    then have "logged u (fs', ti)"
      by (rule logged_files[OF st(2)]) (simp add: newTableIndex_writes[OF n] newTableIndex_writes[OF n'] e(2))
    ultimately show ?thesis by blast
  qed
qed

lemma durable_beside:
  assumes "kv_beside u s s'" "durable u s"
  shows "durable u s'" "flushed u s' = flushed u s"
proof -
  obtain fs ti where st: "table_state (kv_maps s) u = Some (fs, ti)" "logged u (fs, ti)"
    using assms(2) by (auto simp: durable_def kv_logged_def)
  have "maps_beside u (kv_maps s) (kv_maps s')" using assms(1) by (simp add: kv_beside_def)
  from state_beside[OF this st] obtain fs' where f: "table_state (kv_maps s') u = Some (fs', ti)" "logged u (fs', ti)" by blast
  have "free_synced u (dd_defrag (kv_dir s'))"
    using assms by (simp add: durable_def free_synced_def kv_beside_def list_beside_def)
  then show "durable u s'" using f unfolding durable_def kv_logged_def by blast
  show "flushed u s' = flushed u s" using f(1) st(1) by (simp add: flushed_def)
qed

section \<open>The writer of a log and the other tables\<close>

lemma writer_exec_files:
  "p \<noteq> walPath ti \<Longrightarrow> p \<noteq> snapPath ti \<Longrightarrow> mf_files (fst (writer_exec e (fs, ti))) p = mf_files fs p"
  by (cases e) (simp_all add: walWriterReceive_def walWriterTick_def writeSnapshot_def snapshotFinish_def no_faults_def
      flushWal_def rotateWal_def writeWalLine_def walPath_def Let_def split: list.split)

lemma snapPath_not_legacy: "snapPath ti \<noteq> legacySnapPath" "snapPath ti \<noteq> legacyWalPath"
proof -
  have r: "take 6 (rev (snapPath ti)) = ''pans.x''" by (simp add: snapPath_def)
  show "snapPath ti \<noteq> legacySnapPath" "snapPath ti \<noteq> legacyWalPath"
    using r by (auto simp: legacySnapPath_def legacyWalPath_def)
qed

lemma snap_not_beside:
  assumes "kept_apart t u" "ti_safeName ti = sanitizeTableName t"
  shows "snapPath ti \<notin> index_files u"
proof -
  have "snapPath ti \<noteq> snapPath (emptyIndex u)" using assms tableDir_inj by (simp add: snapPath_def kept_apart_def)
  then show ?thesis using snapPath_not_legacy[of ti] by (simp add: index_files_def)
qed

lemma writer_beside:
  assumes e: "e = Receives \<or> e = Tick \<or> (\<exists>it. e = Snapshot it)" and n: "kv_named t s"
  shows "kv_named t (kv_writer e t s)" "kept_apart t u \<Longrightarrow> kv_beside u s (kv_writer e t s)"
proof -
  have "kv_named t (kv_writer e t s) \<and> (kept_apart t u \<longrightarrow> kv_beside u s (kv_writer e t s))"
  proof (cases "mm_registry (kv_maps s) t")
    case None
    then show ?thesis using n by (simp add: kv_writer_def)
  next
    case (Some ti)
    let ?r = "writer_exec e (mm_fs (kv_maps s), ti)"
    have s': "kv_writer e t s = s\<lparr>kv_maps := putIndex (kv_maps s) t ?r\<rparr>" using Some by (simp add: kv_writer_def)
    have sf: "ti_safeName ti = sanitizeTableName t" using n Some by (simp add: kv_named_def index_named_def)
    note st = writer_exec_step[OF e, of "(mm_fs (kv_maps s), ti)"]
    have "kv_named t (kv_writer e t s)"
      using n index_step_safeName[OF st] sf by (simp add: s' kv_named_def index_named_def putIndex_def)
    moreover have "kv_beside u s (kv_writer e t s)" if k: "kept_apart t u"
    proof -
      have "mf_files (fst ?r) p = mf_files (mm_fs (kv_maps s)) p" if "p \<in> index_files u" for p
        using that log_not_beside[OF k sf] snap_not_beside[OF k sf] writer_exec_files by metis
      then show ?thesis
        using k index_step_denied[OF st]
        by (auto simp: s' kv_beside_def maps_beside_def putIndex_def kept_apart_def)
    qed
    ultimately show ?thesis by blast
  qed
  then show "kv_named t (kv_writer e t s)" "kept_apart t u \<Longrightarrow> kv_beside u s (kv_writer e t s)" by blast+
qed
section \<open>Events of a store\<close>

text \<open>An event belongs to a table; a restart concerns them all, whatever table it is written with.\<close>

fun store_exec :: "kv_env \<Rightarrow> string \<times> life \<Rightarrow> kv \<Rightarrow> kv \<times> kv_reply option" where
  "store_exec env (t, e) s = life_exec env t e s"

fun store_spec :: "kv_env \<Rightarrow> string \<times> life \<Rightarrow> (string \<Rightarrow> string \<rightharpoonup> bytes)
    \<Rightarrow> (string \<Rightarrow> string \<rightharpoonup> bytes) \<times> kv_reply option" where
  "store_spec env (t, e) m = (case life_spec env t e (m t) of (mt, r) \<Rightarrow> (m(t := mt), r))"

text \<open>The process may restart when the logs of all tables are written.\<close>

fun store_ok :: "string set \<Rightarrow> string \<times> life \<Rightarrow> kv \<Rightarrow> bool" where
  "store_ok T (t, Restart) s \<longleftrightarrow> t \<in> T \<and> (\<forall>u \<in> T. flushed u s)"
| "store_ok T (t, e) s \<longleftrightarrow> t \<in> T \<and> life_ok t e s"

fun stores_ok :: "kv_env \<Rightarrow> string set \<Rightarrow> (string \<times> life) list \<Rightarrow> kv \<Rightarrow> bool" where
  "stores_ok env T [] s \<longleftrightarrow> True"
| "stores_ok env T (x # xs) s \<longleftrightarrow> store_ok T x s \<and> stores_ok env T xs (fst (store_exec env x s))"

lemma store_ok_life: "store_ok T (t, e) s \<Longrightarrow> t \<in> T \<and> life_ok t e s"
  by (cases e) auto

definition store_inv :: "string set \<Rightarrow> kv \<Rightarrow> bool" where
  "store_inv T s \<longleftrightarrow> tables_inv T s \<and> (\<forall>t \<in> T. durable t s)"

lemma store_inv_table: "store_inv T s \<Longrightarrow> t \<in> T \<Longrightarrow> kv_inv t s \<and> kv_named t s \<and> durable t s"
  by (simp add: store_inv_def tables_inv_def)

lemma restart_named: "kv_named t (restart s)"
  by (simp add: kv_named_def list_named_def index_named_def restart_def restart_defrag_def restart_maps_def)

text \<open>An event of a table keeps its names, and what it changes lies beside the other tables.\<close>

lemma event_beside:
  assumes inv: "kv_inv t s" "kv_named t s" and ok: "life_ok t e s" and e: "\<not> (case e of Restart \<Rightarrow> True | _ \<Rightarrow> False)"
  shows "kv_named t (fst (life_exec env t e s)) \<and> (\<forall>u. kept_apart t u \<longrightarrow> kv_beside u s (fst (life_exec env t e s)))"
proof (cases e)
  case (Client f c)
  then have "cmd_ok t c" using ok by simp
  note ch = effect_change[OF inv effect_any[OF inv(1) this, of env f]]
  have x: "fst (life_exec env t e s) = fst (any_exec env t (f, c) s)" using Client by (simp add: split_beta)
  show ?thesis unfolding x using kv_change_beside[OF ch inv(2)] by blast
qed (use e writer_beside[OF _ inv(2), of e] in simp_all)

lemma store_step:
  assumes T: "\<And>t u. t \<in> T \<Longrightarrow> u \<in> T \<Longrightarrow> t \<noteq> u \<Longrightarrow> kept_apart t u" and inv: "store_inv T s"
    and ok: "store_ok T (t, e) s"
  shows "store_inv T (fst (life_exec env t e s))"
    "store_spec env (t, e) (tables_abs T s) = (tables_abs T (fst (life_exec env t e s)), snd (life_exec env t e s))"
proof -
  let ?s = "fst (life_exec env t e s)"
  have t: "t \<in> T" "life_ok t e s" using store_ok_life[OF ok] by blast+
  have it: "kv_inv t s" "kv_named t s" "durable t s" using store_inv_table[OF inv t(1)] by blast+
  note st = life_step[OF it(1,3) t(2), of env]
  have other: "kv_inv u ?s \<and> kv_named u ?s \<and> durable u ?s \<and> kv_abs ?s u = kv_abs s u" if u: "u \<in> T" "u \<noteq> t" for u
  proof -
    have iu: "kv_inv u s" "kv_named u s" "durable u s" using store_inv_table[OF inv u(1)] by blast+
    show ?thesis
    proof (cases "case e of Restart \<Rightarrow> True | _ \<Rightarrow> False")
      case True
      then have "e = Restart" by (cases e) auto
      then show ?thesis using restart_keeps[OF iu(1,3)] ok u(1) restart_named by simp
    next
      case False
      then have "kv_beside u s ?s" using event_beside[OF it(1,2) t(2)] T[OF t(1) u(1)] u(2) by blast
      then show ?thesis using beside_inv beside_named durable_beside(1) iu by blast
    qed
  qed
  have "kv_named t ?s"
  proof (cases "case e of Restart \<Rightarrow> True | _ \<Rightarrow> False")
    case True
    then have "e = Restart" by (cases e) auto
    then show ?thesis using restart_named by simp
  qed (use event_beside[OF it(1,2) t(2)] in blast)
  then show "store_inv T ?s" unfolding store_inv_def tables_inv_def using other st by metis
  have "(tables_abs T s)(t := kv_abs ?s t) = tables_abs T ?s"
    using other t(1) by (auto simp: tables_abs_def fun_eq_iff)
  then show "store_spec env (t, e) (tables_abs T s) = (tables_abs T ?s, snd (life_exec env t e s))"
    using st t(1) by (simp add: tables_abs_def)
qed

lemma stores_refine:
  assumes "\<And>t u. t \<in> T \<Longrightarrow> u \<in> T \<Longrightarrow> t \<noteq> u \<Longrightarrow> kept_apart t u" "store_inv T s" "stores_ok env T es s"
  shows "store_inv T (fst (run_cmds (store_exec env) es s))
    \<and> run_cmds (store_spec env) es (tables_abs T s)
      = (tables_abs T (fst (run_cmds (store_exec env) es s)), snd (run_cmds (store_exec env) es s))"
  using assms(2,3)
proof (induction es arbitrary: s)
  case (Cons x es)
  obtain t e where x: "x = (t, e)" by (cases x)
  obtain s1 r where r: "life_exec env t e s = (s1, r)" by fastforce
  have ok: "store_ok T (t, e) s" "stores_ok env T es s1" using Cons.prems(2) r x by simp_all
  have s1: "store_inv T s1" "store_spec env x (tables_abs T s) = (tables_abs T s1, r)"
    using store_step[OF assms(1) Cons.prems(1) ok(1), of env] r unfolding x by (simp_all del: store_spec.simps)
  have run: "run_cmds (store_exec env) (x # es) s = (case run_cmds (store_exec env) es s1 of (s2, rs) \<Rightarrow> (s2, r # rs))"
    using r x by simp
  show ?case using Cons.IH[OF s1(1) ok(2)] s1(2) unfolding run by (simp add: split_beta del: store_spec.simps)
qed simp

text \<open>C3: The store refines a map for each table, through its whole life. On tables whose names keep
  them apart, commands of the three fronts on any table, steps of the log writers, snapshots and
  restarts of the process, in any order, give the replies of the maps, a command changes the map of its
  table only, and a restart none; a restart may happen when the logs of all tables are written. Keys
  and tables have names the log can carry.\<close>

theorem store_life_refines:
  assumes "\<forall>t \<in> T. \<forall>u \<in> T. t \<noteq> u \<longrightarrow> kept_apart t u" "store_inv T s" "stores_ok env T es s"
  shows "\<exists>s' replies. run_cmds (store_exec env) es s = (s', replies) \<and> store_inv T s'
    \<and> run_cmds (store_spec env) es (tables_abs T s) = (tables_abs T s', replies)"
  using stores_refine[OF assms(1)[rule_format] assms(2,3)] by (cases "run_cmds (store_exec env) es s") simp

section \<open>A store with two tables\<close>

lemma kv_beside_trans: "kv_beside u a b \<Longrightarrow> kv_beside u b c \<Longrightarrow> kv_beside u a c"
  by (simp add: kv_beside_def list_beside_def maps_beside_def)

lemma drain_beside:
  "set es \<subseteq> {Receives, Tick} \<Longrightarrow> kv_named t s \<Longrightarrow>
   kv_named t (fst (run_cmds (life_exec env t) es s))
   \<and> (kept_apart t u \<longrightarrow> kv_beside u s (fst (run_cmds (life_exec env t) es s)))"
proof (induction es arbitrary: s)
  case (Cons e es)
  have e: "e = Receives \<or> e = Tick" using Cons.prems(1) by auto
  then have x: "life_exec env t e s = (kv_writer e t s, None)" by auto
  have n: "kv_named t (kv_writer e t s)" "kept_apart t u \<Longrightarrow> kv_beside u s (kv_writer e t s)"
    using writer_beside[OF _ Cons.prems(2), of e] e by blast+
  then show ?case using Cons.IH[OF _ n(1)] Cons.prems(1) kv_beside_trans x by (auto simp: split_beta)
qed simp

text \<open>Draining the log of one table keeps the store and what is written of the others.\<close>

definition drained_table :: "kv_env \<Rightarrow> string \<Rightarrow> kv \<Rightarrow> kv" where
  "drained_table env t s = fst (run_cmds (life_exec env t) (drain t s) s)"

lemma drained_table_keeps:
  assumes T: "\<forall>t \<in> T. \<forall>u \<in> T. t \<noteq> u \<longrightarrow> kept_apart t u" and inv: "store_inv T s" and t: "t \<in> T"
  shows "store_inv T (drained_table env t s)" "flushed t (drained_table env t s)"
    "u \<in> T \<Longrightarrow> flushed u s \<Longrightarrow> flushed u (drained_table env t s)" "tables_abs T (drained_table env t s) = tables_abs T s"
proof -
  let ?s = "drained_table env t s"
  have it: "kv_inv t s" "kv_named t s" "durable t s" using store_inv_table[OF inv t] by blast+
  have d: "set (drain t s) \<subseteq> {Receives, Tick}" by (auto simp: drain_def)
  note own = drain_keeps[OF it(1,3), of env, folded drained_table_def]
  note n = drain_beside[OF d it(2), of env, folded drained_table_def]
  show f: "flushed t ?s" using drained[OF it(3), of env] by (simp add: drained_table_def)
  have other: "kv_inv u ?s \<and> kv_named u ?s \<and> durable u ?s \<and> kv_abs ?s u = kv_abs s u \<and> flushed u ?s = flushed u s"
    if "u \<in> T" "u \<noteq> t" for u
  proof -
    have "kept_apart t u" using bspec[OF bspec[OF T t] that(1)] that(2) by simp
    with n[of u] have b: "kv_beside u s ?s" by blast
    have "kv_inv u s" "kv_named u s" "durable u s" using store_inv_table[OF inv that(1)] by blast+
    then show ?thesis using beside_inv[OF b] beside_named[OF b] durable_beside[OF b] by blast
  qed
  have all: "kv_inv u ?s \<and> kv_named u ?s \<and> durable u ?s \<and> kv_abs ?s u = kv_abs s u" if "u \<in> T" for u
    using other[OF that] own n[of u] by (cases "u = t") simp_all
  then show "store_inv T ?s" by (simp add: store_inv_def tables_inv_def)
  show "flushed u ?s" if "u \<in> T" "flushed u s" using other[OF that(1)] f that(2) by (cases "u = t") simp_all
  show "tables_abs T ?s = tables_abs T s" using all by (simp add: tables_abs_def fun_eq_iff)
qed

lemma fresh_store:
  "(\<And>t. t \<in> T \<Longrightarrow> trim_space t \<noteq> []) \<Longrightarrow> store_inv T fresh_kv"
  using fresh_tables fresh_durable by (simp add: store_inv_def)

definition demo_two :: kv where
  "demo_two = (let s1 = fst (lib_exec demo_env ''t'' (Put ''k'' [1]) fresh_kv);
                   s2 = fst (http_exec demo_env ''u'' (Put ''k'' [2]) s1)
     in drained_table demo_env ''u'' (drained_table demo_env ''t'' s2))"

lemma demo_two_put:
  assumes apart: "\<forall>t \<in> T. \<forall>u \<in> T. t \<noteq> u \<longrightarrow> kept_apart t u" and inv: "store_inv T s"
    and ok: "t \<in> T" "cmd_ok t (Put k v)" "loggable t s (Put k v)" and s': "s' = fst (any_exec env t (f, Put k v) s)"
  shows "store_inv T s'" "tables_abs T s' = (tables_abs T s)(t := (tables_abs T s t)(k \<mapsto> v))"
    "u \<in> T \<Longrightarrow> t \<noteq> u \<Longrightarrow> kv_file s' u = kv_file s u"
proof -
  have T: "\<And>t u. t \<in> T \<Longrightarrow> u \<in> T \<Longrightarrow> t \<noteq> u \<Longrightarrow> kept_apart t u" by (rule apart[rule_format])
  let ?e = "Client f (Put k v)"
  have x: "fst (life_exec env t ?e s) = s'" using s' by (simp add: split_beta)
  have o: "store_ok T (t, ?e) s" "life_ok t ?e s" using ok by simp_all
  show "store_inv T s'" using store_step(1)[OF T inv o(1), of env] unfolding x by blast
  have "fst (any_spec env t (f, Put k v) m) = m(k \<mapsto> v)" for m by (cases f) simp_all
  then show "tables_abs T s' = (tables_abs T s)(t := (tables_abs T s t)(k \<mapsto> v))"
    using store_step(2)[OF T inv o(1), of env] unfolding x by (simp add: split_beta del: any_spec.simps)
  have "kv_inv t s" "kv_named t s" using store_inv_table[OF inv ok(1)] by blast+
  from event_beside[OF this o(2), of env] have "kept_apart t u \<longrightarrow> kv_beside u s s'" unfolding x by simp
  then show "kv_file s' u = kv_file s u" if "u \<in> T" "t \<noteq> u"
    using T[OF ok(1) that] by (simp add: kv_beside_def)
qed

lemma demo_puts_ok:
  "cmd_ok ''t'' (Put ''k'' [x])" "cmd_ok ''u'' (Put ''k'' [x])"
  "kv_file s ''t'' = [] \<Longrightarrow> loggable ''t'' s (Put ''k'' [x])" "kv_file s ''u'' = [] \<Longrightarrow> loggable ''u'' s (Put ''k'' [x])"
  by (simp_all add: cmd_ok_def plain_def kv_fits_def max_alloc_def loggable_def clean_name_def nl_def bar_def
      max_token_def length_frame pointer_size_def)

lemma demo_two_apart: "\<forall>t \<in> {''t'', ''u''}. \<forall>u \<in> {''t'', ''u''}. t \<noteq> u \<longrightarrow> kept_apart t u"
proof -
  have "kept_apart ''t'' ''u''" by code_simp
  then show ?thesis using kept_apart_sym by auto
qed

lemma demo_two_facts:
  "store_inv {''t'', ''u''} demo_two" "\<forall>t \<in> {''t'', ''u''}. flushed t demo_two"
  "tables_abs {''t'', ''u''} demo_two = (\<lambda>_. Map.empty)(''t'' := [''k'' \<mapsto> [1]], ''u'' := [''k'' \<mapsto> [2]])"
proof -
  let ?T = "{''t'', ''u''}"
  define s1 where "s1 = fst (lib_exec demo_env ''t'' (Put ''k'' [1]) fresh_kv)"
  define s2 where "s2 = fst (http_exec demo_env ''u'' (Put ''k'' [2]) s1)"
  have tr: "\<And>t. t \<in> ?T \<Longrightarrow> trim_space t \<noteq> []" by (auto; code_simp)
  have e0: "kv_file fresh_kv t = []" for t by (simp add: fresh_kv_def demo_dir_def demo_file_def)
  have m: "''t'' \<in> ?T" "''u'' \<in> ?T" "''t'' \<noteq> ''u''" by simp_all
  have x: "s1 = fst (any_exec demo_env ''t'' (Lib, Put ''k'' [1]) fresh_kv)"
    "s2 = fst (any_exec demo_env ''u'' (Http, Put ''k'' [2]) s1)" by (simp_all only: s1_def s2_def any_exec.simps)
  have a0: "tables_abs ?T fresh_kv = (\<lambda>_. Map.empty)" by (rule fresh_tables_abs[OF tr])
  have i0: "store_inv ?T fresh_kv" by (rule fresh_store[OF tr])
  note p1 = demo_two_put[OF demo_two_apart i0 m(1) demo_puts_ok(1) demo_puts_ok(3)[OF e0] x(1)]
  have "kv_file s1 ''u'' = []" using p1(3)[OF m(2,3)] e0 by simp
  note p2 = demo_two_put[OF demo_two_apart p1(1) m(2) demo_puts_ok(2) demo_puts_ok(4)[OF this] x(2)]
  have a2: "tables_abs ?T s2 = (\<lambda>_. Map.empty)(''t'' := [''k'' \<mapsto> [1]], ''u'' := [''k'' \<mapsto> [2]])"
    unfolding p2(2) p1(2) a0 by simp
  let ?d = "drained_table demo_env ''t'' s2"
  have d: "demo_two = drained_table demo_env ''u'' ?d" by (simp only: demo_two_def Let_def s1_def s2_def)
  note t = drained_table_keeps[OF demo_two_apart p2(1) m(1), where env = demo_env]
  note u = drained_table_keeps[OF demo_two_apart t(1) m(2), where env = demo_env]
  show "store_inv ?T demo_two" unfolding d by (rule u(1))
  have "flushed ''t'' demo_two" unfolding d by (rule u(3)[OF m(1) t(2)])
  moreover have "flushed ''u'' demo_two" unfolding d by (rule u(2))
  ultimately show "\<forall>t \<in> ?T. flushed t demo_two" by blast
  show "tables_abs ?T demo_two = (\<lambda>_. Map.empty)(''t'' := [''k'' \<mapsto> [1]], ''u'' := [''k'' \<mapsto> [2]])"
    unfolding d u(4) t(4) by (rule a2)
qed

lemma store_life_refines_witness:
  "\<exists>s'. run_cmds (store_exec demo_env) [(''t'', Restart), (''t'', Client Peer (Get ''k'')), (''u'', Client Peer (Del ''k'')),
     (''u'', Tick), (''t'', Client Http (Get ''k'')), (''u'', Client Peer (Get ''k''))] demo_two
     = (s', [None, Some (Value [1]), Some Freed, None, Some (Value [1]), Some Missing])"
proof -
  let ?T = "{''t'', ''u''}" and ?es = "[(''t'', Restart), (''t'', Client Peer (Get ''k'')), (''u'', Client Peer (Del ''k'')),
     (''u'', Tick), (''t'', Client Http (Get ''k'')), (''u'', Client Peer (Get ''k''))]"
  have ok: "stores_ok demo_env ?T ?es demo_two"
    using demo_two_facts(2)
    by (simp add: cmd_ok_def plain_def loggable_def remove_ok_def clean_name_def nl_def bar_def max_token_def
        del: life_exec.simps store_exec.simps)
  have "snd (run_cmds (store_spec demo_env) ?es (tables_abs ?T demo_two))
      = [None, Some (Value [1]), Some Freed, None, Some (Value [1]), Some Missing]"
    unfolding demo_two_facts(3) by simp
  then show ?thesis
    using store_life_refines[OF demo_two_apart demo_two_facts(1) ok] by (metis snd_conv)
qed

end
