(* ===== verification/Kv_Counters.thy ===== *)
theory Kv_Counters
  imports Kv_Tables
begin

text \<open>
  The defragmentation counters of \<open>mapManager.go\<close>: every save that replaces a range counts a free, or a
  skip when the new range is the old one, and a worker logs the counts and resets them. The skip is
  reached when two saves of one key meet in one batch of the file worker. The counter of slow locks is
  left out.
\<close>

section \<open>The worker\<close>

datatype counter_line = DefragFrees nat | DefragSkips nat

text \<open>One tick of the ticker: what is logged, and the counters swapped for zero.\<close>

definition debugCountersWorker :: "kv \<Rightarrow> kv \<times> counter_line list" where
  "debugCountersWorker s =
     (s\<lparr>kv_freed := 0, kv_skipped := 0\<rparr>,
      (if 0 < kv_freed s then [DefragFrees (kv_freed s)] else []) @
      (if 0 < kv_skipped s then [DefragSkips (kv_skipped s)] else []))"

datatype counted = Command "string \<times> front \<times> kv_cmd" | Report

fun counted_run :: "kv_env \<Rightarrow> counted list \<Rightarrow> kv \<Rightarrow> kv \<times> counter_line list" where
  "counted_run env [] s = (s, [])"
| "counted_run env (Command c # es) s = counted_run env es (fst (table_exec env c s))"
| "counted_run env (Report # es) s =
     (case debugCountersWorker s of (s1, ls) \<Rightarrow> (case counted_run env es s1 of (s2, ls') \<Rightarrow> (s2, ls @ ls')))"

fun logged_frees :: "counter_line list \<Rightarrow> nat" where
  "logged_frees [] = 0"
| "logged_frees (DefragFrees n # ls) = n + logged_frees ls"
| "logged_frees (DefragSkips n # ls) = logged_frees ls"

fun logged_skips :: "counter_line list \<Rightarrow> nat" where
  "logged_skips [] = 0"
| "logged_skips (DefragFrees n # ls) = logged_skips ls"
| "logged_skips (DefragSkips n # ls) = n + logged_skips ls"

lemma logged_append:
  "logged_frees (xs @ ys) = logged_frees xs + logged_frees ys" "logged_skips (xs @ ys) = logged_skips xs + logged_skips ys"
  by (induction xs rule: logged_frees.induct) simp_all

section \<open>What a command counts\<close>

lemma bind_key_counts:
  assumes idx: "kv_index s t = Some idx" and b: "bind_key t k a b s = (s', None)"
  shows "kv_freed s' = kv_freed s + (case loadEntry idx k of None \<Rightarrow> 0
      | Some e \<Rightarrow> if e_file e = t \<and> e_start e = a \<and> e_end e = b then 0 else 1)"
    "kv_skipped s' = kv_skipped s + (case loadEntry idx k of None \<Rightarrow> 0
      | Some e \<Rightarrow> if e_file e = t \<and> e_start e = a \<and> e_end e = b then 1 else 0)"
proof -
  let ?e = "\<lparr>e_file = t, e_start = a, e_end = b\<rparr>"
  obtain mm1 where g: "getTableIndex (kv_maps s) t = (mm1, Inr idx)" using mm_index_get[OF idx] .
  have "snd (storeKey idx k ?e) = loadEntry idx k" by (simp add: storeKey_def loadEntry_def Let_def)
  then have "snd (saveElementByKey (kv_maps s) t k a b) = Inr (map_option (entryToOutput k) (loadEntry idx k))"
    using g bind_valid[OF b] by (simp add: saveElementByKey_def saveElement_def Let_def split_beta)
  then obtain mm where sv: "saveElementByKey (kv_maps s) t k a b = (mm, Inr (map_option (entryToOutput k) (loadEntry idx k)))"
    by (metis prod.collapse)
  show "kv_freed s' = kv_freed s + (case loadEntry idx k of None \<Rightarrow> 0
      | Some e \<Rightarrow> if e_file e = t \<and> e_start e = a \<and> e_end e = b then 0 else 1)"
    "kv_skipped s' = kv_skipped s + (case loadEntry idx k of None \<Rightarrow> 0
      | Some e \<Rightarrow> if e_file e = t \<and> e_start e = a \<and> e_end e = b then 1 else 0)"
    using b sv by (auto simp: bind_key_def entryToOutput_def kv_mark_free_def Let_def split: option.split_asm if_splits)
qed

text \<open>A range just written meets no range in use, so a save never finds its new range bound already.\<close>

lemma put_counts:
  assumes inv: "kv_inv t s" and eff: "put_effect env t k d s s'"
  shows "kv_freed s' = kv_freed s + (if kv_abs s t k = None then 0 else 1) \<and> kv_skipped s' = kv_skipped s"
proof -
  obtain d' a s1 ns where w: "wrote env t (frame d) (kv_dir s) d' a"
    and b: "bind_key t k a (a + int (length (frame d))) (s\<lparr>kv_dir := d'\<rparr>) = (s1, None)" and s': "s' = s1\<lparr>kv_outbox := ns\<rparr>"
    using eff unfolding put_effect_def by blast
  obtain idx where idx: "kv_index s t = Some idx"
    "defrag_pool.separated t (dd_defrag (kv_dir s)) (live_spans idx) (int (length (kv_file s t)))"
    using inv unfolding kv_inv_def by blast
  obtain p1 r where al: "pool_alloc (env_it env) t (dd_defrag (kv_dir s)) (int (length (frame d))) = (p1, r)"
    and a: "a = defrag_pool.place r (int (length (kv_file s t)))"
    using w unfolding wrote_def by blast
  have n: "0 < int (length (frame d))" by simp
  have fresh: "\<not> (e_start e = a \<and> e_end e = a + int (length (frame d)))" if "loadEntry idx k = Some e" for e
  proof -
    have "live_spans idx k = Some (e_start e, e_end e)" using that by (simp add: live_spans_def)
    then have "apart (a, a + int (length (frame d))) (e_start e, e_end e)"
      using defrag_pool.place_fresh(5)[OF idx(2) n al] unfolding a by blast
    then show ?thesis using n by (auto simp: apart_def)
  qed
  have "kv_index (s\<lparr>kv_dir := d'\<rparr>) t = Some idx" using idx(1) by simp
  note c = bind_key_counts[OF this b]
  show ?thesis
    using c fresh abs_entry[OF inv idx(1), of k] s' by (cases "loadEntry idx k") auto
qed

lemma effect_counts:
  assumes "kv_inv t s" "cmd_effect env t c s s'"
  shows "kv_freed s' = kv_freed s + (case c of Put k d \<Rightarrow> if kv_abs s t k = None then 0 else 1 | _ \<Rightarrow> 0)
    \<and> kv_skipped s' = kv_skipped s"
proof -
  have g: "kv_freed s1 = kv_freed s \<and> kv_skipped s1 = kv_skipped s" if "get_meta t k s = (s1, r)" for k s1 r
    using that by (auto simp: get_meta_def split: prod.splits)
  show ?thesis
  proof (cases c)
    case (Put k d)
    then show ?thesis using put_counts[OF assms(1)] assms(2) by (simp add: cmd_effect_def)
  next
    case (Get k)
    then show ?thesis using assms(2) g by (auto simp: cmd_effect_def get_effect_def)
  next
    case (Del k)
    then show ?thesis using assms(2) g by (auto simp: cmd_effect_def del_effect_def kv_mark_free_def remove_meta_def)
  qed
qed

section \<open>The counts of a run\<close>

text \<open>How many commands of a run replace a value, on the maps of the specification.\<close>

fun overwrites :: "kv_env \<Rightarrow> (string \<times> front \<times> kv_cmd) list \<Rightarrow> (string \<Rightarrow> string \<rightharpoonup> bytes) \<Rightarrow> nat" where
  "overwrites env [] m = 0"
| "overwrites env ((t, f, c) # cs) m =
     (case c of Put k d \<Rightarrow> if m t k = None then 0 else 1 | _ \<Rightarrow> 0) + overwrites env cs (fst (table_spec env (t, f, c) m))"

fun run_commands :: "counted list \<Rightarrow> (string \<times> front \<times> kv_cmd) list" where
  "run_commands [] = []"
| "run_commands (Command c # es) = c # run_commands es"
| "run_commands (Report # es) = run_commands es"

lemma worker_keeps:
  "tables_inv T (fst (debugCountersWorker s)) = tables_inv T s" "tables_abs T (fst (debugCountersWorker s)) = tables_abs T s"
  by (simp_all add: debugCountersWorker_def tables_inv_def kv_inv_def kv_named_def holds_frame_def stored_def
      tables_abs_def kv_abs_def kv_look_def fun_eq_iff split: option.split)

lemma counted_run_counts:
  assumes apart: "\<And>t u. t \<in> T \<Longrightarrow> u \<in> T \<Longrightarrow> t \<noteq> u \<Longrightarrow> kept_apart t u"
  shows "tables_inv T s \<Longrightarrow> (\<And>t f c. (t, f, c) \<in> set (run_commands es) \<Longrightarrow> t \<in> T \<and> cmd_ok t c) \<Longrightarrow>
    logged_frees (snd (counted_run env es s)) + kv_freed (fst (counted_run env es s))
      = kv_freed s + overwrites env (run_commands es) (tables_abs T s)
    \<and> logged_skips (snd (counted_run env es s)) + kv_skipped (fst (counted_run env es s)) = kv_skipped s"
proof (induction env es s rule: counted_run.induct)
  case (2 env x es s)
  obtain t f c where x: "x = (t, f, c)" by (cases x)
  have ok: "t \<in> T" "cmd_ok t c" using 2(3)[of t f c] x by auto
  let ?s = "fst (any_exec env t (f, c) s)"
  have i: "kv_inv t s" using 2(2) ok(1) by (simp add: tables_inv_def)
  note st = table_step[OF apart 2(2) ok, of env f]
  have e: "fst (table_exec env x s) = ?s" by (simp add: x)
  have a: "tables_abs T s t = kv_abs s t" using ok(1) by (simp add: tables_abs_def fun_eq_iff)
  have next_abs: "fst (table_spec env (t, f, c) (tables_abs T s)) = tables_abs T ?s" using st(2) by simp
  have "logged_frees (snd (counted_run env es ?s)) + kv_freed (fst (counted_run env es ?s))
      = kv_freed ?s + overwrites env (run_commands es) (tables_abs T ?s)
    \<and> logged_skips (snd (counted_run env es ?s)) + kv_skipped (fst (counted_run env es ?s)) = kv_skipped ?s"
    by (rule 2(1)[unfolded e, OF st(1)]) (use 2(3) in auto)
  moreover have "overwrites env (run_commands (Command x # es)) (tables_abs T s)
      = (case c of Put k d \<Rightarrow> if kv_abs s t k = None then 0 else 1 | _ \<Rightarrow> 0) + overwrites env (run_commands es) (tables_abs T ?s)"
    by (simp only: x run_commands.simps overwrites.simps next_abs a)
  moreover have "counted_run env (Command x # es) s = counted_run env es ?s" by (simp add: e del: table_exec.simps)
  ultimately show ?case using effect_counts[OF i effect_any[OF i ok(2), of env f]] by simp
next
  case (3 env es s)
  let ?s = "fst (debugCountersWorker s)" and ?ls = "snd (debugCountersWorker s)"
  have "logged_frees ?ls = kv_freed s" "logged_skips ?ls = kv_skipped s" "kv_freed ?s = 0" "kv_skipped ?s = 0"
    by (simp_all add: debugCountersWorker_def)
  moreover have "logged_frees (snd (counted_run env es ?s)) + kv_freed (fst (counted_run env es ?s))
      = kv_freed ?s + overwrites env (run_commands es) (tables_abs T ?s)
    \<and> logged_skips (snd (counted_run env es ?s)) + kv_skipped (fst (counted_run env es ?s)) = kv_skipped ?s"
    using 3(1)[OF prod.collapse] 3(2,3) worker_keeps[of T s] by simp
  ultimately show ?case by (simp add: logged_append split_beta worker_keeps)
qed simp
text \<open>
  Over any run of commands on tables kept apart and ticks of the worker, what is logged as freed and what
  is still counted add up to the saves that replace a value. A save that writes and binds in one step
  never finds that its new range is the old one, since a range is written where no range is in use.
\<close>

lemma defrag_counters_exact:
  assumes "\<forall>t \<in> T. \<forall>u \<in> T. t \<noteq> u \<longrightarrow> kept_apart t u" "tables_inv T s"
    and "\<forall>(t, f, c) \<in> set (run_commands es). t \<in> T \<and> cmd_ok t c"
    and "counted_run env es s = (s', ls)" "kv_freed s = 0" "kv_skipped s = 0"
  shows "logged_frees ls + kv_freed s' = overwrites env (run_commands es) (tables_abs T s)
    \<and> logged_skips ls = 0 \<and> kv_skipped s' = 0"
  using counted_run_counts[of T s es env] assms by fastforce

section \<open>Two saves of one key in one batch\<close>

definition save_req :: "bytes \<Rightarrow> file_request" where
  "save_req d = (request ''write'')\<lparr>fr_data := frame d\<rparr>"

text \<open>Both are given the end of the file, and the second one's frame is what is there afterwards.\<close>

lemma batch_placed:
  assumes inv: "kv_inv t s" and len: "length d1 = length d2"
    and g: "getBlock (dd_defrag (kv_dir s)) (env_it env) (2 * int (length (frame d1))) t = (p, Inl e)"
  shows "\<exists>w a. executeBatch (env_it env) t [(i, save_req d1), (j, save_req d2)]
        \<lparr>w_file = dd_files (kv_dir s) (data_path t), w_defrag = dd_defrag (kv_dir s)\<rparr>
      = (w, [(i, resp_ok [] a (a + int (length (frame d2)))), (j, resp_ok [] a (a + int (length (frame d2))))], True)
    \<and> placed env t (frame d2) (kv_dir s) (dd_after (kv_dir s) (data_path t) (w_file w) (w_defrag w)) a
    \<and> (\<forall>k e. kv_look s t k = Some e \<longrightarrow> \<not> (e_start e = a \<and> e_end e = a + int (length (frame d2))))"
proof -
  let ?n = "int (length (frame d2))" and ?len = "int (length (kv_file s t))"
  let ?w = "\<lparr>w_file = dd_files (kv_dir s) (data_path t), w_defrag = dd_defrag (kv_dir s)\<rparr>"
  have l: "length (frame d1) = length (frame d2)" using len by (simp add: length_frame)
  have n: "0 < ?n" "?n \<le> 2 * ?n" by simp_all
  obtain idx where idx: "kv_index s t = Some idx"
    "defrag_pool.separated t (dd_defrag (kv_dir s)) (live_spans idx) ?len"
    using inv unfolding kv_inv_def by blast
  have h: "healthy (w_file ?w)" using inv by (simp add: kv_inv_def dd_ready_def)
  have g': "getBlock (w_defrag ?w) (env_it env) (int (length (frame d1) + length (frame d2))) t = (p, Inl e)"
    using g l by simp
  have fd: "fr_data (save_req d) = frame d" "fr_op (save_req d) = ''write''" for d by (simp_all add: save_req_def request_def)
  have al: "pool_alloc (env_it env) t (dd_defrag (kv_dir s)) (2 * ?n) = (p, None)" using g l by (simp add: pool_alloc_def)
  obtain w where w: "write_phase (env_it env) t [(i, save_req d1), (j, save_req d2)] ?w =
      (w, [(i, resp_ok [] ?len (?len + ?n)), (j, resp_ok [] ?len (?len + ?n))], True)"
    "content (w_file w) = kv_file s t @ frame d2" "healthy (w_file w)"
    "w_defrag w = pool_claim (env_it env) t (pool_claim (env_it env) t p ?len (?len + ?n)) ?len (?len + ?n)"
    using eof_batch_result[OF h g' fd(1) fd(1), of i j] l by (auto simp: pool_claim_def Let_def)
  have pl: "defrag_pool.place None ?len = ?len" by (simp add: defrag_pool.place_def)
  note fr = defrag_pool.place_fits[OF idx(2) n al, unfolded pl]
  have c1: "free_ok t (pool_claim (env_it env) t p ?len (?len + ?n))
      \<and> free_spans t (pool_claim (env_it env) t p ?len (?len + ?n)) = free_spans t p"
    by (rule defrag_pool.claim_apart[OF fr(1) _ fr(4)]) (use n in simp)
  have c2: "free_ok t (w_defrag w) \<and> free_spans t (w_defrag w) = free_spans t p"
    unfolding w(4) using defrag_pool.claim_apart[OF conjunct1[OF c1], of ?len "?len + ?n" "env_it env"] c1 fr(4) n by simp
  let ?d = "dd_after (kv_dir s) (data_path t) (w_file w) (w_defrag w)"
  have "placed env t (frame d2) (kv_dir s) ?d ?len"
    unfolding placed_def
    using n(2) al pl c2 w(2,3) by (intro conjI exI[of _ p] exI[of _ None] exI[of _ "2 * ?n"]) (simp_all add: pwrite_append)
  moreover have "\<not> (e_start x = ?len \<and> e_end x = ?len + ?n)" if "kv_look s t k = Some x" for k x
  proof -
    have "live_spans idx k = Some (e_start x, e_end x)" using that idx(1) by (simp add: live_spans_def kv_look_index)
    then have "apart (?len, ?len + ?n) (e_start x, e_end x)" using fr(5) by blast
    then show ?thesis using n by (auto simp: apart_def)
  qed
  moreover have "executeBatch (env_it env) t [(i, save_req d1), (j, save_req d2)] ?w
      = write_phase (env_it env) t [(i, save_req d1), (j, save_req d2)] ?w"
    by (rule executeBatch_writes) (auto simp: fd)
  ultimately show ?thesis using w(1) by (intro exI[of _ w] exI[of _ ?len]) simp
qed

text \<open>Binding a key to the range it has leaves the store as it is.\<close>

lemma bind_again:
  assumes inv: "kv_inv t s" and k: "kv_look s t k = Some \<lparr>e_file = t, e_start = a, e_end = b\<rparr>" and v: "isPointerRangeValid a b"
  shows "\<exists>s'. bind_key t k a b s = (s', None) \<and> kv_inv t s' \<and> kv_abs s' t = kv_abs s t \<and> kv_dir s' = kv_dir s
    \<and> kv_skipped s' = kv_skipped s + 1 \<and> kv_freed s' = kv_freed s"
proof -
  obtain idx where i: "kv_index s t = Some idx" "index_wf idx" using inv unfolding kv_inv_def by blast
  have le: "loadEntry idx k = Some \<lparr>e_file = t, e_start = a, e_end = b\<rparr>" using k kv_look_index[OF i(1)] by simp
  obtain s' idx' where s': "bind_key t k a b s = (s', None)" "kv_index s' t = Some idx'" "index_wf idx'"
    "loadEntry idx' = (loadEntry idx)(k \<mapsto> \<lparr>e_file = t, e_start = a, e_end = b\<rparr>)" "kv_dir s' = kv_dir s"
    using bind_key_spec[OF i v, of k] le by auto
  have same: "loadEntry idx' = loadEntry idx" using s'(4) le by (auto simp: fun_eq_iff)
  have st: "stored s' t = stored s t" "live_spans idx' = live_spans idx"
    using s'(5) same by (simp_all add: stored_def live_spans_def fun_eq_iff)
  have "kv_inv t s'" using inv i s'(2,3,5) same st unfolding kv_inv_def holds_frame_def by auto
  moreover have "kv_abs s' t = kv_abs s t"
    by (rule ext) (simp only: kv_abs_index[OF s'(2)] kv_abs_index[OF i(1)] same st(1))
  ultimately show ?thesis using s'(1,5) bind_key_counts[OF i(1) s'(1)] le by simp
qed

text \<open>
  C39: Two saves of one key with values of one length, whose writes meet in a batch that gets no free
  block: both callers are answered with the same range, which holds the second value. Whichever of them
  binds the key first, the other finds the range already bound and must not free it: it counts one
  skip, only a value the key had before counts a free, and the store is as after the second save alone,
  so that the range in use is not on the free list.
\<close>

theorem equal_saves_skip:
  fixes env :: kv_env
  assumes "kv_inv t s" "kv_fits d1" "kv_fits d2" "length d1 = length d2"
    and "getBlock (dd_defrag (kv_dir s)) (env_it env) (2 * int (length (frame d1))) t = (p, Inl e)"
  shows "\<exists>w a b s1 s2. executeBatch (env_it env) t [(i, save_req d1), (j, save_req d2)]
        \<lparr>w_file = dd_files (kv_dir s) (data_path t), w_defrag = dd_defrag (kv_dir s)\<rparr>
      = (w, [(i, resp_ok [] a b), (j, resp_ok [] a b)], True)
    \<and> bind_key t k a b (s\<lparr>kv_dir := dd_after (kv_dir s) (data_path t) (w_file w) (w_defrag w)\<rparr>) = (s1, None)
    \<and> bind_key t k a b s1 = (s2, None)
    \<and> kv_skipped s2 = kv_skipped s + 1 \<and> kv_freed s2 = kv_freed s + (if kv_abs s t k = None then 0 else 1)
    \<and> kv_inv t s2 \<and> kv_abs s2 t = (kv_abs s t)(k \<mapsto> d2)
    \<and> (\<forall>q \<in> free_spans t (dd_defrag (kv_dir s2)). apart (a, b) q)"
proof -
  let ?n = "int (length (frame d2))"
  obtain w a where w: "executeBatch (env_it env) t [(i, save_req d1), (j, save_req d2)]
        \<lparr>w_file = dd_files (kv_dir s) (data_path t), w_defrag = dd_defrag (kv_dir s)\<rparr>
      = (w, [(i, resp_ok [] a (a + ?n)), (j, resp_ok [] a (a + ?n))], True)"
    "placed env t (frame d2) (kv_dir s) (dd_after (kv_dir s) (data_path t) (w_file w) (w_defrag w)) a"
    "\<And>k e. kv_look s t k = Some e \<Longrightarrow> \<not> (e_start e = a \<and> e_end e = a + ?n)"
    using batch_placed[OF assms(1,4,5), of i j] by blast
  let ?s = "s\<lparr>kv_dir := dd_after (kv_dir s) (data_path t) (w_file w) (w_defrag w)\<rparr>"
  obtain s1 where s1: "bind_key t k a (a + ?n) ?s = (s1, None)" "kv_inv t s1" "kv_abs s1 t = (kv_abs s t)(k \<mapsto> d2)"
    using save_placed[OF assms(1,3) w(2)] by blast
  obtain idx where idx: "kv_index s t = Some idx" "index_wf idx" using assms(1) unfolding kv_inv_def by blast
  have v: "isPointerRangeValid a (a + ?n)" by (rule bind_valid[OF s1(1)])
  have i: "kv_index ?s t = Some idx" using idx(1) by simp
  obtain idx1 where i1: "kv_index s1 t = Some idx1" "loadEntry idx1 = (loadEntry idx)(k \<mapsto> \<lparr>e_file = t, e_start = a, e_end = a + ?n\<rparr>)"
    using bind_key_spec[OF i idx(2) v, of k] s1(1) by auto
  have k1: "kv_look s1 t k = Some \<lparr>e_file = t, e_start = a, e_end = a + ?n\<rparr>" using i1 by (simp add: kv_look_index)
  obtain s2 where s2: "bind_key t k a (a + ?n) s1 = (s2, None)" "kv_inv t s2" "kv_abs s2 t = kv_abs s1 t" "kv_dir s2 = kv_dir s1"
    "kv_skipped s2 = kv_skipped s1 + 1" "kv_freed s2 = kv_freed s1"
    using bind_again[OF s1(2) k1 v] by blast
  have ne: "\<not> (e_start e = a \<and> e_end e = a + ?n)" if "loadEntry idx k = Some e" for e
    using w(3) that kv_look_index[OF idx(1)] by simp
  have c: "kv_skipped s1 = kv_skipped s" "kv_freed s1 = kv_freed s + (if kv_abs s t k = None then 0 else 1)"
    using bind_key_counts[OF i s1(1)] ne abs_entry[OF assms(1) idx(1), of k] by (auto split: option.splits)
  have "defrag_pool.separated t (dd_defrag (kv_dir s1)) (live_spans idx1) (int (length (kv_file s1 t)))"
    using s1(2) i1(1) unfolding kv_inv_def by auto
  moreover have "live_spans idx1 k = Some (a, a + ?n)" by (simp add: live_spans_def i1(2))
  ultimately have "\<forall>q \<in> free_spans t (dd_defrag (kv_dir s2)). apart (a, a + ?n) q"
    unfolding s2(4) using defrag_pool.separated_live by blast
  then show ?thesis
    using w(1) s1 s2 c by (intro exI[of _ w] exI[of _ a] exI[of _ "a + ?n"] exI[of _ s1] exI[of _ s2]) simp
qed

lemma equal_saves_skip_witness:
  "\<exists>w a b s1 s2. executeBatch (env_it demo_env) ''t'' [(0, save_req [1]), (1, save_req [2])]
        \<lparr>w_file = dd_files (kv_dir fresh_kv) (data_path ''t''), w_defrag = dd_defrag (kv_dir fresh_kv)\<rparr>
      = (w, [(0, resp_ok [] a b), (1, resp_ok [] a b)], True)
    \<and> bind_key ''t'' ''k'' a b s1 = (s2, None)
    \<and> kv_skipped s2 = 1 \<and> kv_freed s2 = 0 \<and> kv_abs s2 ''t'' = [''k'' \<mapsto> [2]]"
proof -
  have inv: "kv_inv ''t'' fresh_kv" "kv_abs fresh_kv ''t'' = Map.empty" by (rule fresh_inv, code_simp)+
  have f: "kv_fits [x]" for x by (simp add: kv_fits_def max_alloc_def)
  have d: "dd_defrag (kv_dir fresh_kv) = init_defrag" "kv_skipped fresh_kv = 0" "kv_freed fresh_kv = 0"
    by (simp_all add: fresh_kv_def demo_dir_def)
  have "snd (getBlock init_defrag (env_it demo_env) (2 * int (length (frame [1]))) ''t'') = Inl NoSuitableBlock" by code_simp
  then obtain p where g: "getBlock init_defrag (env_it demo_env) (2 * int (length (frame [1]))) ''t'' = (p, Inl NoSuitableBlock)"
    by (metis prod.collapse)
  have l: "length [1 :: byte] = length [2 :: byte]" by simp
  have g': "getBlock (dd_defrag (kv_dir fresh_kv)) (env_it demo_env) (2 * int (length (frame [1]))) ''t'' = (p, Inl NoSuitableBlock)"
    using g d(1) by simp
  from equal_saves_skip[OF inv(1) f f l g', of 0 1 "''k''"] obtain w a b s1 s2 where
    "executeBatch (env_it demo_env) ''t'' [(0, save_req [1]), (1, save_req [2])]
        \<lparr>w_file = dd_files (kv_dir fresh_kv) (data_path ''t''), w_defrag = dd_defrag (kv_dir fresh_kv)\<rparr>
      = (w, [(0, resp_ok [] a b), (1, resp_ok [] a b)], True)"
    "bind_key ''t'' ''k'' a b s1 = (s2, None)" "kv_skipped s2 = kv_skipped fresh_kv + 1"
    "kv_freed s2 = kv_freed fresh_kv + (if kv_abs fresh_kv ''t'' ''k'' = None then 0 else 1)"
    "kv_abs s2 ''t'' = (kv_abs fresh_kv ''t'')(''k'' \<mapsto> [2])" by blast
  then show ?thesis
    by (rule_tac exI[of _ w], rule_tac exI[of _ a], rule_tac exI[of _ b], rule_tac exI[of _ s1], rule_tac exI[of _ s2])
      (simp add: d inv(2))
qed

end
