(* ===== verification/Lib_Client.thy ===== *)
theory Lib_Client
  imports Kv_Tables Subscriptions
begin

text \<open>
  The functions a program links against (\<open>lib/dbclient\<close>): each forwards to the store, the search of its
  index, or the subscription server. The three that start servers are left to \<open>Startup\<close> and
  \<open>Public_Api\<close>.
\<close>

section \<open>The client's calls\<close>

definition client_Save :: "kv_env \<Rightarrow> string \<Rightarrow> string \<Rightarrow> bytes \<Rightarrow> kv \<Rightarrow> kv_error option kv_call" where
  "client_Save env key table data s = export_Save env key table data s"

definition client_Read :: "kv_env \<Rightarrow> string \<Rightarrow> string \<Rightarrow> kv \<Rightarrow> (kv_error + bytes) kv_call" where
  "client_Read env key table s = export_Read env key table s"

definition client_Free :: "string \<Rightarrow> string \<Rightarrow> kv \<Rightarrow> kv_error option kv_call" where
  "client_Free key table s = export_Free key table s"

definition client_SaveEncrypted :: "kv_env \<Rightarrow> bytes option \<Rightarrow> string \<Rightarrow> string \<Rightarrow> string \<Rightarrow> bytes \<Rightarrow> kv
    \<Rightarrow> kv_error option kv_call" where
  "client_SaveEncrypted env rnd key table encryption_key data s =
     export_SaveEncrypted env rnd key table encryption_key data s"

definition client_ReadEncrypted :: "kv_env \<Rightarrow> string \<Rightarrow> string \<Rightarrow> string \<Rightarrow> kv \<Rightarrow> (kv_error + bytes) kv_call" where
  "client_ReadEncrypted env key table encryption_key s = export_ReadEncrypted env key table encryption_key s"

definition client_GetKeysByRegex :: "(string \<Rightarrow> (string \<Rightarrow> bool) option) \<Rightarrow> (entry gomap \<Rightarrow> entry gomap)
    \<Rightarrow> string \<Rightarrow> string \<Rightarrow> int \<Rightarrow> kv \<Rightarrow> kv \<times> (map_error + string list) outcome" where
  "client_GetKeysByRegex compile it table regex mx s =
     (case getKeysByRegex compile it (kv_maps s) table regex mx of (mm, r) \<Rightarrow> (s\<lparr>kv_maps := mm\<rparr>, r))"

definition client_EnableSubscription :: "string \<Rightarrow> string list \<Rightarrow> subs \<Rightarrow> subs \<times> string option" where
  "client_EnableSubscription uuid keys st = enableSubscriptionInternal uuid keys st"

text \<open>The number of clients told is dropped: the result says whether there was no error.\<close>

definition client_DisableSubscription :: "(conn list \<Rightarrow> conn list) \<Rightarrow> string \<Rightarrow> subs \<Rightarrow> subs \<times> bool" where
  "client_DisableSubscription it key st =
     (case disableSubscriptionInternal it key st of (st', n) \<Rightarrow> (st', n \<noteq> None))"

section \<open>The client is a front\<close>

fun client_exec :: "kv_env \<Rightarrow> string \<Rightarrow> kv_cmd \<Rightarrow> kv \<Rightarrow> kv \<times> kv_reply" where
  "client_exec env t (Put k d) s =
     and_reply (client_Save env k t d s) (\<lambda>e. if e = None then Stored else Refused)"
| "client_exec env t (Get k) s =
     and_reply (client_Read env k t s)
       (\<lambda>r. case r of Inr d \<Rightarrow> Value d | Inl e \<Rightarrow> if e = NotFound then Missing else Refused)"
| "client_exec env t (Del k) s =
     and_reply (client_Free k t s)
       (\<lambda>e. if e = None then Freed else if e = Some (MapFailed KeyNotFound) then Missing else Refused)"

lemma client_is_lib: "client_exec env t c s = lib_exec env t c s"
  by (cases c) (simp_all add: client_Save_def client_Read_def client_Free_def)

interpretation client: table_front t "cmd_ok t" "client_exec env t" "lib_spec env t"
  by unfold_locales (simp only: client_is_lib lib.step)

section \<open>Searching the keys\<close>

lemma client_search:
  assumes inv: "kv_inv t s" "kv_named t s" and rx: "compile regex = Some rx" and mx: "0 \<le> mx" "16 * mx \<le> max_alloc"
  shows "\<exists>s' ks. client_GetKeysByRegex compile it t regex mx s = (s', Ret (Inr ks)) \<and> kv_change t s s'
    \<and> kv_inv t s' \<and> kv_abs s' t = kv_abs s t \<and> distinct ks
    \<and> (\<forall>k \<in> set ks. rx k \<and> k \<in> dom (kv_abs s t)) \<and> (0 < mx \<longrightarrow> int (length ks) \<le> mx)
    \<and> (mx = 0 \<or> int (length ks) < mx \<longrightarrow> set ks = {k \<in> dom (kv_abs s t). rx k})"
proof -
  obtain idx where idx: "kv_index s t = Some idx" "index_wf idx" using kv_inv_index[OF inv(1)] by blast
  obtain mm1 where g: "getTableIndex (kv_maps s) t = (mm1, Inr idx)" using mm_index_get[OF idx(1)] .
  let ?s = "s\<lparr>kv_maps := mm1\<rparr>"
  have i: "kv_index ?s t = Some idx" using getTableIndex_index[OF g] by simp
  have same: "kv_inv t ?s \<and> kv_abs ?s t = kv_abs s t"
    using inv(1) by (intro kv_inv_same[OF inv(1) idx(1) i idx(2)]) (simp_all add: kv_inv_def dd_ready_def)
  have c: "kv_change t s ?s" using maps_change_get(1)[OF g] by (simp add: kv_change_def same_elsewhere_def)
  have d: "(loadEntry idx k \<noteq> None) = (k \<in> dom (kv_abs s t))" for k
    using abs_entry[OF inv(1) idx(1), of k] by auto
  obtain ks where r: "keysByRegex compile it idx regex mx = Ret (Inr ks)" and ks: "distinct ks"
    "\<forall>k \<in> set ks. rx k \<and> loadEntry idx k \<noteq> None" "0 < mx \<longrightarrow> int (length ks) \<le> mx"
    "mx = 0 \<or> int (length ks) < mx \<longrightarrow> set ks = {k. rx k \<and> loadEntry idx k \<noteq> None}"
    using keysByRegex_correct[where compile = compile and it = it, OF idx(2) rx mx] by blast
  have "client_GetKeysByRegex compile it t regex mx s = (?s, Ret (Inr ks))"
    using g r by (simp add: client_GetKeysByRegex_def getKeysByRegex_def)
  moreover have "{k. rx k \<and> k \<in> dom (kv_abs s t)} = {k \<in> dom (kv_abs s t). rx k}" by blast
  note all = ks[unfolded d, unfolded this]
  ultimately show ?thesis using same c by (intro exI conjI) (rule all | blast)+
qed

text \<open>C19: A search finds the keys that are saved. After any run of commands on tables kept apart, through
  any fronts, a search by regular expression returns keys of the table's map that match, each once, at
  most \<open>max\<close> of them when \<open>max\<close> is positive, and all of them when \<open>max\<close> is zero or not reached, whatever
  the order the shards are visited in; and it changes no table.\<close>

theorem client_search_finds_saved_keys:
  assumes apart: "\<forall>t \<in> T. \<forall>u \<in> T. t \<noteq> u \<longrightarrow> kept_apart t u" and inv: "tables_inv T s"
    and ok: "\<forall>(t, f, c) \<in> set cs. t \<in> T \<and> cmd_ok t c" and t: "t \<in> T"
    and rx: "compile regex = Some rx" and mx: "0 \<le> mx" "16 * mx \<le> max_alloc"
  shows "let m = fst (run_cmds (table_spec env) cs (tables_abs T s)); s1 = fst (run_cmds (table_exec env) cs s)
    in \<exists>s2 ks. client_GetKeysByRegex compile it t regex mx s1 = (s2, Ret (Inr ks))
      \<and> tables_inv T s2 \<and> tables_abs T s2 = m \<and> distinct ks
      \<and> (\<forall>k \<in> set ks. rx k \<and> k \<in> dom (m t)) \<and> (0 < mx \<longrightarrow> int (length ks) \<le> mx)
      \<and> (mx = 0 \<or> int (length ks) < mx \<longrightarrow> set ks = {k \<in> dom (m t). rx k})"
proof -
  let ?s1 = "fst (run_cmds (table_exec env) cs s)"
  have ok': "t \<in> T \<and> cmd_ok t c" if "(t, f, c) \<in> set cs" for t f c
    using bspec[OF ok that] by simp
  have run: "tables_inv T ?s1" "fst (run_cmds (table_spec env) cs (tables_abs T s)) = tables_abs T ?s1"
    using tables_refine[OF apart[rule_format] inv ok', where env = env] by simp_all
  have i: "kv_inv t ?s1" "kv_named t ?s1" using run(1) t by (simp_all add: tables_inv_def)
  obtain s2 ks where s2: "client_GetKeysByRegex compile it t regex mx ?s1 = (s2, Ret (Inr ks))" "kv_change t ?s1 s2"
    "kv_inv t s2" "kv_abs s2 t = kv_abs ?s1 t" and ks: "distinct ks" "\<forall>k \<in> set ks. rx k \<and> k \<in> dom (kv_abs ?s1 t)"
    "0 < mx \<longrightarrow> int (length ks) \<le> mx" "mx = 0 \<or> int (length ks) < mx \<longrightarrow> set ks = {k \<in> dom (kv_abs ?s1 t). rx k}"
    using client_search[where compile = compile and it = it, OF i rx mx] by blast
  have all: "kv_inv u s2 \<and> kv_named u s2 \<and> kv_abs s2 u = kv_abs ?s1 u" if "u \<in> T" for u
  proof (cases "u = t")
    case True
    then show ?thesis using s2(3,4) kv_change_beside(1)[OF s2(2) i(2)] by simp
  next
    case False
    then have "kept_apart t u" using bspec[OF bspec[OF apart t] that] by simp
    then have b: "kv_beside u ?s1 s2" by (rule kv_change_beside(2)[OF s2(2) i(2)])
    have "kv_inv u ?s1" "kv_named u ?s1" using run(1) that by (simp_all add: tables_inv_def)
    then show ?thesis using beside_inv[OF b] beside_named[OF b] by blast
  qed
  have i2: "tables_inv T s2" using all by (simp add: tables_inv_def)
  have a2: "tables_abs T s2 = tables_abs T ?s1" using all by (simp add: tables_abs_def fun_eq_iff)
  have at: "tables_abs T ?s1 t = kv_abs ?s1 t" using t by (simp add: tables_abs_def fun_eq_iff)
  show ?thesis unfolding Let_def run(2) at by (intro exI conjI) (rule s2(1) i2 a2 ks)+
qed

lemma client_search_finds_saved_keys_witness:
  "\<exists>s2. client_GetKeysByRegex (\<lambda>p. Some (\<lambda>k. take 1 k = p)) (\<lambda>xs. xs) ''t'' ''k'' 5
     (fst (run_cmds (table_exec demo_env) demo_tables fresh_kv)) = (s2, Ret (Inr [''k'']))"
proof -
  let ?T = "{''t'', ''u''}" and ?rx = "\<lambda>k :: string. take 1 k = ''k''"
  have tr: "\<And>t. t \<in> ?T \<Longrightarrow> trim_space t \<noteq> []" by (auto; code_simp)
  have "kept_apart ''t'' ''u''" by code_simp
  then have k: "\<forall>t \<in> ?T. \<forall>u \<in> ?T. t \<noteq> u \<longrightarrow> kept_apart t u" using kept_apart_sym by auto
  have c: "\<forall>(t, f, c) \<in> set demo_tables. t \<in> ?T \<and> cmd_ok t c"
    by (simp add: demo_tables_def cmd_ok_def plain_def kv_fits_def max_alloc_def)
  have a: "tables_abs ?T fresh_kv = (\<lambda>_. Map.empty)" by (rule fresh_tables_abs[OF tr])
  have m: "fst (run_cmds (table_spec demo_env) demo_tables (\<lambda>_. Map.empty)) ''t'' = [''k'' \<mapsto> [1]]"
    by (simp add: demo_tables_def)
  let ?s1 = "fst (run_cmds (table_exec demo_env) demo_tables fresh_kv)"
  have i: "tables_inv ?T fresh_kv" by (rule fresh_tables[OF tr])
  have mx: "0 \<le> (5 :: int)" "16 * (5 :: int) \<le> max_alloc" by (simp_all add: max_alloc_def)
  have t: "''t'' \<in> ?T" by simp
  have d: "{k \<in> dom [''k'' \<mapsto> [1 :: byte]]. ?rx k} = {''k''}" by auto
  note f = client_search_finds_saved_keys[OF k i c t, of "\<lambda>p. Some (\<lambda>k. take 1 k = p)" "''k''",
      OF refl mx, where env = demo_env and it = "\<lambda>xs. xs", unfolded Let_def a m d]
  obtain s2 ks where s: "client_GetKeysByRegex (\<lambda>p. Some (\<lambda>k. take 1 k = p)) (\<lambda>xs. xs) ''t'' ''k'' 5 ?s1 = (s2, Ret (Inr ks))"
    "distinct ks" "\<forall>k \<in> set ks. ?rx k \<and> k \<in> dom [''k'' \<mapsto> [1 :: byte]]" "(5 :: int) = 0 \<or> int (length ks) < 5 \<longrightarrow> set ks = {''k''}"
    using f by (elim exE conjE) blast
  then have sub: "set ks \<subseteq> {''k''}" by auto
  have "length ks = card (set ks)" using s(2) by (simp add: distinct_card)
  also have "\<dots> \<le> 1" using card_mono[OF _ sub] by simp
  finally have "set ks = {''k''}" "length ks \<le> 1" using s(4) by simp_all
  then have "ks = [''k'']" by (cases ks) auto
  then show ?thesis using s(1) by blast
qed

end
