(* ===== verification/Debug_Stats.thy ===== *)
theory Debug_Stats
  imports Metrics "HOL-Library.AList"
begin

text \<open>
  The timings of a debug build (\<open>servers/debug/log_debug.go\<close>): for each name the time spent and the number
  of calls, atomic counters of 64 bits in a map that calls share. A call is measured from the start of
  \<open>MeasureTime\<close> to the run of the function it returns, and other calls run in between.
\<close>

section \<open>The table of timings\<close>

record timingEntry =
  te_totalNs :: u64
  te_count :: u64

definition getOrCreateEntry :: "string \<Rightarrow> timingEntry gomap \<Rightarrow> timingEntry gomap" where
  "getOrCreateEntry name m =
     (case map_of m name of Some _ \<Rightarrow> m | None \<Rightarrow> AList.update name \<lparr>te_totalNs = 0, te_count = 0\<rparr> m)"

text \<open>What the returned function adds to the entry it holds.\<close>

definition measured :: "string \<Rightarrow> int \<Rightarrow> timingEntry gomap \<Rightarrow> timingEntry gomap" where
  "measured name ns m =
     (case map_of m name of
        None \<Rightarrow> m
      | Some e \<Rightarrow> AList.update name \<lparr>te_totalNs = te_totalNs e + word_of_int ns, te_count = te_count e + 1\<rparr> m)"

definition measureTime :: "string \<Rightarrow> timingEntry gomap \<Rightarrow> timingEntry gomap" where
  "measureTime name m = getOrCreateEntry name m"

definition measureBlock :: "string \<Rightarrow> int \<Rightarrow> timingEntry gomap \<Rightarrow> timingEntry gomap" where
  "measureBlock name ns m = measured name ns (getOrCreateEntry name m)"

text \<open>A line of the statistics: name, average, total and number of calls.\<close>

definition timing_line :: "string \<times> timingEntry \<Rightarrow> string \<times> int \<times> int \<times> int" where
  "timing_line p =
     (case p of (name, entry) \<Rightarrow>
        let ns = i64 (te_totalNs entry); calls = i64 (te_count entry);
            avg = (if 0 < calls then ns sdiv calls else 0)
        in (name, avg, ns, calls))"

definition printTimingStats :: "(timingEntry gomap \<Rightarrow> timingEntry gomap) \<Rightarrow> timingEntry gomap
    \<Rightarrow> (string \<times> int \<times> int \<times> int) list" where
  "printTimingStats it m = map timing_line (go_range it m)"

text \<open>What the logger of a debug build prints every five seconds: the same numbers in another order.\<close>

definition statsLogger_tick :: "(timingEntry gomap \<Rightarrow> timingEntry gomap) \<Rightarrow> timingEntry gomap
    \<Rightarrow> (string \<times> int \<times> int \<times> int) list" where
  "statsLogger_tick it m =
     map (\<lambda>p. case timing_line p of (name, avg, ns, calls) \<Rightarrow> (name, calls, avg, ns)) (go_range it m)"

lemma statsLogger_prints:
  "set (statsLogger_tick it m) = (\<lambda>(name, avg, ns, calls). (name, calls, avg, ns)) ` set (printTimingStats it' m)"
  by (auto simp: statsLogger_tick_def printTimingStats_def image_image)

section \<open>What the timings say\<close>

text \<open>The calls of a program: starts and ends in any interleaving, and blocks measured at once.\<close>

datatype timing_event = Started string | Ended string int | Block string int

fun timing_step :: "timing_event \<Rightarrow> timingEntry gomap \<Rightarrow> timingEntry gomap" where
  "timing_step (Started n) m = measureTime n m"
| "timing_step (Ended n ns) m = measured n ns m"
| "timing_step (Block n ns) m = measureBlock n ns m"

definition timing_run :: "timing_event list \<Rightarrow> timingEntry gomap" where
  "timing_run es = fold timing_step es []"

text \<open>A call ends after it has started; its duration is that of a monotonic clock.\<close>

fun calls_end :: "string set \<Rightarrow> timing_event list \<Rightarrow> bool" where
  "calls_end B [] = True"
| "calls_end B (Started n # es) = calls_end (insert n B) es"
| "calls_end B (Ended n ns # es) = (n \<in> B \<and> 0 \<le> ns \<and> calls_end B es)"
| "calls_end B (Block n ns # es) = (0 \<le> ns \<and> calls_end (insert n B) es)"

fun named :: "timing_event \<Rightarrow> string" where
  "named (Started n) = n" | "named (Ended n ns) = n" | "named (Block n ns) = n"

fun durations :: "string \<Rightarrow> timing_event list \<Rightarrow> int list" where
  "durations k [] = []"
| "durations k (Started n # es) = durations k es"
| "durations k (Ended n ns # es) = (if n = k then ns # durations k es else durations k es)"
| "durations k (Block n ns # es) = (if n = k then ns # durations k es else durations k es)"

definition entry_of :: "int list \<Rightarrow> timingEntry" where
  "entry_of ds = \<lparr>te_totalNs = word_of_int (sum_list ds), te_count = word_of_nat (length ds)\<rparr>"

definition timings_are :: "string set \<Rightarrow> (string \<Rightarrow> int list) \<Rightarrow> timingEntry gomap \<Rightarrow> bool" where
  "timings_are B D m \<longleftrightarrow> keys_distinct m
     \<and> (\<forall>k. map_of m k = (if k \<in> B then Some (entry_of (D k)) else None)) \<and> (\<forall>k. k \<notin> B \<longrightarrow> D k = [])"

lemma entry_of_add:
  "\<lparr>te_totalNs = te_totalNs (entry_of ds) + word_of_int ns, te_count = te_count (entry_of ds) + 1\<rparr> = entry_of (ds @ [ns])"
  by (simp add: entry_of_def add.commute)

lemma timings_areI:
  "keys_distinct m \<Longrightarrow> (\<And>k. map_of m k = (if k \<in> B then Some (entry_of (D k)) else None)) \<Longrightarrow>
   (\<And>k. k \<notin> B \<Longrightarrow> D k = []) \<Longrightarrow> timings_are B D m"
  by (simp add: timings_are_def)

lemma timings_areD:
  assumes "timings_are B D m"
  shows "keys_distinct m" "map_of m k = (if k \<in> B then Some (entry_of (D k)) else None)" "k \<notin> B \<Longrightarrow> D k = []"
  using assms unfolding timings_are_def by blast+

lemma timings_are_create:
  assumes "timings_are B D m"
  shows "timings_are (insert n B) D (getOrCreateEntry n m)"
proof (cases "n \<in> B")
  case True
  then show ?thesis using assms timings_areD(2)[OF assms, of n] by (simp add: getOrCreateEntry_def insert_absorb)
next
  case False
  have z: "entry_of (D n) = \<lparr>te_totalNs = 0, te_count = 0\<rparr>"
    using timings_areD(3)[OF assms False] by (simp add: entry_of_def)
  have g: "getOrCreateEntry n m = AList.update n (entry_of (D n)) m"
    using timings_areD(2)[OF assms, of n] False unfolding z by (simp add: getOrCreateEntry_def)
  show ?thesis unfolding g
  proof (rule timings_areI)
    show "keys_distinct (AList.update n (entry_of (D n)) m)" using timings_areD(1)[OF assms] by blast
    show "map_of (AList.update n (entry_of (D n)) m) k = (if k \<in> insert n B then Some (entry_of (D k)) else None)" for k
      using timings_areD(2)[OF assms, of k] by (simp add: update_conv')
    show "D k = []" if "k \<notin> insert n B" for k using timings_areD(3)[OF assms] that by blast
  qed
qed

lemma timings_are_measured:
  assumes "timings_are B D m" "n \<in> B"
  shows "timings_are B (D(n := D n @ [ns])) (measured n ns m)"
proof -
  have g: "measured n ns m = AList.update n (entry_of (D n @ [ns])) m"
    using timings_areD(2)[OF assms(1), of n] assms(2) unfolding entry_of_add[symmetric] by (simp add: measured_def)
  show ?thesis unfolding g
  proof (rule timings_areI)
    show "keys_distinct (AList.update n (entry_of (D n @ [ns])) m)" using timings_areD(1)[OF assms(1)] by blast
    show "map_of (AList.update n (entry_of (D n @ [ns])) m) k
        = (if k \<in> B then Some (entry_of ((D(n := D n @ [ns])) k)) else None)" for k
      using timings_areD(2)[OF assms(1), of k] assms(2) by (simp add: update_conv')
    show "(D(n := D n @ [ns])) k = []" if "k \<notin> B" for k using timings_areD(3)[OF assms(1) that] that assms(2) by auto
  qed
qed

lemma timings_are_run:
  "timings_are B D m \<Longrightarrow> calls_end B es \<Longrightarrow>
   timings_are (B \<union> set (map named es)) (\<lambda>k. D k @ durations k es) (fold timing_step es m)"
proof (induction es arbitrary: B D m)
  case (Cons e es)
  show ?case
  proof (cases e)
    case (Started n)
    from timings_are_create[OF Cons.prems(1), of n] show ?thesis
      using Cons.IH[of "insert n B" D "getOrCreateEntry n m"] Cons.prems(2) Started by (simp add: measureTime_def)
  next
    case (Ended n ns)
    then have n: "n \<in> B" using Cons.prems(2) by simp
    have "(\<lambda>k. (D(n := D n @ [ns])) k @ durations k es) = (\<lambda>k. D k @ durations k (e # es))" using Ended by auto
    then show ?thesis
      using Cons.IH[OF timings_are_measured[OF Cons.prems(1) n, of ns]] Cons.prems(2) Ended n by (simp add: insert_absorb)
  next
    case (Block n ns)
    have "(\<lambda>k. (D(n := D n @ [ns])) k @ durations k es) = (\<lambda>k. D k @ durations k (e # es))" using Block by auto
    then show ?thesis
      using Cons.IH[OF timings_are_measured[OF timings_are_create[OF Cons.prems(1), of n], of n ns]] Cons.prems(2) Block
      by (simp add: measureBlock_def)
  qed
qed simp

lemma durations_nonneg: "calls_end B es \<Longrightarrow> d \<in> set (durations k es) \<Longrightarrow> 0 \<le> d"
  by (induction B es rule: calls_end.induct) (auto split: if_splits)

lemma timing_line_entry:
  assumes "0 \<le> sum_list ds" "sum_list ds < 2 ^ 63" "length ds < 2 ^ 63"
  shows "timing_line (k, entry_of ds) = (k, if ds = [] then 0 else sum_list ds div int (length ds), sum_list ds, int (length ds))"
proof -
  have t: "i64 (word_of_int (sum_list ds)) = sum_list ds" by (rule i64_of_int[OF assms(1,2)])
  have "int (length ds) < 2 ^ 63" using assms(3) by (metis of_nat_less_iff of_nat_numeral of_nat_power)
  then have c: "i64 (word_of_nat (length ds)) = int (length ds)"
    using i64_of_int[of "int (length ds)"] by simp
  show ?thesis using assms(1) by (simp add: timing_line_def entry_of_def t c sdiv_nonneg Let_def)
qed

text \<open>
  The statistics are exact while no name has used \<open>2^63\<close> nanoseconds: one line for every name that was
  measured, with the number of its calls that have ended, their time, and the average, zero when none
  has ended, whatever the interleaving and the order of the map.
\<close>

theorem timing_stats_exact:
  assumes "calls_end {} es" "\<forall>k. sum_list (durations k es) < 2 ^ 63" "length es < 2 ^ 63"
  shows "distinct (map fst (printTimingStats it (timing_run es)))
    \<and> set (printTimingStats it (timing_run es)) = (\<lambda>k. let ds = durations k es
        in (k, if ds = [] then 0 else sum_list ds div int (length ds), sum_list ds, int (length ds))) ` set (map named es)"
proof -
  let ?m = "timing_run es" and ?B = "set (map named es)"
  have "timings_are {} (\<lambda>_. []) []" by (simp add: timings_are_def)
  from timings_are_run[OF this assms(1)] have m: "timings_are ?B (\<lambda>k. durations k es) ?m" by (simp add: timing_run_def)
  have len: "length (durations k es) \<le> length es" for k by (induction k es rule: durations.induct) auto
  have line: "timing_line (k, entry_of (durations k es)) = (let ds = durations k es
      in (k, if ds = [] then 0 else sum_list ds div int (length ds), sum_list ds, int (length ds)))" for k
    unfolding Let_def
  proof (rule timing_line_entry)
    show "0 \<le> sum_list (durations k es)" using durations_nonneg[OF assms(1)] by (rule sum_list_nonneg)
    show "sum_list (durations k es) < 2 ^ 63" "length (durations k es) < 2 ^ 63" using assms(2,3) len[of k] by auto
  qed
  have "set ?m = {(k, v). map_of ?m k = Some v}" using keys_distinct_map_of[OF timings_areD(1)[OF m]] by auto
  also have "\<dots> = (\<lambda>k. (k, entry_of (durations k es))) ` ?B"
    unfolding timings_areD(2)[OF m] by (auto split: if_splits)
  finally have "timing_line ` set ?m = (\<lambda>k. timing_line (k, entry_of (durations k es))) ` ?B" by (simp add: image_image)
  then have lines: "set (printTimingStats it ?m) = (\<lambda>k. let ds = durations k es
        in (k, if ds = [] then 0 else sum_list ds div int (length ds), sum_list ds, int (length ds))) ` ?B"
    unfolding line by (simp add: printTimingStats_def)
  have f: "fst (timing_line p) = fst p" for p by (simp add: timing_line_def Let_def split: prod.split)
  have "mset (map fst (printTimingStats it ?m)) = mset (map fst ?m)"
    by (simp add: printTimingStats_def comp_def f)
  then have "distinct (map fst (printTimingStats it ?m))"
    using timings_areD(1)[OF m] unfolding keys_distinct_def by (metis mset_eq_imp_distinct_iff)
  then show ?thesis using lines by blast
qed

lemma timing_stats_exact_witness:
  "set (printTimingStats (\<lambda>xs. xs) (timing_run [Started ''a'', Started ''b'', Ended ''a'' 6, Block ''a'' 3])) =
     {(''a'', 4, 9, 2), (''b'', 0, 0, 0)}"
proof -
  let ?es = "[Started ''a'', Started ''b'', Ended ''a'' 6, Block ''a'' 3]"
  have s: "\<forall>k. sum_list (durations k ?es) < 2 ^ 63" by simp
  show ?thesis
    using timing_stats_exact[OF _ s, of "\<lambda>xs. xs"] by (auto simp: Let_def)
qed

end
