(* ===== verification/Inc_Refine.thy ===== *)
theory Inc_Refine
  imports Inc_Tables
begin

text \<open>
  The incremental routes refine a table of rows with an index from keys to positions. The parts are a
  file of records (\<open>holds_rows\<close>), the entry-key index (\<open>holds_keys\<close>) and the metadata in the key-value
  store; each request is followed through all of them.
\<close>

section \<open>The file of a table\<close>

definition inc_path :: "string \<Rightarrow> string" where
  "inc_path name = full_path ''write_inc'' name"

lemma inc_path_ops [simp]:
  "full_path ''write_inc'' n = inc_path n" "full_path ''write_inc_ow'' n = inc_path n"
  "full_path ''read_inc'' n = inc_path n" "full_path ''delete_inc'' n = inc_path n"
  by (simp_all add: inc_path_def full_path_def)

lemma inc_path_apart: "inc_path n \<noteq> data_path t"
  by (simp add: inc_path_def data_path_def full_path_def)

lemma table_request:
  assumes ready: "dd_ready d p" and rows: "dd_content d p = concat recs" and p: "p = full_path (fr_op req) t"
    and tab: "table_ok n recs" and fit: "fits_table n req"
  obtains f resp where "sendToFileWorker it t req d = (dd_after d p f (dd_defrag d), Reply resp)"
    "healthy f" "content f = concat (fst (table_step req recs))"
    "case snd (table_step req recs) of Inl e \<Rightarrow> resp = resp_err e | Inr b \<Rightarrow> \<exists>a c. resp = resp_ok b a c"
proof -
  let ?w = "\<lparr>w_file = dd_files d p, w_defrag = dd_defrag d\<rparr>"
  have h: "healthy (dd_files d p)" "\<not> dd_crashed d p" using ready by (simp_all add: dd_ready_def)
  have op: "fr_op req \<in> table_ops" using fit by (simp add: fits_table_def)
  note ref = table_handler_refines[OF tab fit]
  obtain rs' r where st: "table_step req recs = (rs', r)" by fastforce
  obtain f resp where of: "on_file (table_handler req) ?w = (\<lparr>w_file = f, w_defrag = dd_defrag d\<rparr>, Ret resp)"
    "healthy f" "content f = concat rs'"
    "case r of Inl e \<Rightarrow> resp = resp_err e | Inr b \<Rightarrow> \<exists>a c. resp = resp_ok b a c"
  proof (cases r)
    case (Inl e)
    then obtain f where "table_handler req (dd_files d p) = (f, Fail e)" "healthy f" "content f = concat rs'"
      using ref h rows unfolding st refines_step_def run_fail_def by auto
    with Inl show ?thesis by (intro that[of f "resp_err e"]) (auto simp: on_file_def)
  next
    case (Inr b)
    then obtain a c where "run_ok (table_handler req) (concat recs) (resp_ok b a c) (concat rs')"
      using ref unfolding st refines_step_def by auto
    then obtain f where "table_handler req (dd_files d p) = (f, Done (resp_ok b a c))" "healthy f"
        "content f = concat rs'"
      using h rows unfolding run_ok_def by blast
    with Inr show ?thesis by (intro that[of f "resp_ok b a c"]) (auto simp: on_file_def)
  qed
  have bo: "batch_order [(0, req)] = [(0, req)]"
    using op by (auto simp: batch_order_def of_op_def table_ops_def)
  have "executeBatch it t [(0, req)] ?w =
      (\<lparr>w_file = f, w_defrag = dd_defrag d\<rparr>, [(0, resp)], True)"
    using executeBatch_table[of "[(0, req)]" it t ?w] op of(1) by (simp add: bo)
  moreover have "fr_op req \<noteq> ''close''" "fr_op req \<noteq> ''delete_inc''" using op by (auto simp: table_ops_def)
  ultimately have "sendToFileWorker it t req d = (dd_after d p f (dd_defrag d), Reply resp)"
    using sendToFileWorker_batch[OF h(2) p, of it] by simp
  then show ?thesis using of st by (intro that[of f resp]) auto
qed

text \<open>The rows of a table: bodies that fit the entry size, one record each.\<close>

definition holds_rows :: "datadir \<Rightarrow> string \<Rightarrow> u64 \<Rightarrow> bytes list \<Rightarrow> bool" where
  "holds_rows d p e rows \<longleftrightarrow> dd_ready d p \<and> dd_content d p = concat (map (inc_raw e) rows)
     \<and> (\<forall>b \<in> set rows. length b \<le> unat e)"

definition rows_room :: "u64 \<Rightarrow> nat \<Rightarrow> bool" where
  "rows_room e N \<longleftrightarrow> int ((N + 1) * (unat e + 3)) \<le> max_alloc"

lemma rows_room_size: "rows_room e N \<Longrightarrow> entry_size_ok e \<and> N < 2 ^ 48"
proof -
  assume r: "rows_room e N"
  have m: "max_alloc = int (2 ^ 48)" by (simp add: max_alloc_def)
  have b: "(N + 1) * (unat e + 3) \<le> 2 ^ 48" using r unfolding rows_room_def m of_nat_le_iff .
  have "unat e + 3 \<le> (N + 1) * (unat e + 3)" by simp
  then have "int (unat e + 3) \<le> max_alloc" using b unfolding m of_nat_le_iff by linarith
  moreover have "N + 1 \<le> (N + 1) * (unat e + 3)" by (metis le_add2 mult_le_mono2 mult.right_neutral one_le_numeral order_trans)
  ultimately show ?thesis using b by (simp add: entry_size_ok_def)
qed

lemma rows_table:
  assumes "holds_rows d p e rows" "rows_room e (length rows)"
  shows "table_ok (unat e + 3) (map (inc_raw e) rows)"
proof -
  have "uniform (unat e + 3) (map (inc_raw e) rows)"
    using assms(1) by (auto simp: uniform_def holds_rows_def length_inc_raw)
  then show ?thesis using assms(2) by (simp add: table_ok_def rows_room_def)
qed

lemma map_list_insert_at: "map g (list_insert_at i d rs) = list_insert_at i (g d) (map g rs)"
  by (simp add: list_insert_at_def take_map drop_map)

lemma set_list_insert_at: "set (list_insert_at i d rs) \<subseteq> insert d (set rs)"
  by (auto simp: list_insert_at_def dest: in_set_takeD in_set_dropD)

lemma length_list_insert_at [simp]: "length (list_insert_at i d rs) = Suc (length rs)"
  by (auto simp: list_insert_at_def)

lemma i64_index:
  assumes "N < 2 ^ 48"
  shows "(i64 p < 0 \<or> int N < i64 p) \<longleftrightarrow> N < unat p" "(i64 p < 0 \<or> int N \<le> i64 p) \<longleftrightarrow> N \<le> unat p"
proof -
  define u where "u = unat p"
  have u: "u < 2 ^ 64" using unsigned_less[of p, where ?'a = nat] by (simp add: u_def)
  have "(0 \<le> i64 p \<and> i64 p = int u) \<or> (i64 p < 0 \<and> N < u)"
  proof (cases "u < 2 ^ 63")
    case True
    then show ?thesis using i64_small[of p] by (simp add: u_def)
  next
    case False
    then have "i64 p = int u - 2 ^ 64" using i64_large[of p] by (simp add: u_def)
    moreover have "int u < 2 ^ 64" using u by simp
    ultimately show ?thesis using False assms by auto
  qed
  then show "(i64 p < 0 \<or> int N < i64 p) \<longleftrightarrow> N < unat p" "(i64 p < 0 \<or> int N \<le> i64 p) \<longleftrightarrow> N \<le> unat p"
    unfolding u_def[symmetric] by auto
qed
definition only_file :: "string \<Rightarrow> datadir \<Rightarrow> datadir \<Rightarrow> bool" where
  "only_file p d d' \<longleftrightarrow> same_elsewhere p d d' \<and> dd_defrag d' = dd_defrag d"

lemma only_file_after [simp]: "only_file p d (dd_after d p f (dd_defrag d))"
  by (simp add: only_file_def)

lemma inc_answer_ok: "i < 2 ^ 64 \<Longrightarrow> inc_answer d (resp_ok (id_buf (int i)) a c) = (d, Reply (word_of_nat i, None))"
  by (simp add: inc_answer_def resp_ok_def id_buf_def le_val_le_bytes)

lemma inc_answer_err: "inc_answer d (resp_err e) = (d, Panics)"
  by (simp add: inc_answer_def resp_err_def)

lemma holds_rows_after:
  "healthy f \<Longrightarrow> content f = concat (map (inc_raw e) rows) \<Longrightarrow> (\<And>b. b \<in> set rows \<Longrightarrow> length b \<le> unat e) \<Longrightarrow>
   holds_rows (dd_after d p f g) p e rows"
  by (simp add: holds_rows_def)

lemma inc_write_ok:
  assumes rows: "holds_rows d p e rows" "rows_room e (length rows)" and fit: "fits_table (unat e + 3) req"
    and p: "p = full_path (fr_op req) name"
    and step: "table_step req (map (inc_raw e) rows) = (map (inc_raw e) rows', Inr (id_buf (int i)))"
    and ok: "\<And>b. b \<in> set rows' \<Longrightarrow> length b \<le> unat e" and i: "i < 2 ^ 64"
  shows "\<exists>d'. call_bind (sendToFileWorker it name req d) inc_answer = (d', Reply (word_of_nat i, None))
    \<and> holds_rows d' p e rows' \<and> only_file p d d'"
proof -
  have r: "dd_ready d p" "dd_content d p = concat (map (inc_raw e) rows)" using rows(1) by (simp_all add: holds_rows_def)
  obtain f resp where f: "sendToFileWorker it name req d = (dd_after d p f (dd_defrag d), Reply resp)"
    "healthy f" "content f = concat (map (inc_raw e) rows')" "\<exists>a c. resp = resp_ok (id_buf (int i)) a c"
    using table_request[OF r p rows_table[OF rows] fit, of it] step by auto
  then show ?thesis
    using holds_rows_after[OF f(2,3) ok] inc_answer_ok[OF i]
    by (intro exI[of _ "dd_after d p f (dd_defrag d)"]) (auto simp: call_bind_def)
qed

lemma inc_write_bad:
  assumes rows: "holds_rows d p e rows" "rows_room e (length rows)" and fit: "fits_table (unat e + 3) req"
    and p: "p = full_path (fr_op req) name"
    and step: "table_step req (map (inc_raw e) rows) = (map (inc_raw e) rows, Inl err)"
  shows "\<exists>d'. call_bind (sendToFileWorker it name req d) inc_answer = (d', Panics)
    \<and> holds_rows d' p e rows \<and> only_file p d d'"
proof -
  have r: "dd_ready d p" "dd_content d p = concat (map (inc_raw e) rows)"
    and ok: "\<And>b. b \<in> set rows \<Longrightarrow> length b \<le> unat e" using rows(1) by (simp_all add: holds_rows_def)
  obtain f resp where f: "sendToFileWorker it name req d = (dd_after d p f (dd_defrag d), Reply resp)"
    "healthy f" "content f = concat (map (inc_raw e) rows)" "resp = resp_err err"
    using table_request[OF r p rows_table[OF rows] fit, of it] step by auto
  then show ?thesis
    using holds_rows_after[OF f(2,3) ok] inc_answer_err
    by (intro exI[of _ "dd_after d p f (dd_defrag d)"]) (auto simp: call_bind_def)
qed

text \<open>Where an insertion or an overwrite goes, counted from the newest record or the oldest.\<close>

definition from_end :: "string \<Rightarrow> nat \<Rightarrow> nat \<Rightarrow> nat" where
  "from_end from newest p = (if from = ''top'' then newest - p else p)"

definition direction :: "string \<Rightarrow> bool" where
  "direction from \<longleftrightarrow> from = ''top'' \<or> from = ''bottom''"

lemma tab_pos_from:
  assumes "direction from" "p \<le> newest"
  shows "tab_pos from (int newest) (int p) = int (from_end from newest p)"
proof -
  have "to_lower ''top'' = ''top''" "to_lower ''bottom'' \<noteq> ''top''" by code_simp+
  with assms show ?thesis by (auto simp: direction_def tab_pos_def from_end_def)
qed

lemma write_append:
  assumes "holds_rows d (inc_path name) e rows" "rows_room e (length rows)" "length b \<le> unat e"
  shows "\<exists>d'. saveIncDataToFileAsync it (inc_raw e b) name e d = (d', Reply (word_of_nat (length rows), None))
    \<and> holds_rows d' (inc_path name) e (rows @ [b]) \<and> only_file (inc_path name) d d'"
proof -
  let ?req = "(request ''write_inc'')\<lparr>fr_data := inc_raw e b, fr_entrySize := e\<rparr>"
  note rs = rows_room_size[OF assms(2)]
  have fit: "fits_table (unat e + 3) ?req"
    using rs assms(3) by (simp add: fits_table_def request_def table_ops_def record_total_ok length_inc_raw)
  have st: "table_step ?req (map (inc_raw e) rows) = (map (inc_raw e) (rows @ [b]), Inr (id_buf (int (length rows))))"
    by (simp add: table_step_def request_def Let_def)
  have p: "inc_path name = full_path (fr_op ?req) name" by (simp add: request_def)
  have "\<And>x. x \<in> set (rows @ [b]) \<Longrightarrow> length x \<le> unat e" using assms(1,3) by (auto simp: holds_rows_def)
  from inc_write_ok[OF assms(1,2) fit p st this, of it] show ?thesis
    using rs unfolding saveIncDataToFileAsync_def by simp
qed

lemma i64_eq: "unat p \<le> N \<Longrightarrow> N < 2 ^ 48 \<Longrightarrow> i64 p = int (unat p)"
  by (intro i64_small) simp

lemma write_put:
  assumes "holds_rows d (inc_path name) e rows" "rows_room e (length rows)" "length b \<le> unat e" "direction from"
  shows "\<exists>d'. saveIncDataToFileAsync_Put it (inc_raw e b) name e p from d =
      (d', if length rows < unat p then Panics
           else Reply (word_of_nat (from_end from (length rows) (unat p)), None))
    \<and> holds_rows d' (inc_path name) e (if length rows < unat p then rows
        else list_insert_at (from_end from (length rows) (unat p)) b rows)
    \<and> only_file (inc_path name) d d'"
proof -
  let ?req = "(request ''write_inc_ow'')\<lparr>fr_data := inc_raw e b, fr_entrySize := e, fr_inc_id := p,
      fr_read_type := 0, fr_count_from := from\<rparr>"
  let ?N = "length rows" and ?i = "from_end from (length rows) (unat p)"
  note rs = rows_room_size[OF assms(2)]
  have fit: "fits_table (unat e + 3) ?req"
    using rs assms(3) by (simp add: fits_table_def request_def table_ops_def record_total_ok length_inc_raw)
  have path: "inc_path name = full_path (fr_op ?req) name" by (simp add: request_def)
  have guard: "(i64 p < 0 \<or> int ?N < i64 p) = (?N < unat p)" using rs by (simp add: i64_index)
  have op: "fr_op ?req \<noteq> ''write_inc''" "fr_op ?req = ''write_inc_ow''" "fr_read_type ?req = 0"
    "fr_inc_id ?req = p" "fr_data ?req = inc_raw e b" "fr_count_from ?req = from"
    by (simp_all add: request_def)
  show ?thesis
  proof (cases "?N < unat p")
    case True
    then have "table_step ?req (map (inc_raw e) rows) = (map (inc_raw e) rows, Inl InsertIdOutOfRange)"
      unfolding table_step_def op Let_def length_map guard by simp
    from inc_write_bad[OF assms(1,2) fit path this, of it] True show ?thesis
      unfolding saveIncDataToFileAsync_Put_def by simp
  next
    case False
    then have pi: "i64 p = int (unat p)" using rs by (intro i64_eq[of _ ?N]) simp_all
    have le: "unat p \<le> ?N" using False by simp
    have t: "tab_pos from (int ?N) (i64 p) = int ?i" unfolding pi by (rule tab_pos_from[OF assms(4) le])
    have st: "table_step ?req (map (inc_raw e) rows) =
        (map (inc_raw e) (list_insert_at ?i b rows), Inr (id_buf (int ?i)))"
      using False unfolding table_step_def op Let_def length_map guard t by (simp add: map_list_insert_at)
    have ok: "\<And>x. x \<in> set (list_insert_at ?i b rows) \<Longrightarrow> length x \<le> unat e"
      using assms(1,3) set_list_insert_at[of ?i b rows] by (auto simp: holds_rows_def)
    have "?i < 2 ^ 64" using rs False by (auto simp: from_end_def)
    from inc_write_ok[OF assms(1,2) fit path st ok this, of it] False show ?thesis
      unfolding saveIncDataToFileAsync_Put_def by simp
  qed
qed

lemma write_overwrite:
  assumes "holds_rows d (inc_path name) e rows" "rows_room e (length rows)" "length b \<le> unat e" "direction from"
  shows "\<exists>d'. saveIncDataToFileAsync_OverWrite it (inc_raw e b) name e p from d =
      (d', if length rows \<le> unat p then Panics
           else Reply (word_of_nat (from_end from (length rows - 1) (unat p)), None))
    \<and> holds_rows d' (inc_path name) e (if length rows \<le> unat p then rows
        else rows[from_end from (length rows - 1) (unat p) := b])
    \<and> only_file (inc_path name) d d'"
proof -
  let ?req = "(request ''write_inc_ow'')\<lparr>fr_data := inc_raw e b, fr_entrySize := e, fr_inc_id := p,
      fr_read_type := 1, fr_count_from := from\<rparr>"
  let ?N = "length rows" and ?i = "from_end from (length rows - 1) (unat p)"
  note rs = rows_room_size[OF assms(2)]
  have fit: "fits_table (unat e + 3) ?req"
    using rs assms(3) by (simp add: fits_table_def request_def table_ops_def record_total_ok length_inc_raw)
  have path: "inc_path name = full_path (fr_op ?req) name" by (simp add: request_def)
  have guard: "(i64 p < 0 \<or> int ?N \<le> i64 p) = (?N \<le> unat p)" using rs by (simp add: i64_index)
  have op: "fr_op ?req \<noteq> ''write_inc''" "fr_op ?req = ''write_inc_ow''" "fr_read_type ?req \<noteq> 0"
    "fr_read_type ?req = 1" "fr_inc_id ?req = p" "fr_data ?req = inc_raw e b" "fr_count_from ?req = from"
    by (simp_all add: request_def)
  show ?thesis
  proof (cases "?N \<le> unat p")
    case True
    then have "table_step ?req (map (inc_raw e) rows) = (map (inc_raw e) rows, Inl OverwriteIdOutOfRange)"
      unfolding table_step_def Let_def op(5-) length_map guard by (simp add: op(1-4))
    from inc_write_bad[OF assms(1,2) fit path this, of it] True show ?thesis
      unfolding saveIncDataToFileAsync_OverWrite_def by simp
  next
    case False
    then have pi: "i64 p = int (unat p)" using rs by (intro i64_eq[of _ ?N]) simp_all
    have n1: "int ?N - 1 = int (?N - 1)" "unat p \<le> ?N - 1" using False by auto
    have t: "tab_pos from (int ?N - 1) (i64 p) = int ?i" unfolding n1(1) pi by (rule tab_pos_from[OF assms(4) n1(2)])
    have st: "table_step ?req (map (inc_raw e) rows) = (map (inc_raw e) (rows[?i := b]), Inr (id_buf (int ?i)))"
      using False unfolding table_step_def Let_def op(5-) length_map guard t by (simp add: op(1-4) map_update)
    have ok: "\<And>x. x \<in> set (rows[?i := b]) \<Longrightarrow> length x \<le> unat e"
      using assms(1,3) set_update_subset_insert[of rows ?i b] by (auto simp: holds_rows_def)
    have "?i < 2 ^ 64" using rs False by (auto simp: from_end_def)
    from inc_write_ok[OF assms(1,2) fit path st ok this, of it] False show ?thesis
      unfolding saveIncDataToFileAsync_OverWrite_def by simp
  qed
qed

text \<open>Reads leave the rows.\<close>

definition read_rows :: "byte \<Rightarrow> u64 \<Rightarrow> bytes list \<Rightarrow> worker_error + bytes list" where
  "read_rows t p rows =
     (if t = 0 then (if length rows \<le> unat p then Inl ReadIdOutOfRange else Inr [rows ! unat p])
      else if t = 1 then Inr (rev (drop (length rows - nat (i64 p)) rows))
      else Inr (take (nat (i64 p)) rows))"

lemma read_table:
  assumes "holds_rows d (inc_path name) e rows" "rows_room e (length rows)" "t \<in> {0, 1, 2}"
  shows "\<exists>d'. readIncDataFromFileAsync t it name p e d =
      (d', Reply (case read_rows t p rows of Inl err \<Rightarrow> Inl err
                  | Inr xs \<Rightarrow> Inr (concat (map (inc_raw e) xs))))
    \<and> holds_rows d' (inc_path name) e rows \<and> only_file (inc_path name) d d'"
proof -
  let ?req = "(request ''read_inc'')\<lparr>fr_entrySize := e, fr_inc_id := p, fr_read_type := t\<rparr>"
  let ?N = "length rows" and ?recs = "map (inc_raw e) rows"
  let ?ans = "case read_rows t p rows of Inl err \<Rightarrow> Inl err | Inr xs \<Rightarrow> Inr (concat (map (inc_raw e) xs))"
  note rs = rows_room_size[OF assms(2)]
  have r: "dd_ready d (inc_path name)" "dd_content d (inc_path name) = concat ?recs"
    and ok: "\<And>b. b \<in> set rows \<Longrightarrow> length b \<le> unat e" using assms(1) by (simp_all add: holds_rows_def)
  have fit: "fits_table (unat e + 3) ?req"
    using rs by (simp add: fits_table_def request_def table_ops_def record_total_ok)
  have path: "inc_path name = full_path (fr_op ?req) name" by (simp add: request_def)
  have guard: "(i64 p < 0 \<or> int ?N \<le> i64 p) = (?N \<le> unat p)" using rs by (simp add: i64_index)
  have op: "fr_op ?req \<noteq> ''write_inc''" "fr_op ?req \<noteq> ''write_inc_ow''" "fr_read_type ?req = t" "fr_inc_id ?req = p"
    by (simp_all add: request_def)
  have pos: "nat (i64 p) = unat p" if "\<not> ?N \<le> unat p"
    using that rs i64_eq[of p ?N] by simp
  have st: "table_step ?req ?recs = (?recs, ?ans)"
    using assms(3) pos unfolding table_step_def Let_def op(3,4) length_map guard
    by (auto simp: request_def read_rows_def rev_map drop_map take_map)
  obtain f resp where f: "sendToFileWorker it name ?req d = (dd_after d (inc_path name) f (dd_defrag d), Reply resp)"
    "healthy f" "content f = concat ?recs"
    "case ?ans of Inl err \<Rightarrow> resp = resp_err err | Inr b \<Rightarrow> \<exists>a c. resp = resp_ok b a c"
    using table_request[OF r path rows_table[OF assms(1,2)] fit, of it] st by auto
  have a: "(case rs_err resp of Some err \<Rightarrow> Inl err | None \<Rightarrow> Inr (rs_data resp)) = ?ans"
    using f(4) by (auto simp: resp_err_def resp_ok_def split: sum.splits)
  show ?thesis
    using holds_rows_after[OF f(2,3) ok] f(1) a
    by (intro exI[of _ "dd_after d (inc_path name) f (dd_defrag d)"])
      (simp add: readIncDataFromFileAsync_def call_bind_def)
qed

lemma inc_raw_nonempty: "inc_raw e b \<noteq> []"
  by (simp add: inc_raw_def)

lemma read_id:
  assumes "holds_rows d (inc_path name) e rows" "rows_room e (length rows)"
  shows "\<exists>d'. readInc_ById it name p e d =
      (d', Reply (if length rows \<le> unat p then Inl ReadIdOutOfRange else Inr (inc_raw e (rows ! unat p))))
    \<and> holds_rows d' (inc_path name) e rows \<and> only_file (inc_path name) d d'"
  using read_table[OF assms, of 0 it p] by (auto simp: readInc_ById_def read_rows_def)

text \<open>A block of whole records is split and decoded into the rows, numbered from 0.\<close>

lemma inc_entries_rows:
  assumes "entry_size_ok e" "\<And>b. b \<in> set rows \<Longrightarrow> length b \<le> unat e"
  shows "i + n = length rows \<Longrightarrow>
    inc_entries e (unat e + 3) (concat (map (inc_raw e) rows)) i n =
      Ret (Inr (map (\<lambda>j. (word_of_nat j, rows ! j)) [i..<length rows]))"
proof (induction n arbitrary: i)
  case (Suc n)
  then have i: "i < length rows" by simp
  have u: "uniform (unat e + 3) (map (inc_raw e) rows)"
    using assms(2) by (auto simp: uniform_def length_inc_raw)
  have "drop (i * (unat e + 3)) (concat (map (inc_raw e) rows)) = concat (drop i (map (inc_raw e) rows))"
    by (rule drop_concat_uniform[OF u])
  also have "drop i (map (inc_raw e) rows) = inc_raw e (rows ! i) # map (inc_raw e) (drop (Suc i) rows)"
    using i by (simp add: drop_map Cons_nth_drop_Suc[symmetric])
  finally have "take (unat e + 3) (drop (i * (unat e + 3)) (concat (map (inc_raw e) rows))) = inc_raw e (rows ! i)"
    using i assms(2) by (simp add: length_inc_raw)
  moreover have "[i..<length rows] = i # [Suc i..<length rows]" using i by (rule upt_conv_Cons)
  ultimately show ?case
    using Suc.IH[of "Suc i"] Suc.prems decode_inc_raw[OF assms(1), of "rows ! i"] i assms(2) by simp
qed simp

definition numbered :: "bytes list \<Rightarrow> (u64 \<times> bytes) list" where
  "numbered xs = map (\<lambda>j. (word_of_nat j, xs ! j)) [0..<length xs]"

lemma entries_reply_rows:
  assumes "entry_size_ok e" "\<And>b. b \<in> set xs \<Longrightarrow> length b \<le> unat e"
  shows "entries_reply e (Inr (concat (map (inc_raw e) xs))) s = reply s (Entries (numbered xs))"
proof -
  have u: "uniform (unat e + 3) (map (inc_raw e) xs)" using assms(2) by (auto simp: uniform_def length_inc_raw)
  have len: "length (concat (map (inc_raw e) xs)) = length xs * (unat e + 3)"
    using length_concat_uniform[OF u] by simp
  have rt: "record_total e = int (unat e + 3)" using record_total_ok[OF assms(1)] by simp
  have pos: "\<not> int (unat e + 3) \<le> 0" by (simp only: of_nat_le_0_iff)
  have m: "int (length xs * (unat e + 3)) mod int (unat e + 3) = 0" by simp
  have d: "length xs * (unat e + 3) div (unat e + 3) = length xs" by (rule nonzero_mult_div_cancel_right) simp
  show ?thesis
    unfolding entries_reply_def sum.case Let_def rt len nat_int d m
    using inc_entries_rows[OF assms, of xs 0 "length xs"] pos by (simp add: ilift_def numbered_def)
qed

text \<open>The deletion of the file.\<close>

lemma delete_file:
  assumes "dd_ready d (inc_path name)"
  shows "\<exists>d'. deleteIncTableFile it name d = (d', Reply None)
    \<and> holds_rows d' (inc_path name) e [] \<and> only_file (inc_path name) d d'"
proof -
  let ?p = "inc_path name"
  let ?w = "\<lparr>w_file = dd_files d ?p, w_defrag = dd_defrag d\<rparr>"
  have h: "closed (dd_files d ?p) = False" "\<And>n. faults (dd_files d ?p) n = Fine" "\<not> dd_crashed d ?p"
    using assms by (simp_all add: dd_ready_def healthy_def)
  obtain f where f: "handleDeleteIncFile (dd_files d ?p) = (f, None)" "healthy f" "content f = []"
    using h by (simp add: handleDeleteIncFile_def Let_def f_fault_def tick_def healthy_def)
  have "sendToFileWorker it name (request ''delete_inc'') d =
      (dd_after d ?p f (dd_defrag d), Reply \<lparr>rs_data = [], rs_startPtr = 0, rs_endPtr = 0, rs_err = None\<rparr>)"
    using f h(3) by (simp add: sendToFileWorker_def Let_def request_def delete_request_def dd_after_def)
  then show ?thesis
    using f holds_rows_after[of f e "[]" d ?p "dd_defrag d"]
    by (intro exI[of _ "dd_after d ?p f (dd_defrag d)"]) (simp add: deleteIncTableFile_def call_bind_def)
qed

section \<open>The index of a table\<close>

text \<open>
  The index of the file can be loaded and written, finds the positions \<open>pos\<close>, and is not longer than
  the table.
\<close>

definition holds_keys :: "idx_state \<Rightarrow> string \<Rightarrow> (string \<Rightarrow> u64 option) \<Rightarrow> nat \<Rightarrow> bool" where
  "holds_keys x f pos N \<longleftrightarrow> file_ok x f \<and> \<not> ix_locked x f
     \<and> (\<exists>idx. snd (getIndex x f) = Inr idx \<and> px_positions idx = pos \<and> length (px_keys idx) \<le> N)"

lemma holds_keys_get:
  assumes "holds_keys x f pos N"
  obtains x1 idx where "getIndex x f = (x1, Inr idx)" "px_positions idx = pos" "length (px_keys idx) \<le> N"
    "px_ok idx" "ix_indices x1 f = Some idx" "file_ok x1 f" "\<not> ix_locked x1 f" "file_ok x f" "\<not> ix_locked x f"
proof -
  obtain idx where i: "snd (getIndex x f) = Inr idx" "px_positions idx = pos" "length (px_keys idx) \<le> N"
      "file_ok x f" "\<not> ix_locked x f"
    using assms unfolding holds_keys_def by blast
  then obtain x1 where g: "getIndex x f = (x1, Inr idx)" by (metis prod.collapse)
  show ?thesis using that[OF g i(2,3)] getIndex_file[OF i(4) g] getIndex_frame(2)[OF g] i(4,5) by simp
qed

lemma holds_keys_loaded:
  "px_ok idx \<Longrightarrow> \<not> ix_locked x f \<Longrightarrow> ix_indices x f = Some idx \<Longrightarrow> px_positions idx = pos \<Longrightarrow>
   length (px_keys idx) \<le> N \<Longrightarrow> holds_keys x f pos N"
  by (auto simp: holds_keys_def getIndex_def file_ok_def)

lemma holds_keys_mono: "holds_keys x f pos N \<Longrightarrow> N \<le> M \<Longrightarrow> holds_keys x f pos M"
  unfolding holds_keys_def by (elim conjE exE, intro conjI exI) (assumption | erule (1) le_trans)+

lemma keys_lookup:
  assumes "holds_keys x f pos N"
  shows "\<exists>x'. ix_lookup f k x = (x', Inr (case pos k of Some p \<Rightarrow> (p, True) | None \<Rightarrow> (0, False)))
    \<and> holds_keys x' f pos N"
proof -
  obtain x1 idx where g: "getIndex x f = (x1, Inr idx)" "px_positions idx = pos" "length (px_keys idx) \<le> N"
    "px_ok idx" "ix_indices x1 f = Some idx" "file_ok x1 f" "\<not> ix_locked x1 f" "file_ok x f" "\<not> ix_locked x f"
    by (rule holds_keys_get[OF assms])
  have "holds_keys x1 f pos N" by (rule holds_keys_loaded[OF g(4,7,5,2,3)])
  then show ?thesis using g(1,2) by (simp add: ix_lookup_def)
qed

definition bind_new :: "u64 \<Rightarrow> string \<Rightarrow> (string \<Rightarrow> u64 option) \<Rightarrow> string \<Rightarrow> u64 option" where
  "bind_new i k pos = (\<lambda>k'. if k' = k then Some i else map_option (shifted i) (pos k'))"

definition rebind :: "u64 \<Rightarrow> string \<Rightarrow> (string \<Rightarrow> u64 option) \<Rightarrow> string \<Rightarrow> u64 option" where
  "rebind i k pos = (\<lambda>k'. if k' = k then Some i else if pos k' = Some i then None else pos k')"

lemma keys_insert:
  assumes "holds_keys x f pos N" "unat i \<le> N" "N < 2 ^ 48" "k \<noteq> []" "pos k = None"
  shows "\<exists>x'. ix_insert f i k x = (x', None) \<and> holds_keys x' f (bind_new i k pos) (Suc N)"
proof -
  obtain x1 idx where g: "getIndex x f = (x1, Inr idx)" "px_positions idx = pos" "length (px_keys idx) \<le> N"
    "px_ok idx" "ix_indices x1 f = Some idx" "file_ok x1 f" "\<not> ix_locked x1 f" "file_ok x f" "\<not> ix_locked x f"
    by (rule holds_keys_get[OF assms(1)])
  have new: "px_positions idx k = None" using g(2) assms(5) by simp
  have m: "max (length (px_keys idx)) (unat i) \<le> N" using g(3) assms(2) by simp
  have "Suc N < 2 ^ 63" using assms(3) by simp
  then have room: "px_room i idx" unfolding px_room_def using m by linarith
  obtain x2 e where sv: "saveLocked x1 f (px_insert i k idx) = (x2, e)" by fastforce
  note so = saveLocked_frame[OF sv]
  have "px_positions (px_insert i k idx) = bind_new i k pos"
    unfolding px_insert_look[OF g(4) new assms(4) room] bind_new_def g(2) ..
  moreover have "length (px_keys (px_insert i k idx)) \<le> Suc N"
    unfolding px_insert_keys length_insert_at using m by simp
  ultimately have "holds_keys x2 f (bind_new i k pos) (Suc N)"
    using so(1,2) g(7) px_insert_ok[OF g(4) new assms(4) room]
    by (intro holds_keys_loaded[of "px_insert i k idx"]) simp_all
  then show ?thesis using g(1,7) new assms(4) sv so(3) by (simp add: ix_insert_def)
qed

lemma ix_set_length:
  assumes "getIndex x f = (x1, Inr idx)" "ix_set f i k x = Ret (x', e)" "k \<noteq> []"
  shows "\<exists>idx'. ix_indices x' f = Some idx' \<and> length (px_keys idx') = max (length (px_keys idx)) (unat (i + 1))"
  using assms by (auto simp: ix_set_def Let_def saveLocked_def split: if_splits)

lemma keys_set:
  assumes "holds_keys x f pos N" "unat i < N" "N < 2 ^ 48" "k \<noteq> []"
  shows "\<exists>x'. ix_set f i k x =
      Ret (x', if pos k \<noteq> None \<and> pos k \<noteq> Some i then Some DuplicateKey else None)
    \<and> holds_keys x' f (if pos k \<noteq> None \<and> pos k \<noteq> Some i then pos else rebind i k pos) N"
proof -
  obtain x1 idx where g: "getIndex x f = (x1, Inr idx)" "px_positions idx = pos" "length (px_keys idx) \<le> N"
    "px_ok idx" "ix_indices x1 f = Some idx" "file_ok x1 f" "\<not> ix_locked x1 f" "file_ok x f" "\<not> ix_locked x f"
    by (rule holds_keys_get[OF assms(1)])
  have look: "ix_look x f = pos" using ix_look_get[OF g(1)] g(2) by simp
  have ip: "unat i + 1 < 2 ^ 63" using assms(2,3) by simp
  obtain x' e where s: "ix_set f i k x = Ret (x', e)" "file_ok x' f" "ix_locked x' = ix_locked x"
    "e = (if pos k = None \<or> pos k = Some i then None else Some DuplicateKey)"
    "ix_look x' f = (if e = None then rebind i k pos else pos)"
    using index_set_rebinds[OF g(8,1,9) ip assms(4)] unfolding look rebind_def by blast
  obtain idx' where i': "ix_indices x' f = Some idx'" "length (px_keys idx') = max (length (px_keys idx)) (unat (i + 1))"
    using ix_set_length[OF g(1) s(1) assms(4)] by blast
  have "unat (i + 1) \<le> N" using ip assms(2) by (simp add: unat_succ)
  then have len: "length (px_keys idx') \<le> N" using i'(2) g(3) by simp
  have "holds_keys x' f (ix_look x' f) N"
    using ix_look_some[OF i'(1)] s(2,3) g(9) len file_ok_loaded[OF i'(1)] by (intro holds_keys_loaded[OF _ _ i'(1)]) simp_all
  then show ?thesis using s(1,4,5) by auto
qed

lemma keys_drop:
  assumes "holds_keys x f pos N"
  shows "holds_keys (fst (ix_dropTable f x)) f Map.empty 0"
proof -
  have x: "\<not> ix_locked x f" using assms by (simp add: holds_keys_def)
  then have "snd (getIndex (fst (ix_dropTable f x)) f) = Inr empty_pos_index"
    by (simp add: ix_dropTable_def Let_def getIndex_def px_load_def)
  then show ?thesis
    using x by (simp add: holds_keys_def file_ok_def ix_dropTable_def Let_def px_load_def px_ok_def empty_pos_index_def)
qed

section \<open>The metadata of a table\<close>

definition table_data :: "string \<Rightarrow> u64 \<Rightarrow> inc_table_entry_data" where
  "table_data key e = \<lparr>td_entrySize = e, td_tableFileName = inc_table_file key\<rparr>"

lemma table_data_simps [simp]:
  "td_entrySize (table_data key e) = e" "td_tableFileName (table_data key e) = inc_table_file key"
  by (simp_all add: table_data_def)

definition key_ok :: "string \<Rightarrow> bool" where
  "key_ok key \<longleftrightarrow> plain key \<and> length key < 2 ^ 31"

lemma table_data_meta:
  assumes "key_ok key"
  shows "structToBytesBinary (table_data key e) = Inr (meta_enc (table_data key e))"
    "bytesToStructBinary (meta_enc (table_data key e)) = Inr (table_data key e)"
    "kv_fits (meta_enc (table_data key e))"
proof -
  have n: "length (inc_table_file key) < 2 ^ 32" using assms by (simp add: key_ok_def inc_table_file_def)
  then have "meta_ok (table_data key e)" by (simp add: meta_ok_def inc_table_file_def)
  then obtain b where b: "structToBytesBinary (table_data key e) = Inr b" "bytesToStructBinary b = Inr (table_data key e)"
    using structToBytes_roundtrip by blast
  then show "structToBytesBinary (table_data key e) = Inr (meta_enc (table_data key e))"
    "bytesToStructBinary (meta_enc (table_data key e)) = Inr (table_data key e)" by (simp_all add: meta_enc_def)
  have "length b = 12 + length (inc_table_file key)"
    using b(1) n by (auto simp: structToBytesBinary_def Let_def split: if_splits)
  then show "kv_fits (meta_enc (table_data key e))"
    using n b(1) by (simp add: meta_enc_def kv_fits_def max_alloc_def)
qed

section \<open>A table as rows and positions\<close>

record inc_tab =
  tb_size :: u64
  tb_rows :: "bytes list"
  tb_pos :: "string \<Rightarrow> u64 option"

definition new_tab :: "u64 \<Rightarrow> inc_tab" where
  "new_tab e = \<lparr>tb_size = e, tb_rows = [], tb_pos = Map.empty\<rparr>"

text \<open>
  The three parts of the table named by \<open>file\<close> and \<open>key\<close>: what the store holds under the key, the file
  of records and the index.
\<close>

definition inc_parts :: "string \<Rightarrow> string \<Rightarrow> ist \<Rightarrow> bytes option \<Rightarrow> inc_tab \<Rightarrow> bool" where
  "inc_parts file key s meta t \<longleftrightarrow> kv_inv file (ist_kv s) \<and> kv_abs (ist_kv s) file key = meta
     \<and> holds_rows (kv_dir (ist_kv s)) (inc_path (inc_table_file key)) (tb_size t) (tb_rows t)
     \<and> holds_keys (ist_ix s) (inc_table_file key) (tb_pos t) (length (tb_rows t))"

text \<open>The table does not exist, or it does; \<open>m\<close> more records fit, of a size up to \<open>E\<close>.\<close>

definition inc_inv :: "string \<Rightarrow> string \<Rightarrow> u64 \<Rightarrow> nat \<Rightarrow> ist \<Rightarrow> inc_tab option \<Rightarrow> bool" where
  "inc_inv file key E m s st \<longleftrightarrow> (case st of
      None \<Rightarrow> inc_parts file key s None (new_tab E) \<and> rows_room E m
    | Some t \<Rightarrow> inc_parts file key s (Some (meta_enc (table_data key (tb_size t)))) t
        \<and> tb_size t \<le> E \<and> rows_room E (length (tb_rows t) + m))"

lemma rows_room_mono: "rows_room E N \<Longrightarrow> e \<le> E \<Longrightarrow> M \<le> N \<Longrightarrow> rows_room e M"
proof -
  assume a: "rows_room E N" "e \<le> E" "M \<le> N"
  have "(M + 1) * (unat e + 3) \<le> (N + 1) * (unat E + 3)"
    using a(2,3) by (intro mult_le_mono) (simp_all add: word_le_nat_alt)
  then have "int ((M + 1) * (unat e + 3)) \<le> int ((N + 1) * (unat E + 3))" by (simp only: of_nat_le_iff)
  then show ?thesis using a(1) unfolding rows_room_def by (rule order_trans)
qed

lemma only_file_ready: "only_file p d d' \<Longrightarrow> q \<noteq> p \<Longrightarrow> dd_files d' q = dd_files d q \<and> dd_crashed d' q = dd_crashed d q
    \<and> dd_exists d' q = dd_exists d q"
  by (simp add: only_file_def same_elsewhere_def)

text \<open>A request to the table file does not disturb the store.\<close>

lemma store_undisturbed:
  assumes "kv_inv file k" "only_file (inc_path n) (kv_dir k) d'"
  shows "kv_inv file (k\<lparr>kv_dir := d'\<rparr>) \<and> kv_abs (k\<lparr>kv_dir := d'\<rparr>) file = kv_abs k file"
proof -
  have "dd_ready (kv_dir k) (data_path file)" using assms(1) by (simp add: kv_inv_def)
  then show ?thesis
    using only_file_ready[OF assms(2), of "data_path file"] inc_path_apart[of n "file"] assms(2)
    by (intro kv_inv_dir[OF assms(1)]) (auto simp: dd_ready_def only_file_def)
qed

lemma holds_rows_elsewhere:
  "same_elsewhere p d d' \<Longrightarrow> q \<noteq> p \<Longrightarrow> holds_rows d' q e rows = holds_rows d q e rows"
  by (simp add: holds_rows_def same_elsewhere_def dd_ready_def)

definition put_dir :: "datadir \<Rightarrow> ist \<Rightarrow> ist" where
  "put_dir d s = s\<lparr>ist_kv := (ist_kv s)\<lparr>kv_dir := d\<rparr>\<rparr>"

lemma put_dir_simps [simp]:
  "ist_ix (put_dir d s) = ist_ix s" "ist_kv (put_dir d s) = (ist_kv s)\<lparr>kv_dir := d\<rparr>"
  by (simp_all add: put_dir_def)

lemma on_dir_eq: "f (kv_dir (ist_kv s)) = (d', r) \<Longrightarrow> on_dir f s = (put_dir d' s, r)"
  by (simp add: on_dir_def with_dir_def put_dir_def)

lemma parts_dir:
  assumes "inc_parts file key s meta t" "only_file (inc_path (inc_table_file key)) (kv_dir (ist_kv s)) d'"
    and "holds_rows d' (inc_path (inc_table_file key)) (tb_size t) rows"
    and "holds_keys (ist_ix s) (inc_table_file key) (tb_pos t) (length rows)"
  shows "inc_parts file key (put_dir d' s) meta (t\<lparr>tb_rows := rows\<rparr>)"
  using assms store_undisturbed[of "file" "ist_kv s" _ d'] by (auto simp: inc_parts_def)

lemma parts_same_rows:
  assumes "inc_parts file key s meta t" "only_file (inc_path (inc_table_file key)) (kv_dir (ist_kv s)) d'"
    and "holds_rows d' (inc_path (inc_table_file key)) (tb_size t) (tb_rows t)"
  shows "inc_parts file key (put_dir d' s) meta t"
  using parts_dir[OF assms] assms(1) by (simp add: inc_parts_def)

lemma parts_ix:
  "inc_parts file key s meta t \<Longrightarrow> holds_keys x (inc_table_file key) pos (length (tb_rows t)) \<Longrightarrow>
   inc_parts file key (s\<lparr>ist_ix := x\<rparr>) meta (t\<lparr>tb_pos := pos\<rparr>)"
  by (simp add: inc_parts_def)

lemma parts_same_pos:
  "inc_parts file key s meta t \<Longrightarrow> holds_keys x (inc_table_file key) (tb_pos t) (length (tb_rows t)) \<Longrightarrow>
   inc_parts file key (s\<lparr>ist_ix := x\<rparr>) meta t"
  by (simp add: inc_parts_def)

lemma parts_notify [simp]: "inc_parts file key (inc_notify k op i b s) meta t = inc_parts file key s meta t"
  by (simp add: inc_parts_def inc_notify_def)

lemma notify_ix [simp]: "ist_ix (inc_notify k op i b s) = ist_ix s"
  by (simp add: inc_notify_def)

lemma partsD:
  assumes "inc_parts file key s meta t"
  shows "kv_inv file (ist_kv s)" "kv_abs (ist_kv s) file key = meta"
    "holds_rows (kv_dir (ist_kv s)) (inc_path (inc_table_file key)) (tb_size t) (tb_rows t)"
    "holds_keys (ist_ix s) (inc_table_file key) (tb_pos t) (length (tb_rows t))"
  using assms by (simp_all add: inc_parts_def)

lemma reply_simps [simp]:
  "ibind (reply s x) k = k s x" "ibind (s, Reply x) k = k s x" "ibind (s, Panics) k = (s, Panics)"
  "ilift s (Ret y) g = g s y" "unless_replied (reply s (Inl r)) h = reply s r"
  "unless_replied (reply s (Inr z)) h = h s z"
  by (simp_all add: ibind_def ilift_def reply_def unless_replied_def)

lemma reply_inject [simp]: "reply s x = reply s' y \<longleftrightarrow> s = s' \<and> x = y"
  by (auto simp: reply_def)

section \<open>Finding and creating the table\<close>

lemma holds_rows_nil: "holds_rows d p e [] = holds_rows d p e' []"
  by (simp add: holds_rows_def)

lemma create_table:
  assumes parts: "inc_parts file key s None (new_tab E)" and key: "key_ok key"
  shows "\<exists>s'. create_inc_table env file key e s = reply s' (Inr (table_data key e))
    \<and> inc_parts file key s' (Some (meta_enc (table_data key e))) (new_tab e)"
proof -
  note pt = partsD[OF parts]
  let ?m = "meta_enc (table_data key e)"
  obtain d' a where w: "with_dir (saveDataToFileAsync (env_it env) (frame ?m) file) (ist_kv s) =
      ((ist_kv s)\<lparr>kv_dir := d'\<rparr>, Reply (a, a + int (length (frame ?m)), None))"
    "wrote env file (frame ?m) (kv_dir (ist_kv s)) d' a"
    using wrote_async[OF pt(1) table_data_meta(3)[OF key]] by blast
  obtain k' where b: "bind_key file key a (a + int (length (frame ?m))) ((ist_kv s)\<lparr>kv_dir := d'\<rparr>) = (k', None)"
    "kv_inv file k'" "kv_abs k' file = (kv_abs (ist_kv s) file)(key \<mapsto> ?m)"
    using save_core[OF pt(1) table_data_meta(3)[OF key] w(2)] by blast
  have d1: "same_elsewhere (data_path file) (kv_dir (ist_kv s)) d'"
    using w(2) unfolding wrote_def same_elsewhere_def by blast
  have d2: "same_elsewhere (data_path file) d' (kv_dir k')"
    using bind_key_elsewhere[of "data_path file" "(ist_kv s)\<lparr>kv_dir := d'\<rparr>" "file" key a "a + int (length (frame ?m))"]
    unfolding b(1) by simp
  have rows: "holds_rows (kv_dir k') (inc_path (inc_table_file key)) e []"
    using pt(3) holds_rows_elsewhere[OF same_elsewhere_trans[OF d1 d2] inc_path_apart]
    by (simp add: new_tab_def holds_rows_nil[of _ _ e E])
  have "create_inc_table env file key e s = reply (s\<lparr>ist_kv := k'\<rparr>) (Inr (table_data key e))"
    using table_data_meta(1)[OF key] w(1) b(1)
    by (simp add: create_inc_table_def table_data_def[symmetric] on_dir_def Let_def)
  then show ?thesis
    using rows pt(4) b(2,3) by (intro exI[of _ "s\<lparr>ist_kv := k'\<rparr>"]) (simp add: inc_parts_def new_tab_def)
qed

text \<open>The metadata under a bound key: the state after the lookup, and the read of its range.\<close>

lemma bound_key:
  assumes inv: "kv_inv file k" and abs: "kv_abs k file key = Some d"
  obtains k1 e d' where "get_meta file key k = (k1, Inr (entryToOutput key e))" "kv_inv file k1"
    "kv_abs k1 file = kv_abs k file" "kv_dir k1 = kv_dir k"
    "with_dir (readDataFromFileAsync it file (e_start e) (e_end e)) k1 = (k1\<lparr>kv_dir := d'\<rparr>, Reply (Inr (frame d)))"
    "kv_fits d" "kv_inv file (k1\<lparr>kv_dir := d'\<rparr>)" "kv_abs (k1\<lparr>kv_dir := d'\<rparr>) file = kv_abs k file"
    "same_elsewhere (data_path file) (kv_dir k) d'"
    "\<exists>idx. kv_index (k1\<lparr>kv_dir := d'\<rparr>) file = Some idx \<and> loadEntry idx key = Some e"
proof -
  obtain k1 idx where m: "kv_index k1 file = Some idx" "kv_inv file k1" "kv_abs k1 file = kv_abs k file"
    "get_meta file key k = (k1, case loadEntry idx key of None \<Rightarrow> Inl KeyNotFound | Some e \<Rightarrow> Inr (entryToOutput key e))"
    "loadEntry idx key = None \<longleftrightarrow> kv_abs k file key = None"
    by (rule get_meta_inv[OF inv, where k = key])
  obtain e where e: "loadEntry idx key = Some e" using m(5) abs by auto
  have dir: "kv_dir k1 = kv_dir k" using get_meta_dir[of "file" key k] m(4) by simp
  obtain d' d2 where r: "with_dir (readDataFromFileAsync it file (e_start e) (e_end e)) k1 =
      (k1\<lparr>kv_dir := d'\<rparr>, Reply (Inr (frame d2)))" "kv_abs k1 file key = Some d2" "kv_fits d2"
      "kv_inv file (k1\<lparr>kv_dir := d'\<rparr>)" "kv_abs (k1\<lparr>kv_dir := d'\<rparr>) file = kv_abs k1 file"
    using read_async_core[OF m(2,1) e] by blast
  have "d2 = d" using r(2) m(3) abs by simp
  then show ?thesis
    using that[of k1 e d'] m e dir r read_elsewhere[OF r(1)] by auto
qed

lemma parts_after_read:
  assumes "inc_parts file key s meta t" "kv_inv file k" "kv_abs k file = kv_abs (ist_kv s) file"
    "same_elsewhere (data_path file) (kv_dir (ist_kv s)) (kv_dir k)"
  shows "inc_parts file key (s\<lparr>ist_kv := k\<rparr>) meta t"
  using assms holds_rows_elsewhere[OF assms(4) inc_path_apart] by (simp add: inc_parts_def)

lemma load_table:
  assumes parts: "inc_parts file key s (Some (meta_enc (table_data key e))) t" and key: "key_ok key"
  obtains k1 ent s1 where "get_meta file key (ist_kv s) = (k1, Inr (entryToOutput key ent))"
    "on_dir (readDataFromFileAsync (env_it env) file (e_start ent) (e_end ent)) (s\<lparr>ist_kv := k1\<rparr>) =
       reply s1 (Inr (frame (meta_enc (table_data key e))))"
    "load_inc_table env file (entryToOutput key ent) (s\<lparr>ist_kv := k1\<rparr>) = reply s1 (Inr (table_data key e))"
    "inc_parts file key s1 (Some (meta_enc (table_data key e))) t"
    "\<exists>idx. kv_index (ist_kv s1) file = Some idx \<and> loadEntry idx key = Some ent"
proof -
  let ?m = "meta_enc (table_data key e)"
  note pt = partsD[OF parts]
  obtain k1 ent d' where b: "get_meta file key (ist_kv s) = (k1, Inr (entryToOutput key ent))" "kv_inv file k1"
    "kv_abs k1 file = kv_abs (ist_kv s) file" "kv_dir k1 = kv_dir (ist_kv s)"
    "with_dir (readDataFromFileAsync (env_it env) file (e_start ent) (e_end ent)) k1 = (k1\<lparr>kv_dir := d'\<rparr>, Reply (Inr (frame ?m)))"
    "kv_fits ?m" "kv_inv file (k1\<lparr>kv_dir := d'\<rparr>)" "kv_abs (k1\<lparr>kv_dir := d'\<rparr>) file = kv_abs (ist_kv s) file"
    "same_elsewhere (data_path file) (kv_dir (ist_kv s)) d'"
    "\<exists>idx. kv_index (k1\<lparr>kv_dir := d'\<rparr>) file = Some idx \<and> loadEntry idx key = Some ent"
    by (rule bound_key[OF pt(1,2)])
  let ?s1 = "s\<lparr>ist_kv := k1\<lparr>kv_dir := d'\<rparr>\<rparr>"
  have r: "on_dir (readDataFromFileAsync (env_it env) file (e_start ent) (e_end ent)) (s\<lparr>ist_kv := k1\<rparr>) =
      reply ?s1 (Inr (frame ?m))"
    using b(5) by (simp add: on_dir_def reply_def)
  obtain rr where dec: "decode (frame ?m) = Ret rr" "dec_data rr = ?m" using decode_frame_fits[OF b(6)] by blast
  have "load_inc_table env file (entryToOutput key ent) (s\<lparr>ist_kv := k1\<rparr>) = reply ?s1 (Inr (table_data key e))"
    using r dec table_data_meta(2)[OF key] by (simp add: load_inc_table_def entryToOutput_def)
  moreover have "inc_parts file key ?s1 (Some ?m) t"
    using b by (intro parts_after_read[OF parts]) simp_all
  moreover have "\<exists>idx. kv_index (ist_kv ?s1) file = Some idx \<and> loadEntry idx key = Some ent" using b(10) by simp
  ultimately show ?thesis using that[OF b(1) r] by blast
qed

text \<open>A lookup that finds no table.\<close>

lemma missing_table:
  assumes p: "inc_parts file key s None t"
  obtains k1 where "get_meta file key (ist_kv s) = (k1, Inl KeyNotFound)"
    "inc_parts file key (s\<lparr>ist_kv := k1\<rparr>) None t"
proof -
  note pt = partsD[OF p]
  obtain k1 idx where g: "kv_index k1 file = Some idx" "kv_inv file k1" "kv_abs k1 file = kv_abs (ist_kv s) file"
    "get_meta file key (ist_kv s) = (k1, case loadEntry idx key of None \<Rightarrow> Inl KeyNotFound
       | Some e \<Rightarrow> Inr (entryToOutput key e))"
    "loadEntry idx key = None \<longleftrightarrow> kv_abs (ist_kv s) file key = None"
    by (rule get_meta_inv[OF pt(1), where k = key])
  have gm: "get_meta file key (ist_kv s) = (k1, Inl KeyNotFound)" using g(4,5) pt(2) by simp
  have "kv_dir k1 = kv_dir (ist_kv s)" using get_meta_dir[of "file" key "ist_kv s"] gm by simp
  then have q: "inc_parts file key (s\<lparr>ist_kv := k1\<rparr>) None t"
    using g(2,3) by (intro parts_after_read[OF p]) (simp_all add: same_elsewhere_def)
  from that[OF gm q] show ?thesis .
qed

definition header_size :: "inc_headers \<Rightarrow> u64" where
  "header_size h = (case ih_size h of None \<Rightarrow> 0 | Some n \<Rightarrow> n)"

definition the_tab :: "inc_headers \<Rightarrow> inc_tab option \<Rightarrow> inc_tab" where
  "the_tab h st = (case st of None \<Rightarrow> new_tab (header_size h) | Some t \<Rightarrow> t)"

definition the_warning :: "inc_headers \<Rightarrow> inc_tab option \<Rightarrow> (u64 \<times> u64) option" where
  "the_warning h st = (case st of None \<Rightarrow> None | Some t \<Rightarrow> size_warning h (tb_size t))"

lemma find_table:
  assumes inv: "inc_inv file key E m s st" and key: "key_ok key" and hs: "header_size h \<le> E"
  shows "\<exists>s'. find_inc_table env file key h s =
      reply s' (Inr (table_data key (tb_size (the_tab h st)), the_warning h st))
    \<and> inc_inv file key E m s' (Some (the_tab h st))"
proof (cases st)
  case None
  then have p: "inc_parts file key s None (new_tab E)" and room: "rows_room E m" using inv by (simp_all add: inc_inv_def)
  obtain k1 where gm: "get_meta file key (ist_kv s) = (k1, Inl KeyNotFound)"
    and q: "inc_parts file key (s\<lparr>ist_kv := k1\<rparr>) None (new_tab E)"
    by (rule missing_table[OF p])
  from create_table[OF q key, of env "header_size h"] obtain s' where
    "create_inc_table env file key (header_size h) (s\<lparr>ist_kv := k1\<rparr>) = reply s' (Inr (table_data key (header_size h)))"
    "inc_parts file key s' (Some (meta_enc (table_data key (header_size h)))) (new_tab (header_size h))" by blast
  then show ?thesis
    using None gm hs room
    by (intro exI[of _ s']) (simp add: find_inc_table_def header_size_def[symmetric] the_tab_def the_warning_def inc_inv_def new_tab_def)
next
  case (Some t)
  then have p: "inc_parts file key s (Some (meta_enc (table_data key (tb_size t)))) t"
    and room: "tb_size t \<le> E" "rows_room E (length (tb_rows t) + m)" using inv by (simp_all add: inc_inv_def)
  obtain k1 ent s1 where l: "get_meta file key (ist_kv s) = (k1, Inr (entryToOutput key ent))"
    "load_inc_table env file (entryToOutput key ent) (s\<lparr>ist_kv := k1\<rparr>) = reply s1 (Inr (table_data key (tb_size t)))"
    "inc_parts file key s1 (Some (meta_enc (table_data key (tb_size t)))) t"
    using load_table[OF p key] by metis
  then show ?thesis
    using Some room by (intro exI[of _ s1]) (simp add: find_inc_table_def the_tab_def the_warning_def inc_inv_def)
qed

section \<open>What a save does to a table\<close>

text \<open>
  The contract. An entry key that is taken is refused before anything is written, except for an
  overwrite, which has replaced the row by then; a position out of range panics.
\<close>

definition spec_insert :: "u64 \<Rightarrow> string \<Rightarrow> (u64 \<times> u64) option \<Rightarrow> bytes list \<Rightarrow> inc_tab \<Rightarrow> inc_tab \<times> inc_reply call" where
  "spec_insert i k w rows t =
     (t\<lparr>tb_rows := rows, tb_pos := (if k = [] then tb_pos t else bind_new i k (tb_pos t))\<rparr>, Reply (Saved i w))"

definition spec_write :: "inc_headers \<Rightarrow> bytes \<Rightarrow> (u64 \<times> u64) option \<Rightarrow> inc_tab \<Rightarrow> inc_tab \<times> inc_reply call" where
  "spec_write h body w t =
     (let N = length (tb_rows t); k = ih_key h
      in case ih_id h of
           None \<Rightarrow> spec_insert (word_of_nat N) k w (tb_rows t @ [body]) t
         | Some p \<Rightarrow>
             if ih_mode h = ''overwrite'' then
               (if N \<le> unat p then (t, Panics)
                else let n = from_end (ih_from h) (N - 1) (unat p); i = word_of_nat n;
                         t1 = t\<lparr>tb_rows := (tb_rows t)[n := body]\<rparr>
                     in if k = [] then (t1, Reply (Saved i w))
                        else if tb_pos t k \<noteq> None \<and> tb_pos t k \<noteq> Some i then (t1, Reply (Status 409))
                        else (t1\<lparr>tb_pos := rebind i k (tb_pos t)\<rparr>, Reply (Saved i w)))
             else
               (if N < unat p then (t, Panics)
                else let n = from_end (ih_from h) N (unat p)
                     in spec_insert (word_of_nat n) k w (list_insert_at n body (tb_rows t)) t))"

definition key_conflict :: "inc_headers \<Rightarrow> inc_tab \<Rightarrow> bool" where
  "key_conflict h t \<longleftrightarrow> ih_key h \<noteq> [] \<and> (ih_id h = None \<or> ih_mode h \<noteq> ''overwrite'')
     \<and> tb_pos t (ih_key h) \<noteq> None"

definition spec_save :: "inc_headers \<Rightarrow> bytes \<Rightarrow> (u64 \<times> u64) option \<Rightarrow> inc_tab \<Rightarrow> inc_tab \<times> inc_reply call" where
  "spec_save h body w t =
     (if key_conflict h t then (t, Reply (Status 409))
      else if unat (tb_size t) < length body then (t, Reply (Status 400))
      else spec_write h body w t)"

lemma insert_reply_spec:
  assumes parts: "inc_parts file key s meta (t\<lparr>tb_rows := rows\<rparr>)" and n: "length rows = Suc N" "unat i \<le> N" "N < 2 ^ 48"
    and pre: "holds_keys (ist_ix s) (inc_table_file key) (tb_pos t) N"
    and free: "k \<noteq> [] \<longrightarrow> tb_pos t k = None" and td: "td_tableFileName td = inc_table_file key"
  shows "\<exists>s'. insert_reply td k i w s = (s', snd (spec_insert i k w rows t))
    \<and> inc_parts file key s' meta (fst (spec_insert i k w rows t))"
proof (cases "k = []")
  case True
  have t: "t\<lparr>tb_rows := rows, tb_pos := tb_pos t\<rparr> = t\<lparr>tb_rows := rows\<rparr>" by simp
  show ?thesis
    using parts True unfolding spec_insert_def t insert_reply_def by (simp add: respondWithIncID_def reply_def)
next
  case False
  have new: "tb_pos t k = None" using free False by simp
  obtain x' where x: "ix_insert (inc_table_file key) i k (ist_ix s) = (x', None)"
    "holds_keys x' (inc_table_file key) (bind_new i k (tb_pos t)) (Suc N)"
    using keys_insert[OF pre n(2,3) False new] by blast
  have "inc_parts file key (s\<lparr>ist_ix := x'\<rparr>) meta (t\<lparr>tb_rows := rows, tb_pos := bind_new i k (tb_pos t)\<rparr>)"
    using parts_ix[OF parts, of x'] x(2) n(1) by simp
  then show ?thesis
    using False x(1) td by (simp add: insert_reply_def index_reply_def respondWithIncID_def reply_def spec_insert_def)
qed

lemma save_append_spec:
  assumes parts: "inc_parts file key s meta t" and room: "rows_room (tb_size t) (length (tb_rows t))"
    and len: "length body \<le> unat (tb_size t)" and free: "ih_key h \<noteq> [] \<longrightarrow> tb_pos t (ih_key h) = None"
  shows "\<exists>s'. save_append env key h (inc_raw (tb_size t) body) body (table_data key (tb_size t)) w s =
      (s', snd (spec_insert (word_of_nat (length (tb_rows t))) (ih_key h) w (tb_rows t @ [body]) t))
    \<and> inc_parts file key s' meta (fst (spec_insert (word_of_nat (length (tb_rows t))) (ih_key h) w (tb_rows t @ [body]) t))"
proof -
  let ?N = "length (tb_rows t)"
  note pt = partsD[OF parts] and rs = rows_room_size[OF room]
  obtain d' where d: "saveIncDataToFileAsync (env_it env) (inc_raw (tb_size t) body) (inc_table_file key) (tb_size t)
      (kv_dir (ist_kv s)) = (d', Reply (word_of_nat ?N, None))"
    "holds_rows d' (inc_path (inc_table_file key)) (tb_size t) (tb_rows t @ [body])"
    "only_file (inc_path (inc_table_file key)) (kv_dir (ist_kv s)) d'"
    using write_append[OF pt(3) room len] by blast
  let ?s = "inc_notify key ''add'' (word_of_nat ?N) body (put_dir d' s)"
  have u: "unat (word_of_nat ?N :: u64) = ?N" using rs by (intro unat_u64) simp
  have "holds_keys (ist_ix s) (inc_table_file key) (tb_pos t) (length (tb_rows t @ [body]))"
    using holds_keys_mono[OF pt(4)] by simp
  then have p: "inc_parts file key ?s meta (t\<lparr>tb_rows := tb_rows t @ [body]\<rparr>)"
    using parts_dir[OF parts d(3,2)] by simp
  have "\<exists>s'. insert_reply (table_data key (tb_size t)) (ih_key h) (word_of_nat ?N) w ?s =
      (s', snd (spec_insert (word_of_nat ?N) (ih_key h) w (tb_rows t @ [body]) t))
    \<and> inc_parts file key s' meta (fst (spec_insert (word_of_nat ?N) (ih_key h) w (tb_rows t @ [body]) t))"
    using u rs pt(4) free by (intro insert_reply_spec[OF p, of ?N]) simp_all
  then show ?thesis
    using d(1) by (simp add: save_append_def on_dir_eq[where d' = d'])
qed

lemma save_insert_spec:
  assumes parts: "inc_parts file key s meta t" and room: "rows_room (tb_size t) (length (tb_rows t))"
    and len: "length body \<le> unat (tb_size t)" and free: "ih_key h \<noteq> [] \<longrightarrow> tb_pos t (ih_key h) = None"
    and dir: "direction (ih_from h)" and p: "ih_id h = Some p" and mode: "ih_mode h \<noteq> ''overwrite''"
  shows "\<exists>s'. save_insert env key h p (inc_raw (tb_size t) body) body (table_data key (tb_size t)) w s =
      (s', snd (spec_write h body w t)) \<and> inc_parts file key s' meta (fst (spec_write h body w t))"
proof -
  let ?N = "length (tb_rows t)"
  let ?n = "from_end (ih_from h) ?N (unat p)"
  let ?rows = "list_insert_at ?n body (tb_rows t)"
  note pt = partsD[OF parts] and rs = rows_room_size[OF room]
  obtain d' where d: "saveIncDataToFileAsync_Put (env_it env) (inc_raw (tb_size t) body) (inc_table_file key) (tb_size t)
      p (ih_from h) (kv_dir (ist_kv s)) =
      (d', if ?N < unat p then Panics else Reply (word_of_nat ?n, None))"
    "holds_rows d' (inc_path (inc_table_file key)) (tb_size t) (if ?N < unat p then tb_rows t else ?rows)"
    "only_file (inc_path (inc_table_file key)) (kv_dir (ist_kv s)) d'"
    using write_put[OF pt(3) room len dir] by blast
  show ?thesis
  proof (cases "?N < unat p")
    case True
    have "inc_parts file key (put_dir d' s) meta t"
      using d(2) True by (intro parts_same_rows[OF parts d(3)]) simp
    then show ?thesis
      using True d(1) p mode by (simp add: save_insert_def on_dir_eq[where d' = d'] spec_write_def)
  next
    case False
    let ?s = "inc_notify key ''insert'' (word_of_nat ?n) body (put_dir d' s)"
    have n: "?n \<le> ?N" using False by (simp add: from_end_def)
    have u: "unat (word_of_nat ?n :: u64) = ?n" using rs n by (intro unat_u64) simp
    have "holds_keys (ist_ix s) (inc_table_file key) (tb_pos t) (length ?rows)"
      using holds_keys_mono[OF pt(4)] by simp
    then have ps: "inc_parts file key ?s meta (t\<lparr>tb_rows := ?rows\<rparr>)"
      using parts_dir[OF parts d(3)] d(2) False by simp
    have "\<exists>s'. insert_reply (table_data key (tb_size t)) (ih_key h) (word_of_nat ?n) w ?s =
        (s', snd (spec_insert (word_of_nat ?n) (ih_key h) w ?rows t))
      \<and> inc_parts file key s' meta (fst (spec_insert (word_of_nat ?n) (ih_key h) w ?rows t))"
      using u n rs pt(4) free by (intro insert_reply_spec[OF ps, of ?N]) simp_all
    then show ?thesis
      using d(1) False p mode by (simp add: save_insert_def on_dir_eq[where d' = d'] spec_write_def Let_def)
  qed
qed

lemma save_overwrite_spec:
  assumes parts: "inc_parts file key s meta t" and room: "rows_room (tb_size t) (length (tb_rows t))"
    and len: "length body \<le> unat (tb_size t)"
    and dir: "direction (ih_from h)" and p: "ih_id h = Some p" and mode: "ih_mode h = ''overwrite''"
  shows "\<exists>s'. save_overwrite env key h p (inc_raw (tb_size t) body) body (table_data key (tb_size t)) w s =
      (s', snd (spec_write h body w t)) \<and> inc_parts file key s' meta (fst (spec_write h body w t))"
proof -
  let ?N = "length (tb_rows t)" and ?k = "ih_key h"
  let ?n = "from_end (ih_from h) (?N - 1) (unat p)"
  let ?rows = "(tb_rows t)[?n := body]" and ?i = "word_of_nat ?n :: u64"
  note pt = partsD[OF parts] and rs = rows_room_size[OF room]
  obtain d' where d: "saveIncDataToFileAsync_OverWrite (env_it env) (inc_raw (tb_size t) body) (inc_table_file key)
      (tb_size t) p (ih_from h) (kv_dir (ist_kv s)) =
      (d', if ?N \<le> unat p then Panics else Reply (?i, None))"
    "holds_rows d' (inc_path (inc_table_file key)) (tb_size t) (if ?N \<le> unat p then tb_rows t else ?rows)"
    "only_file (inc_path (inc_table_file key)) (kv_dir (ist_kv s)) d'"
    using write_overwrite[OF pt(3) room len dir] by blast
  show ?thesis
  proof (cases "?N \<le> unat p")
    case True
    have "inc_parts file key (put_dir d' s) meta t"
      using d(2) True by (intro parts_same_rows[OF parts d(3)]) simp
    then show ?thesis
      using True d(1) p mode by (simp add: save_overwrite_def on_dir_eq[where d' = d'] spec_write_def)
  next
    case False
    let ?s = "inc_notify key ''overwrite'' ?i body (put_dir d' s)"
    have n: "?n < ?N" using False by (auto simp: from_end_def)
    have u: "unat ?i = ?n" using rs n by (intro unat_u64) simp
    have ps: "inc_parts file key ?s meta (t\<lparr>tb_rows := ?rows\<rparr>)"
      using parts_dir[OF parts d(3)] d(2) False pt(4) by simp
    show ?thesis
    proof (cases "?k = []")
      case True
      then show ?thesis
        using d(1) False p mode ps
        by (simp add: save_overwrite_def on_dir_eq[where d' = d'] spec_write_def Let_def respondWithIncID_def reply_def)
    next
      case k: False
      obtain x' where x: "ix_set (inc_table_file key) ?i ?k (ist_ix s) =
          Ret (x', if tb_pos t ?k \<noteq> None \<and> tb_pos t ?k \<noteq> Some ?i then Some DuplicateKey else None)"
        "holds_keys x' (inc_table_file key)
          (if tb_pos t ?k \<noteq> None \<and> tb_pos t ?k \<noteq> Some ?i then tb_pos t else rebind ?i ?k (tb_pos t)) ?N"
        using keys_set[OF pt(4), of ?i ?k] n u rs k by auto
      have dup: "inc_parts file key (?s\<lparr>ist_ix := x'\<rparr>) meta (t\<lparr>tb_rows := ?rows\<rparr>)"
        if "tb_pos t ?k \<noteq> None \<and> tb_pos t ?k \<noteq> Some ?i"
        using that x(2) by (intro parts_same_pos[OF ps]) simp
      have new: "inc_parts file key (?s\<lparr>ist_ix := x'\<rparr>) meta (t\<lparr>tb_rows := ?rows, tb_pos := rebind ?i ?k (tb_pos t)\<rparr>)"
        if "\<not> (tb_pos t ?k \<noteq> None \<and> tb_pos t ?k \<noteq> Some ?i)"
        using parts_ix[OF ps, of x'] x(2) that unfolding if_not_P[OF that] by simp
      have so: "save_overwrite env key h p (inc_raw (tb_size t) body) body (table_data key (tb_size t)) w s =
          index_reply (x', if tb_pos t ?k \<noteq> None \<and> tb_pos t ?k \<noteq> Some ?i then Some DuplicateKey else None) ?i w ?s"
        using d(1) False x(1) k by (simp add: save_overwrite_def on_dir_eq[where d' = d'] Let_def)
      show ?thesis
      proof (cases "tb_pos t ?k \<noteq> None \<and> tb_pos t ?k \<noteq> Some ?i")
        case True
        then have "spec_write h body w t = (t\<lparr>tb_rows := ?rows\<rparr>, Reply (Status 409))"
          using False p mode k by (simp add: spec_write_def Let_def)
        then show ?thesis using dup[OF True] unfolding so if_P[OF True] by (simp add: index_reply_def reply_def)
      next
        case nd: False
        then have "spec_write h body w t = (t\<lparr>tb_rows := ?rows, tb_pos := rebind ?i ?k (tb_pos t)\<rparr>, Reply (Saved ?i w))"
          using False p mode k unfolding spec_write_def Let_def if_not_P[OF nd] by simp
        then show ?thesis
          using new[OF nd] unfolding so if_not_P[OF nd] by (simp add: index_reply_def respondWithIncID_def reply_def)
      qed
    qed
  qed
qed

lemma key_is_free_spec:
  assumes parts: "inc_parts file key s meta t"
  shows "\<exists>s'. key_is_free h (table_data key e) s = reply s' (if key_conflict h t then Inl (Status 409) else Inr ())
    \<and> inc_parts file key s' meta t"
proof (cases "ih_key h \<noteq> [] \<and> (ih_id h = None \<or> ih_mode h \<noteq> ''overwrite'')")
  case True
  obtain x' where x: "ix_lookup (inc_table_file key) (ih_key h) (ist_ix s) =
      (x', Inr (case tb_pos t (ih_key h) of Some p \<Rightarrow> (p, True) | None \<Rightarrow> (0, False)))"
    "holds_keys x' (inc_table_file key) (tb_pos t) (length (tb_rows t))"
    using keys_lookup[OF partsD(4)[OF parts]] by blast
  have kf: "key_is_free h (table_data key e) s = (case ix_lookup (inc_table_file key) (ih_key h) (ist_ix s) of
      (x, Inl _) \<Rightarrow> reply (s\<lparr>ist_ix := x\<rparr>) (Inl (Status 500))
    | (x, Inr (_, found)) \<Rightarrow> reply (s\<lparr>ist_ix := x\<rparr>) (if found then Inl (Status 409) else Inr ()))"
    unfolding key_is_free_def if_P[OF True] by simp
  have "key_conflict h t = (tb_pos t (ih_key h) \<noteq> None)" using True by (simp add: key_conflict_def)
  then show ?thesis
    unfolding kf x(1) using parts_same_pos[OF parts x(2)] by (cases "tb_pos t (ih_key h)") auto
next
  case False
  then have "\<not> key_conflict h t" by (auto simp: key_conflict_def)
  then show ?thesis using parts unfolding key_is_free_def if_not_P[OF False] by auto
qed

lemma save_entry_spec:
  assumes parts: "inc_parts file key s meta t" and room: "rows_room (tb_size t) (length (tb_rows t))"
    and dir: "direction (ih_from h)"
  shows "\<exists>s'. save_entry env key h body (table_data key (tb_size t)) w s = (s', snd (spec_save h body w t))
    \<and> inc_parts file key s' meta (fst (spec_save h body w t))"
proof -
  note rs = rows_room_size[OF room]
  have i: "i64 (tb_size t) = int (unat (tb_size t))"
    using entry_size_ok_nat[of "tb_size t"] rs by (intro i64_small) simp
  have guard: "(i64 (tb_size t) < int (length body)) = (unat (tb_size t) < length body)"
    unfolding i of_nat_less_iff ..
  obtain s1 where f: "key_is_free h (table_data key (tb_size t)) s =
      reply s1 (if key_conflict h t then Inl (Status 409) else Inr ())" "inc_parts file key s1 meta t"
    using key_is_free_spec[OF parts] by blast
  consider (taken) "key_conflict h t" | (toolong) "\<not> key_conflict h t" "unat (tb_size t) < length body"
    | (writes) "\<not> key_conflict h t" "length body \<le> unat (tb_size t)" by linarith
  then show ?thesis
  proof cases
    case taken
    then show ?thesis using f by (simp add: save_entry_def spec_save_def, simp add: reply_def)
  next
    case toolong
    then show ?thesis using f guard by (simp add: save_entry_def spec_save_def, simp add: reply_def)
  next
    case writes
    have enc: "encodeIncEntry (tb_size t) body = Ret (Some (inc_raw (tb_size t) body))"
      using rs writes(2) by (intro encodeIncEntry_ok) simp_all
    have ng: "\<not> unat (tb_size t) < length body" using writes(2) by simp
    have sp: "spec_save h body w t = spec_write h body w t" using writes ng by (simp add: spec_save_def)
    have se: "save_entry env key h body (table_data key (tb_size t)) w s =
        (case ih_id h of
           None \<Rightarrow> save_append env key h (inc_raw (tb_size t) body) body (table_data key (tb_size t)) w s1
         | Some p \<Rightarrow> if ih_mode h = ''overwrite''
             then save_overwrite env key h p (inc_raw (tb_size t) body) body (table_data key (tb_size t)) w s1
             else save_insert env key h p (inc_raw (tb_size t) body) body (table_data key (tb_size t)) w s1)"
      using f(1) writes(1) ng guard enc by (simp add: save_entry_def Let_def split: option.split)
    show ?thesis
    proof (cases "ih_id h")
      case None
      then have "ih_key h \<noteq> [] \<longrightarrow> tb_pos t (ih_key h) = None" using writes(1) by (auto simp: key_conflict_def)
      from save_append_spec[OF f(2) room writes(2) this, of env w] show ?thesis
        unfolding se sp using None by (simp add: spec_write_def)
    next
      case (Some p)
      show ?thesis
      proof (cases "ih_mode h = ''overwrite''")
        case True
        from save_overwrite_spec[OF f(2) room writes(2) dir Some True, of env w] show ?thesis
          unfolding se sp using Some True by simp
      next
        case False
        then have "ih_key h \<noteq> [] \<longrightarrow> tb_pos t (ih_key h) = None" using writes(1) by (auto simp: key_conflict_def)
        from save_insert_spec[OF f(2) room writes(2) this dir Some False, of env w] show ?thesis
          unfolding se sp using Some False by simp
      qed
    qed
  qed
qed

section \<open>What a read returns\<close>

fun spec_read :: "inc_read \<Rightarrow> inc_tab \<Rightarrow> inc_reply" where
  "spec_read (ById p) t =
     (if length (tb_rows t) \<le> unat p then Status 404 else Entry (tb_rows t ! unat p))"
| "spec_read (LastEntries n) t =
     Entries (numbered (rev (drop (length (tb_rows t) - nat (i64 n)) (tb_rows t))))"
| "spec_read (FirstEntries n) t = Entries (numbered (take (nat (i64 n)) (tb_rows t)))"
| "spec_read (ByKey k) t =
     (case tb_pos t k of
        None \<Rightarrow> Status 404
      | Some p \<Rightarrow> if length (tb_rows t) \<le> unat p then Status 404 else Entry (tb_rows t ! unat p))"

lemma read_by_id_spec:
  assumes parts: "inc_parts file key s meta t" and room: "rows_room (tb_size t) (length (tb_rows t))"
  shows "\<exists>s'. read_by_id env (table_data key (tb_size t)) p s = reply s' (spec_read (ById p) t)
    \<and> inc_parts file key s' meta t"
proof -
  note pt = partsD[OF parts] and rs = rows_room_size[OF room]
  obtain d' where d: "readInc_ById (env_it env) (inc_table_file key) p (tb_size t) (kv_dir (ist_kv s)) =
      (d', Reply (if length (tb_rows t) \<le> unat p then Inl ReadIdOutOfRange
                  else Inr (inc_raw (tb_size t) (tb_rows t ! unat p))))"
    "holds_rows d' (inc_path (inc_table_file key)) (tb_size t) (tb_rows t)"
    "only_file (inc_path (inc_table_file key)) (kv_dir (ist_kv s)) d'"
    using read_id[OF pt(3) room] by blast
  have p: "inc_parts file key (put_dir d' s) meta t" by (rule parts_same_rows[OF parts d(3,2)])
  show ?thesis
  proof (cases "length (tb_rows t) \<le> unat p")
    case True
    then show ?thesis using p d(1) by (simp add: read_by_id_def on_dir_eq[where d' = d'])
  next
    case False
    then have "length (tb_rows t ! unat p) \<le> unat (tb_size t)" using pt(3) by (simp add: holds_rows_def)
    then have "decodeIncEntry (tb_size t) (inc_raw (tb_size t) (tb_rows t ! unat p)) =
        Ret (Inr \<lparr>body_data = tb_rows t ! unat p, body_entrySize = tb_size t, body_skipBit = False, body_nextEntryPointer = 0\<rparr>)"
      using rs by (intro decode_inc_raw) simp_all
    then show ?thesis
      using p d(1) False by (simp add: read_by_id_def on_dir_eq[where d' = d'] inc_raw_nonempty)
  qed
qed

lemma read_rows_block:
  assumes parts: "inc_parts file key s meta t" and room: "rows_room (tb_size t) (length (tb_rows t))"
    and r: "r \<in> {1, 2}" "read_rows r p (tb_rows t) = Inr xs"
  shows "\<exists>s'. ibind (on_dir (readIncDataFromFileAsync r (env_it env) (inc_table_file key) p (tb_size t)) s)
      (\<lambda>s res. entries_reply (tb_size t) res s) = reply s' (Entries (numbered xs)) \<and> inc_parts file key s' meta t"
proof -
  note pt = partsD[OF parts] and rs = rows_room_size[OF room]
  have t: "r \<in> {0, 1, 2}" using r(1) by auto
  obtain d' where d: "readIncDataFromFileAsync r (env_it env) (inc_table_file key) p (tb_size t) (kv_dir (ist_kv s)) =
      (d', Reply (Inr (concat (map (inc_raw (tb_size t)) xs))))"
    "holds_rows d' (inc_path (inc_table_file key)) (tb_size t) (tb_rows t)"
    "only_file (inc_path (inc_table_file key)) (kv_dir (ist_kv s)) d'"
    using read_table[OF pt(3) room t, of "env_it env" p] unfolding r(2) by auto
  have p: "inc_parts file key (put_dir d' s) meta t" by (rule parts_same_rows[OF parts d(3,2)])
  have "set xs \<subseteq> set (tb_rows t)"
    using r set_drop_subset set_take_subset unfolding read_rows_def by (force split: if_splits)
  then have "\<And>b. b \<in> set xs \<Longrightarrow> length b \<le> unat (tb_size t)" using pt(3) by (auto simp: holds_rows_def)
  from entries_reply_rows[OF _ this, of xs "put_dir d' s"] show ?thesis
    using p rs by (simp add: on_dir_eq[of "readIncDataFromFileAsync r (env_it env) (inc_table_file key) p (tb_size t)" s d', OF d(1)])
qed

lemma read_entry_spec:
  assumes parts: "inc_parts file key s meta t" and room: "rows_room (tb_size t) (length (tb_rows t))"
  shows "\<exists>s'. read_entry env q (table_data key (tb_size t)) s = reply s' (spec_read q t)
    \<and> inc_parts file key s' meta t"
proof (cases q)
  case (ById p)
  then show ?thesis using read_by_id_spec[OF parts room, of env p] by (simp add: read_entry_def)
next
  case (LastEntries n)
  have "read_rows 1 n (tb_rows t) = Inr (rev (drop (length (tb_rows t) - nat (i64 n)) (tb_rows t)))"
    by (simp add: read_rows_def)
  from read_rows_block[OF parts room _ this, of env] LastEntries show ?thesis
    by (simp add: read_entry_def read_last_def readInc_LastEntries_def)
next
  case (FirstEntries n)
  have "read_rows 2 n (tb_rows t) = Inr (take (nat (i64 n)) (tb_rows t))"
    by (simp add: read_rows_def)
  from read_rows_block[OF parts room _ this, of env] FirstEntries show ?thesis
    by (simp add: read_entry_def read_first_def readInc_FirstEntries_def)
next
  case (ByKey k)
  obtain x' where x: "ix_lookup (inc_table_file key) k (ist_ix s) =
      (x', Inr (case tb_pos t k of Some p \<Rightarrow> (p, True) | None \<Rightarrow> (0, False)))"
    "holds_keys x' (inc_table_file key) (tb_pos t) (length (tb_rows t))"
    using keys_lookup[OF partsD(4)[OF parts]] by blast
  note p = parts_same_pos[OF parts x(2)]
  show ?thesis
  proof (cases "tb_pos t k")
    case None
    then show ?thesis using x(1) p ByKey by (auto simp: read_entry_def read_by_key_def)
  next
    case (Some i)
    then show ?thesis
      using x(1) ByKey read_by_id_spec[OF p room, of env i] by (simp add: read_entry_def read_by_key_def)
  qed
qed

section \<open>The routes\<close>

datatype inc_call = SaveInc http_request | ReadInc http_request | DeleteInc http_request

fun inc_exec :: "kv_env \<Rightarrow> inc_call \<Rightarrow> ist \<Rightarrow> inc_reply ist_call" where
  "inc_exec env (SaveInc r) s = route_SaveIncremental env r s"
| "inc_exec env (ReadInc r) s = route_ReadIncremental env r s"
| "inc_exec env (DeleteInc r) s = route_DeleteIncremental env r s"

datatype inc_op = SaveOp inc_headers bytes | ReadOp inc_read | DropOp

definition route_path :: "string \<Rightarrow> string \<Rightarrow> string \<Rightarrow> string" where
  "route_path ep file key = ''/'' @ ep @ ''/'' @ file @ ''/'' @ key"

text \<open>The well-formed requests on one table, and what they ask for.\<close>

fun inc_op_of :: "string \<Rightarrow> string \<Rightarrow> inc_call \<Rightarrow> inc_op option" where
  "inc_op_of file key (SaveInc r) =
     (if rq_method r = ''POST'' \<and> rq_path r = route_path ''save_inc'' file key
      then (case save_headers r of None \<Rightarrow> None | Some h \<Rightarrow> map_option (SaveOp h) (rq_body r)) else None)"
| "inc_op_of file key (ReadInc r) =
     (if rq_method r = ''GET'' \<and> rq_path r = route_path ''read_inc'' file key
      then map_option ReadOp (read_headers r) else None)"
| "inc_op_of file key (DeleteInc r) =
     (if rq_method r = ''GET'' \<and> rq_path r = route_path ''delete_inc'' file key then Some DropOp else None)"

fun spec_op :: "inc_op \<Rightarrow> inc_tab option \<Rightarrow> inc_tab option \<times> inc_reply call" where
  "spec_op (SaveOp h body) st =
     (case spec_save h body (the_warning h st) (the_tab h st) of (t, r) \<Rightarrow> (Some t, r))"
| "spec_op (ReadOp q) st = (st, Reply (case st of None \<Rightarrow> Status 400 | Some t \<Rightarrow> spec_read q t))"
| "spec_op DropOp st = (None, Reply (case st of None \<Rightarrow> Status 404 | Some t \<Rightarrow> Status 200))"

lemma path_args_four [simp]: "path_args [a, ep, file, key] s k = k file key s"
  by (simp add: path_args_def go_index_def)

lemma path_args_route:
  assumes "plain file" "plain key"
  shows "parseArgs (route_path ep file key) ep = [[], ep, file, key]"
  using assms parseArgs_path[of "file" key ep] by (simp add: route_path_def plain_def)

text \<open>The headers of a save that is allowed: an entry size up to \<open>E\<close>.\<close>

fun op_fits :: "u64 \<Rightarrow> inc_op \<Rightarrow> bool" where
  "op_fits E (SaveOp h body) \<longleftrightarrow> header_size h \<le> E"
| "op_fits E _ \<longleftrightarrow> True"

lemma save_headers_direction: "save_headers r = Some h \<Longrightarrow> direction (ih_from h)"
  by (auto simp: save_headers_def Let_def direction_def split: if_splits option.splits)

lemma spec_save_grows:
  assumes "spec_save h body w t = (t', r)"
  shows "tb_size t' = tb_size t \<and> length (tb_rows t') \<le> Suc (length (tb_rows t))"
  using assms
  by (auto simp: spec_save_def spec_write_def spec_insert_def Let_def split: if_splits option.splits)

lemma save_route:
  assumes inv: "inc_inv file key E (Suc m) s st" and pl: "plain file" "key_ok key"
    and rq: "rq_method r = ''POST''" "rq_path r = route_path ''save_inc'' file key" "rq_body r = Some body"
      "save_headers r = Some h" and fit: "header_size h \<le> E"
  shows "\<exists>s'. route_SaveIncremental env r s = (s', snd (spec_op (SaveOp h body) st))
    \<and> inc_inv file key E m s' (fst (spec_op (SaveOp h body) st))"
proof -
  let ?t = "the_tab h st" and ?w = "the_warning h st"
  have pk: "plain key" using pl(2) by (simp add: key_ok_def)
  obtain s1 where f: "find_inc_table env file key h s = reply s1 (Inr (table_data key (tb_size ?t), ?w))"
    "inc_inv file key E (Suc m) s1 (Some ?t)"
    using find_table[OF inv pl(2) fit] by blast
  have p: "inc_parts file key s1 (Some (meta_enc (table_data key (tb_size ?t)))) ?t" "tb_size ?t \<le> E"
    "rows_room E (length (tb_rows ?t) + Suc m)" using f(2) by (simp_all add: inc_inv_def)
  have room: "rows_room (tb_size ?t) (length (tb_rows ?t))" using rows_room_mono[OF p(3,2)] by simp
  obtain t' rr where sp: "spec_save h body ?w ?t = (t', rr)" by fastforce
  obtain s' where e: "save_entry env key h body (table_data key (tb_size ?t)) ?w s1 = (s', rr)"
    "inc_parts file key s' (Some (meta_enc (table_data key (tb_size ?t)))) t'"
    using save_entry_spec[OF p(1) room save_headers_direction[OF rq(4)], of env body ?w] sp by auto
  note g = spec_save_grows[OF sp]
  have "rows_room E (length (tb_rows t') + m)" using g by (intro rows_room_mono[OF p(3)]) simp_all
  then have "inc_inv file key E m s' (Some t')" using e(2) g p(2) by (simp add: inc_inv_def)
  moreover have "route_SaveIncremental env r s = (s', rr)"
    unfolding route_SaveIncremental_def Let_def rq path_args_route[OF pl(1) pk]
    using f(1) e(1) rq(3,4) by simp
  ultimately show ?thesis using sp by simp
qed

lemma read_route:
  assumes inv: "inc_inv file key E (Suc m) s st" and pl: "plain file" "key_ok key"
    and rq: "rq_method r = ''GET''" "rq_path r = route_path ''read_inc'' file key" "read_headers r = Some q"
  shows "\<exists>s'. route_ReadIncremental env r s = (s', snd (spec_op (ReadOp q) st))
    \<and> inc_inv file key E m s' (fst (spec_op (ReadOp q) st))"
proof (cases st)
  case None
  then have p: "inc_parts file key s None (new_tab E)" and room: "rows_room E (Suc m)" using inv by (simp_all add: inc_inv_def)
  have pk: "plain key" using pl(2) by (simp add: key_ok_def)
  obtain k1 where gm: "get_meta file key (ist_kv s) = (k1, Inl KeyNotFound)"
    and q: "inc_parts file key (s\<lparr>ist_kv := k1\<rparr>) None (new_tab E)"
    by (rule missing_table[OF p])
  have "rows_room E m" by (rule rows_room_mono[OF room]) simp_all
  then have "inc_inv file key E m (s\<lparr>ist_kv := k1\<rparr>) None" using q by (simp add: inc_inv_def)
  moreover have "route_ReadIncremental env r s = (s\<lparr>ist_kv := k1\<rparr>, Reply (Status 400))"
    unfolding route_ReadIncremental_def Let_def rq(1,2) path_args_route[OF pl(1) pk]
    using gm rq(3) by (simp add: reply_def)
  ultimately show ?thesis using None by simp
next
  case (Some t)
  then have p: "inc_parts file key s (Some (meta_enc (table_data key (tb_size t)))) t"
    and room: "tb_size t \<le> E" "rows_room E (length (tb_rows t) + Suc m)" using inv by (simp_all add: inc_inv_def)
  have pk: "plain key" using pl(2) by (simp add: key_ok_def)
  obtain k1 ent s1 where l: "get_meta file key (ist_kv s) = (k1, Inr (entryToOutput key ent))"
    "on_dir (readDataFromFileAsync (env_it env) file (e_start ent) (e_end ent)) (s\<lparr>ist_kv := k1\<rparr>) =
       reply s1 (Inr (frame (meta_enc (table_data key (tb_size t)))))"
    "inc_parts file key s1 (Some (meta_enc (table_data key (tb_size t)))) t"
    using load_table[OF p pl(2)] by metis
  obtain rr where dec: "decode (frame (meta_enc (table_data key (tb_size t)))) = Ret rr"
      "dec_data rr = meta_enc (table_data key (tb_size t))"
    using decode_frame_fits[OF table_data_meta(3)[OF pl(2)]] by blast
  have rm: "rows_room (tb_size t) (length (tb_rows t))" using rows_room_mono[OF room(2,1)] by simp
  obtain s' where e: "read_entry env q (table_data key (tb_size t)) s1 = reply s' (spec_read q t)"
    "inc_parts file key s' (Some (meta_enc (table_data key (tb_size t)))) t"
    using read_entry_spec[OF l(3) rm] by blast
  have "rows_room E (length (tb_rows t) + m)" by (rule rows_room_mono[OF room(2)]) simp_all
  then have "inc_inv file key E m s' (Some t)" using e(2) room(1) by (simp add: inc_inv_def)
  moreover have "route_ReadIncremental env r s = (s', Reply (spec_read q t))"
    unfolding route_ReadIncremental_def Let_def rq(1,2) path_args_route[OF pl(1) pk]
    using l(1,2) rq(3) dec table_data_meta(2)[OF pl(2)] e(1)
    by (simp add: reply_def[of s'] entryToOutput_def)
  ultimately show ?thesis using Some by simp
qed

lemma drop_route:
  assumes inv: "inc_inv file key E (Suc m) s st" and pl: "plain file" "key_ok key"
    and rq: "rq_method r = ''GET''" "rq_path r = route_path ''delete_inc'' file key"
  shows "\<exists>s'. route_DeleteIncremental env r s = (s', snd (spec_op DropOp st))
    \<and> inc_inv file key E m s' (fst (spec_op DropOp st))"
proof (cases st)
  case None
  then have p: "inc_parts file key s None (new_tab E)" and room: "rows_room E (Suc m)" using inv by (simp_all add: inc_inv_def)
  have pk: "plain key" using pl(2) by (simp add: key_ok_def)
  obtain k1 where gm: "get_meta file key (ist_kv s) = (k1, Inl KeyNotFound)"
    and q: "inc_parts file key (s\<lparr>ist_kv := k1\<rparr>) None (new_tab E)"
    by (rule missing_table[OF p])
  have "rows_room E m" by (rule rows_room_mono[OF room]) simp_all
  then have "inc_inv file key E m (s\<lparr>ist_kv := k1\<rparr>) None" using q by (simp add: inc_inv_def)
  moreover have "route_DeleteIncremental env r s = (s\<lparr>ist_kv := k1\<rparr>, Reply (Status 404))"
    unfolding route_DeleteIncremental_def Let_def rq(1,2) path_args_route[OF pl(1) pk]
    using gm by (simp add: reply_def)
  ultimately show ?thesis using None by simp
next
  case (Some t)
  let ?m = "meta_enc (table_data key (tb_size t))" and ?f = "inc_table_file key"
  have p: "inc_parts file key s (Some ?m) t"
    and room: "tb_size t \<le> E" "rows_room E (length (tb_rows t) + Suc m)" using inv Some by (simp_all add: inc_inv_def)
  have pk: "plain key" using pl(2) by (simp add: key_ok_def)
  obtain k1 ent s1 where l: "get_meta file key (ist_kv s) = (k1, Inr (entryToOutput key ent))"
    "load_inc_table env file (entryToOutput key ent) (s\<lparr>ist_kv := k1\<rparr>) = reply s1 (Inr (table_data key (tb_size t)))"
    "inc_parts file key s1 (Some ?m) t"
    "\<exists>idx. kv_index (ist_kv s1) file = Some idx \<and> loadEntry idx key = Some ent"
    using load_table[OF p pl(2)] by metis
  note pt = partsD[OF l(3)]
  have rdy: "dd_ready (kv_dir (ist_kv s1)) (inc_path ?f)" using pt(3) by (simp add: holds_rows_def)
  obtain d' where d: "deleteIncTableFile (env_it env) ?f (kv_dir (ist_kv s1)) = (d', Reply None)"
    "holds_rows d' (inc_path ?f) E []" "only_file (inc_path ?f) (kv_dir (ist_kv s1)) d'"
    using delete_file[OF rdy] by blast
  let ?k2 = "(ist_kv s1)\<lparr>kv_dir := d'\<rparr>"
  let ?x = "fst (ix_dropTable ?f (ist_ix s1))"
  let ?k3 = "kv_mark_free key file (e_start ent) (e_end ent) (remove_meta file key ?k2)"
  let ?s' = "s1\<lparr>ist_ix := ?x, ist_kv := kv_notify (NotifyDeleteAndRemove key) ?k3\<rparr>"
  have k2: "kv_inv file ?k2" "kv_abs ?k2 file = kv_abs (ist_kv s1) file"
    using store_undisturbed[OF pt(1) d(3)] by simp_all
  obtain idx where ix: "kv_index ?k2 file = Some idx" "loadEntry idx key = Some ent" using l(4) by auto
  have k3: "kv_inv file ?k3" "kv_abs ?k3 file key = None" using free_core[OF k2(1) ix] by simp_all
  have "holds_rows (kv_dir ?k3) (inc_path ?f) E []"
    using d(2) holds_rows_elsewhere[OF free_elsewhere[of "data_path file" ?k2] inc_path_apart] by simp
  then have rows: "holds_rows (kv_dir (kv_notify (NotifyDeleteAndRemove key) ?k3)) (inc_path ?f) E []"
    by (simp add: kv_notify_def)
  have "inc_parts file key ?s' None (new_tab E)"
    using k3 rows keys_drop[OF pt(4)] by (simp add: inc_parts_def new_tab_def)
  moreover have "rows_room E m" by (rule rows_room_mono[OF room(2)]) simp_all
  ultimately have "inc_inv file key E m ?s' None" by (simp add: inc_inv_def)
  moreover have "route_DeleteIncremental env r s = (?s', Reply (Status 200))"
    unfolding route_DeleteIncremental_def Let_def rq(1,2) path_args_route[OF pl(1) pk]
    using l(1,2) d(1)
    by (simp add: on_dir_eq[where d' = d'] entryToOutput_def put_dir_def, simp add: reply_def)
  ultimately show ?thesis using Some by auto
qed

section \<open>Runs\<close>

text \<open>
  The contract a run of commands needs: one command is answered as the specification says, and uses up
  one unit of the room that is left.
\<close>

locale budgeted =
  fixes inv :: "nat \<Rightarrow> 's \<Rightarrow> 'a \<Rightarrow> bool"
    and allowed :: "'c \<Rightarrow> bool"
    and exec :: "'c \<Rightarrow> 's \<Rightarrow> 's \<times> 'r"
    and spec :: "'c \<Rightarrow> 'a \<Rightarrow> 'a \<times> 'r"
  assumes step: "inv (Suc m) s a \<Longrightarrow> allowed c \<Longrightarrow>
    inv m (fst (exec c s)) (fst (spec c a)) \<and> snd (exec c s) = snd (spec c a)"
begin

lemma runs:
  "inv (length cs + m) s a \<Longrightarrow> (\<And>c. c \<in> set cs \<Longrightarrow> allowed c) \<Longrightarrow>
   inv m (fst (run_cmds exec cs s)) (fst (run_cmds spec cs a))
   \<and> snd (run_cmds exec cs s) = snd (run_cmds spec cs a)"
proof (induction cs arbitrary: s a)
  case (Cons c cs)
  have s1: "inv (length cs + m) (fst (exec c s)) (fst (spec c a))" "snd (exec c s) = snd (spec c a)"
    using step[of "length cs + m" s a c] Cons.prems by simp_all
  from Cons.IH[OF s1(1)] Cons.prems(2) s1(2) show ?case
    by (simp add: split_beta)
qed simp

end

definition inc_call_ok :: "string \<Rightarrow> string \<Rightarrow> u64 \<Rightarrow> inc_call \<Rightarrow> bool" where
  "inc_call_ok file key E c \<longleftrightarrow> plain file \<and> key_ok key
     \<and> (case inc_op_of file key c of None \<Rightarrow> False | Some x \<Rightarrow> op_fits E x)"

definition spec_call :: "string \<Rightarrow> string \<Rightarrow> inc_call \<Rightarrow> inc_tab option \<Rightarrow> inc_tab option \<times> inc_reply call" where
  "spec_call file key c = (case inc_op_of file key c of None \<Rightarrow> (\<lambda>st. (st, Panics)) | Some x \<Rightarrow> spec_op x)"

lemma route_step:
  assumes inv: "inc_inv file key E (Suc m) s st" and ok: "inc_call_ok file key E c"
  shows "\<exists>s'. inc_exec env c s = (s', snd (spec_call file key c st))
    \<and> inc_inv file key E m s' (fst (spec_call file key c st))"
proof -
  obtain x where x: "inc_op_of file key c = Some x" "op_fits E x" "plain file" "key_ok key"
    using ok unfolding inc_call_ok_def by (auto split: option.splits)
  show ?thesis
  proof (cases c)
    case (SaveInc r)
    then obtain h b where h: "rq_method r = ''POST''" "rq_path r = route_path ''save_inc'' file key" "rq_body r = Some b"
        "save_headers r = Some h" "x = SaveOp h b"
      using x(1) by (auto split: if_splits option.splits)
    then show ?thesis
      using save_route[OF inv x(3,4) h(1-4), of env] x SaveInc by (simp add: spec_call_def)
  next
    case (ReadInc r)
    then obtain q where q: "rq_method r = ''GET''" "rq_path r = route_path ''read_inc'' file key"
        "read_headers r = Some q" "x = ReadOp q"
      using x(1) by (auto split: if_splits option.splits)
    then show ?thesis
      using read_route[OF inv x(3,4) q(1-3), of env] x ReadInc by (simp add: spec_call_def)
  next
    case (DeleteInc r)
    then have q: "rq_method r = ''GET''" "rq_path r = route_path ''delete_inc'' file key" "x = DropOp"
      using x(1) by (auto split: if_splits)
    then show ?thesis
      using drop_route[OF inv x(3,4) q(1,2), of env] x DeleteInc by (simp add: spec_call_def)
  qed
qed

interpretation routes: budgeted "inc_inv file key E" "inc_call_ok file key E" "inc_exec env" "spec_call file key"
proof
  fix m s a c
  assume "inc_inv file key E (Suc m) s a" "inc_call_ok file key E c"
  from route_step[OF this, of env] show "inc_inv file key E m (fst (inc_exec env c s)) (fst (spec_call file key c a))
    \<and> snd (inc_exec env c s) = snd (spec_call file key c a)" by auto
qed

lemma run_spec_calls:
  "map (inc_op_of file key) cs = map Some ops \<Longrightarrow> run_cmds (spec_call file key) cs st = run_cmds spec_op ops st"
proof (induction cs arbitrary: ops st)
  case (Cons c cs)
  then obtain x xs where "ops = x # xs" "inc_op_of file key c = Some x" "map (inc_op_of file key) cs = map Some xs"
    by (cases ops) auto
  then show ?case using Cons.IH[of xs] by (simp add: spec_call_def split_beta)
qed simp

lemma run_routes:
  assumes "inc_inv file key E (length cs) s st" "plain file" "key_ok key"
    and "map (inc_op_of file key) cs = map Some ops" "\<And>x. x \<in> set ops \<Longrightarrow> op_fits E x"
  shows "\<exists>s'. run_cmds (inc_exec env) cs s = (s', snd (run_cmds spec_op ops st))
    \<and> inc_inv file key E 0 s' (fst (run_cmds spec_op ops st))"
proof -
  have "inc_call_ok file key E c" if "c \<in> set cs" for c
  proof -
    have "inc_op_of file key c \<in> set (map Some ops)" using that assms(4) by (metis image_eqI list.set_map)
    then show ?thesis using assms(2,3,5) by (auto simp: inc_call_ok_def)
  qed
  from routes.runs[of "file" key E cs 0 s st env, OF _ this] assms(1) show ?thesis
    unfolding run_spec_calls[OF assms(4)] by (metis add_0_right prod.collapse)
qed

section \<open>Properties\<close>

text \<open>
  C4: The three routes of an incremental table refine a table of rows with an index of positions. From any
  state whose parts agree, a run of well-formed save, read and delete requests on the table (creating it,
  appending, inserting, overwriting, with or without entry keys, out-of-range positions and refused
  keys included) is answered exactly as the specification says, and the parts agree afterwards. A save
  without a valid \<open>count_from\<close> counts its position from the newest row, as \<open>inc_save.go\<close> does, where
  \<open>docs_api/incremental.md\<close> gives \<open>bottom\<close> as the default.
\<close>

theorem inc_routes_refine:
  assumes "inc_inv file key E (length cs) s st" "plain file" "key_ok key"
    and "map (inc_op_of file key) cs = map Some ops" "\<And>x. x \<in> set ops \<Longrightarrow> op_fits E x"
  shows "\<exists>s'. run_cmds (inc_exec env) cs s = (s', snd (run_cmds spec_op ops st))
    \<and> inc_inv file key E 0 s' (fst (run_cmds spec_op ops st))"
  by (rule run_routes[OF assms])

text \<open>A first save, an insertion in front of it, an overwrite out of range, and reads.\<close>

definition demo_ist :: ist where
  "demo_ist = \<lparr>ist_kv = fresh_kv, ist_ix = ix_start, ist_out = []\<rparr>"

definition demo_header :: "(string \<times> string) list \<Rightarrow> string \<Rightarrow> string" where
  "demo_header hs n = (case map_of hs n of None \<Rightarrow> [] | Some v \<Rightarrow> v)"

definition demo_save :: "(string \<times> string) list \<Rightarrow> bytes \<Rightarrow> inc_call" where
  "demo_save hs b = SaveInc ((http_post ''/save_inc/t/k'' b)\<lparr>rq_header := demo_header hs\<rparr>)"

definition demo_read :: "(string \<times> string) list \<Rightarrow> inc_call" where
  "demo_read hs = ReadInc ((http_get ''/read_inc/t/k'')\<lparr>rq_header := demo_header hs\<rparr>)"

definition demo_drop :: inc_call where
  "demo_drop = DeleteInc (http_get ''/delete_inc/t/k'')"

lemma demo_ist_inv: "rows_room E m \<Longrightarrow> inc_inv ''t'' ''k'' E m demo_ist None"
proof -
  have inv: "kv_inv ''t'' fresh_kv" "kv_abs fresh_kv ''t'' = Map.empty" by (rule fresh_inv, code_simp)+
  have "holds_keys ix_start f Map.empty 0" for f
    using idx_ok_file[OF ix_start_ok] by (simp add: holds_keys_def ix_start_def getIndex_def px_load_def empty_pos_index_def)
  moreover have "holds_rows (kv_dir fresh_kv) p E []" for p
    by (simp add: holds_rows_def fresh_kv_def demo_dir_def dd_ready_def)
  moreover assume "rows_room E m"
  ultimately show ?thesis using inv by (simp add: inc_inv_def inc_parts_def demo_ist_def new_tab_def)
qed

definition demo_calls :: "inc_call list" where
  "demo_calls = [demo_save [(''max_entry_size'', ''4''), (''entry_key'', ''a'')] [1, 2],
     demo_save [(''id'', ''1''), (''entry_key'', ''b'')] [7],
     demo_save [(''id'', ''5''), (''mode'', ''overwrite'')] [8],
     demo_read [(''read_type'', ''by_key''), (''entry_key'', ''a'')],
     demo_read [(''read_type'', ''last_entries''), (''amount_to_read'', ''5'')], demo_drop]"

lemma demo_nums [simp]: "parse_uint ''1'' = Some 1" "parse_uint ''4'' = Some 4" "parse_uint ''5'' = Some 5"
  by (simp_all add: parse_uint_def digit_val_def)

lemma demo_call_simps:
  "inc_op_of ''t'' ''k'' (demo_save hs b) = map_option (\<lambda>h. SaveOp h b)
     (save_headers ((http_post ''/save_inc/t/k'' b)\<lparr>rq_header := demo_header hs\<rparr>))"
  "inc_op_of ''t'' ''k'' (demo_read hs) =
     map_option ReadOp (read_headers ((http_get ''/read_inc/t/k'')\<lparr>rq_header := demo_header hs\<rparr>))"
  "inc_op_of ''t'' ''k'' demo_drop = Some DropOp"
  by (simp_all add: demo_save_def demo_read_def demo_drop_def route_path_def split: option.split)

definition demo_ops :: "inc_op list" where
  "demo_ops =
     [SaveOp \<lparr>ih_size = Some 4, ih_id = None, ih_mode = ''append'', ih_from = ''top'', ih_key = ''a''\<rparr> [1, 2],
      SaveOp \<lparr>ih_size = None, ih_id = Some 1, ih_mode = ''append'', ih_from = ''top'', ih_key = ''b''\<rparr> [7],
      SaveOp \<lparr>ih_size = None, ih_id = Some 5, ih_mode = ''overwrite'', ih_from = ''top'', ih_key = []\<rparr> [8],
      ReadOp (ByKey ''a''), ReadOp (LastEntries 5), DropOp]"

lemma demo_calls_ops: "map (inc_op_of ''t'' ''k'') demo_calls = map Some demo_ops"
  by (simp add: demo_calls_def demo_ops_def demo_call_simps save_headers_def read_headers_def read_number_def
      demo_header_def Let_def)

lemma demo_ops_fit: "x \<in> set demo_ops \<Longrightarrow> op_fits 4 x"
  by (auto simp: demo_ops_def header_size_def)

lemma demo_ops_spec:
  "snd (run_cmds spec_op demo_ops None) =
     [Reply (Saved 0 None), Reply (Saved 0 None), Panics, Reply (Entry [1, 2]),
      Reply (Entries [(0, [1, 2]), (1, [7])]), Reply (Status 200)]"
  by (simp add: demo_ops_def the_tab_def new_tab_def header_size_def the_warning_def size_warning_def spec_save_def
      key_conflict_def spec_write_def spec_insert_def bind_new_def from_end_def list_insert_at_def shifted_def
      numbered_def i64_def Let_def)

lemma inc_routes_refine_witness:
  "\<exists>s'. run_cmds (inc_exec demo_env) demo_calls demo_ist =
     (s', [Reply (Saved 0 None), Reply (Saved 0 None), Panics, Reply (Entry [1, 2]),
           Reply (Entries [(0, [1, 2]), (1, [7])]), Reply (Status 200)])"
proof -
  have room: "rows_room 4 (length demo_calls)" by (simp add: rows_room_def demo_calls_def max_alloc_def)
  have ok: "plain ''t''" "key_ok ''k''" by (simp_all add: plain_def key_ok_def)
  show ?thesis
    using inc_routes_refine[OF demo_ist_inv[OF room] ok demo_calls_ops demo_ops_fit, of demo_env]
    unfolding demo_ops_spec by blast
qed

end
