(* ===== verification/Inc_Keyed.thy ===== *)
theory Inc_Keyed
  imports Inc_Refine
begin

text \<open>
  What entry keys promise: a table whose insertions all name a key is a list of keyed rows, and a read
  by key finds the row that was saved under it, wherever insertions have moved it. An insertion without
  a key breaks the promise: the positions of the index are not moved.
\<close>

section \<open>Keyed rows\<close>

type_synonym keyed_rows = "(string \<times> bytes) list"

text \<open>The positions are those of the keys of the rows.\<close>

definition keys_at :: "keyed_rows \<Rightarrow> (string \<Rightarrow> u64 option) \<Rightarrow> bool" where
  "keys_at es pos \<longleftrightarrow> px_ok \<lparr>px_keys = map fst es, px_positions = pos\<rparr>"

lemma keys_at_some:
  "keys_at es pos \<Longrightarrow> pos k = Some p \<longleftrightarrow> k \<noteq> [] \<and> unat p < length es \<and> fst (es ! unat p) = k"
  unfolding keys_at_def using px_okD(2)[of "\<lparr>px_keys = map fst es, px_positions = pos\<rparr>" k p] by auto

lemma keys_at_none:
  assumes "keys_at es pos"
  shows "pos k = None \<longleftrightarrow> k = [] \<or> k \<notin> fst ` set es"
proof
  assume n: "pos k = None"
  show "k = [] \<or> k \<notin> fst ` set es"
    using px_key_fresh[OF assms[unfolded keys_at_def]] n by auto
next
  assume k: "k = [] \<or> k \<notin> fst ` set es"
  show "pos k = None"
  proof (cases "pos k")
    case (Some p)
    then have "k \<noteq> []" "k \<in> fst ` set es"
      using keys_at_some[OF assms, of k p] by (auto intro!: image_eqI nth_mem)
    with k show ?thesis by simp
  qed
qed

lemma keys_at_find:
  assumes at: "keys_at es pos" and k: "k \<noteq> []"
  shows "map_of es k = (case pos k of None \<Rightarrow> None | Some p \<Rightarrow> Some (snd (es ! unat p)))"
proof (cases "pos k")
  case None
  then have "map_of es k = None" using keys_at_none[OF at, of k] k by (simp add: map_of_eq_None_iff)
  then show ?thesis using None by simp
next
  case (Some p)
  then have p: "unat p < length es" "fst (es ! unat p) = k" using keys_at_some[OF at] by auto
  then have "map_of es k \<noteq> None" by (auto simp: map_of_eq_None_iff intro!: image_eqI nth_mem)
  then obtain b where b: "map_of es k = Some b" by auto
  then have "(k, b) \<in> set es" by (rule map_of_SomeD)
  then obtain j where j: "j < length es" "es ! j = (k, b)" by (auto simp: in_set_conv_nth)
  have "j = unat p"
    using keys_uniqueD[OF px_ok_unique[OF at[unfolded keys_at_def]], of j "unat p"] j p k by simp
  then show ?thesis using b j Some by simp
qed

lemma keys_at_insert:
  assumes at: "keys_at es pos" and k: "k \<noteq> []" "pos k = None" and n: "n \<le> length es" "length es < 2 ^ 48"
  shows "keys_at (list_insert_at n (k, b) es) (bind_new (word_of_nat n) k pos)"
proof -
  let ?idx = "\<lparr>px_keys = map fst es, px_positions = pos\<rparr>" and ?n = "word_of_nat n :: u64"
  have ok: "px_ok ?idx" using at by (simp add: keys_at_def)
  have u: "unat ?n = n" using n by (intro unat_u64) simp
  have new: "px_positions ?idx k = None" using k(2) by simp
  have "Suc (length es) < 2 ^ 63" using n(2) by simp
  then have room: "px_room ?n ?idx" using n(1) u by (simp add: px_room_def max_def)
  have "insert_at ?n k (map fst es) = map fst (list_insert_at n (k, b) es)"
    using n(1) u by (simp add: insert_at_def ensureLength_def Let_def list_insert_at_def take_map drop_map)
  then have "px_insert ?n k ?idx =
      \<lparr>px_keys = map fst (list_insert_at n (k, b) es), px_positions = bind_new ?n k pos\<rparr>"
    using px_insert_keys[of ?n k ?idx] px_insert_look[OF ok new k(1) room]
    by (intro pos_index.equality) (auto simp: bind_new_def fun_eq_iff)
  then show ?thesis using px_insert_ok[OF ok new k(1) room] by (simp add: keys_at_def)
qed

lemma keys_at_unkeyed:
  assumes at: "keys_at es pos" and n: "length es < 2 ^ 48"
  shows "keys_at (es @ [([], b)]) pos"
proof -
  define i where "i = (word_of_nat (Suc (length es)) :: u64)"
  have u: "unat i = Suc (length es)" unfolding i_def using n by (intro unat_u64) simp
  have "unat i < 2 ^ 63" unfolding u using n by simp
  from px_grow_ok[OF at[unfolded keys_at_def] this] show ?thesis
    by (simp add: keys_at_def ensureLength_def u)
qed

lemma keys_at_rebind:
  assumes at: "keys_at es pos" and k: "k \<noteq> []" and n: "n < length es" "length es < 2 ^ 48"
    and free: "pos k = None \<or> pos k = Some (word_of_nat n)"
  shows "keys_at (es[n := (k, b)]) (rebind (word_of_nat n) k pos)"
proof -
  let ?idx = "\<lparr>px_keys = map fst es, px_positions = pos\<rparr>" and ?n = "word_of_nat n :: u64"
  have ok: "px_ok ?idx" using at by (simp add: keys_at_def)
  have u: "unat ?n = n" using n by (intro unat_u64) simp
  have at_n: "pos k' = Some ?n \<longleftrightarrow> k' \<noteq> [] \<and> fst (es ! n) = k'" for k'
    using keys_at_some[OF at, of k' ?n] u n by simp
  have keys: "map fst (es[n := (k, b)]) = (map fst es)[n := k]" by (simp add: map_update)
  from free show ?thesis
  proof
    assume new: "pos k = None"
    have e: "pos [] = None" using keys_at_none[OF at, of "[]"] by simp
    have "(pos(fst (es ! n) := None))(k \<mapsto> ?n) = rebind ?n k pos"
    proof
      fix k'
      show "((pos(fst (es ! n) := None))(k \<mapsto> ?n)) k' = rebind ?n k pos k'"
        unfolding rebind_def fun_upd_apply at_n using e by (cases "k' = []") simp_all
    qed
    then show ?thesis
      using px_put_ok[OF ok, of k ?n] new k u n unfolding keys_at_def keys by simp
  next
    assume same: "pos k = Some ?n"
    then have f: "fst (es ! n) = k" using at_n by blast
    have "rebind ?n k pos k' = pos k'" for k'
      unfolding rebind_def at_n f using same by simp
    then have "rebind ?n k pos = pos" by (rule ext)
    moreover have "(map fst es)[n := k] = map fst es" using f n by (simp add: list_update_same_conv)
    ultimately show ?thesis using at unfolding keys_at_def keys by simp
  qed
qed

section \<open>The contract of a keyed table\<close>

fun keyed_read :: "inc_read \<Rightarrow> keyed_rows \<Rightarrow> inc_reply" where
  "keyed_read (ById p) es = (if length es \<le> unat p then Status 404 else Entry (snd (es ! unat p)))"
| "keyed_read (LastEntries n) es =
     Entries (numbered (rev (drop (length es - nat (i64 n)) (map snd es))))"
| "keyed_read (FirstEntries n) es = Entries (numbered (take (nat (i64 n)) (map snd es)))"
| "keyed_read (ByKey k) es = (case map_of es k of None \<Rightarrow> Status 404 | Some b \<Rightarrow> Entry b)"

text \<open>An overwrite that names no key, or the key of another row, leaves the key the row has.\<close>

definition keyed_write :: "inc_headers \<Rightarrow> bytes \<Rightarrow> (u64 \<times> u64) option \<Rightarrow> keyed_rows \<Rightarrow> keyed_rows \<times> inc_reply call" where
  "keyed_write h body w es =
     (let N = length es; k = ih_key h
      in case ih_id h of
           None \<Rightarrow> (es @ [(k, body)], Reply (Saved (word_of_nat N) w))
         | Some p \<Rightarrow>
             if ih_mode h = ''overwrite'' then
               (if N \<le> unat p then (es, Panics)
                else let n = from_end (ih_from h) (N - 1) (unat p); old = fst (es ! n)
                     in if k = [] then (es[n := (old, body)], Reply (Saved (word_of_nat n) w))
                        else if k \<in> fst ` set es \<and> old \<noteq> k then (es[n := (old, body)], Reply (Status 409))
                        else (es[n := (k, body)], Reply (Saved (word_of_nat n) w)))
             else
               (if N < unat p then (es, Panics)
                else let n = from_end (ih_from h) N (unat p)
                     in (list_insert_at n (k, body) es, Reply (Saved (word_of_nat n) w))))"

fun keyed_op :: "inc_op \<Rightarrow> (u64 \<times> keyed_rows) option \<Rightarrow> (u64 \<times> keyed_rows) option \<times> inc_reply call" where
  "keyed_op (SaveOp h body) st =
     (let (e, es) = (case st of None \<Rightarrow> (header_size h, []) | Some x \<Rightarrow> x);
          w = (case st of None \<Rightarrow> None | Some _ \<Rightarrow> size_warning h e)
      in if ih_key h \<noteq> [] \<and> (ih_id h = None \<or> ih_mode h \<noteq> ''overwrite'') \<and> ih_key h \<in> fst ` set es
         then (Some (e, es), Reply (Status 409))
         else if unat e < length body then (Some (e, es), Reply (Status 400))
         else (case keyed_write h body w es of (es', r) \<Rightarrow> (Some (e, es'), r)))"
| "keyed_op (ReadOp q) st = (st, Reply (case st of None \<Rightarrow> Status 400 | Some (e, es) \<Rightarrow> keyed_read q es))"
| "keyed_op DropOp st = (None, Reply (case st of None \<Rightarrow> Status 404 | Some _ \<Rightarrow> Status 200))"

text \<open>Every insertion names a key; appends and overwrites need not.\<close>

fun names_key :: "inc_op \<Rightarrow> bool" where
  "names_key (SaveOp h body) \<longleftrightarrow> ih_key h \<noteq> [] \<or> ih_id h = None \<or> ih_mode h = ''overwrite''"
| "names_key (ReadOp (ByKey k)) \<longleftrightarrow> k \<noteq> []"
| "names_key _ \<longleftrightarrow> True"

definition tab_keyed :: "nat \<Rightarrow> inc_tab option \<Rightarrow> (u64 \<times> keyed_rows) option \<Rightarrow> bool" where
  "tab_keyed m st ks \<longleftrightarrow> (case ks of
      None \<Rightarrow> st = None \<and> m < 2 ^ 48
    | Some (e, es) \<Rightarrow> \<exists>pos. st = Some \<lparr>tb_size = e, tb_rows = map snd es, tb_pos = pos\<rparr>
        \<and> keys_at es pos \<and> length es + m < 2 ^ 48)"

section \<open>The table refines the contract\<close>

abbreviation tab_of_keyed :: "u64 \<Rightarrow> keyed_rows \<Rightarrow> (string \<Rightarrow> u64 option) \<Rightarrow> inc_tab" where
  "tab_of_keyed e es pos \<equiv> \<lparr>tb_size = e, tb_rows = map snd es, tb_pos = pos\<rparr>"

lemma keyed_append:
  assumes at: "keys_at es pos" and n: "length es < 2 ^ 48" and free: "k \<noteq> [] \<longrightarrow> pos k = None"
  shows "\<exists>pos'. spec_insert (word_of_nat (length es)) k w (map snd es @ [b]) (tab_of_keyed e es pos) =
      (tab_of_keyed e (es @ [(k, b)]) pos', Reply (Saved (word_of_nat (length es)) w)) \<and> keys_at (es @ [(k, b)]) pos'"
proof (cases "k = []")
  case True
  then show ?thesis using keys_at_unkeyed[OF at n, of b] by (auto simp: spec_insert_def)
next
  case False
  then have "keys_at (list_insert_at (length es) (k, b) es) (bind_new (word_of_nat (length es)) k pos)"
    using keys_at_insert[OF at False _ _ n, of "length es" b] free by simp
  then show ?thesis using False by (auto simp: spec_insert_def list_insert_at_def)
qed

lemma keyed_insert:
  assumes at: "keys_at es pos" and n: "n \<le> length es" "length es < 2 ^ 48" and free: "k \<noteq> []" "pos k = None"
  shows "\<exists>pos'. spec_insert (word_of_nat n) k w (list_insert_at n b (map snd es)) (tab_of_keyed e es pos) =
      (tab_of_keyed e (list_insert_at n (k, b) es) pos', Reply (Saved (word_of_nat n) w))
    \<and> keys_at (list_insert_at n (k, b) es) pos'"
  using keys_at_insert[OF at free n, of b] free(1) by (auto simp: spec_insert_def map_list_insert_at)

lemma keyed_overwrite:
  fixes es :: keyed_rows
  assumes at: "keys_at es pos" and n: "n < length es" "length es < 2 ^ 48"
    and i: "i = word_of_nat n" and old: "old = fst (es ! n)"
  shows "keys_at (es[n := (old, b)]) pos"
    and "k \<noteq> [] \<Longrightarrow> (pos k \<noteq> None \<and> pos k \<noteq> Some i) = (k \<in> fst ` set es \<and> old \<noteq> k)"
    and "k \<noteq> [] \<Longrightarrow> \<not> (k \<in> fst ` set es \<and> old \<noteq> k) \<Longrightarrow> keys_at (es[n := (k, b)]) (rebind i k pos)"
proof -
  have "map fst (es[n := (old, b)]) = map fst es" using n(1) old by (simp add: map_update list_update_same_conv)
  then show "keys_at (es[n := (old, b)]) pos" using at by (simp add: keys_at_def)
  have u: "unat i = n" unfolding i using n by (intro unat_u64) simp
  have pk: "pos k' = Some i \<longleftrightarrow> k' \<noteq> [] \<and> old = k'" for k'
    using keys_at_some[OF at, of k' i] n(1) unfolding u old by simp
  show c: "(pos k \<noteq> None \<and> pos k \<noteq> Some i) = (k \<in> fst ` set es \<and> old \<noteq> k)" if "k \<noteq> []"
    unfolding pk keys_at_none[OF at] using that by simp
  assume k: "k \<noteq> []" "\<not> (k \<in> fst ` set es \<and> old \<noteq> k)"
  then have "pos k = None \<or> pos k = Some (word_of_nat n)" using c i by metis
  from keys_at_rebind[OF at k(1) n this] show "keys_at (es[n := (k, b)]) (rebind i k pos)" unfolding i .
qed

lemma keyed_write_step:
  assumes at: "keys_at es pos" and n: "length es < 2 ^ 48" and nk: "names_key (SaveOp h body)"
    and free: "ih_id h = None \<or> ih_mode h \<noteq> ''overwrite'' \<longrightarrow> ih_key h \<noteq> [] \<longrightarrow> pos (ih_key h) = None"
  shows "\<exists>pos'. spec_write h body w (tab_of_keyed e es pos) =
      (tab_of_keyed e (fst (keyed_write h body w es)) pos', snd (keyed_write h body w es))
    \<and> keys_at (fst (keyed_write h body w es)) pos' \<and> length (fst (keyed_write h body w es)) \<le> Suc (length es)"
proof (cases "ih_id h")
  case None
  then have "ih_key h \<noteq> [] \<longrightarrow> pos (ih_key h) = None" using free by blast
  from keyed_append[OF at n this, of w body e] show ?thesis
    using None by (auto simp: spec_write_def keyed_write_def Let_def)
next
  case (Some p)
  let ?N = "length es" and ?k = "ih_key h"
  show ?thesis
  proof (cases "ih_mode h = ''overwrite''")
    case True
    show ?thesis
    proof (cases "?N \<le> unat p")
      case out: True
      then show ?thesis using Some True at by (auto simp: spec_write_def keyed_write_def)
    next
      case False
      let ?n = "from_end (ih_from h) (?N - 1) (unat p)" and ?old = "fst (es ! from_end (ih_from h) (?N - 1) (unat p))"
      let ?i = "word_of_nat ?n :: u64"
      have nn: "?n < ?N" using False by (auto simp: from_end_def)
      note ow = keyed_overwrite[OF at nn n refl refl]
      have sw: "spec_write h body w (tab_of_keyed e es pos) =
          (let t1 = tab_of_keyed e es pos \<lparr>tb_rows := (map snd es)[?n := body]\<rparr>
           in if ?k = [] then (t1, Reply (Saved ?i w))
              else if pos ?k \<noteq> None \<and> pos ?k \<noteq> Some ?i then (t1, Reply (Status 409))
              else (t1\<lparr>tb_pos := rebind ?i ?k pos\<rparr>, Reply (Saved ?i w)))"
        using Some True False by (simp add: spec_write_def Let_def)
      have kw: "keyed_write h body w es =
          (if ?k = [] then (es[?n := (?old, body)], Reply (Saved ?i w))
           else if ?k \<in> fst ` set es \<and> ?old \<noteq> ?k then (es[?n := (?old, body)], Reply (Status 409))
           else (es[?n := (?k, body)], Reply (Saved ?i w)))"
        using Some True False by (simp add: keyed_write_def Let_def)
      have m: "(map snd es)[?n := body] = map snd (es[?n := (x, body)])" for x by (simp add: map_update)
      consider (unkeyed) "?k = []" | (taken) "?k \<noteq> []" "?k \<in> fst ` set es \<and> ?old \<noteq> ?k"
        | (binds) "?k \<noteq> []" "\<not> (?k \<in> fst ` set es \<and> ?old \<noteq> ?k)" by blast
      then show ?thesis
      proof cases
        case unkeyed
        then show ?thesis
          unfolding sw kw Let_def if_P[OF unkeyed] fst_conv snd_conv using ow(1)[of body] m[of ?old] by auto
      next
        case taken
        have c: "pos ?k \<noteq> None \<and> pos ?k \<noteq> Some ?i" using ow(2)[OF taken(1)] taken(2) by blast
        show ?thesis
          unfolding sw kw Let_def if_not_P[OF taken(1)] if_P[OF taken(2)] if_P[OF c] fst_conv snd_conv
          using ow(1)[of body] m[of ?old] by auto
      next
        case binds
        have c: "\<not> (pos ?k \<noteq> None \<and> pos ?k \<noteq> Some ?i)" using ow(2)[OF binds(1)] binds(2) by blast
        show ?thesis
          unfolding sw kw Let_def if_not_P[OF binds(1)] if_not_P[OF binds(2)] if_not_P[OF c] fst_conv snd_conv
          using ow(3)[OF binds, of body] m[of ?k] by auto
      qed
    qed
  next
    case ins: False
    then have k: "?k \<noteq> []" "pos ?k = None" using nk Some free by auto
    show ?thesis
    proof (cases "?N < unat p")
      case True
      then show ?thesis using Some ins at by (auto simp: spec_write_def keyed_write_def)
    next
      case False
      let ?n = "from_end (ih_from h) ?N (unat p)"
      have nn: "?n \<le> ?N" using False by (auto simp: from_end_def)
      from keyed_insert[OF at nn n k, of w body e] show ?thesis
        using Some ins False by (auto simp: spec_write_def keyed_write_def Let_def)
    qed
  qed
qed

lemma keyed_save_step:
  assumes at: "keys_at es pos" and n: "length es < 2 ^ 48" and nk: "names_key (SaveOp h body)"
    and st: "(case st of None \<Rightarrow> (header_size h, []) | Some x \<Rightarrow> x) = (e, es)"
    and w: "w = (case st of None \<Rightarrow> None | Some _ \<Rightarrow> size_warning h e)"
  shows "\<exists>pos' es'. spec_save h body w (tab_of_keyed e es pos) = (tab_of_keyed e es' pos', snd (keyed_op (SaveOp h body) st))
    \<and> fst (keyed_op (SaveOp h body) st) = Some (e, es') \<and> keys_at es' pos' \<and> length es' \<le> Suc (length es)"
proof -
  let ?ins = "ih_id h = None \<or> ih_mode h \<noteq> ''overwrite''"
  have conf: "key_conflict h (tab_of_keyed e es pos) = (ih_key h \<noteq> [] \<and> ?ins \<and> ih_key h \<in> fst ` set es)"
    using keys_at_none[OF at, of "ih_key h"] by (auto simp: key_conflict_def)
  have op: "keyed_op (SaveOp h body) st =
      (if ih_key h \<noteq> [] \<and> ?ins \<and> ih_key h \<in> fst ` set es then (Some (e, es), Reply (Status 409))
       else if unat e < length body then (Some (e, es), Reply (Status 400))
       else (case keyed_write h body w es of (es', r) \<Rightarrow> (Some (e, es'), r)))"
    unfolding keyed_op.simps st w by simp
  have sp: "spec_save h body w (tab_of_keyed e es pos) =
      (if ih_key h \<noteq> [] \<and> ?ins \<and> ih_key h \<in> fst ` set es then (tab_of_keyed e es pos, Reply (Status 409))
       else if unat e < length body then (tab_of_keyed e es pos, Reply (Status 400))
       else spec_write h body w (tab_of_keyed e es pos))"
    unfolding spec_save_def conf by simp
  consider (taken) "ih_key h \<noteq> [] \<and> ?ins \<and> ih_key h \<in> fst ` set es"
    | (toolong) "\<not> (ih_key h \<noteq> [] \<and> ?ins \<and> ih_key h \<in> fst ` set es)" "unat e < length body"
    | (writes) "\<not> (ih_key h \<noteq> [] \<and> ?ins \<and> ih_key h \<in> fst ` set es)" "\<not> unat e < length body" by blast
  then show ?thesis
  proof cases
    case taken
    show ?thesis unfolding op sp if_P[OF taken] using at by auto
  next
    case toolong
    show ?thesis unfolding op sp if_not_P[OF toolong(1)] if_P[OF toolong(2)] using at by auto
  next
    case writes
    have "?ins \<longrightarrow> ih_key h \<noteq> [] \<longrightarrow> pos (ih_key h) = None" using writes(1) keys_at_none[OF at, of "ih_key h"] by blast
    from keyed_write_step[OF at n nk this, of w e] show ?thesis
      unfolding op sp if_not_P[OF writes(1)] if_not_P[OF writes(2)] by (auto simp: split_beta)
  qed
qed

lemma keyed_read_step:
  assumes at: "keys_at es pos" and nk: "names_key (ReadOp q)"
  shows "spec_read q (tab_of_keyed e es pos) = keyed_read q es"
proof (cases q)
  case (ByKey k)
  then have k: "k \<noteq> []" using nk by simp
  show ?thesis
  proof (cases "pos k")
    case None
    then show ?thesis using ByKey keys_at_find[OF at k] by simp
  next
    case (Some p)
    then show ?thesis using ByKey keys_at_find[OF at k] keys_at_some[OF at, of k p] by simp
  qed
qed simp_all

lemma keyed_step:
  assumes inv: "tab_keyed (Suc m) st ks" and nk: "names_key x"
  shows "tab_keyed m (fst (spec_op x st)) (fst (keyed_op x ks)) \<and> snd (spec_op x st) = snd (keyed_op x ks)"
proof (cases x)
  case (SaveOp h body)
  obtain e es where ee: "(case ks of None \<Rightarrow> (header_size h, []) | Some x \<Rightarrow> x) = (e, es)" by fastforce
  have e0: "keys_at [] Map.empty" by (simp add: keys_at_def px_ok_def)
  have "\<exists>pos. the_tab h st = tab_of_keyed e es pos \<and> keys_at es pos \<and> length es + Suc m < 2 ^ 48
      \<and> the_warning h st = (case ks of None \<Rightarrow> None | Some _ \<Rightarrow> size_warning h e)"
    using inv ee e0 by (auto simp: tab_keyed_def the_tab_def the_warning_def new_tab_def split: option.splits)
  then obtain pos where p: "the_tab h st = tab_of_keyed e es pos" "keys_at es pos" "length es + Suc m < 2 ^ 48"
      "the_warning h st = (case ks of None \<Rightarrow> None | Some _ \<Rightarrow> size_warning h e)" by blast
  have n: "length es < 2 ^ 48" using p(3) by simp
  obtain pos' es' where s: "spec_save h body (the_warning h st) (tab_of_keyed e es pos) =
      (tab_of_keyed e es' pos', snd (keyed_op x ks))" "fst (keyed_op x ks) = Some (e, es')"
      "keys_at es' pos'" "length es' \<le> Suc (length es)"
    using keyed_save_step[OF p(2) n nk[unfolded SaveOp] ee p(4)] SaveOp by blast
  have so: "spec_op x st = (Some (tab_of_keyed e es' pos'), snd (keyed_op x ks))"
    unfolding SaveOp spec_op.simps p(1) s(1)[unfolded SaveOp] by simp
  show ?thesis unfolding so s(2) using s(3,4) p(3) by (simp add: tab_keyed_def)
next
  case (ReadOp q)
  have "tab_keyed m st ks" using inv by (auto simp: tab_keyed_def split: option.splits)
  moreover have "(case st of None \<Rightarrow> Status 400 | Some t \<Rightarrow> spec_read q t) =
      (case ks of None \<Rightarrow> Status 400 | Some (e, es) \<Rightarrow> keyed_read q es)"
    using inv keyed_read_step[OF _ nk[unfolded ReadOp]] by (auto simp: tab_keyed_def split: option.splits)
  ultimately show ?thesis by (simp add: ReadOp)
next
  case DropOp
  then show ?thesis using inv by (auto simp: tab_keyed_def split: option.splits)
qed

interpretation keyed: budgeted tab_keyed names_key spec_op keyed_op
  by unfold_locales (rule keyed_step)

section \<open>Properties\<close>

text \<open>
  C8: Entry keys follow their rows. While every insertion names a key, a run of save, read and delete
  requests on a table is answered as if the table were a list of rows with their keys: a read by key
  returns the row saved last under that key, wherever later insertions have moved it, and a key is
  never bound twice. Here too a save without a valid \<open>count_from\<close> counts from the newest row, where
  \<open>docs_api/incremental.md\<close> gives \<open>bottom\<close> as the default.
\<close>

theorem keyed_entries_follow:
  assumes "inc_inv file key E (length cs) s st" "tab_keyed (length cs) st ks" "plain file" "key_ok key"
    and "map (inc_op_of file key) cs = map Some ops" "\<And>x. x \<in> set ops \<Longrightarrow> op_fits E x \<and> names_key x"
  shows "\<exists>s'. run_cmds (inc_exec env) cs s = (s', snd (run_cmds keyed_op ops ks))"
proof -
  have l: "length ops + 0 = length cs" using arg_cong[OF assms(5), of length] by simp
  have "snd (run_cmds spec_op ops st) = snd (run_cmds keyed_op ops ks)"
    using keyed.runs[of ops 0 st ks, unfolded l] assms(2,6) by blast
  then show ?thesis
    using run_routes[OF assms(1,3,4,5), of env] assms(6) by auto
qed

lemma keyed_entries_follow_witness:
  "\<exists>s'. run_cmds (inc_exec demo_env) demo_calls demo_ist =
     (s', [Reply (Saved 0 None), Reply (Saved 0 None), Panics, Reply (Entry [1, 2]),
           Reply (Entries [(0, [1, 2]), (1, [7])]), Reply (Status 200)])"
proof -
  have room: "rows_room 4 (length demo_calls)" "tab_keyed (length demo_calls) None None"
    by (simp_all add: rows_room_def demo_calls_def max_alloc_def tab_keyed_def)
  have ok: "plain ''t''" "key_ok ''k''" by (simp_all add: plain_def key_ok_def)
  have f: "op_fits 4 x \<and> names_key x" if "x \<in> set demo_ops" for x
    using that by (auto simp: demo_ops_def header_size_def)
  have "snd (run_cmds keyed_op demo_ops None) =
     [Reply (Saved 0 None), Reply (Saved 0 None), Panics, Reply (Entry [1, 2]),
      Reply (Entries [(0, [1, 2]), (1, [7])]), Reply (Status 200)]"
    by (simp add: demo_ops_def header_size_def size_warning_def keyed_write_def from_end_def list_insert_at_def
        numbered_def i64_def Let_def)
  then show ?thesis
    using keyed_entries_follow[OF demo_ist_inv[OF room(1)] room(2) ok demo_calls_ops f, of demo_env] by simp
qed

lemma nth_list_insert_at: "n \<le> i \<Longrightarrow> i < length xs \<Longrightarrow> list_insert_at n x xs ! i = (if i = n then x else xs ! (i - 1))"
  by (auto simp: list_insert_at_def nth_append nth_Cons' min_def)

text \<open>
  C35: An insertion without a key moves the rows and not the index: after it, a read by a key whose row
  was at or above the position returns the row that has taken its place, not the row saved under the key.
\<close>

theorem unkeyed_insert_misplaces:
  assumes "inc_inv file key E 2 s (Some t)" "plain file" "key_ok key"
    and "inc_op_of file key (SaveInc r1) = Some (SaveOp h b)" "header_size h \<le> E" "length b \<le> unat (tb_size t)"
    and "ih_key h = []" "ih_id h = Some q" "ih_mode h \<noteq> ''overwrite''" "unat q \<le> length (tb_rows t)"
    and "inc_op_of file key (ReadInc r2) = Some (ReadOp (ByKey k))"
    and "tb_pos t k = Some p" "unat p < length (tb_rows t)"
    and "n = from_end (ih_from h) (length (tb_rows t)) (unat q)" "n \<le> unat p"
  shows "\<exists>s'. run_cmds (inc_exec env) [SaveInc r1, ReadInc r2] s =
    (s', [Reply (Saved (word_of_nat n) (size_warning h (tb_size t))), Reply (Entry (if unat p = n then b else tb_rows t ! (unat p - 1)))])"
proof -
  let ?t' = "t\<lparr>tb_rows := list_insert_at n b (tb_rows t)\<rparr>" and ?w = "size_warning h (tb_size t)"
  have ops: "map (inc_op_of file key) [SaveInc r1, ReadInc r2] = map Some [SaveOp h b, ReadOp (ByKey k)]"
    using assms(4,11) by simp
  have fit: "op_fits E x" if "x \<in> set [SaveOp h b, ReadOp (ByKey k)]" for x using that assms(5) by auto
  have "\<not> unat (tb_size t) < length b" "\<not> length (tb_rows t) < unat q" using assms(6,10) by simp_all
  then have "spec_op (SaveOp h b) (Some t) = (Some ?t', Reply (Saved (word_of_nat n) ?w))"
    using assms(7,8,9,14) by (simp add: the_tab_def the_warning_def spec_save_def key_conflict_def spec_write_def
        spec_insert_def Let_def)
  moreover have "spec_read (ByKey k) ?t' = Entry (if unat p = n then b else tb_rows t ! (unat p - 1))"
    using assms(12,13,15) by (simp add: nth_list_insert_at)
  ultimately have res: "snd (run_cmds spec_op [SaveOp h b, ReadOp (ByKey k)] (Some t)) =
      [Reply (Saved (word_of_nat n) (size_warning h (tb_size t))), Reply (Entry (if unat p = n then b else tb_rows t ! (unat p - 1)))]"
    by (simp del: spec_op.simps(1) spec_read.simps)
  have "length [SaveInc r1, ReadInc r2] = 2" by simp
  then have "inc_inv file key E (length [SaveInc r1, ReadInc r2]) s (Some t)" using assms(1) by metis
  from run_routes[OF this assms(2,3) ops fit, of env] show ?thesis unfolding res by blast
qed

definition demo_first :: inc_call where
  "demo_first = demo_save [(''max_entry_size'', ''4''), (''entry_key'', ''a'')] [1, 2]"

lemma unkeyed_insert_misplaces_witness:
  "\<exists>s'. run_cmds (inc_exec demo_env) [demo_first,
       demo_save [(''id'', ''1'')] [9], demo_read [(''read_type'', ''by_key''), (''entry_key'', ''a'')]] demo_ist =
     (s', [Reply (Saved 0 None), Reply (Saved 0 None), Reply (Entry [9])])"
proof -
  let ?h1 = "\<lparr>ih_size = Some 4, ih_id = None, ih_mode = ''append'', ih_from = ''top'', ih_key = ''a''\<rparr>"
  let ?h2 = "\<lparr>ih_size = None, ih_id = Some 1, ih_mode = ''append'', ih_from = ''top'', ih_key = []\<rparr>"
  let ?t = "\<lparr>tb_size = 4, tb_rows = [[1, 2]], tb_pos = bind_new 0 ''a'' Map.empty\<rparr>"
  let ?c2 = "demo_save [(''id'', ''1'')] [9]" and ?c3 = "demo_read [(''read_type'', ''by_key''), (''entry_key'', ''a'')]"
  have ok: "plain ''t''" "key_ok ''k''" by (simp_all add: plain_def key_ok_def)
  have o: "inc_op_of ''t'' ''k'' demo_first = Some (SaveOp ?h1 [1, 2])"
    "inc_op_of ''t'' ''k'' ?c2 = Some (SaveOp ?h2 [9])" "inc_op_of ''t'' ''k'' ?c3 = Some (ReadOp (ByKey ''a''))"
    by (simp_all add: demo_first_def demo_call_simps save_headers_def read_headers_def demo_header_def Let_def)
  have room: "rows_room 4 (Suc 2)" by (simp add: rows_room_def max_alloc_def)
  have c1: "inc_call_ok ''t'' ''k'' 4 demo_first" using ok o(1) by (simp add: inc_call_ok_def header_size_def)
  obtain s1 where s1: "inc_exec demo_env demo_first demo_ist = (s1, Reply (Saved 0 None))"
    "inc_inv ''t'' ''k'' 4 2 s1 (Some ?t)"
    using route_step[OF demo_ist_inv[OF room] c1, of demo_env] o(1)
    by (auto simp: spec_call_def the_tab_def new_tab_def header_size_def the_warning_def spec_save_def
        key_conflict_def spec_write_def spec_insert_def)
  obtain r2 r3 where r: "?c2 = SaveInc r2" "?c3 = ReadInc r3" by (simp add: demo_save_def demo_read_def)
  have "\<exists>s'. run_cmds (inc_exec demo_env) [SaveInc r2, ReadInc r3] s1 =
      (s', [Reply (Saved (word_of_nat 0) (size_warning ?h2 (tb_size ?t))), Reply (Entry (if unat (0 :: u64) = 0 then [9] else tb_rows ?t ! (unat (0 :: u64) - 1)))])"
    using o(2,3) unfolding r
    by (intro unkeyed_insert_misplaces[OF s1(2) ok, of r2 ?h2 "[9]" 1])
      (simp_all add: header_size_def bind_new_def from_end_def)
  then obtain s' where s': "run_cmds (inc_exec demo_env) [SaveInc r2, ReadInc r3] s1 =
      (s', [Reply (Saved 0 None), Reply (Entry [9])])"
    by (auto simp: size_warning_def)
  show ?thesis using s1(1) s' r by (auto split: prod.splits)
qed

end
