(* ===== verification/Wal_Sync.thy ===== *)
theory Wal_Sync
  imports Tsu_Prelude
begin

text \<open>
  The sync protocol of the write-ahead log (\<open>mapManager.go\<close>: the end of \<open>flushWal\<close>, \<open>walSyncLoop\<close>,
  \<open>waitForWalSync\<close>): flushers take a sequence number and signal a condition variable, one goroutine
  syncs the file and publishes the numbers it has covered, and callers may wait for their number. One
  step of the relation is one atomic operation, one acquisition of \<open>walSyncMu\<close>, or one wait or wake-up;
  a wake-up picks any sleeper, as \<open>sync.Cond\<close> promises no order. The buffer is represented by the number
  of flushes: flush \<open>n\<close> is durable once a sync started after it, \<open>n \<le> ws_synced\<close>. Counters do not wrap
  (\<open>2^63\<close> flushes).
\<close>

section \<open>States and steps\<close>

datatype who = Syncer | Client nat

text \<open>
  The syncer: taking the mutex, loading \<open>walSyncRequested\<close>, deciding to wait, asleep; then syncing,
  loading the number it will publish, storing it, taking the mutex again and broadcasting.
\<close>

datatype loop_pc = LTop | LCheck | LWait | LSleep | LSync | LLoad | LStore | LLock | LBcast

text \<open>
  A client: flushed and about to add, about to take the mutex and to signal (in \<open>flushWal\<close>); in
  \<open>waitForWalSync\<close> the first load, taking the mutex, the load under it, deciding to wait, asleep; returned.
\<close>

datatype client_pc = CIdle | CAdd | CLock nat | CSignal nat | CTop nat | CMutex nat | CCheck nat
  | CWait nat | CSleep nat | CDone nat

record wsync =
  ws_flushed :: nat
  ws_synced :: nat
  ws_requested :: nat
  ws_completed :: nat
  ws_last :: nat
  ws_loop :: loop_pc
  ws_client :: "nat \<Rightarrow> client_pc"
  ws_mine :: "nat \<Rightarrow> nat"
  ws_mu :: "who option"

definition ws_start :: wsync where
  "ws_start = \<lparr>ws_flushed = 0, ws_synced = 0, ws_requested = 0, ws_completed = 0, ws_last = 0, ws_loop = LTop,
     ws_client = (\<lambda>_. CIdle), ws_mine = (\<lambda>_. 0), ws_mu = None\<rparr>"

definition set_pc :: "nat \<Rightarrow> client_pc \<Rightarrow> wsync \<Rightarrow> wsync" where
  "set_pc i pc s = s\<lparr>ws_client := (ws_client s)(i := pc)\<rparr>"

definition asleep :: "wsync \<Rightarrow> who \<Rightarrow> bool" where
  "asleep s w = (case w of Syncer \<Rightarrow> ws_loop s = LSleep
     | Client i \<Rightarrow> (case ws_client s i of CSleep _ \<Rightarrow> True | _ \<Rightarrow> False))"

text \<open>A woken goroutine takes the mutex again and repeats its test.\<close>

fun wake_client :: "client_pc \<Rightarrow> client_pc" where
  "wake_client (CSleep q) = CMutex q"
| "wake_client pc = pc"

definition wake :: "who \<Rightarrow> wsync \<Rightarrow> wsync" where
  "wake w s = (case w of Syncer \<Rightarrow> s\<lparr>ws_loop := LTop\<rparr>
     | Client i \<Rightarrow> set_pc i (wake_client (ws_client s i)) s)"

text \<open>\<open>flushWal\<close> after the buffer is written.\<close>

inductive flush_step :: "nat \<Rightarrow> wsync \<Rightarrow> wsync \<Rightarrow> bool" for i where
  flush: "ws_client s i = CIdle \<Longrightarrow>
    flush_step i s (set_pc i CAdd (s\<lparr>ws_flushed := ws_flushed s + 1, ws_mine := (ws_mine s)(i := ws_flushed s + 1)\<rparr>))"
| add: "ws_client s i = CAdd \<Longrightarrow>
    flush_step i s (set_pc i (CLock (ws_requested s + 1)) (s\<lparr>ws_requested := ws_requested s + 1\<rparr>))"
| lock: "ws_client s i = CLock q \<Longrightarrow> ws_mu s = None \<Longrightarrow>
    flush_step i s (set_pc i (CSignal q) (s\<lparr>ws_mu := Some (Client i)\<rparr>))"
| signal_nobody: "ws_client s i = CSignal q \<Longrightarrow> (\<And>w. \<not> asleep s w) \<Longrightarrow>
    flush_step i s (set_pc i (CTop q) (s\<lparr>ws_mu := None\<rparr>))"
| signal: "ws_client s i = CSignal q \<Longrightarrow> asleep s w \<Longrightarrow>
    flush_step i s (set_pc i (CTop q) (wake w (s\<lparr>ws_mu := None\<rparr>)))"
| no_wait: "ws_client s i = CTop q \<Longrightarrow> flush_step i s (set_pc i CIdle s)"

text \<open>\<open>waitForWalSync\<close>.\<close>

inductive wait_step :: "nat \<Rightarrow> wsync \<Rightarrow> wsync \<Rightarrow> bool" for i where
  covered: "ws_client s i = CTop q \<Longrightarrow> q \<le> ws_completed s \<Longrightarrow> wait_step i s (set_pc i (CDone q) s)"
| not_covered: "ws_client s i = CTop q \<Longrightarrow> ws_completed s < q \<Longrightarrow> wait_step i s (set_pc i (CMutex q) s)"
| mutex: "ws_client s i = CMutex q \<Longrightarrow> ws_mu s = None \<Longrightarrow>
    wait_step i s (set_pc i (CCheck q) (s\<lparr>ws_mu := Some (Client i)\<rparr>))"
| must_wait: "ws_client s i = CCheck q \<Longrightarrow> ws_completed s < q \<Longrightarrow> wait_step i s (set_pc i (CWait q) s)"
| leave: "ws_client s i = CCheck q \<Longrightarrow> q \<le> ws_completed s \<Longrightarrow>
    wait_step i s (set_pc i (CTop q) (s\<lparr>ws_mu := None\<rparr>))"
| sleep: "ws_client s i = CWait q \<Longrightarrow> wait_step i s (set_pc i (CSleep q) (s\<lparr>ws_mu := None\<rparr>))"
| again: "ws_client s i = CDone q \<Longrightarrow> wait_step i s (set_pc i CIdle s)"

text \<open>\<open>walSyncLoop\<close>.\<close>

inductive loop_step :: "wsync \<Rightarrow> wsync \<Rightarrow> bool" where
  top: "ws_loop s = LTop \<Longrightarrow> ws_mu s = None \<Longrightarrow> loop_step s (s\<lparr>ws_loop := LCheck, ws_mu := Some Syncer\<rparr>)"
| nothing: "ws_loop s = LCheck \<Longrightarrow> ws_last s = ws_requested s \<Longrightarrow> loop_step s (s\<lparr>ws_loop := LWait\<rparr>)"
| work: "ws_loop s = LCheck \<Longrightarrow> ws_last s \<noteq> ws_requested s \<Longrightarrow> loop_step s (s\<lparr>ws_loop := LSync, ws_mu := None\<rparr>)"
| wait: "ws_loop s = LWait \<Longrightarrow> loop_step s (s\<lparr>ws_loop := LSleep, ws_mu := None\<rparr>)"
| sync: "ws_loop s = LSync \<Longrightarrow> loop_step s (s\<lparr>ws_loop := LLoad, ws_synced := ws_flushed s\<rparr>)"
| load: "ws_loop s = LLoad \<Longrightarrow> loop_step s (s\<lparr>ws_loop := LStore, ws_last := ws_requested s\<rparr>)"
| store: "ws_loop s = LStore \<Longrightarrow> loop_step s (s\<lparr>ws_loop := LLock, ws_completed := ws_last s\<rparr>)"
| lock2: "ws_loop s = LLock \<Longrightarrow> ws_mu s = None \<Longrightarrow> loop_step s (s\<lparr>ws_loop := LBcast, ws_mu := Some Syncer\<rparr>)"
| broadcast: "ws_loop s = LBcast \<Longrightarrow>
    loop_step s (s\<lparr>ws_loop := LTop, ws_mu := None, ws_client := wake_client \<circ> ws_client s\<rparr>)"

inductive ws_step :: "wsync \<Rightarrow> wsync \<Rightarrow> bool" where
  by_flush: "flush_step i s s' \<Longrightarrow> ws_step s s'"
| by_wait: "wait_step i s s' \<Longrightarrow> ws_step s s'"
| by_loop: "loop_step s s' \<Longrightarrow> ws_step s s'"

abbreviation ws_reach :: "wsync \<Rightarrow> wsync \<Rightarrow> bool" where
  "ws_reach \<equiv> ws_step\<^sup>*\<^sup>*"

section \<open>The invariant\<close>

text \<open>The sequence number a client holds, and whether it has signalled.\<close>

fun seq_of :: "client_pc \<Rightarrow> nat option" where
  "seq_of CIdle = None"
| "seq_of CAdd = None"
| "seq_of (CLock q) = Some q"
| "seq_of (CSignal q) = Some q"
| "seq_of (CTop q) = Some q"
| "seq_of (CMutex q) = Some q"
| "seq_of (CCheck q) = Some q"
| "seq_of (CWait q) = Some q"
| "seq_of (CSleep q) = Some q"
| "seq_of (CDone q) = Some q"

fun to_signal :: "client_pc \<Rightarrow> bool" where
  "to_signal (CLock q) = True"
| "to_signal (CSignal q) = True"
| "to_signal _ = False"

fun holds_mutex :: "client_pc \<Rightarrow> bool" where
  "holds_mutex (CSignal q) = True"
| "holds_mutex (CCheck q) = True"
| "holds_mutex (CWait q) = True"
| "holds_mutex _ = False"

text \<open>Clients that wait, or have decided to, and the number they wait for.\<close>

fun waiting :: "client_pc \<Rightarrow> nat option" where
  "waiting (CWait q) = Some q"
| "waiting (CSleep q) = Some q"
| "waiting _ = None"

definition seqs_ok :: "wsync \<Rightarrow> bool" where
  "seqs_ok s \<longleftrightarrow> ws_completed s \<le> ws_last s \<and> ws_last s \<le> ws_requested s
     \<and> (ws_loop s \<noteq> LStore \<longrightarrow> ws_completed s = ws_last s)
     \<and> (\<forall>i q. seq_of (ws_client s i) = Some q \<longrightarrow> q \<le> ws_requested s)
     \<and> (\<forall>i q. ws_client s i = CDone q \<longrightarrow> q \<le> ws_completed s)"

definition mutex_ok :: "wsync \<Rightarrow> bool" where
  "mutex_ok s \<longleftrightarrow> (ws_mu s = Some Syncer \<longleftrightarrow> ws_loop s \<in> {LCheck, LWait, LBcast})
     \<and> (\<forall>i. ws_mu s = Some (Client i) \<longleftrightarrow> holds_mutex (ws_client s i))"

text \<open>
  A waiting client waits for a number that is not published, or the broadcast is still to come; while the
  syncer waits, the numbers of the clients that have signalled are published, and a number that is not is
  held by a client about to signal.
\<close>

definition wakeups_ok :: "wsync \<Rightarrow> bool" where
  "wakeups_ok s \<longleftrightarrow>
     (\<forall>i q. waiting (ws_client s i) = Some q \<longrightarrow> ws_completed s < q \<or> ws_loop s \<in> {LLock, LBcast})
     \<and> (ws_loop s \<in> {LWait, LSleep} \<longrightarrow>
          (\<forall>i q. seq_of (ws_client s i) = Some q \<longrightarrow> \<not> to_signal (ws_client s i) \<longrightarrow> q \<le> ws_last s)
          \<and> (ws_last s = ws_requested s \<or> (\<exists>i. to_signal (ws_client s i))))"

definition ws_ok :: "wsync \<Rightarrow> bool" where
  "ws_ok s \<longleftrightarrow> seqs_ok s \<and> mutex_ok s \<and> wakeups_ok s"

lemma ws_start_ok: "ws_ok ws_start"
  by (simp add: ws_ok_def seqs_ok_def mutex_ok_def wakeups_ok_def ws_start_def)

lemma set_pc_simps [simp]:
  "ws_flushed (set_pc i pc s) = ws_flushed s" "ws_synced (set_pc i pc s) = ws_synced s"
  "ws_requested (set_pc i pc s) = ws_requested s" "ws_completed (set_pc i pc s) = ws_completed s"
  "ws_last (set_pc i pc s) = ws_last s" "ws_loop (set_pc i pc s) = ws_loop s"
  "ws_mine (set_pc i pc s) = ws_mine s" "ws_mu (set_pc i pc s) = ws_mu s"
  "ws_client (set_pc i pc s) = (ws_client s)(i := pc)"
  by (simp_all add: set_pc_def)

lemma wake_simps [simp]:
  "ws_flushed (wake w s) = ws_flushed s" "ws_completed (wake w s) = ws_completed s" "ws_last (wake w s) = ws_last s"
  "ws_requested (wake w s) = ws_requested s" "ws_mu (wake w s) = ws_mu s"
  "ws_loop (wake w s) = (if w = Syncer then LTop else ws_loop s)"
  "ws_client (wake w s) = (case w of Syncer \<Rightarrow> ws_client s
     | Client i \<Rightarrow> (ws_client s)(i := wake_client (ws_client s i)))"
  by (auto simp: wake_def split: who.split)

lemma wake_client_simps [simp]:
  "seq_of (wake_client pc) = seq_of pc" "holds_mutex (wake_client pc) = holds_mutex pc"
  "to_signal (wake_client pc) = to_signal pc"
  "wake_client pc = CDone q \<longleftrightarrow> pc = CDone q"
  by (cases pc; simp)+

lemma waiting_wake: "waiting (wake_client pc) = Some q \<Longrightarrow> waiting pc = Some q"
  by (cases pc) auto

lemma waiting_seq: "waiting pc = Some q \<Longrightarrow> seq_of pc = Some q \<and> \<not> to_signal pc"
  by (cases pc) auto


subsection \<open>It is preserved\<close>

lemma asleep_cases:
  "asleep s Syncer \<longleftrightarrow> ws_loop s = LSleep" "asleep s (Client j) \<longleftrightarrow> (\<exists>q. ws_client s j = CSleep q)"
  by (simp_all add: asleep_def split: client_pc.split)

lemma mutex_okD:
  assumes "mutex_ok s"
  shows "holds_mutex (ws_client s i) \<Longrightarrow> ws_mu s = Some (Client i)"
    and "ws_mu s = Some Syncer \<longleftrightarrow> ws_loop s \<in> {LCheck, LWait, LBcast}"
    and "ws_mu s = Some (Client i) \<longleftrightarrow> holds_mutex (ws_client s i)"
  using assms unfolding mutex_ok_def by blast+

text \<open>What a step of a client does to the mutex: nothing, take it, or give it back.\<close>

lemma mutex_keep:
  "mutex_ok s \<Longrightarrow> holds_mutex pc = holds_mutex (ws_client s i) \<Longrightarrow> ws_mu s' = ws_mu s \<Longrightarrow> ws_loop s' = ws_loop s \<Longrightarrow>
   ws_client s' = ws_client s \<Longrightarrow> mutex_ok (set_pc i pc s')"
  unfolding mutex_ok_def by auto

lemma mutex_take:
  "mutex_ok s \<Longrightarrow> ws_mu s = None \<Longrightarrow> holds_mutex pc \<Longrightarrow> mutex_ok (set_pc i pc (s\<lparr>ws_mu := Some (Client i)\<rparr>))"
  unfolding mutex_ok_def by auto

lemma mutex_give:
  assumes ok: "mutex_ok s" and h: "holds_mutex (ws_client s i)" "\<not> holds_mutex pc"
  shows "mutex_ok (set_pc i pc (s\<lparr>ws_mu := None\<rparr>))"
proof -
  have mu: "ws_mu s = Some (Client i)" by (rule mutex_okD(1)[OF ok h(1)])
  then have "ws_loop s \<notin> {LCheck, LWait, LBcast}" using mutex_okD(2)[OF ok] by simp
  moreover have "\<not> holds_mutex (ws_client s j)" if "j \<noteq> i" for j
    using mutex_okD(3)[OF ok, of j] mu that by simp
  ultimately show ?thesis using h(2) by (simp add: mutex_ok_def)
qed

lemma mutex_wake: "mutex_ok s \<Longrightarrow> asleep s' w \<Longrightarrow> ws_client s' = ws_client s \<Longrightarrow> ws_loop s' = ws_loop s \<Longrightarrow>
   mutex_ok (wake w s)"
  by (cases w) (auto simp: mutex_ok_def asleep_cases)

lemma flush_mutex: "flush_step i s s' \<Longrightarrow> mutex_ok s \<Longrightarrow> mutex_ok s'"
proof (induction rule: flush_step.induct)
  case (flush s)
  then show ?case by (intro mutex_keep[of s]) simp_all
next
  case (add s)
  then show ?case by (intro mutex_keep[of s]) simp_all
next
  case (lock s q)
  then show ?case by (intro mutex_take) simp_all
next
  case (signal_nobody s q)
  then show ?case by (intro mutex_give) simp_all
next
  case (signal s q w)
  have m: "mutex_ok (set_pc i (CTop q) (s\<lparr>ws_mu := None\<rparr>))" using signal by (intro mutex_give) simp_all
  have n: "w \<noteq> Client i" using signal by (auto simp: asleep_cases)
  then have "wake w (set_pc i (CTop q) (s\<lparr>ws_mu := None\<rparr>)) = set_pc i (CTop q) (wake w (s\<lparr>ws_mu := None\<rparr>))"
    by (auto simp: wake_def set_pc_def fun_upd_twist split: who.split)
  moreover have "asleep (set_pc i (CTop q) (s\<lparr>ws_mu := None\<rparr>)) w"
    using signal n by (cases w) (auto simp: asleep_cases)
  ultimately show ?case using mutex_wake[OF m] by metis
next
  case (no_wait s q)
  then show ?case by (intro mutex_keep[of s]) simp_all
qed

lemma wait_mutex: "wait_step i s s' \<Longrightarrow> mutex_ok s \<Longrightarrow> mutex_ok s'"
proof (induction rule: wait_step.induct)
  case (mutex s q)
  then show ?case by (intro mutex_take) simp_all
next
  case (leave s q)
  then show ?case by (intro mutex_give) simp_all
next
  case (sleep s q)
  then show ?case by (intro mutex_give) simp_all
qed (rule mutex_keep, assumption, simp_all)+

lemma loop_mutex: "loop_step s s' \<Longrightarrow> mutex_ok s \<Longrightarrow> mutex_ok s'"
proof (induction rule: loop_step.induct)
  case (broadcast s)
  have "ws_mu s = Some Syncer" using mutex_okD(2)[OF broadcast(2)] broadcast(1) by simp
  then have "\<not> holds_mutex (ws_client s i)" for i using mutex_okD(3)[OF broadcast(2), of i] by simp
  then show ?case by (simp add: mutex_ok_def)
next
  case (work s)
  have "ws_mu s = Some Syncer" using mutex_okD(2)[OF work(3)] work(1) by simp
  then have "\<not> holds_mutex (ws_client s i)" for i using mutex_okD(3)[OF work(3), of i] by simp
  then show ?case by (simp add: mutex_ok_def)
next
  case (wait s)
  have "ws_mu s = Some Syncer" using mutex_okD(2)[OF wait(2)] wait(1) by simp
  then have "\<not> holds_mutex (ws_client s i)" for i using mutex_okD(3)[OF wait(2), of i] by simp
  then show ?case by (simp add: mutex_ok_def)
qed (auto simp: mutex_ok_def)

text \<open>The rest of a state keeps its clients, some of them woken.\<close>

definition same_clients :: "wsync \<Rightarrow> wsync \<Rightarrow> bool" where
  "same_clients s s' \<longleftrightarrow> ws_completed s' = ws_completed s \<and> ws_last s' = ws_last s \<and> ws_requested s' = ws_requested s
     \<and> (ws_loop s' = ws_loop s \<or> ws_loop s = LSleep \<and> ws_loop s' = LTop)
     \<and> (\<forall>j. ws_client s' j = ws_client s j \<or> ws_client s' j = wake_client (ws_client s j))"

lemma same_clients_mu [simp]: "same_clients s s" "same_clients s (s\<lparr>ws_mu := m\<rparr>)"
  "same_clients s (s\<lparr>ws_flushed := n, ws_mine := f\<rparr>)"
  by (simp_all add: same_clients_def)

lemma same_clients_wake [simp]: "asleep s w \<Longrightarrow> same_clients s (wake w (s\<lparr>ws_mu := m\<rparr>))"
  by (cases w) (auto simp: same_clients_def asleep_cases)

lemma same_clientsD:
  assumes "same_clients s s'"
  shows "seq_of (ws_client s' j) = seq_of (ws_client s j)" "to_signal (ws_client s' j) = to_signal (ws_client s j)"
    "waiting (ws_client s' j) = Some q \<Longrightarrow> waiting (ws_client s j) = Some q"
    "ws_client s' j = CDone q \<longleftrightarrow> ws_client s j = CDone q"
proof -
  have c: "ws_client s' j = ws_client s j \<or> ws_client s' j = wake_client (ws_client s j)"
    using assms by (simp add: same_clients_def)
  then show "seq_of (ws_client s' j) = seq_of (ws_client s j)" "to_signal (ws_client s' j) = to_signal (ws_client s j)"
    by auto
  show "ws_client s' j = CDone q \<longleftrightarrow> ws_client s j = CDone q"
    using c wake_client_simps(4)[of "ws_client s j" q] by (elim disjE) (simp_all only:)
  show "waiting (ws_client s' j) = Some q \<Longrightarrow> waiting (ws_client s j) = Some q" using c waiting_wake by metis
qed

lemma seqs_client:
  assumes "seqs_ok s" "same_clients s s'"
    and "\<And>q. seq_of pc = Some q \<Longrightarrow> q \<le> ws_requested s" "\<And>q. pc = CDone q \<Longrightarrow> q \<le> ws_completed s"
  shows "seqs_ok (set_pc i pc s')"
proof -
  have c: "ws_completed s' = ws_completed s" "ws_last s' = ws_last s" "ws_requested s' = ws_requested s"
    "ws_loop s' \<noteq> LStore \<Longrightarrow> ws_loop s \<noteq> LStore"
    using assms(2) by (auto simp: same_clients_def)
  show ?thesis
    unfolding seqs_ok_def set_pc_simps c(1-3) fun_upd_apply
    using assms(1,3,4) c(4) by (auto simp: seqs_ok_def same_clientsD[OF assms(2)])
qed

lemma seqs_same:
  assumes "seqs_ok s" "same_clients s s'" "seq_of pc = None \<or> seq_of pc = seq_of (ws_client s i)"
    and "\<And>q. pc = CDone q \<Longrightarrow> q \<le> ws_completed s"
  shows "seqs_ok (set_pc i pc s')"
proof -
  have "q \<le> ws_requested s" if "seq_of (ws_client s i) = Some q" for q
    using assms(1) that by (simp add: seqs_ok_def)
  then show ?thesis using assms(3) by (intro seqs_client[OF assms(1,2) _ assms(4)]) auto
qed

lemma flush_seqs: "flush_step i s s' \<Longrightarrow> seqs_ok s \<Longrightarrow> seqs_ok s'"
proof (induction rule: flush_step.induct)
  case (add s)
  then show ?case by (auto simp: seqs_ok_def intro: le_SucI)
next
  case (flush s)
  then show ?case by (intro seqs_same[of s]) simp_all
next
  case (lock s q)
  then show ?case by (intro seqs_same[of s]) simp_all
next
  case (signal_nobody s q)
  then show ?case by (intro seqs_same[of s]) simp_all
next
  case (signal s q w)
  then show ?case by (intro seqs_same[of s]) simp_all
next
  case (no_wait s q)
  then show ?case by (intro seqs_same[of s]) simp_all
qed

lemma wait_seqs: "wait_step i s s' \<Longrightarrow> seqs_ok s \<Longrightarrow> seqs_ok s'"
  by (cases rule: wait_step.cases, assumption) (auto intro!: seqs_same[of s])

lemma loop_seqs: "loop_step s s' \<Longrightarrow> seqs_ok s \<Longrightarrow> seqs_ok s'"
  by (induction rule: loop_step.induct) (fastforce simp: seqs_ok_def)+

lemma wakeups_client:
  assumes "wakeups_ok s" "same_clients s s'"
    and "\<And>q. waiting pc = Some q \<Longrightarrow> ws_completed s < q \<or> ws_loop s \<in> {LLock, LBcast}"
    and "ws_loop s' \<in> {LWait, LSleep} \<Longrightarrow> (\<forall>q. seq_of pc = Some q \<longrightarrow> \<not> to_signal pc \<longrightarrow> q \<le> ws_last s)
      \<and> (to_signal (ws_client s i) \<longrightarrow> to_signal pc)"
  shows "wakeups_ok (set_pc i pc s')"
proof -
  have c: "ws_completed s' = ws_completed s" "ws_last s' = ws_last s" "ws_requested s' = ws_requested s"
    "ws_loop s' \<in> {LWait, LSleep} \<Longrightarrow> ws_loop s' = ws_loop s"
    "ws_loop s \<in> {LLock, LBcast} \<Longrightarrow> ws_loop s' = ws_loop s"
    using assms(2) by (auto simp: same_clients_def)
  have 1: "ws_completed s < q \<or> ws_loop s' \<in> {LLock, LBcast}"
    if "waiting (((ws_client s')(i := pc)) j) = Some q" for j q
  proof (cases "j = i")
    case True
    then show ?thesis using that assms(3) c(5) by auto
  next
    case False
    then have "waiting (ws_client s j) = Some q" using that same_clientsD(3)[OF assms(2)] by simp
    then have "ws_completed s < q \<or> ws_loop s \<in> {LLock, LBcast}" using assms(1) unfolding wakeups_ok_def by blast
    then show ?thesis using c(5) by auto
  qed
  have 2: "(\<forall>j q. seq_of (((ws_client s')(i := pc)) j) = Some q \<longrightarrow> \<not> to_signal (((ws_client s')(i := pc)) j) \<longrightarrow> q \<le> ws_last s)
      \<and> (ws_last s = ws_requested s \<or> (\<exists>j. to_signal (((ws_client s')(i := pc)) j)))"
    if l: "ws_loop s' \<in> {LWait, LSleep}"
  proof -
    have ls: "ws_loop s \<in> {LWait, LSleep}" using c(4)[OF l] l by simp
    have o: "(\<forall>j q. seq_of (ws_client s j) = Some q \<longrightarrow> \<not> to_signal (ws_client s j) \<longrightarrow> q \<le> ws_last s)"
      "ws_last s = ws_requested s \<or> (\<exists>j. to_signal (ws_client s j))"
      using assms(1) ls unfolding wakeups_ok_def by blast+
    have "\<exists>j. to_signal (((ws_client s')(i := pc)) j)" if "to_signal (ws_client s k)" for k
    proof (cases "k = i")
      case True
      then show ?thesis using that assms(4)[OF l] by (intro exI[of _ i]) simp
    next
      case False
      then show ?thesis using that same_clientsD(2)[OF assms(2)] by (intro exI[of _ k]) simp
    qed
    then have "ws_last s = ws_requested s \<or> (\<exists>j. to_signal (((ws_client s')(i := pc)) j))" using o(2) by blast
    moreover have "q \<le> ws_last s"
      if "seq_of (((ws_client s')(i := pc)) j) = Some q" "\<not> to_signal (((ws_client s')(i := pc)) j)" for j q
      using that o(1) assms(4)[OF l] by (cases "j = i") (simp_all add: same_clientsD(1,2)[OF assms(2)])
    ultimately show ?thesis by blast
  qed
  show ?thesis
    unfolding wakeups_ok_def set_pc_simps c(1-3) using 1 2 by blast
qed

lemma wakeups_old:
  assumes "wakeups_ok s"
  shows "waiting (ws_client s i) = Some q \<Longrightarrow> ws_completed s < q \<or> ws_loop s \<in> {LLock, LBcast}"
    and "ws_loop s \<in> {LWait, LSleep} \<Longrightarrow> seq_of (ws_client s i) = Some q \<Longrightarrow> \<not> to_signal (ws_client s i) \<Longrightarrow> q \<le> ws_last s"
  using assms unfolding wakeups_ok_def by blast+

text \<open>While the syncer is asleep nobody else is.\<close>

lemma syncer_sleeps_alone:
  assumes "ws_ok s" "ws_loop s \<in> {LWait, LSleep}"
  shows "ws_client s j \<noteq> CSleep q"
proof
  assume c: "ws_client s j = CSleep q"
  have ok: "seqs_ok s" "wakeups_ok s" using assms(1) by (simp_all add: ws_ok_def)
  have "ws_completed s < q" using wakeups_old(1)[OF ok(2), of j q] c assms(2) by auto
  moreover have "q \<le> ws_last s" using wakeups_old(2)[OF ok(2) assms(2), of j q] c by simp
  moreover have "ws_completed s = ws_last s" using ok(1) assms(2) by (auto simp: seqs_ok_def)
  ultimately show False by simp
qed

lemma flush_wakeups: "flush_step i s s' \<Longrightarrow> ws_ok s \<Longrightarrow> wakeups_ok s'"
proof (induction rule: flush_step.induct)
  case (flush s)
  then show ?case by (intro wakeups_client[of s]) (simp_all add: ws_ok_def)
next
  case (add s)
  then show ?case by (auto simp: ws_ok_def wakeups_ok_def)
next
  case (lock s q)
  then show ?case by (intro wakeups_client[of s]) (simp_all add: ws_ok_def)
next
  case (signal_nobody s q)
  then have "ws_mu s = Some (Client i)" by (intro mutex_okD(1)) (simp_all add: ws_ok_def)
  then have "ws_loop s \<noteq> LWait" using mutex_okD(2)[of s] signal_nobody(3) by (auto simp: ws_ok_def)
  moreover have "ws_loop s \<noteq> LSleep" using signal_nobody(2)[of Syncer] by (simp add: asleep_cases)
  ultimately show ?case using signal_nobody(3) by (intro wakeups_client[of s]) (simp_all add: ws_ok_def)
next
  case (signal s q w)
  then have "ws_mu s = Some (Client i)" by (intro mutex_okD(1)) (simp_all add: ws_ok_def)
  then have "ws_loop s \<noteq> LWait" using mutex_okD(2)[of s] signal(3) by (auto simp: ws_ok_def)
  moreover have "w \<noteq> Syncer \<Longrightarrow> ws_loop s \<noteq> LSleep"
    using syncer_sleeps_alone[OF signal(3)] signal(2) by (cases w) (auto simp: asleep_cases)
  ultimately have "ws_loop (wake w (s\<lparr>ws_mu := None\<rparr>)) \<notin> {LWait, LSleep}" by auto
  then show ?case
    using signal by (intro wakeups_client[of s]) (auto simp: ws_ok_def)
next
  case (no_wait s q)
  then show ?case by (intro wakeups_client[of s]) (simp_all add: ws_ok_def)
qed

lemma wakeups_same:
  assumes "wakeups_ok s" "same_clients s s'" "\<not> to_signal (ws_client s i)"
    and "seq_of pc = None \<or> seq_of pc = seq_of (ws_client s i)"
    and "\<And>q. waiting pc = Some q \<Longrightarrow> ws_completed s < q \<or> waiting (ws_client s i) = Some q"
  shows "wakeups_ok (set_pc i pc s')"
proof (rule wakeups_client[OF assms(1,2)])
  show "ws_completed s < q \<or> ws_loop s \<in> {LLock, LBcast}" if "waiting pc = Some q" for q
    using assms(5)[OF that] wakeups_old(1)[OF assms(1), of i q] by blast
  assume "ws_loop s' \<in> {LWait, LSleep}"
  then have "ws_loop s \<in> {LWait, LSleep}" using assms(2) by (auto simp: same_clients_def)
  then show "(\<forall>q. seq_of pc = Some q \<longrightarrow> \<not> to_signal pc \<longrightarrow> q \<le> ws_last s) \<and> (to_signal (ws_client s i) \<longrightarrow> to_signal pc)"
    using wakeups_old(2)[OF assms(1) _ _ assms(3)] assms(3,4) by auto
qed

lemma wait_wakeups: "wait_step i s s' \<Longrightarrow> ws_ok s \<Longrightarrow> wakeups_ok s'"
  by (cases rule: wait_step.cases, assumption) (auto simp: ws_ok_def intro!: wakeups_same[of s])

lemma loop_wakeups: "loop_step s s' \<Longrightarrow> ws_ok s \<Longrightarrow> wakeups_ok s'"
proof (induction rule: loop_step.induct)
  case (nothing s)
  then show ?case by (auto simp: ws_ok_def wakeups_ok_def seqs_ok_def)
next
  case (broadcast s)
  have mu: "mutex_ok s" using broadcast(2) by (simp add: ws_ok_def)
  have "ws_mu s = Some Syncer" using mutex_okD(2)[OF mu] broadcast(1) by simp
  then have h: "\<not> holds_mutex (ws_client s i)" for i using mutex_okD(3)[OF mu, of i] by simp
  have "waiting (wake_client (ws_client s i)) = None" for i using h[of i] by (cases "ws_client s i") simp_all
  then show ?case by (simp add: wakeups_ok_def)
qed (auto simp: ws_ok_def wakeups_ok_def)

lemma ws_step_ok: "ws_step s s' \<Longrightarrow> ws_ok s \<Longrightarrow> ws_ok s'"
proof (induction rule: ws_step.induct)
  case (by_flush i s s')
  then show ?case using flush_seqs flush_mutex flush_wakeups unfolding ws_ok_def by blast
next
  case (by_wait i s s')
  then show ?case using wait_seqs wait_mutex wait_wakeups unfolding ws_ok_def by blast
next
  case (by_loop s s')
  then show ?case using loop_seqs loop_mutex loop_wakeups unfolding ws_ok_def by blast
qed

lemma ws_reach_ok: "ws_reach s0 s \<Longrightarrow> ws_ok s0 \<Longrightarrow> ws_ok s"
  by (induction rule: rtranclp_induct) (auto dest: ws_step_ok)

lemma ws_start_reach_ok: "ws_reach ws_start s \<Longrightarrow> ws_ok s"
  by (rule ws_reach_ok[OF _ ws_start_ok])

lemma ws_okD: "ws_ok s \<Longrightarrow> seqs_ok s" "ws_ok s \<Longrightarrow> mutex_ok s" "ws_ok s \<Longrightarrow> wakeups_ok s"
  by (simp_all add: ws_ok_def)

section \<open>A wait can always end\<close>

text \<open>Steps without a new flush.\<close>

definition quiet_step :: "wsync \<Rightarrow> wsync \<Rightarrow> bool" where
  "quiet_step s s' \<longleftrightarrow> ws_step s s' \<and> ws_flushed s' = ws_flushed s"

abbreviation quiet_reach :: "wsync \<Rightarrow> wsync \<Rightarrow> bool" where
  "quiet_reach \<equiv> quiet_step\<^sup>*\<^sup>*"

lemma quiet_ok: "quiet_reach s s' \<Longrightarrow> ws_ok s \<Longrightarrow> ws_ok s'"
  by (induction rule: rtranclp_induct) (auto simp: quiet_step_def dest: ws_step_ok)

lemma flush_reach: "flush_step i s s' \<Longrightarrow> ws_flushed s' = ws_flushed s \<Longrightarrow> quiet_reach s s'"
  by (rule r_into_rtranclp) (simp add: quiet_step_def by_flush)

lemma wait_reach: "wait_step i s s' \<Longrightarrow> quiet_reach s s'"
  by (rule r_into_rtranclp) (auto simp: quiet_step_def by_wait elim: wait_step.cases)

lemma loop_reach: "loop_step s s' \<Longrightarrow> quiet_reach s s'"
  by (rule r_into_rtranclp) (auto simp: quiet_step_def by_loop elim: loop_step.cases)

lemma loop_reach2: "loop_step s s1 \<Longrightarrow> loop_step s1 s2 \<Longrightarrow> quiet_reach s s2"
  using loop_reach rtranclp_trans by metis

lemma wait_reach2: "wait_step i s s1 \<Longrightarrow> wait_step i s1 s2 \<Longrightarrow> quiet_reach s s2"
  using wait_reach rtranclp_trans by metis

text \<open>
  What a run of the others leaves to client \<open>i\<close>: the published number, and the client where it was, or
  woken.
\<close>

definition spares :: "nat \<Rightarrow> wsync \<Rightarrow> wsync \<Rightarrow> bool" where
  "spares i s s' \<longleftrightarrow> ws_completed s' = ws_completed s
     \<and> (ws_client s' i = ws_client s i \<or> ws_client s' i = wake_client (ws_client s i))"

lemma signal_reach:
  assumes "ws_client s j = CSignal r"
  shows "\<exists>s'. quiet_reach s s' \<and> ws_mu s' = None \<and> (ws_loop s \<noteq> LSleep \<longrightarrow> ws_loop s' = ws_loop s)
    \<and> (\<forall>i. i \<noteq> j \<longrightarrow> spares i s s')"
proof (cases "\<exists>w. asleep s w")
  case True
  then obtain w where w: "asleep s w" by blast
  have "w \<noteq> Client j" using w assms by (auto simp: asleep_cases)
  then show ?thesis
    using w flush_reach[OF signal[of s j r w, OF assms w]]
    by (intro exI[of _ "set_pc j (CTop r) (wake w (s\<lparr>ws_mu := None\<rparr>))"])
       (auto simp: asleep_cases spares_def split: who.split)
next
  case False
  then show ?thesis
    using flush_reach[OF signal_nobody[of s j r, OF assms]]
    by (intro exI[of _ "set_pc j (CTop r) (s\<lparr>ws_mu := None\<rparr>)"]) (auto simp: spares_def)
qed

lemma check_reach:
  assumes "ws_client s j = CCheck r \<or> ws_client s j = CWait r"
  shows "\<exists>s'. quiet_reach s s' \<and> ws_mu s' = None \<and> ws_loop s' = ws_loop s \<and> ws_completed s' = ws_completed s
    \<and> ws_client s' j \<in> {CTop r, CSleep r} \<and> (\<forall>i. i \<noteq> j \<longrightarrow> ws_client s' i = ws_client s i)"
proof (cases "ws_client s j = CCheck r \<and> r \<le> ws_completed s")
  case True
  then show ?thesis
    using wait_reach[OF leave[of s j r]] by (intro exI[of _ "set_pc j (CTop r) (s\<lparr>ws_mu := None\<rparr>)"]) simp
next
  case False
  let ?w = "set_pc j (CWait r) s" and ?e = "set_pc j (CSleep r) (s\<lparr>ws_mu := None\<rparr>)"
  have e: "set_pc j (CSleep r) (?w\<lparr>ws_mu := None\<rparr>) = ?e" by (simp add: set_pc_def)
  have "quiet_reach s ?w" if "ws_client s j = CCheck r"
    using False that wait_reach[OF must_wait[of s j r]] by simp
  moreover have "?w = s" if "ws_client s j = CWait r" using that by (simp add: set_pc_def fun_upd_idem)
  ultimately have "quiet_reach s ?w" using assms by auto
  moreover have "quiet_reach ?w ?e" using wait_reach[OF sleep[of ?w j r]] e by simp
  ultimately have "quiet_reach s ?e" by (rule rtranclp_trans)
  then show ?thesis by (intro exI[of _ ?e]) simp
qed

lemma free_mutex:
  assumes ok: "ws_ok s" and mu: "ws_mu s = Some w" "w \<noteq> Client i"
  shows "\<exists>s'. quiet_reach s s' \<and> ws_mu s' = None \<and> spares i s s'
    \<and> (ws_loop s \<notin> {LCheck, LWait, LBcast, LSleep} \<longrightarrow> ws_loop s' = ws_loop s)"
proof (cases w)
  case (Client j)
  then have "holds_mutex (ws_client s j)" using mutex_okD(3)[OF ws_okD(2)[OF ok], of j] mu by simp
  then consider r where "ws_client s j = CSignal r" | r where "ws_client s j = CCheck r \<or> ws_client s j = CWait r"
    by (cases "ws_client s j") auto
  then show ?thesis
  proof cases
    case 1
    then show ?thesis using signal_reach[OF 1] mu(2) Client by auto
  next
    case 2
    then show ?thesis using check_reach[OF 2] mu(2) Client unfolding spares_def by auto
  qed
next
  case Syncer
  then consider "ws_loop s = LCheck" | "ws_loop s = LWait" | "ws_loop s = LBcast"
    using mutex_okD(2)[OF ws_okD(2)[OF ok]] mu by auto
  then show ?thesis
  proof cases
    case 1
    show ?thesis
    proof (cases "ws_last s = ws_requested s")
      case True
      have a: "loop_step s (s\<lparr>ws_loop := LWait\<rparr>)" using 1 True by (rule loop_step.nothing)
      have b: "loop_step (s\<lparr>ws_loop := LWait\<rparr>) ((s\<lparr>ws_loop := LWait\<rparr>)\<lparr>ws_loop := LSleep, ws_mu := None\<rparr>)"
        by (rule wait) simp
      have "quiet_reach s ((s\<lparr>ws_loop := LWait\<rparr>)\<lparr>ws_loop := LSleep, ws_mu := None\<rparr>)"
        by (rule loop_reach2[OF a b])
      then show ?thesis using 1 by (intro exI) (auto simp: spares_def)
    next
      case False
      then show ?thesis using 1 loop_reach[OF work[OF 1 False]] by (intro exI) (auto simp: spares_def)
    qed
  next
    case 2
    then show ?thesis using loop_reach[OF wait[OF 2]] by (intro exI) (auto simp: spares_def)
  next
    case 3
    then show ?thesis using loop_reach[OF broadcast[OF 3]] by (intro exI) (auto simp: spares_def)
  qed
qed

definition keeps :: "nat \<Rightarrow> nat \<Rightarrow> wsync \<Rightarrow> bool" where
  "keeps i q s \<longleftrightarrow> seq_of (ws_client s i) = Some q \<and> \<not> to_signal (ws_client s i)"

lemma keeps_spares: "spares i s s' \<Longrightarrow> keeps i q s \<Longrightarrow> keeps i q s'"
  by (auto simp: spares_def keeps_def)

lemma keeps_loop [simp]: "keeps i q (s\<lparr>ws_loop := l\<rparr>) = keeps i q s"
  "keeps i q (s\<lparr>ws_loop := l, ws_mu := m\<rparr>) = keeps i q s" "keeps i q (s\<lparr>ws_loop := l, ws_synced := n\<rparr>) = keeps i q s"
  "keeps i q (s\<lparr>ws_loop := l, ws_last := n\<rparr>) = keeps i q s" "keeps i q (s\<lparr>ws_loop := l, ws_completed := n\<rparr>) = keeps i q s"
  "keeps i q (s\<lparr>ws_loop := l, ws_mu := m, ws_client := wake_client \<circ> ws_client s\<rparr>) = keeps i q s"
  by (simp_all add: keeps_def)

lemma keeps_cases:
  assumes "keeps i q s"
  obtains "ws_client s i = CTop q" | "ws_client s i = CMutex q" | "ws_client s i = CCheck q"
    | "ws_client s i = CWait q" | "ws_client s i = CSleep q" | "ws_client s i = CDone q"
  using assms by (cases "ws_client s i") (auto simp: keeps_def)

lemma free_keep:
  assumes ok: "ws_ok s" and k: "keeps i q s" and l: "ws_loop s \<notin> {LCheck, LWait, LBcast, LSleep}"
  shows "\<exists>s'. quiet_reach s s' \<and> ws_mu s' = None \<and> ws_loop s' = ws_loop s \<and> keeps i q s'"
proof (cases "ws_mu s")
  case None
  then show ?thesis using k by (intro exI[of _ s]) simp
next
  case (Some w)
  show ?thesis
  proof (cases "w = Client i")
    case True
    then have "holds_mutex (ws_client s i)" using mutex_okD(3)[OF ws_okD(2)[OF ok], of i] Some by simp
    then have "ws_client s i = CCheck q \<or> ws_client s i = CWait q" by (cases rule: keeps_cases[OF k]) simp_all
    from check_reach[OF this] show ?thesis by (auto simp: keeps_def)
  next
    case False
    from free_mutex[OF ok Some False] show ?thesis using l keeps_spares[OF _ k] by blast
  qed
qed

text \<open>The syncer's way to the next number it publishes.\<close>

fun to_publish :: "loop_pc \<Rightarrow> nat" where
  "to_publish LLock = 7"
| "to_publish LBcast = 6"
| "to_publish LTop = 5"
| "to_publish LCheck = 4"
| "to_publish LSync = 3"
| "to_publish LLoad = 2"
| "to_publish LStore = 1"
| "to_publish _ = 0"

definition to_go :: "nat \<Rightarrow> wsync \<Rightarrow> nat" where
  "to_go q s = (if ws_loop s = LStore \<and> ws_last s < q then 8 else to_publish (ws_loop s))"

lemma publish_step:
  assumes ok: "ws_ok s" and k: "keeps i q s" and c: "ws_completed s < q"
  shows "\<exists>s'. quiet_reach s s' \<and> keeps i q s' \<and> (q \<le> ws_completed s' \<or> to_go q s' < to_go q s)"
proof (cases "ws_loop s")
  case LTop
  then obtain s1 where s1: "quiet_reach s s1" "ws_mu s1 = None" "ws_loop s1 = LTop" "keeps i q s1"
    using free_keep[OF ok k] by auto
  from s1(1) loop_reach[OF top[OF s1(3,2)]] have "quiet_reach s (s1\<lparr>ws_loop := LCheck, ws_mu := Some Syncer\<rparr>)"
    by (rule rtranclp_trans)
  then show ?thesis using s1(4) LTop by (intro exI) (auto simp: to_go_def)
next
  case LLock
  then obtain s1 where s1: "quiet_reach s s1" "ws_mu s1 = None" "ws_loop s1 = LLock" "keeps i q s1"
    using free_keep[OF ok k] by auto
  from s1(1) loop_reach[OF lock2[OF s1(3,2)]] have "quiet_reach s (s1\<lparr>ws_loop := LBcast, ws_mu := Some Syncer\<rparr>)"
    by (rule rtranclp_trans)
  then show ?thesis using s1(4) LLock by (intro exI) (auto simp: to_go_def)
next
  case LCheck
  have "ws_last s \<noteq> ws_requested s"
    using ws_okD(1)[OF ok] LCheck k c by (fastforce simp: seqs_ok_def keeps_def)
  then show ?thesis using loop_reach[OF work[OF LCheck]] k LCheck by (intro exI) (auto simp: to_go_def)
next
  case LBcast
  then show ?thesis using loop_reach[OF broadcast[OF LBcast]] k by (intro exI) (auto simp: to_go_def)
next
  case LSync
  then show ?thesis using loop_reach[OF sync[OF LSync]] k by (intro exI) (auto simp: to_go_def)
next
  case LLoad
  have "q \<le> ws_requested s" using ws_okD(1)[OF ok] k by (auto simp: seqs_ok_def keeps_def)
  then show ?thesis using loop_reach[OF load[OF LLoad]] k LLoad by (intro exI) (auto simp: to_go_def)
next
  case LStore
  then show ?thesis using loop_reach[OF store[OF LStore]] k by (intro exI) (auto simp: to_go_def)
next
  case LWait
  then show ?thesis using ws_okD[OF ok] k c by (auto simp: wakeups_ok_def seqs_ok_def keeps_def)
next
  case LSleep
  then show ?thesis using ws_okD[OF ok] k c by (auto simp: wakeups_ok_def seqs_ok_def keeps_def)
qed

lemma publish_reach:
  "ws_ok s \<Longrightarrow> keeps i q s \<Longrightarrow> \<exists>s'. quiet_reach s s' \<and> ws_ok s' \<and> keeps i q s' \<and> q \<le> ws_completed s'"
proof (induction "to_go q s" arbitrary: s rule: less_induct)
  case less
  show ?case
  proof (cases "q \<le> ws_completed s")
    case True
    then show ?thesis using less.prems by blast
  next
    case False
    then obtain s1 where s1: "quiet_reach s s1" "keeps i q s1" "q \<le> ws_completed s1 \<or> to_go q s1 < to_go q s"
      using publish_step[OF less.prems] by auto
    have ok1: "ws_ok s1" by (rule quiet_ok[OF s1(1) less.prems(1)])
    show ?thesis
    proof (cases "q \<le> ws_completed s1")
      case True
      then show ?thesis using s1 ok1 by blast
    next
      case False
      then obtain s' where "quiet_reach s1 s'" "ws_ok s'" "keeps i q s'" "q \<le> ws_completed s'"
        using less.hyps[OF _ ok1 s1(2)] s1(3) by blast
      then show ?thesis using rtranclp_trans[OF s1(1)] by blast
    qed
  qed
qed

text \<open>Once its number is published the client's way out of \<open>waitForWalSync\<close>.\<close>

fun to_return :: "client_pc \<Rightarrow> nat" where
  "to_return (CWait q) = 5"
| "to_return (CSleep q) = 4"
| "to_return (CMutex q) = 3"
| "to_return (CCheck q) = 2"
| "to_return (CTop q) = 1"
| "to_return _ = 0"

text \<open>The syncer's way out of the broadcast counts too: a sleeper is woken by it.\<close>

fun to_wake :: "loop_pc \<Rightarrow> nat" where
  "to_wake LLock = 2"
| "to_wake LBcast = 1"
| "to_wake _ = 0"

lemma to_return_wake: "to_return (wake_client pc) \<le> to_return pc"
  by (cases pc) simp_all

lemma return_step:
  assumes ok: "ws_ok s" and k: "keeps i q s" and c: "q \<le> ws_completed s" and d: "ws_client s i \<noteq> CDone q"
  shows "\<exists>s'. quiet_reach s s' \<and> keeps i q s' \<and> q \<le> ws_completed s' \<and>
    (to_return (ws_client s' i) < to_return (ws_client s i)
     \<or> ws_client s' i = ws_client s i \<and> to_wake (ws_loop s') < to_wake (ws_loop s))"
proof (cases rule: keeps_cases[OF k])
  case 1
  show ?thesis using wait_reach[OF covered[OF 1 c]] c 1 by (intro exI) (auto simp: keeps_def)
next
  case 2
  show ?thesis
  proof (cases "ws_mu s")
    case None
    show ?thesis using wait_reach[OF mutex[OF 2 None]] c 2 by (intro exI) (auto simp: keeps_def)
  next
    case (Some w)
    have "w \<noteq> Client i" using mutex_okD(3)[OF ws_okD(2)[OF ok], of i] Some 2 by auto
    then obtain s1 where s1: "quiet_reach s s1" "ws_mu s1 = None" "spares i s s1"
      using free_mutex[OF ok Some] by blast
    have m: "ws_client s1 i = CMutex q" using s1(3) 2 by (auto simp: spares_def)
    from s1(1) wait_reach[OF mutex[OF m s1(2)]] have "quiet_reach s (set_pc i (CCheck q) (s1\<lparr>ws_mu := Some (Client i)\<rparr>))"
      by (rule rtranclp_trans)
    then show ?thesis using s1(3) c 2 by (intro exI) (auto simp: keeps_def spares_def)
  qed
next
  case 3
  show ?thesis using wait_reach[OF leave[OF 3 c]] c 3 by (intro exI) (auto simp: keeps_def)
next
  case 4
  show ?thesis using wait_reach[OF sleep[OF 4]] c 4 by (intro exI) (auto simp: keeps_def)
next
  case 5
  have "ws_loop s \<in> {LLock, LBcast}" using wakeups_old(1)[OF ws_okD(3)[OF ok], of i q] 5 c by auto
  then consider "ws_loop s = LLock" | "ws_loop s = LBcast" by auto
  then show ?thesis
  proof cases
    case 1
    show ?thesis
    proof (cases "ws_mu s")
      case None
      show ?thesis using loop_reach[OF lock2[OF 1 None]] c k 1 by (intro exI) auto
    next
      case (Some w)
      have "w \<noteq> Client i" using mutex_okD(3)[OF ws_okD(2)[OF ok], of i] Some 5 by auto
      then obtain s1 where s1: "quiet_reach s s1" "ws_mu s1 = None" "spares i s s1" "ws_loop s1 = LLock"
        using free_mutex[OF ok Some] 1 by auto
      from s1(1) loop_reach[OF lock2[OF s1(4,2)]] have "quiet_reach s (s1\<lparr>ws_loop := LBcast, ws_mu := Some Syncer\<rparr>)"
        by (rule rtranclp_trans)
      then show ?thesis using s1(3) c 1 5 by (intro exI) (auto simp: keeps_def spares_def)
    qed
  next
    case 2
    show ?thesis using loop_reach[OF broadcast[OF 2]] c k 5 by (intro exI) auto
  qed
next
  case 6
  then show ?thesis using d by simp
qed

lemma return_reach:
  "ws_ok s \<Longrightarrow> keeps i q s \<Longrightarrow> q \<le> ws_completed s \<Longrightarrow> \<exists>s'. quiet_reach s s' \<and> ws_client s' i = CDone q"
proof (induction "4 * to_return (ws_client s i) + to_wake (ws_loop s)" arbitrary: s rule: less_induct)
  case less
  show ?case
  proof (cases "ws_client s i = CDone q")
    case True
    then show ?thesis by blast
  next
    case False
    then obtain s1 where s1: "quiet_reach s s1" "keeps i q s1" "q \<le> ws_completed s1"
      "to_return (ws_client s1 i) < to_return (ws_client s i)
       \<or> ws_client s1 i = ws_client s i \<and> to_wake (ws_loop s1) < to_wake (ws_loop s)"
      using return_step[OF less.prems] by blast
    have "to_wake (ws_loop s1) \<le> 2" by (cases "ws_loop s1") simp_all
    then have "4 * to_return (ws_client s1 i) + to_wake (ws_loop s1) < 4 * to_return (ws_client s i) + to_wake (ws_loop s)"
      using s1(4) by auto
    from less.hyps[OF this quiet_ok[OF s1(1) less.prems(1)] s1(2,3)] show ?thesis
      using rtranclp_trans[OF s1(1)] by blast
  qed
qed

section \<open>Two runs\<close>

text \<open>States of two clients, by their fields.\<close>

definition ws_at :: "nat \<Rightarrow> nat \<Rightarrow> nat \<Rightarrow> nat \<Rightarrow> loop_pc \<Rightarrow> client_pc \<Rightarrow> client_pc \<Rightarrow> nat \<Rightarrow> nat \<Rightarrow> who option \<Rightarrow> wsync" where
  "ws_at fl sy rq co lp p0 p1 m0 m1 mu = \<lparr>ws_flushed = fl, ws_synced = sy, ws_requested = rq, ws_completed = co,
     ws_last = (if lp = LStore then rq else co), ws_loop = lp, ws_client = (\<lambda>_. CIdle)(0 := p0, 1 := p1),
     ws_mine = (\<lambda>_. 0)(0 := m0, 1 := m1), ws_mu = mu\<rparr>"

lemma ws_at_start: "ws_start = ws_at 0 0 0 0 LTop CIdle CIdle 0 0 None"
  by (simp add: ws_start_def ws_at_def fun_eq_iff)

lemma ws_at_upd:
  "set_pc 0 pc (ws_at fl sy rq co lp p0 p1 m0 m1 mu) = ws_at fl sy rq co lp pc p1 m0 m1 mu"
  "set_pc 1 pc (ws_at fl sy rq co lp p0 p1 m0 m1 mu) = ws_at fl sy rq co lp p0 pc m0 m1 mu"
  by (simp_all add: ws_at_def set_pc_def fun_upd_twist)

lemma ws_at_asleep: "lp \<noteq> LSleep \<Longrightarrow> \<not> asleep (ws_at fl sy rq co lp CIdle CIdle m0 m1 mu) w"
  by (cases w) (simp_all add: asleep_cases ws_at_def)

lemma nobody_asleep:
  "(\<And>w. \<not> asleep s w) \<equiv> Trueprop (ws_loop s \<noteq> LSleep \<and> (\<forall>i q. ws_client s i \<noteq> CSleep q))"
  unfolding atomize_all by (rule equal_intr_rule) (metis asleep_cases who.exhaust)+

text \<open>A client flushes and waits before the syncer has looked.\<close>

lemma a_waiting_client: "ws_reach ws_start (ws_at 1 0 1 0 LTop (CSleep 1) CIdle 1 0 None)"
proof -
  note step = ws_at_def set_pc_def fun_upd_twist nobody_asleep numeral_2_eq_2
  have "ws_step (ws_at 0 0 0 0 LTop CIdle CIdle 0 0 None) (ws_at 1 0 0 0 LTop CAdd CIdle 1 0 None)"
    using by_flush[OF flush_step.flush[of "ws_at 0 0 0 0 LTop CIdle CIdle 0 0 None" 0]] by (simp add: step)
  moreover have "ws_step (ws_at 1 0 0 0 LTop CAdd CIdle 1 0 None) (ws_at 1 0 1 0 LTop (CLock 1) CIdle 1 0 None)"
    using by_flush[OF flush_step.add[of "ws_at 1 0 0 0 LTop CAdd CIdle 1 0 None" 0]] by (simp add: step)
  moreover have "ws_step (ws_at 1 0 1 0 LTop (CLock 1) CIdle 1 0 None) (ws_at 1 0 1 0 LTop (CSignal 1) CIdle 1 0 (Some (Client 0)))"
    using by_flush[OF flush_step.lock[of "ws_at 1 0 1 0 LTop (CLock 1) CIdle 1 0 None" 0 1]] by (simp add: step)
  moreover have "ws_step (ws_at 1 0 1 0 LTop (CSignal 1) CIdle 1 0 (Some (Client 0))) (ws_at 1 0 1 0 LTop (CTop 1) CIdle 1 0 None)"
    using by_flush[OF flush_step.signal_nobody[of "ws_at 1 0 1 0 LTop (CSignal 1) CIdle 1 0 (Some (Client 0))" 0 1]] by (simp add: step)
  moreover have "ws_step (ws_at 1 0 1 0 LTop (CTop 1) CIdle 1 0 None) (ws_at 1 0 1 0 LTop (CMutex 1) CIdle 1 0 None)"
    using by_wait[OF wait_step.not_covered[of "ws_at 1 0 1 0 LTop (CTop 1) CIdle 1 0 None" 0 1]] by (simp add: step)
  moreover have "ws_step (ws_at 1 0 1 0 LTop (CMutex 1) CIdle 1 0 None) (ws_at 1 0 1 0 LTop (CCheck 1) CIdle 1 0 (Some (Client 0)))"
    using by_wait[OF wait_step.mutex[of "ws_at 1 0 1 0 LTop (CMutex 1) CIdle 1 0 None" 0 1]] by (simp add: step)
  moreover have "ws_step (ws_at 1 0 1 0 LTop (CCheck 1) CIdle 1 0 (Some (Client 0))) (ws_at 1 0 1 0 LTop (CWait 1) CIdle 1 0 (Some (Client 0)))"
    using by_wait[OF wait_step.must_wait[of "ws_at 1 0 1 0 LTop (CCheck 1) CIdle 1 0 (Some (Client 0))" 0 1]] by (simp add: step)
  moreover have "ws_step (ws_at 1 0 1 0 LTop (CWait 1) CIdle 1 0 (Some (Client 0))) (ws_at 1 0 1 0 LTop (CSleep 1) CIdle 1 0 None)"
    using by_wait[OF wait_step.sleep[of "ws_at 1 0 1 0 LTop (CWait 1) CIdle 1 0 (Some (Client 0))" 0 1]] by (simp add: step)
  ultimately show ?thesis unfolding ws_at_start by (meson converse_rtranclp_into_rtranclp rtranclp.rtrancl_refl)
qed

text \<open>Client 1 flushes, the syncer syncs, and client 0 flushes before the syncer reads the counter.\<close>

lemma a_late_flush: "ws_reach ws_start (ws_at 2 1 2 2 LLock (CDone 2) (CLock 1) 2 1 None)"
proof -
  note step = ws_at_def set_pc_def fun_upd_twist nobody_asleep numeral_2_eq_2
  have "ws_step (ws_at 0 0 0 0 LTop CIdle CIdle 0 0 None) (ws_at 1 0 0 0 LTop CIdle CAdd 0 1 None)"
    using by_flush[OF flush_step.flush[of "ws_at 0 0 0 0 LTop CIdle CIdle 0 0 None" 1]] by (simp add: step)
  moreover have "ws_step (ws_at 1 0 0 0 LTop CIdle CAdd 0 1 None) (ws_at 1 0 1 0 LTop CIdle (CLock 1) 0 1 None)"
    using by_flush[OF flush_step.add[of "ws_at 1 0 0 0 LTop CIdle CAdd 0 1 None" 1]] by (simp add: step)
  moreover have "ws_step (ws_at 1 0 1 0 LTop CIdle (CLock 1) 0 1 None) (ws_at 1 0 1 0 LCheck CIdle (CLock 1) 0 1 (Some Syncer))"
    using by_loop[OF loop_step.top[of "ws_at 1 0 1 0 LTop CIdle (CLock 1) 0 1 None"]] by (simp add: step)
  moreover have "ws_step (ws_at 1 0 1 0 LCheck CIdle (CLock 1) 0 1 (Some Syncer)) (ws_at 1 0 1 0 LSync CIdle (CLock 1) 0 1 None)"
    using by_loop[OF loop_step.work[of "ws_at 1 0 1 0 LCheck CIdle (CLock 1) 0 1 (Some Syncer)"]] by (simp add: step)
  moreover have "ws_step (ws_at 1 0 1 0 LSync CIdle (CLock 1) 0 1 None) (ws_at 1 1 1 0 LLoad CIdle (CLock 1) 0 1 None)"
    using by_loop[OF loop_step.sync[of "ws_at 1 0 1 0 LSync CIdle (CLock 1) 0 1 None"]] by (simp add: step)
  moreover have "ws_step (ws_at 1 1 1 0 LLoad CIdle (CLock 1) 0 1 None) (ws_at 2 1 1 0 LLoad CAdd (CLock 1) 2 1 None)"
    using by_flush[OF flush_step.flush[of "ws_at 1 1 1 0 LLoad CIdle (CLock 1) 0 1 None" 0]] by (simp add: step)
  moreover have "ws_step (ws_at 2 1 1 0 LLoad CAdd (CLock 1) 2 1 None) (ws_at 2 1 2 0 LLoad (CLock 2) (CLock 1) 2 1 None)"
    using by_flush[OF flush_step.add[of "ws_at 2 1 1 0 LLoad CAdd (CLock 1) 2 1 None" 0]] by (simp add: step)
  moreover have "ws_step (ws_at 2 1 2 0 LLoad (CLock 2) (CLock 1) 2 1 None) (ws_at 2 1 2 0 LLoad (CSignal 2) (CLock 1) 2 1 (Some (Client 0)))"
    using by_flush[OF flush_step.lock[of "ws_at 2 1 2 0 LLoad (CLock 2) (CLock 1) 2 1 None" 0 2]] by (simp add: step)
  moreover have "ws_step (ws_at 2 1 2 0 LLoad (CSignal 2) (CLock 1) 2 1 (Some (Client 0))) (ws_at 2 1 2 0 LLoad (CTop 2) (CLock 1) 2 1 None)"
    using by_flush[OF flush_step.signal_nobody[of "ws_at 2 1 2 0 LLoad (CSignal 2) (CLock 1) 2 1 (Some (Client 0))" 0 2]] by (simp add: step)
  moreover have "ws_step (ws_at 2 1 2 0 LLoad (CTop 2) (CLock 1) 2 1 None) (ws_at 2 1 2 0 LStore (CTop 2) (CLock 1) 2 1 None)"
    using by_loop[OF loop_step.load[of "ws_at 2 1 2 0 LLoad (CTop 2) (CLock 1) 2 1 None"]] by (simp add: step)
  moreover have "ws_step (ws_at 2 1 2 0 LStore (CTop 2) (CLock 1) 2 1 None) (ws_at 2 1 2 2 LLock (CTop 2) (CLock 1) 2 1 None)"
    using by_loop[OF loop_step.store[of "ws_at 2 1 2 0 LStore (CTop 2) (CLock 1) 2 1 None"]] by (simp add: step)
  moreover have "ws_step (ws_at 2 1 2 2 LLock (CTop 2) (CLock 1) 2 1 None) (ws_at 2 1 2 2 LLock (CDone 2) (CLock 1) 2 1 None)"
    using by_wait[OF wait_step.covered[of "ws_at 2 1 2 2 LLock (CTop 2) (CLock 1) 2 1 None" 0 2]] by (simp add: step)
  ultimately show ?thesis unfolding ws_at_start by (meson converse_rtranclp_into_rtranclp rtranclp.rtrancl_refl)
qed

section \<open>What the protocol gives\<close>

text \<open>
  C15: No wake-up of the sync protocol is lost: in every reachable state a call of \<open>waitForWalSync\<close> that has
  not returned, whatever point it has reached, can be brought to its return by steps among which there is
  no new flush: no state in which it waits is a deadlock, and none needs a later flush to be left. When
  it returns its sequence number has been published, and a published number is one that was handed out.
\<close>

theorem wal_wait_can_return:
  assumes "ws_reach ws_start s" and "seq_of (ws_client s i) = Some q" and "\<not> to_signal (ws_client s i)"
  shows "(\<exists>s'. quiet_reach s s' \<and> ws_client s' i = CDone q) \<and> (ws_client s i = CDone q \<longrightarrow> q \<le> ws_completed s)
    \<and> ws_completed s \<le> ws_requested s"
proof -
  have ok: "ws_ok s" by (rule ws_start_reach_ok[OF assms(1)])
  have k: "keeps i q s" using assms(2,3) by (simp add: keeps_def)
  obtain s1 where s1: "quiet_reach s s1" "ws_ok s1" "keeps i q s1" "q \<le> ws_completed s1"
    using publish_reach[OF ok k] by blast
  obtain s2 where "quiet_reach s1 s2" "ws_client s2 i = CDone q" using return_reach[OF s1(2-4)] by blast
  then have "\<exists>s'. quiet_reach s s' \<and> ws_client s' i = CDone q" using rtranclp_trans[OF s1(1)] by blast
  then show ?thesis using ws_okD(1)[OF ok] by (auto simp: seqs_ok_def)
qed

theorem wal_wait_can_return_witness:
  "(\<exists>s'. quiet_reach (ws_at 1 0 1 0 LTop (CSleep 1) CIdle 1 0 None) s' \<and> ws_client s' 0 = CDone 1)
    \<and> ws_client (ws_at 1 0 1 0 LTop (CSleep 1) CIdle 1 0 None) 0 = CSleep 1"
  using wal_wait_can_return[OF a_waiting_client, of 0 1] by (simp add: ws_at_def)

text \<open>
  C40: The number the syncer publishes can run ahead of what it synced: it loads \<open>walSyncRequested\<close> after
  \<open>Sync\<close> has returned, so a flush made in between is published with the sync before it, and its
  \<open>waitForWalSync\<close> returns although no sync has covered its data.
\<close>

theorem wal_wait_returns_unsynced:
  "\<exists>s i q. ws_reach ws_start s \<and> ws_client s i = CDone q \<and> ws_synced s < ws_mine s i"
  using a_late_flush by (intro exI[of _ "ws_at 2 1 2 2 LLock (CDone 2) (CLock 1) 2 1 None"] exI[of _ 0] exI[of _ 2])
    (simp add: ws_at_def)

end
