(* ===== verification/Startup.thy ===== *)
theory Startup
  imports Network_Manager
begin

text \<open>
  The start of the process (\<open>servers/core/core.go\<close>) and the life of the network manager it starts: the
  command line with the \<open>flag\<close> package's parser, the network with its known peers still to be dialled,
  and the steps of the goroutines and of the peers, in any interleaving, with the invariant of the tables
  of peers and of pending requests.
\<close>

section \<open>The command line\<close>

datatype flag_result = Flags bool | FlagHelp | FlagBad

definition parse_bool :: "string \<Rightarrow> bool option" where
  "parse_bool s = (if s \<in> {''1'', ''t'', ''T'', ''TRUE'', ''true'', ''True''} then Some True
     else if s \<in> {''0'', ''f'', ''F'', ''FALSE'', ''false'', ''False''} then Some False else None)"

text \<open>\<open>flag.Parse\<close> with the one flag \<open>config\<close>, whose value so far is the first argument.\<close>

fun parse_flags :: "bool \<Rightarrow> string list \<Rightarrow> flag_result" where
  "parse_flags v [] = Flags v"
| "parse_flags v (s # args) =
     (if length s < 2 \<or> hd s \<noteq> CHR ''-'' then Flags v
      else if s = ''--'' then Flags v
      else let name = (if s ! 1 = CHR ''-'' then drop 2 s else drop 1 s)
           in if name = [] \<or> hd name = CHR ''-'' \<or> hd name = CHR ''='' then FlagBad
              else let key = takeWhile (\<lambda>c. c \<noteq> CHR ''='') name; rest = dropWhile (\<lambda>c. c \<noteq> CHR ''='') name
                   in if key \<noteq> ''config'' then (if key = ''help'' \<or> key = ''h'' then FlagHelp else FlagBad)
                      else if rest = [] then parse_flags True args
                      else (case parse_bool (tl rest) of None \<Rightarrow> FlagBad | Some b \<Rightarrow> parse_flags b args))"

text \<open>
  \<open>RunCore\<close> up to the start of the servers: the process ends with a status, or runs with a port, the
  addresses of the known peers and the flag. A panic ends with status 2.
\<close>

datatype start = Exited nat | Running int "string list" bool

definition runCore :: "string list \<Rightarrow> start" where
  "runCore args =
     (if args = [] then Exited 2
      else case parse_flags False (tl args) of
        FlagHelp \<Rightarrow> Exited 0
      | FlagBad \<Rightarrow> Exited 2
      | Flags config \<Rightarrow>
          if length args < 2 then Exited 1
          else (case atoi (args ! 1) of
                  None \<Rightarrow> Exited 1
                | Some port \<Rightarrow>
                    (let knownPeers = (if 2 < length args then drop 2 args else [])
                     in Running port knownPeers config)))"

lemma atoi_minus:
  assumes "atoi (CHR ''-'' # r) = Some i"
  shows "parse_flags v ((CHR ''-'' # r) # args) = FlagBad"
proof -
  obtain c cs where r: "r = c # cs" using assms by (cases r) (auto simp: atoi_def)
  have "digits_val 0 (c # cs) \<noteq> None" using assms r by (auto simp: atoi_def Let_def split: option.splits)
  then obtain d where d: "digit_val c = Some d" by (auto split: option.splits)
  then have n: "48 \<le> (of_char c :: nat)" "(of_char c :: nat) \<le> 57" by (auto simp: digit_val_def Let_def split: if_splits)
  have x: "c \<noteq> CHR ''-''" "c \<noteq> CHR ''=''" "c \<noteq> CHR ''c''" "c \<noteq> CHR ''h''"
    using n by auto
  then have t: "takeWhile (\<lambda>c. c \<noteq> CHR ''='') (c # cs) = c # takeWhile (\<lambda>c. c \<noteq> CHR ''='') cs" by simp
  then show ?thesis using r x by (simp add: Let_def)
qed

text \<open>
  The process starts the servers exactly when its first argument is a port without a minus sign, and
  then the flag \<open>config\<close> is never set: setting it puts it where the port is read.
\<close>

lemma core_starts_iff:
  "runCore args = Running port peers config \<longleftrightarrow>
   (\<exists>prog w. args = prog # w # peers \<and> atoi w = Some port \<and> hd w \<noteq> CHR ''-'' \<and> \<not> config)"
proof
  assume r: "runCore args = Running port peers config"
  then obtain prog w ps where a: "args = prog # w # ps" "atoi w = Some port" "peers = ps"
    "parse_flags False (w # ps) = Flags config"
    by (cases args; cases "tl args") (auto simp: runCore_def split: flag_result.splits option.splits if_splits)
  have w: "w \<noteq> []" using a(2) by (auto simp: atoi_def)
  have h: "hd w \<noteq> CHR ''-''"
  proof
    assume "hd w = CHR ''-''"
    then have "w = CHR ''-'' # tl w" using w by (cases w) auto
    then show False using atoi_minus[of "tl w" port False ps] a(2,4) by simp
  qed
  then have "\<not> config" using a(4) by simp
  then show "\<exists>prog w. args = prog # w # peers \<and> atoi w = Some port \<and> hd w \<noteq> CHR ''-'' \<and> \<not> config"
    using a h by blast
next
  assume "\<exists>prog w. args = prog # w # peers \<and> atoi w = Some port \<and> hd w \<noteq> CHR ''-'' \<and> \<not> config"
  then show "runCore args = Running port peers config" by (cases peers) (auto simp: runCore_def)
qed

section \<open>The network and its goroutines\<close>

text \<open>
  The manager, the known peers whose dialling goroutine has not finished, the number of connections made
  so far, the running readers (the address and the connection \<open>listenForMessages\<close> was started with), the
  requests that wait for an answer (their key and channel), the channels whose request got one, and
  whether a goroutine keeps the mutex for ever.
\<close>

record network =
  nw_net :: net
  nw_dialling :: "string list"
  nw_conns :: nat
  nw_readers :: "(string \<times> nat) list"
  nw_waiting :: "(string \<times> nat) list"
  nw_answered :: "nat list"
  nw_stuck :: bool

text \<open>
  \<open>StartNetworkManager\<close>. With no address of its own, which \<open>GetOutboundIP\<close> never gives, it asks the
  peers connected by then.
\<close>

definition start_network :: "string \<Rightarrow> nat \<Rightarrow> string list \<Rightarrow> network" where
  "start_network localIP port knownPeers =
     \<lparr>nw_net = startNetworkManager localIP port, nw_dialling = knownPeers, nw_conns = 0, nw_readers = [],
      nw_waiting = [], nw_answered = [], nw_stuck = False\<rparr>"

definition ask_ip :: "peer_order \<Rightarrow> net \<Rightarrow> net" where
  "ask_ip it st = (if nt_ServerIP st = [] then broadcastMessage it [] (WMsg (on_wire (nm_empty\<lparr>nm_Task := ''get_my_ip''\<rparr>))) st else st)"

text \<open>
  Where the address of the server comes from. \<open>getLocalIP\<close> takes the first IPv4 address of an interface
  that is not the loopback one; the call to it is commented out. \<open>GetOutboundIP\<close> takes the local end of
  a connection, and ends the process when it cannot dial.
\<close>

record interface_addr =
  ia_ipNet :: bool
  ia_loopback :: bool
  ia_ip4 :: bool
  ia_text :: string

fun getLocalIP :: "interface_addr list option \<Rightarrow> string option" where
  "getLocalIP None = None"
| "getLocalIP (Some []) = Some []"
| "getLocalIP (Some (a # as)) =
     (if ia_ipNet a \<and> \<not> ia_loopback a \<and> ia_ip4 a then Some (ia_text a) else getLocalIP (Some as))"

definition getOutboundIP :: "string option \<Rightarrow> string option" where
  "getOutboundIP dialled = (case dialled of None \<Rightarrow> None | Some localAddr \<Rightarrow> Some localAddr)"

definition start_dialled :: "string option \<Rightarrow> nat \<Rightarrow> string list \<Rightarrow> network option" where
  "start_dialled dialled port knownPeers =
     (case getOutboundIP dialled of None \<Rightarrow> None | Some localIP \<Rightarrow> Some (start_network localIP port knownPeers))"

lemma getLocalIP_first:
  "getLocalIP (Some as) = Some (case filter (\<lambda>a. ia_ipNet a \<and> \<not> ia_loopback a \<and> ia_ip4 a) as of [] \<Rightarrow> [] | a # _ \<Rightarrow> ia_text a)"
  by (induction as) auto

text \<open>A process that has started knows its address, so it never asks the peers for it.\<close>

lemma started_never_asks:
  "start_dialled (Some ip) port peers = Some w \<Longrightarrow> ip \<noteq> [] \<Longrightarrow> ask_ip it (nw_net w) = nw_net w"
  by (auto simp: start_dialled_def getOutboundIP_def start_network_def startNetworkManager_def ask_ip_def)

text \<open>
  A request while the mutex is kept: its channel is made, and without a peer it is answered at once;
  otherwise it waits for the mutex for ever.
\<close>

definition sendTaskReq_blocked :: "net \<Rightarrow> net \<times> nm_message option" where
  "sendTaskReq_blocked st = (st\<lparr>nt_next := nt_next st + 1\<rparr>, if nt_peers st = [] then Some nm_empty else None)"

text \<open>
  The steps of the goroutines. Those that lock the mutex are taken while it can be had; what a goroutine
  does before it waits for a mutex that never comes is a step too. A panic in a handler ends the process.
\<close>

inductive net_step :: "network \<Rightarrow> network \<Rightarrow> bool" where
  dialled: "\<not> nw_stuck w \<Longrightarrow> a \<in> set (nw_dialling w) \<Longrightarrow>
    net_step w (w\<lparr>nw_net := connectToPeer a (Some (nw_conns w)) (nw_net w),
              nw_dialling := remove1 a (nw_dialling w), nw_conns := Suc (nw_conns w),
              nw_readers := (a, nw_conns w) # nw_readers w\<rparr>)"
| dialled_blocks: "nw_stuck w \<Longrightarrow> a \<in> set (nw_dialling w) \<Longrightarrow>
    net_step w (w\<lparr>nw_dialling := remove1 a (nw_dialling w), nw_conns := Suc (nw_conns w)\<rparr>)"
| unreachable: "a \<in> set (nw_dialling w) \<Longrightarrow> net_step w (w\<lparr>nw_net := connectToPeer a None (nw_net w),
              nw_dialling := remove1 a (nw_dialling w)\<rparr>)"
| accepted: "\<not> nw_stuck w \<Longrightarrow>
    net_step w (w\<lparr>nw_net := handleConnection a ip (nw_conns w) (nw_net w), nw_conns := Suc (nw_conns w),
              nw_readers := (a, nw_conns w) # nw_readers w\<rparr>)"
| accepted_blocks: "nw_stuck w \<Longrightarrow>
    net_step w (w\<lparr>nw_net := greet_peer ip (nw_conns w) (nw_net w), nw_conns := Suc (nw_conns w)\<rparr>)"
| asks: "\<not> nw_stuck w \<Longrightarrow> net_step w (w\<lparr>nw_net := ask_ip it (nw_net w)\<rparr>)"
| sends: "\<not> nw_stuck w \<Longrightarrow> net_step w (w\<lparr>nw_net := sendToPeer a m (nw_net w)\<rparr>)"
| heartbeat: "\<not> nw_stuck w \<Longrightarrow> net_step w (w\<lparr>nw_net := heartbeatChecker it (nw_net w)\<rparr>)"
| message: "\<not> nw_stuck w \<Longrightarrow> (a, c) \<in> set (nw_readers w) \<Longrightarrow>
    listen_message env a c m (nw_net w) s = (s', Continues st) \<Longrightarrow> net_step w (w\<lparr>nw_net := st\<rparr>)"
| message_sticks: "\<not> nw_stuck w \<Longrightarrow> (a, c) \<in> set (nw_readers w) \<Longrightarrow>
    listen_message env a c m (nw_net w) s = (s', Stuck) \<Longrightarrow> net_step w (w\<lparr>nw_stuck := True\<rparr>)"
| ended: "\<not> nw_stuck w \<Longrightarrow> (a, c) \<in> set (nw_readers w) \<Longrightarrow> net_step w (w\<lparr>nw_net := listen_end a c (nw_net w),
              nw_readers := remove1 (a, c) (nw_readers w)\<rparr>)"
| request: "\<not> nw_stuck w \<Longrightarrow> sendTaskReq_start it req (nw_net w) = (st, r) \<Longrightarrow>
    net_step w (w\<lparr>nw_net := st, nw_waiting := (case r of Waits k c \<Rightarrow> (k, c) # nw_waiting w | Answered _ \<Rightarrow> nw_waiting w)\<rparr>)"
| request_blocks: "nw_stuck w \<Longrightarrow> net_step w (w\<lparr>nw_net := fst (sendTaskReq_blocked (nw_net w))\<rparr>)"
| received: "(k, c) \<in> set (nw_waiting w) \<Longrightarrow> sendTaskReq_receive c (nw_net w) = (st, Some m) \<Longrightarrow>
    net_step w (w\<lparr>nw_net := st, nw_waiting := remove1 (k, c) (nw_waiting w), nw_answered := c # nw_answered w\<rparr>)"
| timeout: "\<not> nw_stuck w \<Longrightarrow> (k, c) \<in> set (nw_waiting w) \<Longrightarrow>
    net_step w (w\<lparr>nw_net := fst (sendTaskReq_timeout k (nw_net w)), nw_waiting := remove1 (k, c) (nw_waiting w)\<rparr>)"
| time: "net_step w (w\<lparr>nw_net := (nw_net w)\<lparr>nt_now := nt_now (nw_net w) + d\<rparr>\<rparr>)"
| breaks: "net_step w (w\<lparr>nw_net := (nw_net w)\<lparr>nt_broken := (nt_broken (nw_net w))(c := True)\<rparr>\<rparr>)"

inductive net_reach :: "string \<Rightarrow> nat \<Rightarrow> string list \<Rightarrow> network \<Rightarrow> bool" for ip port peers where
  start: "net_reach ip port peers (start_network ip port peers)"
| step: "net_reach ip port peers w \<Longrightarrow> net_step w w' \<Longrightarrow> net_reach ip port peers w'"

inductive net_steps :: "network \<Rightarrow> network \<Rightarrow> bool" for w where
  here: "net_steps w w"
| more: "net_steps w v \<Longrightarrow> net_step v v' \<Longrightarrow> net_steps w v'"

section \<open>The table of peers\<close>

text \<open>
  With \<open>n\<close> connections made and the readers \<open>rdrs\<close>: every peer of the table is filed under its own address,
  its connection has a running reader and has not been closed by this side.
\<close>

definition peers_ok :: "nat \<Rightarrow> (string \<times> nat) list \<Rightarrow> net \<Rightarrow> bool" where
  "peers_ok n rdrs st \<longleftrightarrow> distinct (map fst (nt_peers st))
     \<and> (\<forall>a p. map_of (nt_peers st) a = Some p \<longrightarrow>
          pr_Address p = a \<and> (a, pr_Conn p) \<in> set rdrs \<and> \<not> nt_closed st (pr_Conn p) \<and> pr_LastActive p \<le> nt_now st)
     \<and> distinct (map snd rdrs) \<and> (\<forall>c \<in> snd ` set rdrs. c < n) \<and> (\<forall>c. nt_closed st c \<longrightarrow> c < n)"

lemma peers_okD:
  assumes "peers_ok n rdrs st"
  shows "distinct (map fst (nt_peers st))" "distinct (map snd rdrs)" "(a, c) \<in> set rdrs \<Longrightarrow> c < n" "nt_closed st c \<Longrightarrow> c < n"
    and "map_of (nt_peers st) a = Some p \<Longrightarrow>
      pr_Address p = a \<and> (a, pr_Conn p) \<in> set rdrs \<and> \<not> nt_closed st (pr_Conn p) \<and> pr_LastActive p \<le> nt_now st"
  using assms unfolding peers_ok_def by force+

lemma peers_okI:
  assumes "distinct (map fst (nt_peers st))" "distinct (map snd rdrs)" "\<And>a c. (a, c) \<in> set rdrs \<Longrightarrow> c < n"
    "\<And>c. nt_closed st c \<Longrightarrow> c < n"
    and "\<And>a p. map_of (nt_peers st) a = Some p \<Longrightarrow>
      pr_Address p = a \<and> (a, pr_Conn p) \<in> set rdrs \<and> \<not> nt_closed st (pr_Conn p) \<and> pr_LastActive p \<le> nt_now st"
  shows "peers_ok n rdrs st"
  using assms unfolding peers_ok_def by force

lemma reader_unique: "distinct (map snd rdrs) \<Longrightarrow> (a, c) \<in> set rdrs \<Longrightarrow> (b, c) \<in> set rdrs \<Longrightarrow> a = b"
  by (metis distinct_map inj_onD prod.inject snd_conv)

definition conns_once :: "net \<Rightarrow> bool" where
  "conns_once st \<longleftrightarrow> (\<forall>a b p q. map_of (nt_peers st) a = Some p \<longrightarrow> map_of (nt_peers st) b = Some q \<longrightarrow>
     pr_Conn p = pr_Conn q \<longrightarrow> a = b)"

lemma peers_once: "peers_ok n rdrs st \<Longrightarrow> conns_once st"
  unfolding conns_once_def using peers_okD(5) reader_unique[OF peers_okD(2)] by metis

text \<open>
  What writing to peers, the heartbeat and a failed write do: peers can only go, and a connection that is
  closed was that of a peer that has gone.
\<close>

definition shrinks :: "net \<Rightarrow> net \<Rightarrow> bool" where
  "shrinks st st' \<longleftrightarrow> (distinct (map fst (nt_peers st)) \<longrightarrow> distinct (map fst (nt_peers st')))
     \<and> map_of (nt_peers st') \<subseteq>\<^sub>m map_of (nt_peers st) \<and> nt_now st' = nt_now st
     \<and> nt_responseChannels st' = nt_responseChannels st \<and> nt_buffers st' = nt_buffers st \<and> nt_next st' = nt_next st
     \<and> nt_ServerIP st' = nt_ServerIP st
     \<and> (\<forall>c. nt_closed st' c \<longrightarrow> nt_closed st c \<or> c \<in> pr_Conn ` ran (map_of (nt_peers st)) - pr_Conn ` ran (map_of (nt_peers st')))"

lemma shrinksD:
  assumes "shrinks st st'"
  shows "distinct (map fst (nt_peers st)) \<Longrightarrow> distinct (map fst (nt_peers st'))"
    "map_of (nt_peers st') a = Some p \<Longrightarrow> map_of (nt_peers st) a = Some p" "nt_now st' = nt_now st"
    "nt_responseChannels st' = nt_responseChannels st" "nt_buffers st' = nt_buffers st" "nt_next st' = nt_next st"
    "nt_closed st' c \<Longrightarrow> nt_closed st c \<or> c \<in> pr_Conn ` ran (map_of (nt_peers st)) - pr_Conn ` ran (map_of (nt_peers st'))"
proof -
  show "map_of (nt_peers st) a = Some p" if "map_of (nt_peers st') a = Some p"
    using assms that unfolding shrinks_def map_le_def by (metis domI)
qed (use assms in \<open>simp_all add: shrinks_def\<close>)

lemma ran_le: "m \<subseteq>\<^sub>m m' \<Longrightarrow> ran m \<subseteq> ran m'"
  unfolding map_le_def ran_def by (auto, metis domI)

lemma shrinks_refl [simp]: "shrinks st st"
  by (simp add: shrinks_def)

lemma shrinks_trans:
  assumes "shrinks a b" "shrinks b c"
  shows "shrinks a c"
proof -
  have m: "map_of (nt_peers b) \<subseteq>\<^sub>m map_of (nt_peers a)" "map_of (nt_peers c) \<subseteq>\<^sub>m map_of (nt_peers b)"
    using assms unfolding shrinks_def by blast+
  have r: "pr_Conn ` ran (map_of (nt_peers b)) \<subseteq> pr_Conn ` ran (map_of (nt_peers a))"
    "pr_Conn ` ran (map_of (nt_peers c)) \<subseteq> pr_Conn ` ran (map_of (nt_peers b))"
    using ran_le[OF m(1)] ran_le[OF m(2)] by blast+
  have "nt_closed a x \<or> x \<in> pr_Conn ` ran (map_of (nt_peers a)) - pr_Conn ` ran (map_of (nt_peers c))" if "nt_closed c x" for x
    using shrinksD(7)[OF assms(2) that] shrinksD(7)[OF assms(1), of x] r by blast
  then show ?thesis
    using assms map_le_trans[OF m(2,1)] unfolding shrinks_def by simp
qed

lemma shrinks_write [simp]: "shrinks st (fst (nm_write c m st))"
  by (simp add: shrinks_def nm_write_def)

lemma shrinks_wrote: "nm_write c m st = (st', b) \<Longrightarrow> shrinks st st'"
  using shrinks_write[of st c m] by simp

lemma wrote_peers: "nm_write c m st = (st', b) \<Longrightarrow> nt_peers st' = nt_peers st"
  by (auto simp: nm_write_def split: if_splits)

lemma shrinks_drop:
  assumes "conns_once st" "map_of (nt_peers st) a = Some p"
  shows "shrinks st (drop_peer a (pr_Conn p) st)"
proof -
  have "pr_Conn q \<noteq> pr_Conn p" if "map_of (AList.delete a (nt_peers st)) b = Some q" for b q
    using assms that by (auto simp: conns_once_def delete_conv' split: if_splits)
  then have "\<forall>q \<in> ran (map_of (AList.delete a (nt_peers st))). pr_Conn q \<noteq> pr_Conn p" unfolding ran_def by blast
  then have "pr_Conn p \<notin> pr_Conn ` ran (map_of (AList.delete a (nt_peers st)))" by fastforce
  moreover have "pr_Conn p \<in> pr_Conn ` ran (map_of (nt_peers st))" using assms(2) by (auto simp: ran_def)
  moreover have "map_of (AList.delete a (nt_peers st)) \<subseteq>\<^sub>m map_of (nt_peers st)" by (simp add: delete_conv' map_le_def)
  ultimately show ?thesis by (simp add: shrinks_def drop_peer_def nm_close_def distinct_delete)
qed

text \<open>The loops over a copy of the table: what of it has not been visited is still there.\<close>

definition still_there :: "(string \<times> peer) list \<Rightarrow> net \<Rightarrow> bool" where
  "still_there ps st \<longleftrightarrow> conns_once st \<and> distinct (map fst ps) \<and> (\<forall>(a, p) \<in> set ps. map_of (nt_peers st) a = Some p)"

lemma still_there_peers: "nt_peers st' = nt_peers st \<Longrightarrow> still_there ps st' = still_there ps st"
  by (simp add: still_there_def conns_once_def)

lemma still_there_drop:
  assumes "still_there ((a, p) # ps) st"
  shows "shrinks st (drop_peer a (pr_Conn p) st)" "still_there ps (drop_peer a (pr_Conn p) st)" "still_there ps st"
proof -
  show "shrinks st (drop_peer a (pr_Conn p) st)"
    using assms by (intro shrinks_drop) (auto simp: still_there_def)
  have d: "conns_once st" "a \<notin> fst ` set ps" "distinct (map fst ps)" "\<And>b q. (b, q) \<in> set ps \<Longrightarrow> map_of (nt_peers st) b = Some q"
    using assms by (auto simp: still_there_def)
  have m: "map_of (nt_peers (drop_peer a (pr_Conn p) st)) = (map_of (nt_peers st))(a := None)" by (simp add: delete_conv')
  have "conns_once (drop_peer a (pr_Conn p) st)"
    using d(1) unfolding conns_once_def m fun_upd_apply by (metis option.distinct(1))
  moreover have "((map_of (nt_peers st))(a := None)) b = Some q" if "(b, q) \<in> set ps" for b q
    using d(2) d(4)[OF that] that by force
  ultimately show "still_there ps (drop_peer a (pr_Conn p) st)"
    using d(3) unfolding still_there_def m by blast
  show "still_there ps st" using assms by (simp add: still_there_def)
qed

lemma visited_peer:
  assumes th: "still_there ((a, p) # ps) st" and w: "nm_write c m st = (st1, b)"
  shows "shrinks st st1" "shrinks st (drop_peer a (pr_Conn p) st1)" "still_there ps st1"
    "still_there ps (drop_peer a (pr_Conn p) st1)"
proof -
  have "still_there ((a, p) # ps) st1" using still_there_peers[OF wrote_peers[OF w]] th by blast
  note d = still_there_drop[OF this]
  show "shrinks st st1" by (rule shrinks_wrote[OF w])
  then show "shrinks st (drop_peer a (pr_Conn p) st1)" by (rule shrinks_trans[OF _ d(1)])
  show "still_there ps st1" "still_there ps (drop_peer a (pr_Conn p) st1)" by (rule d)+
qed

lemma shrinks_broadcast: "still_there ps st \<Longrightarrow> shrinks st (broadcast_loop s m ps st)"
proof (induction s m ps st rule: broadcast_loop.induct)
  case (2 s m a p ps st)
  obtain s1 ok where w: "nm_write (pr_Conn p) m st = (s1, ok)" by fastforce
  note v = visited_peer[OF 2(4) w]
  show ?case
    using 2(1)[OF _ w[symmetric]] 2(2)[OF _ w[symmetric]] 2(3) v still_there_drop(3)[OF 2(4)] w
      shrinks_trans[OF v(1)] shrinks_trans[OF v(2)]
    by (cases ok) auto
qed simp

lemma shrinks_heartbeat: "still_there ps st \<Longrightarrow> shrinks st (heartbeat_loop ps st)"
proof (induction ps st rule: heartbeat_loop.induct)
  case (2 a p ps st)
  obtain s1 ok where w: "nm_write (pr_Conn p) (WText ''heartbeat'') st = (s1, ok)" by fastforce
  note v = visited_peer[OF 2(4) w] and d = still_there_drop[OF 2(4)]
  show ?case
    using 2(1) 2(2)[OF _ w[symmetric]] 2(3)[OF _ w[symmetric]] v d w
      shrinks_trans[OF v(1)] shrinks_trans[OF v(2)] shrinks_trans[OF d(1)]
    by (cases ok) auto
qed simp

lemma shrinks_send: "conns_once st \<Longrightarrow> shrinks st (sendToPeer a m st)"
proof (cases "map_of (nt_peers st) a")
  case None
  then show ?thesis by (simp add: sendToPeer_def)
next
  case (Some p)
  assume "conns_once st"
  then have th: "still_there [(a, p)] st" using Some by (simp add: still_there_def)
  obtain s1 ok where w: "nm_write (pr_Conn p) m st = (s1, ok)" by fastforce
  show ?thesis using Some w visited_peer(1,2)[OF th w] by (cases ok) (simp_all add: sendToPeer_def)
qed

lemma shrinks_write_peers: "shrinks st (write_peers m ps st)"
  by (induction m ps st rule: write_peers.induct) (auto intro: shrinks_trans[OF shrinks_write])

lemma handleMsg_shrinks: "handleMsg env m c st s = (s', Reply st') \<Longrightarrow> shrinks st st'"
  by (auto simp: handleMsg_def kv_bind_def Let_def split: wire.splits if_splits option.splits prod.splits call.splits)

lemma peers_there: "peers_ok n rdrs st \<Longrightarrow> still_there (go_range it (nt_peers st)) st"
proof -
  assume i: "peers_ok n rdrs st"
  have "mset (map fst (go_range it (nt_peers st))) = mset (map fst (nt_peers st))" by (simp only: mset_map mset_go_range)
  then have "distinct (map fst (go_range it (nt_peers st)))" using peers_okD(1)[OF i] by (metis mset_eq_imp_distinct_iff)
  then show ?thesis using peers_once[OF i] peers_okD(1)[OF i] by (auto simp: still_there_def)
qed

lemma shrinks_peers:
  assumes "shrinks st st'" "peers_ok n rdrs st"
  shows "peers_ok n rdrs st'"
proof (rule peers_okI)
  note i = peers_okD[OF assms(2)]
  have tab: "c < n" if "c \<in> pr_Conn ` ran (map_of (nt_peers st))" for c
    using that i(3,5) by (fastforce simp: ran_def)
  show "distinct (map fst (nt_peers st'))" by (rule shrinksD(1)[OF assms(1) i(1)])
  show "distinct (map snd rdrs)" "\<And>a c. (a, c) \<in> set rdrs \<Longrightarrow> c < n" by (rule i(2,3))+
  show "c < n" if "nt_closed st' c" for c using shrinksD(7)[OF assms(1) that] i(4) tab by blast
  show "pr_Address p = a \<and> (a, pr_Conn p) \<in> set rdrs \<and> \<not> nt_closed st' (pr_Conn p) \<and> pr_LastActive p \<le> nt_now st'"
    if "map_of (nt_peers st') a = Some p" for a p
  proof -
    have "pr_Conn p \<in> pr_Conn ` ran (map_of (nt_peers st'))" using that by (auto simp: ran_def)
    then show ?thesis
      using i(5)[OF shrinksD(2)[OF assms(1) that]] shrinksD(3)[OF assms(1)] shrinksD(7)[OF assms(1), of "pr_Conn p"] by auto
  qed
qed

text \<open>A connection with a fresh number is filed under its address, whatever was filed there.\<close>

lemma add_peer_peers: "peers_ok n rdrs st \<Longrightarrow> peers_ok (Suc n) ((a, n) # rdrs) (add_peer a n st)"
proof (rule peers_okI)
  assume i: "peers_ok n rdrs st"
  note d = peers_okD[OF i]
  show "distinct (map fst (nt_peers (add_peer a n st)))" using d(1) by (simp add: add_peer_def distinct_update)
  show "distinct (map snd ((a, n) # rdrs))" using d(2) d(3) by fastforce
  show "\<And>b c. (b, c) \<in> set ((a, n) # rdrs) \<Longrightarrow> c < Suc n" using d(3) by (auto intro: less_SucI)
  show "\<And>c. nt_closed (add_peer a n st) c \<Longrightarrow> c < Suc n" using d(4) by (auto simp: add_peer_def intro: less_SucI)
  show "pr_Address p = b \<and> (b, pr_Conn p) \<in> set ((a, n) # rdrs) \<and> \<not> nt_closed (add_peer a n st) (pr_Conn p)
      \<and> pr_LastActive p \<le> nt_now (add_peer a n st)" if "map_of (nt_peers (add_peer a n st)) b = Some p" for b p
    using that d(5)[of b p] d(4)[of n] by (auto simp: add_peer_def update_conv' split: if_splits)
qed

lemma more_conns: "peers_ok n rdrs st \<Longrightarrow> peers_ok (Suc n) rdrs st"
  unfolding peers_ok_def by (auto intro: less_SucI)

lemma end_peers:
  assumes i: "peers_ok n rdrs st" and r: "(a, c) \<in> set rdrs"
  shows "peers_ok n (remove1 (a, c) rdrs) (listen_end a c st)"
proof (rule peers_okI)
  note d = peers_okD[OF i]
  have m: "map_of (nt_peers (listen_end a c st)) = (map_of (nt_peers st))(a := None)"
    by (simp add: listen_end_def nm_close_def delete_conv')
  show "distinct (map fst (nt_peers (listen_end a c st)))" using d(1) by (simp add: listen_end_def nm_close_def distinct_delete)
  show "distinct (map snd (remove1 (a, c) rdrs))" using d(2) by (simp add: distinct_map distinct_remove1 inj_on_diff)
  show "\<And>b x. (b, x) \<in> set (remove1 (a, c) rdrs) \<Longrightarrow> x < n" using d(3) set_remove1_subset by fastforce
  show "\<And>x. nt_closed (listen_end a c st) x \<Longrightarrow> x < n" using d(3)[OF r] d(4) by (auto simp: listen_end_def nm_close_def split: if_splits)
  show "pr_Address p = b \<and> (b, pr_Conn p) \<in> set (remove1 (a, c) rdrs) \<and> \<not> nt_closed (listen_end a c st) (pr_Conn p)
      \<and> pr_LastActive p \<le> nt_now (listen_end a c st)" if p: "map_of (nt_peers (listen_end a c st)) b = Some p" for b p
  proof -
    have b: "b \<noteq> a" "map_of (nt_peers st) b = Some p" using p unfolding m by (auto split: if_splits)
    note k = d(5)[OF b(2)]
    then have "pr_Conn p \<noteq> c" using reader_unique[OF d(2) r, of b] b(1) by auto
    then show ?thesis using k b(1) by (simp add: listen_end_def nm_close_def in_set_remove1)
  qed
qed

lemma touch_peers:
  assumes i: "peers_ok n rdrs st" and p: "map_of (nt_peers st) a = Some p"
  shows "peers_ok n rdrs (st\<lparr>nt_peers := AList.update a (p\<lparr>pr_LastActive := nt_now st\<rparr>) (nt_peers st)\<rparr>)"
proof (rule peers_okI)
  note d = peers_okD[OF i]
  let ?st = "st\<lparr>nt_peers := AList.update a (p\<lparr>pr_LastActive := nt_now st\<rparr>) (nt_peers st)\<rparr>"
  show "distinct (map fst (nt_peers ?st))" using d(1) by (simp add: distinct_update)
  show "distinct (map snd rdrs)" "\<And>b c. (b, c) \<in> set rdrs \<Longrightarrow> c < n" by (rule d)+
  show "\<And>c. nt_closed ?st c \<Longrightarrow> c < n" using d(4) by simp
  show "pr_Address q = b \<and> (b, pr_Conn q) \<in> set rdrs \<and> \<not> nt_closed ?st (pr_Conn q) \<and> pr_LastActive q \<le> nt_now ?st"
    if "map_of (nt_peers ?st) b = Some q" for b q
    using that d(5)[of b q] d(5)[OF p] by (auto simp: update_conv' split: if_splits)
qed

lemma response_peers: "peers_ok n rdrs (handleResponse m st) = peers_ok n rdrs st"
  by (simp add: handleResponse_def peers_ok_def split: option.split)

section \<open>The table of requests\<close>

text \<open>
  A channel in the table belongs to a request that waits under its key or has been answered; an answer in
  the channel of a waiting request has its key.
\<close>

definition requests_ok :: "(string \<times> nat) list \<Rightarrow> nat list \<Rightarrow> net \<Rightarrow> bool" where
  "requests_ok ws as st \<longleftrightarrow> distinct (map snd ws)
     \<and> (\<forall>k c. (k, c) \<in> set ws \<longrightarrow> c \<notin> set as \<and> c < nt_next st) \<and> (\<forall>c \<in> set as. c < nt_next st)
     \<and> (\<forall>k c. map_of (nt_responseChannels st) k = Some c \<longrightarrow> (k, c) \<in> set ws \<or> c \<in> set as)
     \<and> (\<forall>c m. nt_buffers st c = Some m \<longrightarrow> c < nt_next st)
     \<and> (\<forall>k c m. (k, c) \<in> set ws \<longrightarrow> nt_buffers st c = Some m \<longrightarrow> req_key m = k)"

lemma requests_okD:
  assumes "requests_ok ws as st"
  shows "distinct (map snd ws)" "(k, c) \<in> set ws \<Longrightarrow> c \<notin> set as \<and> c < nt_next st" "c \<in> set as \<Longrightarrow> c < nt_next st"
    "map_of (nt_responseChannels st) k = Some c \<Longrightarrow> (k, c) \<in> set ws \<or> c \<in> set as"
    "nt_buffers st c = Some m \<Longrightarrow> c < nt_next st"
    "(k, c) \<in> set ws \<Longrightarrow> nt_buffers st c = Some m \<Longrightarrow> req_key m = k"
  using assms unfolding requests_ok_def by blast+

lemma requests_okI:
  assumes "distinct (map snd ws)" "\<And>k c. (k, c) \<in> set ws \<Longrightarrow> c \<notin> set as \<and> c < nt_next st" "\<And>c. c \<in> set as \<Longrightarrow> c < nt_next st"
    "\<And>k c. map_of (nt_responseChannels st) k = Some c \<Longrightarrow> (k, c) \<in> set ws \<or> c \<in> set as"
    "\<And>c m. nt_buffers st c = Some m \<Longrightarrow> c < nt_next st"
    "\<And>k c m. (k, c) \<in> set ws \<Longrightarrow> nt_buffers st c = Some m \<Longrightarrow> req_key m = k"
  shows "requests_ok ws as st"
  using assms unfolding requests_ok_def by blast

lemma shrinks_requests: "shrinks st st' \<Longrightarrow> requests_ok ws as st' = requests_ok ws as st"
  using shrinksD(4,5,6)[of st st'] by (simp add: requests_ok_def)

lemma requests_same:
  "nt_responseChannels st' = nt_responseChannels st \<Longrightarrow> nt_buffers st' = nt_buffers st \<Longrightarrow> nt_next st' = nt_next st \<Longrightarrow>
   requests_ok ws as st' = requests_ok ws as st"
  by (simp add: requests_ok_def)

lemma response_requests:
  assumes "requests_ok ws as st"
  shows "requests_ok ws as (handleResponse m st)"
proof (cases "map_of (nt_responseChannels st) (req_key m)")
  case (Some c)
  note d = requests_okD[OF assms]
  have n: "c < nt_next st" using d(2,3) d(4)[OF Some] by blast
  have k: "k = req_key m" if "(k, c) \<in> set ws" for k
    using d(4)[OF Some] d(2)[OF that] reader_unique[OF d(1) that] by auto
  show ?thesis
  proof (cases "nt_buffers st c")
    case None
    let ?st = "st\<lparr>nt_buffers := (nt_buffers st)(c \<mapsto> m)\<rparr>"
    have "requests_ok ws as ?st"
      by (rule requests_okI) (use d n k in \<open>auto split: if_splits\<close>)
    then show ?thesis using Some None by (simp add: handleResponse_def)
  qed (use Some assms in \<open>simp add: handleResponse_def\<close>)
qed (use assms in \<open>simp add: handleResponse_def\<close>)

lemma next_requests: "requests_ok ws as st \<Longrightarrow> requests_ok ws as (st\<lparr>nt_next := nt_next st + 1\<rparr>)"
  unfolding requests_ok_def by (auto intro: less_SucI)

lemma register_requests:
  assumes "requests_ok ws as st" "nt_next st' = nt_next st + 1" "nt_buffers st' = nt_buffers st"
    and "nt_responseChannels st' = AList.update k (nt_next st) (nt_responseChannels st)"
  shows "requests_ok ((k, nt_next st) # ws) as st'"
proof (rule requests_okI)
  note d = requests_okD[OF assms(1)]
  show "distinct (map snd ((k, nt_next st) # ws))" using d(1,2) by fastforce
  show "c \<notin> set as \<and> c < nt_next st'" if "(l, c) \<in> set ((k, nt_next st) # ws)" for l c
    using that d(2)[of l c] d(3)[of c] assms(2) by auto
  show "\<And>c. c \<in> set as \<Longrightarrow> c < nt_next st'" using d(3) assms(2) by (simp add: less_SucI)
  show "(l, c) \<in> set ((k, nt_next st) # ws) \<or> c \<in> set as" if "map_of (nt_responseChannels st') l = Some c" for l c
    using that d(4)[of l c] unfolding assms(4) by (auto simp: update_conv' split: if_splits)
  show "\<And>c m. nt_buffers st' c = Some m \<Longrightarrow> c < nt_next st'" using d(5) assms(2,3) by (auto intro: less_SucI)
  show "req_key m = l" if "(l, c) \<in> set ((k, nt_next st) # ws)" "nt_buffers st' c = Some m" for l c m
    using that d(6)[of l c m] d(5)[of c m] assms(3) by auto
qed

lemma remove1_rest: "distinct (map snd ws) \<Longrightarrow> (k, c) \<in> set ws \<Longrightarrow> (l, x) \<in> set (remove1 (k, c) ws) \<longleftrightarrow> (l, x) \<in> set ws \<and> x \<noteq> c"
  using reader_unique[of ws k c l] distinct_map[of snd ws] by auto

lemma distinct_rest: "distinct (map snd ws) \<Longrightarrow> distinct (map snd (remove1 x ws))"
  by (simp add: distinct_map distinct_remove1 inj_on_diff)

lemma received_requests:
  assumes "requests_ok ws as st" "(k, c) \<in> set ws"
  shows "requests_ok (remove1 (k, c) ws) (c # as) (st\<lparr>nt_buffers := (nt_buffers st)(c := None)\<rparr>)"
proof (rule requests_okI)
  note d = requests_okD[OF assms(1)]
  note r = remove1_rest[OF d(1) assms(2)]
  show "distinct (map snd (remove1 (k, c) ws))" by (rule distinct_rest[OF d(1)])
qed (use requests_okD[OF assms(1)] remove1_rest[OF requests_okD(1)[OF assms(1)] assms(2)] assms(2) in \<open>fastforce split: if_splits\<close>)+

lemma timeout_requests:
  assumes "requests_ok ws as st" "(k, c) \<in> set ws"
  shows "requests_ok (remove1 (k, c) ws) as (st\<lparr>nt_responseChannels := AList.delete k (nt_responseChannels st)\<rparr>)"
proof (rule requests_okI)
  note d = requests_okD[OF assms(1)]
  note r = remove1_rest[OF d(1) assms(2)]
  show "distinct (map snd (remove1 (k, c) ws))" by (rule distinct_rest[OF d(1)])
  show "(l, x) \<in> set (remove1 (k, c) ws) \<or> x \<in> set as"
    if "map_of (nt_responseChannels (st\<lparr>nt_responseChannels := AList.delete k (nt_responseChannels st)\<rparr>)) l = Some x" for l x
    using that d(4)[of l x] reader_unique[OF d(1) assms(2), of l] r by (auto simp: delete_conv' split: if_splits)
qed (use requests_okD[OF assms(1)] remove1_rest[OF requests_okD(1)[OF assms(1)] assms(2)] in \<open>fastforce\<close>)+

section \<open>The invariant\<close>

definition net_inv :: "network \<Rightarrow> bool" where
  "net_inv w \<longleftrightarrow> peers_ok (nw_conns w) (nw_readers w) (nw_net w) \<and> requests_ok (nw_waiting w) (nw_answered w) (nw_net w)"

lemma shrinks_inv: "shrinks (nw_net w) st \<Longrightarrow> net_inv w \<Longrightarrow> net_inv (w\<lparr>nw_net := st\<rparr>)"
  using shrinks_peers shrinks_requests by (auto simp: net_inv_def)

lemma message_inv:
  assumes "net_inv w" "listen_message env a c m (nw_net w) s = (s', Continues st)"
  shows "net_inv (w\<lparr>nw_net := st\<rparr>)"
proof -
  let ?st = "nw_net w"
  obtain p where p: "map_of (nt_peers ?st) a = Some p"
    using assms(2) by (auto simp: listen_message_def split: option.splits)
  let ?t = "?st\<lparr>nt_peers := AList.update a (p\<lparr>pr_LastActive := nt_now ?st\<rparr>) (nt_peers ?st)\<rparr>"
  have t: "net_inv (w\<lparr>nw_net := ?t\<rparr>)"
    using assms(1) touch_peers[OF _ p] requests_same[of ?t ?st] by (simp add: net_inv_def)
  have h: "net_inv (w\<lparr>nw_net := handleResponse r ?t\<rparr>)" for r
    using t response_requests[of _ _ ?t r] by (simp add: net_inv_def response_peers)
  consider "st = ?t" | r where "st = handleResponse r ?t" | s1 where "handleMsg env m c ?t s = (s1, Reply st)"
    using assms(2) p by (auto simp: listen_message_def Let_def split: wire.splits if_splits prod.splits call.splits)
  then show ?thesis
  proof cases
    case 3
    from shrinks_inv[of "w\<lparr>nw_net := ?t\<rparr>" st, simplified, OF handleMsg_shrinks[OF 3] t] show ?thesis .
  qed (use t h in simp_all)
qed

lemma request_inv:
  assumes i: "net_inv w" and r: "sendTaskReq_start it req (nw_net w) = (st', r)"
  shows "net_inv (w\<lparr>nw_net := st', nw_waiting := (case r of Waits k c \<Rightarrow> (k, c) # nw_waiting w | Answered _ \<Rightarrow> nw_waiting w)\<rparr>)"
proof -
  let ?st = "nw_net w" let ?st1 = "?st\<lparr>nt_next := nt_next ?st + 1\<rparr>"
  have p1: "peers_ok (nw_conns w) (nw_readers w) ?st1" using i by (simp add: net_inv_def peers_ok_def)
  define sb where "sb = (if nt_ServerIP ?st1 = []
      then broadcastMessage it [] (WMsg (on_wire (nm_empty\<lparr>nm_Task := ''get_my_ip''\<rparr>))) ?st1 else ?st1)"
  have b: "shrinks ?st1 sb"
    using shrinks_broadcast[OF peers_there[OF p1]] unfolding sb_def broadcastMessage_def by simp
  have pb: "peers_ok (nw_conns w) (nw_readers w) sb" by (rule shrinks_peers[OF b p1])
  have rq: "requests_ok (nw_waiting w) (nw_answered w) sb"
    using next_requests i shrinks_requests[OF b] by (simp add: net_inv_def)
  consider "r = Answered nm_empty" "st' = ?st1 \<or> st' = sb"
    | k m ps where "r = Waits k (nt_next ?st)"
      "st' = write_peers m ps (sb\<lparr>nt_responseChannels := AList.update k (nt_next ?st) (nt_responseChannels sb)\<rparr>)"
    using r unfolding sendTaskReq_start_def Let_def sb_def by (fastforce split: if_splits)
  then show ?thesis
  proof cases
    case 1
    then show ?thesis using p1 pb rq next_requests i by (auto simp: net_inv_def)
  next
    case (2 k m ps)
    let ?s = "sb\<lparr>nt_responseChannels := AList.update k (nt_next ?st) (nt_responseChannels sb)\<rparr>"
    have "peers_ok (nw_conns w) (nw_readers w) ?s" using pb by (simp add: peers_ok_def)
    moreover have "requests_ok ((k, nt_next ?st) # nw_waiting w) (nw_answered w) ?s"
      using i shrinksD(4,5,6)[OF b] by (intro register_requests[of _ _ ?st]) (simp_all add: net_inv_def)
    ultimately show ?thesis
      using shrinks_peers[OF shrinks_write_peers] shrinks_requests[OF shrinks_write_peers] 2 by (simp add: net_inv_def)
  qed
qed

lemma net_step_inv: "net_step w w' \<Longrightarrow> net_inv w \<Longrightarrow> net_inv w'"
proof (induction rule: net_step.induct)
  case (dialled w a)
  have "requests_ok ws as (add_peer a (nw_conns w) (nw_net w)) = requests_ok ws as (nw_net w)" for ws as
    by (rule requests_same) (simp_all add: add_peer_def)
  then show ?case using dialled add_peer_peers by (simp add: connectToPeer_def net_inv_def)
next
  case (dialled_blocks w a)
  then show ?case using more_conns by (simp add: net_inv_def)
next
  case (unreachable a w)
  then show ?case by (simp add: connectToPeer_def net_inv_def)
next
  case (accepted w a ip)
  let ?g = "greet_peer ip (nw_conns w) (nw_net w)"
  have g: "shrinks (nw_net w) ?g" by (simp add: greet_peer_def)
  have "requests_ok ws as (add_peer a (nw_conns w) ?g) = requests_ok ws as ?g" for ws as
    by (rule requests_same) (simp_all add: add_peer_def)
  then show ?case
    using accepted add_peer_peers[OF shrinks_peers[OF g]] shrinks_requests[OF g] by (simp add: handleConnection_def net_inv_def)
next
  case (accepted_blocks w ip)
  have g: "shrinks (nw_net w) (greet_peer ip (nw_conns w) (nw_net w))" by (simp add: greet_peer_def)
  then show ?case
    using accepted_blocks shrinks_peers[OF g] more_conns shrinks_requests[OF g] by (simp add: net_inv_def)
next
  case (asks w it)
  then have "still_there (go_range it (nt_peers (nw_net w))) (nw_net w)" using peers_there by (auto simp: net_inv_def)
  then show ?case
    using asks shrinks_broadcast by (intro shrinks_inv) (simp_all add: ask_ip_def broadcastMessage_def)
next
  case (sends w a m)
  then show ?case using shrinks_send[OF peers_once] by (intro shrinks_inv) (auto simp: net_inv_def)
next
  case (heartbeat w it)
  then have "still_there (go_range it (nt_peers (nw_net w))) (nw_net w)" using peers_there by (auto simp: net_inv_def)
  then show ?case using heartbeat shrinks_heartbeat by (intro shrinks_inv) (simp_all add: heartbeatChecker_def)
next
  case (message w a c env m s s' st)
  then show ?case using message_inv by simp
next
  case (message_sticks w a c env m s s')
  then show ?case by (simp add: net_inv_def)
next
  case (ended w a c)
  have "requests_ok ws as (listen_end a c (nw_net w)) = requests_ok ws as (nw_net w)" for ws as
    by (rule requests_same) (simp_all add: listen_end_def nm_close_def)
  then show ?case using ended end_peers by (simp add: net_inv_def)
next
  case (request w it req st r)
  then show ?case using request_inv by simp
next
  case (request_blocks w)
  then show ?case using next_requests by (simp add: net_inv_def sendTaskReq_blocked_def peers_ok_def)
next
  case (received k c w st m)
  then have "st = (nw_net w)\<lparr>nt_buffers := (nt_buffers (nw_net w))(c := None)\<rparr>" by (simp add: sendTaskReq_receive_def)
  then show ?case using received received_requests by (simp add: net_inv_def peers_ok_def)
next
  case (timeout w k c)
  then show ?case using timeout_requests by (simp add: net_inv_def peers_ok_def sendTaskReq_timeout_def)
next
  case (time w d)
  then show ?case by (auto simp: net_inv_def peers_ok_def requests_ok_def intro: trans_le_add1)
next
  case (breaks w c)
  then show ?case by (simp add: net_inv_def peers_ok_def requests_ok_def)
qed

lemma net_reach_inv: "net_reach ip port peers w \<Longrightarrow> net_inv w"
proof (induction rule: net_reach.induct)
  case start
  show ?case
    by (simp add: start_network_def startNetworkManager_def net_inv_def peers_ok_def requests_ok_def)
next
  case (step w w')
  then show ?case using net_step_inv by blast
qed

section \<open>Answers stay in their channels\<close>

lemma broadcast_buffers: "nt_buffers (broadcast_loop s m ps st) = nt_buffers st"
  by (induction s m ps st rule: broadcast_loop.induct)
    (auto simp: nm_write_def drop_peer_def nm_close_def split: prod.splits bool.splits if_splits)

lemma heartbeat_buffers: "nt_buffers (heartbeat_loop ps st) = nt_buffers st"
  by (induction ps st rule: heartbeat_loop.induct)
    (auto simp: nm_write_def drop_peer_def nm_close_def split: prod.splits bool.splits if_splits)

lemma start_buffers: "sendTaskReq_start it req st = (st', r) \<Longrightarrow> nt_buffers st' = nt_buffers st"
  using write_peers_spec
  by (auto simp: sendTaskReq_start_def Let_def broadcastMessage_def broadcast_buffers split: if_splits)

lemma send_buffers: "nt_buffers (sendToPeer a m st) = nt_buffers st"
  by (auto simp: sendToPeer_def nm_write_def drop_peer_def nm_close_def split: option.splits if_splits)

lemma response_keeps: "nt_buffers st c = Some m \<Longrightarrow> nt_buffers (handleResponse r st) c = Some m"
  by (auto simp: handleResponse_def split: option.split)

lemma message_keeps:
  assumes "listen_message env a d m (st :: net) s = (s', Continues st')" "nt_buffers st c = Some r"
  shows "nt_buffers st' c = Some r"
proof -
  obtain p where p: "map_of (nt_peers st) a = Some p" using assms(1) by (auto simp: listen_message_def split: option.splits)
  let ?t = "st\<lparr>nt_peers := AList.update a (p\<lparr>pr_LastActive := nt_now st\<rparr>) (nt_peers st)\<rparr>"
  consider "st' = ?t" | q where "st' = handleResponse q ?t" | s1 where "handleMsg env m d ?t s = (s1, Reply st')"
    using assms(1) p by (auto simp: listen_message_def Let_def split: wire.splits if_splits prod.splits call.splits)
  then show ?thesis
  proof cases
    case 2
    then show ?thesis using response_keeps[of ?t c r q] assms(2) by simp
  next
    case 3
    then show ?thesis using shrinksD(5)[OF handleMsg_shrinks[OF 3]] assms(2) by simp
  qed (use assms(2) in simp)
qed

lemma answer_kept:
  assumes "net_step w w'" "net_inv w" "(k, c) \<in> set (nw_waiting w')" "nt_buffers (nw_net w) c = Some m"
    "(k, c) \<in> set (nw_waiting w)"
  shows "nt_buffers (nw_net w') c = Some m"
  using assms
proof (induction rule: net_step.induct)
  case (message w a d env n s s' st)
  then show ?case using message_keeps by simp
next
  case (request w it req st r)
  then show ?case using start_buffers by simp
next
  case (received l x w st n)
  have d: "distinct (map snd (nw_waiting w))"
    using received(3) by (simp add: net_inv_def requests_ok_def)
  have "c \<noteq> x" using remove1_rest[OF d received(1), of k c] received(4) by simp
  then show ?case using received by (auto simp: sendTaskReq_receive_def)
qed (simp_all add: connectToPeer_def handleConnection_def greet_peer_def nm_write_def add_peer_def ask_ip_def
    broadcastMessage_def broadcast_buffers send_buffers heartbeatChecker_def heartbeat_buffers listen_end_def nm_close_def
    sendTaskReq_blocked_def sendTaskReq_timeout_def)

section \<open>Properties\<close>

lemma peers_conns_distinct: "peers_ok n rdrs st \<Longrightarrow> conns_distinct (nt_peers st)"
proof -
  assume i: "peers_ok n rdrs st"
  note d = peers_okD[OF i]
  have "inj_on (\<lambda>(a, p). pr_Conn p) (set (nt_peers st))"
  proof (rule inj_onI, clarsimp)
    fix a p b q assume m: "(a, p) \<in> set (nt_peers st)" "(b, q) \<in> set (nt_peers st)" "pr_Conn p = pr_Conn q"
    then have x: "map_of (nt_peers st) a = Some p" "map_of (nt_peers st) b = Some q" using d(1) by auto
    then have "a = b" using peers_once[OF i] m(3) unfolding conns_once_def by blast
    then show "a = b \<and> p = q" using x by simp
  qed
  moreover have "distinct (nt_peers st)" using d(1) by (simp add: distinct_map)
  ultimately show ?thesis using d(1) by (simp add: conns_distinct_def distinct_map)
qed

text \<open>
  C24: Whatever the goroutines of the network manager and the peers do, in any order (dialling, accepting,
  messages, broadcasts, heartbeats, broken and ended connections, requests, answers and time-outs): every
  peer of the table is filed under its own address, with a connection of its own whose reader runs and
  which this side has not closed, and no activity in the future; after a heartbeat none is silent for more
  than eleven seconds; a channel of the table of pending requests belongs to a request that waits or that
  was answered, never to one that timed out; every waiting request has its own channel, an answer in it
  carries its key, and no step replaces that answer.
\<close>

theorem network_invariant:
  assumes "net_reach ip port peers w"
  shows "(\<forall>a p. map_of (nt_peers (nw_net w)) a = Some p \<longrightarrow>
        pr_Address p = a \<and> (a, pr_Conn p) \<in> set (nw_readers w) \<and> \<not> nt_closed (nw_net w) (pr_Conn p)
        \<and> pr_LastActive p \<le> nt_now (nw_net w))
    \<and> conns_distinct (nt_peers (nw_net w))
    \<and> (\<forall>it a p. map_of (nt_peers (nw_net w)) a = Some p \<longrightarrow> 11 < nt_now (nw_net w) - pr_LastActive p \<longrightarrow>
        map_of (nt_peers (heartbeatChecker it (nw_net w))) a = None)
    \<and> (\<forall>k c. map_of (nt_responseChannels (nw_net w)) k = Some c \<longrightarrow>
        (k, c) \<in> set (nw_waiting w) \<or> c \<in> set (nw_answered w))
    \<and> distinct (map snd (nw_waiting w))
    \<and> (\<forall>k c m. (k, c) \<in> set (nw_waiting w) \<longrightarrow> nt_buffers (nw_net w) c = Some m \<longrightarrow>
        req_key m = k \<and> (\<forall>w'. net_step w w' \<longrightarrow> (k, c) \<in> set (nw_waiting w') \<longrightarrow> nt_buffers (nw_net w') c = Some m))"
proof -
  have inv: "net_inv w" by (rule net_reach_inv[OF assms])
  then have i: "peers_ok (nw_conns w) (nw_readers w) (nw_net w)" "requests_ok (nw_waiting w) (nw_answered w) (nw_net w)"
    by (simp_all add: net_inv_def)
  note p = peers_okD[OF i(1)] and r = requests_okD[OF i(2)] and d = peers_conns_distinct[OF i(1)]
  show ?thesis
    by (intro conjI allI impI d)
      (use p(5) r(1) r(4) r(6) silent_peer_gone[OF d] answer_kept[OF _ inv] in blast)+
qed

text \<open>A known peer is dialled, asked for a key and answers.\<close>

definition one_peer :: "string \<Rightarrow> network" where
  "one_peer a =
     \<lparr>nw_net = connectToPeer a (Some 0) (startNetworkManager ''me'' 1), nw_dialling = [], nw_conns = 1,
      nw_readers = [(a, 0)], nw_waiting = [], nw_answered = [], nw_stuck = False\<rparr>"

lemma one_peer_reach: "net_reach ''me'' 1 [a] (one_peer a)"
  using net_reach.step[OF net_reach.start net_step.dialled, of "''me''" 1 "[a]" a]
  by (simp add: start_network_def one_peer_def)

lemma network_invariant_witness:
  "\<exists>w m. net_reach ''me'' 1 [''b''] w \<and> nw_waiting w = [(''me_read'', 0)] \<and> nt_buffers (nw_net w) 0 = Some m
    \<and> nm_Content m = [7] \<and> (\<forall>w'. net_step w w' \<longrightarrow> (''me_read'', 0) \<in> set (nw_waiting w') \<longrightarrow> nt_buffers (nw_net w') 0 = Some m)"
proof -
  let ?r = "read_request demo_env ''t'' ''k''"
  let ?a = "?r\<lparr>nm_Content := [7], nm_Finished := True\<rparr>"
  let ?w = "one_peer ''b''"
  have rq: "nm_Task ?r = ''read''" "nm_ReqSendBy ?r = ''me''" by (simp_all add: read_request_def demo_env_def)
  have net: "nt_peers (nw_net ?w) = [(''b'', \<lparr>pr_Conn = 0, pr_Address = ''b'', pr_LastActive = 0\<rparr>)]"
    "nt_ServerIP (nw_net ?w) = ''me''" "nt_buffers (nw_net ?w) x = None" "nt_next (nw_net ?w) = 0" for x
    by (simp_all add: one_peer_def connectToPeer_def add_peer_def startNetworkManager_def)
  obtain st r where s: "sendTaskReq_start (\<lambda>xs. xs) ?r (nw_net ?w) = (st, r)" by fastforce
  have k: "req_key (?r\<lparr>nm_ReqSendBy := ''me''\<rparr>) = ''me_read''" "req_key ?a = ''me_read''" using rq by (simp_all add: req_key_def)
  have f: "r = Waits ''me_read'' 0" "map_of (nt_responseChannels st) ''me_read'' = Some 0" "nt_buffers st 0 = None"
    "nt_peers st = [(''b'', \<lparr>pr_Conn = 0, pr_Address = ''b'', pr_LastActive = 0\<rparr>)]"
    using start_spec[OF _ _ s] net k by (simp_all add: update_conv')
  let ?v = "?w\<lparr>nw_net := st, nw_waiting := [(''me_read'', 0)]\<rparr>"
  have 1: "net_reach ''me'' 1 [''b''] ?v"
    using net_reach.step[OF one_peer_reach net_step.request[OF _ s]] f(1) by (simp add: one_peer_def)
  obtain st' where m: "listen_message demo_env ''b'' 0 (WMsg ?a) st fresh_kv = (fresh_kv, Continues st')"
      "nt_buffers st' 0 = Some ?a"
    using f(2-4) k(2) by (simp add: listen_message_def handleResponse_def)
  have "(''b'', 0) \<in> set (nw_readers ?v)" "\<not> nw_stuck ?v" by (simp_all add: one_peer_def)
  from net_reach.step[OF 1 net_step.message[OF this(2,1)]] m(1)
  have 2: "net_reach ''me'' 1 [''b''] (?v\<lparr>nw_net := st'\<rparr>)" by fastforce
  show ?thesis
    using network_invariant[OF 2] m(2) 2 by (intro exI[of _ "?v\<lparr>nw_net := st'\<rparr>"] exI[of _ ?a]) simp
qed

text \<open>While the mutex is kept nothing that needs it happens.\<close>

lemma stuck_forever:
  assumes "net_steps w v" "nw_stuck w"
  shows "nw_stuck v \<and> nt_peers (nw_net v) = nt_peers (nw_net w) \<and> nw_readers v = nw_readers w
    \<and> nt_responseChannels (nw_net v) = nt_responseChannels (nw_net w)
    \<and> (\<forall>c. nt_buffers (nw_net w) c = None \<longrightarrow> nt_buffers (nw_net v) c = None)
    \<and> (\<forall>k c. (k, c) \<in> set (nw_waiting w) \<longrightarrow> nt_buffers (nw_net w) c = None \<longrightarrow> (k, c) \<in> set (nw_waiting v))"
  using assms
proof (induction rule: net_steps.induct)
  case (more v v')
  note i = more.IH[OF more.prems]
  from more.hyps(2) i show ?case
  proof (induction rule: net_step.induct)
    case (received k c u st m)
    then have "nt_buffers (nw_net u) c = Some m" by (simp add: sendTaskReq_receive_def)
    then have "(l, x) \<noteq> (k, c)" if "nt_buffers (nw_net w) x = None" for l x using received(3) that by auto
    then show ?case using received by (auto simp: sendTaskReq_receive_def in_set_remove1)
  qed (auto simp: connectToPeer_def greet_peer_def nm_write_def sendTaskReq_blocked_def)
qed simp

text \<open>
  C36: A peer that was silent for more than eleven seconds is removed by the heartbeat while its reader still
  runs; when that reader then has a message of the peer (one it had already read, or one that came over),
  it fails with the mutex of the manager held and waits for that same mutex for ever. The process does not
  end, but from then on, whatever happens, the table of peers and of pending requests never changes again,
  no answer is delivered, the requests that wait without one wait for ever, their time-out included, and
  so does every new request as long as a peer is left in the table.
\<close>

theorem removed_peer_message_blocks:
  assumes "net_reach ip port peers w" "\<not> nw_stuck w" "(a, c) \<in> set (nw_readers w)"
    and "map_of (nt_peers (nw_net w)) a = Some p" "11 < nt_now (nw_net w) - pr_LastActive p"
  shows "\<exists>w1 w2. net_step w w1 \<and> w1 = w\<lparr>nw_net := heartbeatChecker it (nw_net w)\<rparr>
    \<and> (\<forall>env m s. listen_message env a c m (nw_net w1) s = (s, Stuck))
    \<and> net_step w1 w2 \<and> w2 = w1\<lparr>nw_stuck := True\<rparr>
    \<and> (\<forall>v. net_steps w2 v \<longrightarrow> nw_stuck v \<and> nt_peers (nw_net v) = nt_peers (nw_net w2)
        \<and> nt_responseChannels (nw_net v) = nt_responseChannels (nw_net w2)
        \<and> (\<forall>k c. (k, c) \<in> set (nw_waiting w) \<longrightarrow> nt_buffers (nw_net w2) c = None \<longrightarrow>
             (k, c) \<in> set (nw_waiting v) \<and> snd (sendTaskReq_receive c (nw_net v)) = None)
        \<and> (nt_peers (nw_net w2) \<noteq> [] \<longrightarrow> snd (sendTaskReq_blocked (nw_net v)) = None))"
proof -
  let ?w1 = "w\<lparr>nw_net := heartbeatChecker it (nw_net w)\<rparr>" let ?w2 = "?w1\<lparr>nw_stuck := True\<rparr>"
  have "conns_distinct (nt_peers (nw_net w))"
    using net_reach_inv[OF assms(1)] peers_conns_distinct by (auto simp: net_inv_def)
  from silent_peer_gone[OF this assms(4,5)] have "map_of (nt_peers (heartbeatChecker it (nw_net w))) a = None" .
  then have m: "listen_message env a c m (nw_net ?w1) s = (s, Stuck)" for env m s by (simp add: listen_message_def)
  have s2: "net_step ?w1 ?w2" using net_step.message_sticks[of ?w1 a c, OF _ _ m] assms(2,3) by simp
  have r: "snd (sendTaskReq_receive c (nw_net v)) = None" if "nt_buffers (nw_net v) c = None" for c v
    using that by (simp add: sendTaskReq_receive_def)
  have q: "snd (sendTaskReq_blocked st) = None" if "nt_peers st \<noteq> []" for st
    using that by (simp add: sendTaskReq_blocked_def)
  have f: "nw_stuck v \<and> nt_peers (nw_net v) = nt_peers (nw_net ?w2)
        \<and> nt_responseChannels (nw_net v) = nt_responseChannels (nw_net ?w2)
        \<and> (\<forall>k c. (k, c) \<in> set (nw_waiting w) \<longrightarrow> nt_buffers (nw_net ?w2) c = None \<longrightarrow>
             (k, c) \<in> set (nw_waiting v) \<and> snd (sendTaskReq_receive c (nw_net v)) = None)
        \<and> (nt_peers (nw_net ?w2) \<noteq> [] \<longrightarrow> snd (sendTaskReq_blocked (nw_net v)) = None)" if "net_steps ?w2 v" for v
    using stuck_forever[OF that] r[of v] q[of "nw_net v"] by simp
  show ?thesis
    by (rule exI[of _ ?w1], rule exI[of _ ?w2]) (use net_step.heartbeat[OF assms(2), of it] m s2 f in blast)
qed

lemma removed_peer_message_blocks_witness:
  "\<exists>w2. net_reach ''me'' 1 [''b''] w2 \<and> nw_stuck w2 \<and> (\<forall>v. net_steps w2 v \<longrightarrow> nw_stuck v)"
proof -
  let ?w = "(one_peer ''b'')\<lparr>nw_net := (nw_net (one_peer ''b''))\<lparr>nt_now := 12\<rparr>\<rparr>"
  have t: "nt_now (nw_net (one_peer ''b'')) = 0" by (simp add: one_peer_def connectToPeer_def add_peer_def startNetworkManager_def)
  have r: "net_reach ''me'' 1 [''b''] ?w"
    using net_reach.step[OF one_peer_reach[of "''b''"] net_step.time[of _ 12]] t by simp
  have h: "\<not> nw_stuck ?w" "(''b'', 0) \<in> set (nw_readers ?w)" "11 < nt_now (nw_net ?w) - pr_LastActive
        \<lparr>pr_Conn = 0, pr_Address = ''b'', pr_LastActive = 0\<rparr>"
      "map_of (nt_peers (nw_net ?w)) ''b'' = Some \<lparr>pr_Conn = 0, pr_Address = ''b'', pr_LastActive = 0\<rparr>"
    by (simp_all add: one_peer_def connectToPeer_def add_peer_def startNetworkManager_def)
  from removed_peer_message_blocks[OF r h(1,2,4,3), of "\<lambda>xs. xs"] show ?thesis
    using net_reach.step[OF net_reach.step[OF r]] net_steps.here by blast
qed

text \<open>
  A known peer that is named twice is dialled twice, and the second connection takes the first one's entry.
  When the first connection ends its reader removes the entry of the second one, which still works: the
  next message of the peer blocks the manager.
\<close>

lemma duplicate_peer_blocks:
  "\<exists>w. net_reach ip port (a # a # peers) w \<and> (a, 1) \<in> set (nw_readers w) \<and> \<not> nt_broken (nw_net w) 1
    \<and> (\<forall>env m s. listen_message env a 1 m (nw_net w) s = (s, Stuck))"
proof -
  let ?w2 = "\<lparr>nw_net = connectToPeer a (Some 1) (connectToPeer a (Some 0) (startNetworkManager ip port)),
      nw_dialling = peers, nw_conns = 2, nw_readers = [(a, 1), (a, 0)], nw_waiting = [], nw_answered = [], nw_stuck = False\<rparr>"
  note s1 = net_reach.step[OF net_reach.start net_step.dialled, of ip port "a # a # peers" a]
  have 2: "net_reach ip port (a # a # peers) ?w2"
    using net_reach.step[OF s1 net_step.dialled[of _ a]] by (simp add: start_network_def numeral_2_eq_2)
  let ?w = "?w2\<lparr>nw_net := listen_end a 0 (nw_net ?w2), nw_readers := remove1 (a, 0) (nw_readers ?w2)\<rparr>"
  have "net_reach ip port (a # a # peers) ?w" by (rule net_reach.step[OF 2 net_step.ended]) simp_all
  moreover have "map_of (nt_peers (nw_net ?w)) a = None" by (simp add: listen_end_def nm_close_def delete_conv')
  then have "\<forall>env m s. listen_message env a 1 m (nw_net ?w) s = (s, Stuck)" by (simp add: listen_message_def)
  moreover have "(a, 1) \<in> set (nw_readers ?w)" "\<not> nt_broken (nw_net ?w) 1"
    by (simp_all add: listen_end_def nm_close_def connectToPeer_def add_peer_def startNetworkManager_def)
  ultimately show ?thesis by blast
qed

end
