(* ===== verification/Spec2Isabelle.thy ===== *)
theory Spec2Isabelle
  imports Public_Api Store_Life Kv_Counters Lib_Client Debug_Stats Inc_Keyed Pointer_Manager Wal_Sync Startup
begin

text \<open>
  TsunamiDB: a key-value store with incremental tables, kept in plain files, served to a library, over
  HTTP and to peers, with change notifications over websockets. The development models the Go code under
  \<open>src\<close>, all paths below being relative to it, as functions on explicit states and, where goroutines
  interleave, as step relations.

  \<^bold>\<open>The parts and how they interact.\<close> A value is framed by the codec, written by the worker of its table's
  file at a range the free list gives or at the end of the file, and bound to its key in the table's index,
  which logs the operation. Reading goes the other way; freeing removes the key and gives the range back.
  Rows of incremental tables are records of a fixed size in a file of their own, with an index of entry
  keys. Saves and frees are announced to the subscription server. A read that finds nothing asks the peers.

  \<^bold>\<open>Theories.\<close> In the order of their imports:

  \<^item> \<open>Tsu_Prelude\<close>: hint collections, machine integers, files as byte lists, Go maps as association lists
    with an iteration order that is an argument (\<open>go_range\<close>; any order that is not a permutation counts as
    the identity). \<open>Go_Strings\<close>: the parts of \<open>strings\<close>, \<open>strconv\<close> and \<open>bufio\<close> that are used, and the two
    table-name sanitizers.
  \<^item> \<open>Codec\<close> (\<open>encoding/v1\<close>, parts of \<open>routes/inc_save.go\<close>): frames, incremental records, table metadata and the
    password envelope, with their round trips through the locales \<open>codec\<close> and \<open>record_codec\<close>.
  \<^item> \<open>Free_List\<close> (\<open>data/defragmentationManager\<close>): the free blocks of a table. The locale \<open>span_pool\<close> states what
    a pool of free ranges promises (allocation, release, claiming) and derives that live ranges stay
    apart; \<open>defrag_pool\<close> interprets it on the code's operations.
  \<^item> \<open>File_Worker\<close> (\<open>data/dataManager\<close>): batches, the worker loop, its clients and the synchronous manager,
    over files with a plan of failing operations. Batches on table files refine lists of records.
  \<^item> \<open>Map_Manager\<close> (\<open>data/fileSystem/v1/mapManager.go\<close>): the sharded key index, its log, queue, writer and
    snapshots. The locale \<open>key_index\<close> is the contract of an index; its replay lemmas give recovery.
    \<open>Wal_Sync\<close>: the goroutines that sync the log, with the mutex and the condition variable.
  \<^item> \<open>Kv_Store\<close> (\<open>lib/export\<close>, \<open>routes\<close>, \<open>network-manager/tasks\<close>): save, read, free and the encrypted calls of the
    three fronts on one state, and the invariant \<open>kv_inv\<close> of a table: its keys' ranges lie in the file, apart
    from each other and from the free blocks, and hold frames. \<open>Kv_Fronts\<close>: the contract \<open>table_front\<close>, kept by
    library, HTTP and peers, hence by any interleaving of their commands.
  \<^item> \<open>Kv_Durability\<close>: the contract \<open>durable_front\<close>, which adds that commands keep the files in step with the
    memory. \<open>Kv_Life\<close>: restarts of the process, the log writer and snapshots among the commands.
    \<open>Kv_Tables\<close>: several tables in one store, and what happens when two names are made safe to one.
    \<open>Store_Life\<close>: the life of a store of several tables, restarts included. \<open>Kv_Counters\<close>: what the
    defragmentation counters say of a run, and two saves of one key in one batch. \<open>Lib_Client\<close> (\<open>lib/dbclient\<close>): the linked client as a front, and its
    search of keys.
  \<^item> \<open>Inc_Index\<close> (\<open>data/incIndex\<close>), \<open>Inc_Tables\<close> (the \<open>inc\<close> routes), \<open>Inc_Refine\<close> and \<open>Inc_Keyed\<close>: incremental tables
    refine rows with an index of positions; the locale \<open>budgeted\<close> bounds the tables of a run by its commands.
  \<^item> \<open>Subscriptions\<close> (\<open>servers/subscriptions\<close>): handlers, readers of connections and notifications, with the
    reachable states of any interleaving.
  \<^item> \<open>Network_Manager\<close> (\<open>servers/network-manager\<close>): peers, heartbeat, requests to peers and the dispatcher.
    \<open>Startup\<close> (\<open>servers/core\<close>): the command line, and the network's life from the start on, including what
    can still happen when a goroutine keeps the manager's mutex for ever.
  \<^item> \<open>Pointer_Manager\<close> (\<open>data/fileSystem/v1/pointerManager.go\<close>): resolving pointers between JSON values.
  \<^item> \<open>Debug_Stats\<close> (\<open>servers/debug\<close>): the timings of debug builds.
  \<^item> \<open>Metrics\<close>, \<open>Sql_Api\<close> and \<open>Public_Api\<close> (\<open>servers/public-api/v1\<close>, \<open>data/sql\<close>): the request counters, the SQL
    endpoint, and the HTTP server with its table of routes over one state of all components, where the
    goroutines that announce changes run in any order.

  \<^bold>\<open>What the lemmas show.\<close> Refinements: the fronts, the server and the life of a store
  refine a finite map for each of several tables kept apart;
  table files refine lists of records, incremental routes refine rows. Invariants: separation of ranges,
  agreement of index and log, of the index of entry keys with its file, of the subscription maps, of the
  peer tables. Round trips of every codec, recovery from the log, termination of the pointer resolver,
  progress of the log and of its sync. Theorems with a defect in their text state what the code does where
  it is not what it should: they are concrete behaviours, not assumptions.

  \<^bold>\<open>Bounds and fuel.\<close> Integers are words or are bounded where the code converts them; \<open>max_alloc\<close> (\<open>2^48\<close>)
  is the size above which \<open>make\<close> panics, and values are at most that (\<open>kv_fits\<close>). The pointer resolver and
  the trimming of strings recurse on fuel: the number of entries of the database, respectively the length
  of the string, which are proved to be enough. Log lines are limited by the scanner's 64 KiB buffer
  (\<open>loggable\<close>).

  \<^bold>\<open>Abstractions.\<close> JSON texts are the values they decode to. A string that goes through a JSON text and comes
  back has its bytes that are not UTF-8 replaced (\<open>json_string\<close> in \<open>Go_Strings\<close>): this is modelled for the entry
  keys in the index file and for the messages between peers, whose theorems ask for names in valid UTF-8 where it
  matters; the keys in the files of the free lists are taken as they are, which differs for the free
  blocks of such keys after a restart. The buffer of the log has no bound, where the code's writes itself
  out when 4 MiB of lines have come together between two flushes. The network, AES-GCM, random bytes, regular
  expressions, clocks and sorting are arguments, the orders of maps too. A handler, a batch and a
  notification are one step each, except where a property is about their interleaving: \<open>Kv_Counters\<close> binds the
  keys of two saves after the batch that wrote both. Every path of the worker's code for a request sends
  one response, an error path sends the error and goes on to the next request; so a request's code is a
  function with a response as its value, which the loop over the requests sends. A process that
  ends keeps every byte it wrote: the cache of the operating system is not modelled, so only \<open>Wal_Sync\<close> says
  something about power failures. Request paths are matched after percent-decoding.

  \<^bold>\<open>Not modelled.\<close> The text of the debug builds' logs; \<open>servers/config\<close>, \<open>routes/script.go\<close>,
  \<open>core/scripts\<close>, \<open>data/sql/tablesManager\<close> and \<open>async_block_manager.go\<close>, whose functions are empty, only log, or fill
  a variable nothing reads;
  the listeners and the websocket upgrade; time-outs of
  the HTTP server; the benchmark \<open>tests/test1.go\<close>; helpers that only reset state for tests.
\<close>

end
